(* ===== verification/Prelude.thy ===== *)
theory Prelude
  imports Main "HOL-Library.Word" "HOL-Library.Multiset"
begin

text \<open>
  Shared vocabulary of the development: C arrays as lists with the block moves of
  \<^verbatim>\<open>string.h\<close>, C strings as NUL-free character lists, the complement trick of the search
  routines, and the lemma collections the component theories add to.
\<close>

section \<open>Collections and type names\<close>

named_theorems mem_simps \<open>lengths and elements of arrays after a block move\<close>
named_theorems inv_intros \<open>preservation of the component invariants\<close>

type_synonym u8 = "8 word"
type_synonym u32 = "32 word"
type_synonym u64 = "64 word"

text \<open>
  A C string is the list of its bytes before the terminating NUL.
\<close>

abbreviation NUL :: char where
  "NUL \<equiv> CHR 0x00"

definition cstring :: "string \<Rightarrow> bool" where
  "cstring s \<longleftrightarrow> NUL \<notin> set s"

section \<open>Arrays\<close>

text \<open>
  \<open>memmove xs dst src n\<close> is the array \<open>xs\<close> after
  \<^verbatim>\<open>memmove(&xs[dst], &xs[src], n)\<close> with \<open>n\<close> counted in elements, for
  \<open>dst + n\<close> and \<open>src + n\<close> within the array. \<open>memset xs k v n\<close> is
  \<^verbatim>\<open>memset(&xs[k], v, n)\<close> on one-byte elements.
\<close>

definition memmove :: "'a list \<Rightarrow> nat \<Rightarrow> nat \<Rightarrow> nat \<Rightarrow> 'a list" where
  "memmove xs dst src n = take dst xs @ take n (drop src xs) @ drop (dst + n) xs"

definition memset :: "'a list \<Rightarrow> nat \<Rightarrow> 'a \<Rightarrow> nat \<Rightarrow> 'a list" where
  "memset xs k v n = take k xs @ replicate n v @ drop (k + n) xs"

lemma length_memmove [simp, mem_simps]:
  "dst + n \<le> length xs \<Longrightarrow> src + n \<le> length xs \<Longrightarrow> length (memmove xs dst src n) = length xs"
  by (auto simp: memmove_def)

lemma length_memset [simp, mem_simps]:
  "k + n \<le> length xs \<Longrightarrow> length (memset xs k v n) = length xs"
  by (auto simp: memset_def)

lemma nth_memset [mem_simps]:
  assumes "k + n \<le> length xs" "i < length xs"
  shows "memset xs k v n ! i = (if k \<le> i \<and> i < k + n then v else xs ! i)"
  using assms by (auto simp: memset_def nth_append min_def)

lemma nth_memmove [mem_simps]:
  assumes "dst + n \<le> length xs" "src + n \<le> length xs" "i < length xs"
  shows "memmove xs dst src n ! i = (if dst \<le> i \<and> i < dst + n then xs ! (src + (i - dst)) else xs ! i)"
proof -
  have m: "min n (length xs - src) = n" using assms by simp
  consider "i < dst" | "dst \<le> i" "i < dst + n" | "dst + n \<le> i" by linarith
  then show ?thesis
    using assms m by cases (auto simp: memmove_def nth_append)
qed

text \<open>
  Opening a gap in the used part of an array: the sequence "move the tail up by one, store
  the new element" inserts it into the used part.
\<close>

definition insert_at :: "nat \<Rightarrow> 'a \<Rightarrow> 'a list \<Rightarrow> 'a list" where
  "insert_at k x xs = take k xs @ x # drop k xs"

lemma length_insert_at [simp]: "length (insert_at k x xs) = Suc (length xs)"
  by (simp add: insert_at_def)

lemma set_insert_at [simp]: "set (insert_at k x xs) = insert x (set xs)"
  by (simp add: insert_at_def) (metis append_take_drop_id set_append)

lemma memmove_gap:
  assumes "k \<le> n" "n < length xs"
  shows "take (Suc n) ((memmove xs (Suc k) k (n - k))[k := x]) = insert_at k x (take n xs)"
proof (rule nth_equalityI)
  show "length (take (Suc n) ((memmove xs (Suc k) k (n - k))[k := x])) = length (insert_at k x (take n xs))"
    using assms by simp
next
  fix i assume "i < length (take (Suc n) ((memmove xs (Suc k) k (n - k))[k := x]))"
  then have i: "i \<le> n" using assms by simp
  show "take (Suc n) ((memmove xs (Suc k) k (n - k))[k := x]) ! i = insert_at k x (take n xs) ! i"
  proof (cases "i < k")
    case True
    then show ?thesis
      using assms i by (simp add: insert_at_def nth_append nth_memmove nth_list_update)
  next
    case False
    show ?thesis
    proof (cases "i = k")
      case True
      then show ?thesis using assms i by (simp add: insert_at_def nth_append)
    next
      case neq: False
      with False have gt: "k < i" by simp
      then have "i - k = Suc (i - Suc k)" by simp
      then show ?thesis
        using assms i gt by (simp add: insert_at_def nth_append nth_memmove nth_list_update)
    qed
  qed
qed

lemma sorted_insert_at:
  assumes "sorted_wrt (<) (xs :: 'a :: linorder list)" "k \<le> length xs"
    and "\<forall>i<k. xs ! i < x" "\<forall>i<length xs. k \<le> i \<longrightarrow> x < xs ! i"
  shows "sorted_wrt (<) (insert_at k x xs)"
proof -
  have "\<forall>y\<in>set (take k xs). y < x"
    using assms(2,3) by (auto simp: in_set_conv_nth)
  moreover have "\<forall>y\<in>set (drop k xs). x < y"
    using assms(4) by (auto simp: in_set_conv_nth)
  ultimately show ?thesis
    using assms(1) by (fastforce simp: insert_at_def sorted_wrt_append sorted_wrt_take sorted_wrt_drop)
qed

lemma map_of_zip_nth:
  assumes "distinct xs" "length xs = length ys"
  shows "map_of (zip xs ys) k = Some v \<longleftrightarrow> (\<exists>i<length xs. xs ! i = k \<and> ys ! i = v)"
  using assms by (subst map_of_eq_Some_iff) (auto simp: set_zip)

lemma zip_insert_at:
  "length xs = length ys \<Longrightarrow> zip (insert_at k x xs) (insert_at k y ys) = insert_at k (x, y) (zip xs ys)"
  by (simp add: insert_at_def take_zip drop_zip)

lemma map_of_insert_at:
  assumes "x \<notin> fst ` set kvs"
  shows "map_of (insert_at k (x, y) kvs) = (map_of kvs)(x \<mapsto> y)"
proof -
  have "x \<notin> fst ` set (take k kvs)" using assms by (metis image_mono set_take_subset subsetD)
  then have "map_of (take k kvs @ (x, y) # drop k kvs) = (map_of (take k kvs @ drop k kvs))(x \<mapsto> y)"
    by (simp add: map_add_upd_left dom_map_of_conv_image_fst del: append_take_drop_id)
  then show ?thesis by (simp add: insert_at_def)
qed

lemma map_of_zip_update:
  assumes "distinct xs" "length xs = length ys" "i < length xs"
  shows "map_of (zip xs (ys[i := v])) = (map_of (zip xs ys))(xs ! i \<mapsto> v)"
proof -
  have iff: "map_of (zip xs (ys[i := v])) k = Some w \<longleftrightarrow> ((map_of (zip xs ys))(xs ! i \<mapsto> v)) k = Some w" for k w
    using assms by (auto simp: map_of_zip_nth nth_list_update nth_eq_iff_index_eq simp del: map_of_eq_Some_iff)
  have opt: "(\<And>w. a = Some w \<longleftrightarrow> b = Some w) \<Longrightarrow> a = b" for a b :: "'b option"
    by (cases a; cases b) auto
  show ?thesis by (rule ext, rule opt, rule iff)
qed

text \<open>A grown array keeps its old elements in front; what follows is unspecified.\<close>

definition grows :: "('a list \<Rightarrow> nat \<Rightarrow> 'a list option) \<Rightarrow> bool" where
  "grows r \<longleftrightarrow> (\<forall>xs n ys. r xs n = Some ys \<longrightarrow> length ys = n \<and> (length xs \<le> n \<longrightarrow> take (length xs) ys = xs))"

lemma growsD:
  assumes "grows r" "r xs n = Some ys" "length xs \<le> n"
  shows "length ys = n" "take (length xs) ys = xs"
  using assms by (auto simp: grows_def)

lemma grows_take:
  assumes "grows r" "r xs n = Some ys" "length xs \<le> n" "k \<le> length xs"
  shows "take k ys = take k xs"
  using growsD [OF assms(1-3)] assms(4) by (metis min.absorb2 take_take min.commute)

text \<open>
  \<^verbatim>\<open>realloc\<close> with a limit on the number of elements, filling new cells with \<open>junk\<close>.
\<close>

definition c_realloc :: "nat \<Rightarrow> 'a \<Rightarrow> 'a list \<Rightarrow> nat \<Rightarrow> 'a list option" where
  "c_realloc lim junk xs n =
     (if n \<le> lim then Some (take n xs @ replicate (n - length xs) junk) else None)"

lemma grows_c_realloc [simp]: "grows (c_realloc lim junk)"
  by (auto simp: grows_def c_realloc_def)

section \<open>Padding\<close>

text \<open>The number of fill bytes that take \<open>n\<close> to the next multiple of \<open>k\<close>.\<close>

definition pad :: "nat \<Rightarrow> nat \<Rightarrow> nat" where
  "pad k n = (k - n mod k) mod k"

lemma pad_Suc: "0 < k \<Longrightarrow> n mod k \<noteq> 0 \<Longrightarrow> pad k n = Suc (pad k (n + 1))"
proof -
  assume k: "0 < k" and n: "n mod k \<noteq> 0"
  have lt: "n mod k < k" using k by simp
  show ?thesis
  proof (cases "Suc (n mod k) = k")
    case True
    then have "(n + 1) mod k = 0" by (simp add: mod_Suc)
    moreover have "k - n mod k = 1" using True by linarith
    moreover have "1 < k" using n True by (metis One_nat_def Suc_lessI gr0I k mod_less_divisor mod_by_Suc_0)
    ultimately show ?thesis by (simp add: pad_def)
  next
    case False
    then have m: "Suc n mod k = Suc (n mod k)" by (simp add: mod_Suc)
    have "k - n mod k < k" using n k by simp
    moreover have "Suc (k - Suc (n mod k)) = k - n mod k" using lt False by linarith
    ultimately show ?thesis by (simp add: pad_def m)
  qed
qed

lemma pad_0: "n mod k = 0 \<Longrightarrow> pad k n = 0"
  by (simp add: pad_def)

lemma pad_mod: "n mod k = m mod k \<Longrightarrow> pad k n = pad k m"
  by (simp add: pad_def)

lemma pad_aligns [simp]: "0 < k \<Longrightarrow> (n + pad k n) mod k = 0"
proof (cases "n mod k = 0")
  case False
  assume k: "0 < k"
  have "n + (k - n mod k) = k * Suc (n div k)"
    using mult_div_mod_eq [of k n] mod_less_divisor [OF k, of n] unfolding mult_Suc_right by linarith
  moreover have "pad k n = k - n mod k" using False k by (simp add: pad_def)
  ultimately show ?thesis by simp
qed (simp add: pad_def)

lemma pad_less: "0 < k \<Longrightarrow> pad k n < k"
  by (simp add: pad_def)

lemma unat_add1_mod: "k dvd 2 ^ 32 \<Longrightarrow> unat (x + 1 :: u32) mod k = (unat x + 1) mod k"
  by (simp add: unat_word_ariths mod_mod_cancel)

lemma unat_of_nat_mod: "k dvd 2 ^ 32 \<Longrightarrow> unat (word_of_nat n :: u32) mod k = n mod k"
  by (simp add: unat_of_nat mod_mod_cancel)

section \<open>Complement\<close>

text \<open>\<^verbatim>\<open>~x\<close> on a C \<^verbatim>\<open>int\<close> is \<open>- x - 1\<close>.\<close>

definition bnot :: "int \<Rightarrow> int" where
  "bnot x = - x - 1"

lemma bnot_bnot [simp]: "bnot (bnot x) = x"
  by (simp add: bnot_def)

lemma bnot_neg [simp]: "bnot (int n) < 0"
  by (simp add: bnot_def)

section \<open>Finite stores\<close>

text \<open>
  What a keyed container with a fallible insertion promises: a successful \<open>put\<close> updates the
  lookup function at one key, a failed one leaves it alone, and both keep the invariant.
\<close>

locale store =
  fixes inv :: "'s \<Rightarrow> bool"
    and get :: "'s \<Rightarrow> 'k \<Rightarrow> 'v option"
    and put :: "'s \<Rightarrow> 'k \<Rightarrow> 'v \<Rightarrow> bool \<times> 's"
  assumes put_inv: "inv s \<Longrightarrow> inv (snd (put s k v))"
    and put_ok: "inv s \<Longrightarrow> fst (put s k v) \<Longrightarrow> get (snd (put s k v)) = (get s)(k \<mapsto> v)"
    and put_fail: "inv s \<Longrightarrow> \<not> fst (put s k v) \<Longrightarrow> get (snd (put s k v)) = get s"
begin

primrec put_all :: "'s \<Rightarrow> ('k \<times> 'v) list \<Rightarrow> bool \<times> 's" where
  "put_all s [] = (True, s)"
| "put_all s (kv # kvs) =
     (let (ok, s1) = put s (fst kv) (snd kv); (oks, s2) = put_all s1 kvs in (ok \<and> oks, s2))"

lemma put_all_inv: "inv s \<Longrightarrow> inv (snd (put_all s kvs))"
  by (induction kvs arbitrary: s) (auto simp: Let_def split: prod.splits dest: put_inv, metis put_inv snd_conv)

lemma put_all_get:
  "inv s \<Longrightarrow> fst (put_all s kvs) \<Longrightarrow> get (snd (put_all s kvs)) = get s ++ map_of (rev kvs)"
proof (induction kvs arbitrary: s)
  case Nil
  then show ?case by simp
next
  case (Cons kv kvs)
  obtain ok s1 where p: "put s (fst kv) (snd kv) = (ok, s1)" by (cases "put s (fst kv) (snd kv)")
  with Cons.prems have ok: ok "fst (put_all s1 kvs)" by (auto simp: Let_def split: prod.splits)
  have "inv s1" using put_inv [OF Cons.prems(1)] p by (metis snd_conv)
  moreover have "get s1 = (get s)(fst kv \<mapsto> snd kv)"
    using put_ok [OF Cons.prems(1), of "fst kv" "snd kv"] p ok by simp
  ultimately have "get (snd (put_all s1 kvs)) = (get s)(fst kv \<mapsto> snd kv) ++ map_of (rev kvs)"
    using Cons.IH [OF _ ok(2)] by metis
  moreover have "snd (put_all s (kv # kvs)) = snd (put_all s1 kvs)"
    using p by (simp add: Let_def split: prod.splits)
  moreover have "get s ++ map_of (rev (kv # kvs)) = (get s)(fst kv \<mapsto> snd kv) ++ map_of (rev kvs)"
    by (cases kv) (simp add: map_of_append map_add_upd)
  ultimately show ?case by metis
qed

end

end
