(* ===== verification/Sparse_Array.thy ===== *)
theory Sparse_Array
  imports Prelude
begin

text \<open>
  The sparse array of \<^verbatim>\<open>src/test_sparse_array.c\<close>: two parallel arrays, the indices in
  ascending order and the objects, searched by bisection and grown by doubling. The model
  keeps both arrays at their allocated length, so cells behind \<open>nr_objs\<close> hold whatever the
  allocator left there. An allocator is a parameter: \<^verbatim>\<open>realloc\<close> either fails or returns a
  longer array with the old contents in front.
\<close>

section \<open>Bisection\<close>

text \<open>
  The loop of \<^verbatim>\<open>binary_search\<close>, lines 30 to 41, from \<open>low\<close>, \<open>high\<close> and the last
  \<open>mid\<close>; it returns the \<open>mid\<close> it stops with.
\<close>

function bs_loop :: "int list \<Rightarrow> int \<Rightarrow> nat \<Rightarrow> nat \<Rightarrow> nat \<Rightarrow> nat" where
  "bs_loop a x low high mid =
     (if low < high then
        let m = low + (high - low) div 2 in
        if x = a ! m then m
        else if x < a ! m then bs_loop a x low m m
        else bs_loop a x (m + 1) high m
      else mid)"
  by pat_completeness auto
termination
  by (relation "measure (\<lambda>(a, x, low, high, mid). high - low)") auto

declare bs_loop.simps [simp del]

definition binary_search :: "int list \<Rightarrow> int \<Rightarrow> nat \<Rightarrow> int" where
  "binary_search a x len =
     (if len = 0 then bnot 0
      else let mid = bs_loop a x 0 len 0 in
        if a ! mid = x then int mid
        else if x > a ! mid then bnot (int (mid + 1))
        else bnot (int mid))"

section \<open>The array and its operations\<close>

record 'v sparse_array =
  sa_objs :: "'v list"
  sa_size :: nat
  sa_indices :: "int list"
  sa_nr_objs :: nat

definition SPARSE_ARRAY_INIT_LEN :: nat where
  "SPARSE_ARRAY_INIT_LEN = 64"

text \<open>
  \<^verbatim>\<open>sparse_array_create\<close>: the handle's \<^verbatim>\<open>malloc\<close> is checked (\<open>ok\<close>); the two arrays, whose
  \<^verbatim>\<open>malloc\<close> is not checked, are taken to be there and come with unspecified contents.
\<close>

definition sparse_array_create :: "bool \<Rightarrow> 'v list \<Rightarrow> int list \<Rightarrow> 'v sparse_array option" where
  "sparse_array_create ok objs0 indices0 =
     (if \<not> ok then None
      else Some \<lparr>sa_objs = objs0, sa_size = SPARSE_ARRAY_INIT_LEN,
                 sa_indices = indices0, sa_nr_objs = 0\<rparr>)"

text \<open>
  Growing, lines 90 to 105. \<open>Some (False, sa)\<close> is the early \<^verbatim>\<open>return -errno\<close>; the state it leaves keeps
  the part of the work already done. The size is an \<^verbatim>\<open>int\<close>: doubling it past \<^verbatim>\<open>INT_MAX\<close>, with both
  arrays already grown, is an overflow, which is undefined (\<open>None\<close>).
\<close>

type_synonym 'a ralloc = "'a list \<Rightarrow> nat \<Rightarrow> 'a list option"

definition ENOMEM :: int where
  "ENOMEM = 12"

definition INT_MAX :: int where
  "INT_MAX = 2147483647"

definition sa_grow :: "int ralloc \<Rightarrow> 'v ralloc \<Rightarrow> 'v sparse_array \<Rightarrow> (bool \<times> 'v sparse_array) option" where
  "sa_grow ri ro sa =
     (if sa_nr_objs sa = sa_size sa then
        (case ri (sa_indices sa) (sa_size sa * 2) of
           None \<Rightarrow> Some (False, sa)
         | Some ia \<Rightarrow>
             let sa1 = sa\<lparr>sa_indices := ia\<rparr> in
             (case ro (sa_objs sa1) (sa_size sa1 * 2) of
                None \<Rightarrow> Some (False, sa1)
              | Some oa \<Rightarrow>
                  if INT_MAX < int (sa_size sa1 * 2) then None
                  else Some (True, sa1\<lparr>sa_objs := oa, sa_size := sa_size sa1 * 2\<rparr>)))
      else Some (True, sa))"

text \<open>
  \<^verbatim>\<open>sparse_array_set\<close>: the return code and the new state; \<open>None\<close> is undefined. The last branch is
  lines 113 to 117: \<^verbatim>\<open>indices_arr\<close> only has a value when this call has grown the arrays, and it is then
  the array that is already in place.
\<close>

definition sparse_array_set ::
  "int ralloc \<Rightarrow> 'v ralloc \<Rightarrow> 'v sparse_array \<Rightarrow> int \<Rightarrow> 'v \<Rightarrow> (int \<times> 'v sparse_array) option" where
  "sparse_array_set ri ro sa index obj =
     (let ret = binary_search (sa_indices sa) index (sa_nr_objs sa) in
      if ret < 0 then
        let pos = nat (bnot ret); grown = (sa_nr_objs sa = sa_size sa) in
        (case sa_grow ri ro sa of
           None \<Rightarrow> None
         | Some (ok, sa1) \<Rightarrow>
             let n = sa_nr_objs sa1 in
             if \<not> ok then Some (- ENOMEM, sa1)
             else if pos < sa_size sa1 then
               let ia = (memmove (sa_indices sa1) (pos + 1) pos (n - pos))[pos := index];
                   oa = (memmove (sa_objs sa1) (pos + 1) pos (n - pos))[pos := obj]
               in Some (0, sa1\<lparr>sa_indices := ia, sa_objs := oa, sa_nr_objs := n + 1\<rparr>)
             else if grown \<and> pos < length (sa_indices sa1) \<and> pos < length (sa_objs sa1) then
               Some (0, sa1\<lparr>sa_indices := (sa_indices sa1)[pos := index], sa_objs := (sa_objs sa1)[pos := obj],
                 sa_nr_objs := n + 1\<rparr>)
             else None)
      else Some (0, sa\<lparr>sa_objs := (sa_objs sa)[nat ret := obj]\<rparr>))"

text \<open>\<^verbatim>\<open>sparse_array_get\<close>: the object found (return code 0), or \<open>None\<close> (return code -1).\<close>

definition sparse_array_get :: "'v sparse_array \<Rightarrow> int \<Rightarrow> 'v option" where
  "sparse_array_get sa index =
     (let ret = binary_search (sa_indices sa) index (sa_nr_objs sa) in
      if ret \<ge> 0 then Some (sa_objs sa ! nat ret) else None)"

section \<open>Bisection is correct\<close>

definition bs_post :: "int list \<Rightarrow> int \<Rightarrow> nat \<Rightarrow> nat \<Rightarrow> bool" where
  "bs_post a x len m \<longleftrightarrow> m < len \<and>
     (a ! m = x \<or> a ! m < x \<and> (\<forall>i<len. m < i \<longrightarrow> x < a ! i) \<or> x < a ! m \<and> (\<forall>i<m. a ! i < x))"

lemma bs_loop_post:
  assumes "sorted_wrt (<) (take len a)" "len \<le> length a" "high \<le> len" "low \<le> high"
    and "\<forall>i<low. a ! i < x" "\<forall>i<len. high \<le> i \<longrightarrow> x < a ! i"
    and "low = high \<Longrightarrow> mid < len \<and> (x < a ! mid \<and> mid = low \<or> a ! mid < x \<and> mid + 1 = low)"
  shows "bs_post a x len (bs_loop a x low high mid)"
  using assms
proof (induction a x low high mid rule: bs_loop.induct)
  case (1 a x low high mid)
  have mono: "a ! i < a ! j" if "i < j" "j < len" for i j
    using "1.prems"(1,2) that by (auto simp: sorted_wrt_iff_nth_less)
  define m where "m = low + (high - low) div 2"
  show ?case
  proof (cases "low < high")
    case False
    then have eq: "low = high" using "1.prems"(4) by simp
    then have R: "bs_loop a x low high mid = mid" by (simp add: bs_loop.simps)
    from "1.prems"(7) [OF eq] "1.prems"(5,6) eq show ?thesis
      unfolding R bs_post_def by (metis Suc_eq_plus1 Suc_leI)
  next
    case True
    have m: "low \<le> m" "m < high" using True by (auto simp: m_def)
    have mlen: "m < len" using m "1.prems"(3) by simp
    have below: "a ! i < x" if "i < m + 1" "a ! m < x" for i
      using that mono [of i m] mlen by (cases "i = m") auto
    have above: "x < a ! i" if "m \<le> i" "i < len" "x < a ! m" for i
      using that mono [of m i] by (cases "i = m") auto
    consider (eq) "x = a ! m" | (lt) "x < a ! m" | (gt) "a ! m < x" by linarith
    then show ?thesis
    proof cases
      case eq
      then have "bs_loop a x low high mid = m"
        using True by (subst bs_loop.simps) (simp add: m_def Let_def)
      then show ?thesis using eq mlen by (simp add: bs_post_def)
    next
      case lt
      then have R: "bs_loop a x low high mid = bs_loop a x low m m"
        using True by (subst bs_loop.simps) (simp add: m_def Let_def)
      have "bs_post a x len (bs_loop a x low m m)"
        by (rule "1.IH"(1) [OF True m_def less_imp_neq [OF lt] lt]) (use lt m mlen above "1.prems" in auto)
      then show ?thesis by (simp add: R)
    next
      case gt
      then have R: "bs_loop a x low high mid = bs_loop a x (m + 1) high m"
        using True by (subst bs_loop.simps) (simp add: m_def Let_def)
      have ne: "x \<noteq> a ! m" "\<not> x < a ! m" using gt by auto
      have "bs_post a x len (bs_loop a x (m + 1) high m)"
        by (rule "1.IH"(2) [OF True m_def ne]) (use gt m mlen below "1.prems" in auto)
      then show ?thesis by (simp add: R)
    qed
  qed
qed

lemma binary_search_found:
  assumes "sorted_wrt (<) (take len a)" "len \<le> length a" "0 \<le> binary_search a x len"
  shows "nat (binary_search a x len) < len" "a ! nat (binary_search a x len) = x"
proof -
  have len: "len \<noteq> 0"
  proof
    assume "len = 0"
    then show False using assms(3) by (simp add: binary_search_def bnot_def)
  qed
  then have "bs_post a x len (bs_loop a x 0 len 0)"
    using assms by (intro bs_loop_post) auto
  then show "nat (binary_search a x len) < len" "a ! nat (binary_search a x len) = x"
    using assms(3) len by (auto simp: binary_search_def bs_post_def bnot_def Let_def split: if_splits)
qed

lemma binary_search_absent:
  assumes "sorted_wrt (<) (take len a)" "len \<le> length a" "binary_search a x len < 0"
  defines "p \<equiv> nat (bnot (binary_search a x len))"
  shows "p \<le> len" "\<forall>i<p. a ! i < x" "\<forall>i<len. p \<le> i \<longrightarrow> x < a ! i"
proof -
  have "p \<le> len \<and> (\<forall>i<p. a ! i < x) \<and> (\<forall>i<len. p \<le> i \<longrightarrow> x < a ! i)"
  proof (cases "len = 0")
    case True
    then show ?thesis by (simp add: p_def binary_search_def)
  next
    case False
    have mono: "a ! i < a ! j" if "i < j" "j < len" for i j
      using assms(1,2) that by (auto simp: sorted_wrt_iff_nth_less)
    define m where "m = bs_loop a x 0 len 0"
    have post: "bs_post a x len m"
      unfolding m_def using assms(1,2) False by (intro bs_loop_post) auto
    have ne: "a ! m \<noteq> x"
      using assms(3) False by (auto simp: binary_search_def m_def Let_def)
    show ?thesis
    proof (cases "a ! m < x")
      case True
      then have p: "p = m + 1" using ne False by (simp add: p_def binary_search_def m_def [symmetric] Let_def)
      have "a ! i < x" if "i < m + 1" for i
        using that True mono [of i m] post by (cases "i = m") (auto simp: bs_post_def)
      with p post True show ?thesis by (auto simp: bs_post_def)
    next
      case ge: False
      then have p: "p = m" using ne False by (simp add: p_def binary_search_def m_def [symmetric] Let_def)
      have "x < a ! i" if "m \<le> i" "i < len" for i
        using that ge ne mono [of m i] by (cases "i = m") auto
      with p post ge ne show ?thesis by (auto simp: bs_post_def)
    qed
  qed
  then show "p \<le> len" "\<forall>i<p. a ! i < x" "\<forall>i<len. p \<le> i \<longrightarrow> x < a ! i" by auto
qed

text \<open>The search reads only the first \<open>len\<close> cells.\<close>

lemma bs_loop_prefix:
  "take len a = take len b \<Longrightarrow> high \<le> len \<Longrightarrow> bs_loop a x low high mid = bs_loop b x low high mid"
proof (induction a x low high mid rule: bs_loop.induct)
  case (1 a x low high mid)
  have "a ! i = b ! i" if "i < high" for i
    using "1.prems" that by (metis nth_take order_less_le_trans)
  then have m: "a ! (low + (high - low) div 2) = b ! (low + (high - low) div 2)" if "low < high"
    using that by simp
  show ?case
    using 1 m by (subst (1 2) bs_loop.simps) (auto simp: Let_def)
qed

lemma bs_loop_bound: "low < high \<or> mid < len \<Longrightarrow> high \<le> len \<Longrightarrow> bs_loop a x low high mid < len"
proof (induction a x low high mid rule: bs_loop.induct)
  case (1 a x low high mid)
  have "low + (high - low) div 2 < high" if "low < high" using that by simp
  then have m: "low + (high - low) div 2 < len" if "low < high" using that "1.prems"(2) by fastforce
  show ?case
    using "1.prems" "1.IH" m by (subst bs_loop.simps) (auto simp: Let_def less_imp_le)
qed

lemma binary_search_prefix:
  assumes "take len a = take len b"
  shows "binary_search a x len = binary_search b x len"
proof (cases "len = 0")
  case False
  define m where "m = bs_loop a x 0 len 0"
  have "m < len" using False bs_loop_bound [of 0 len 0 len a x] by (simp add: m_def)
  then have "a ! m = b ! m" using assms by (metis nth_take)
  then show ?thesis
    using bs_loop_prefix [OF assms order.refl] by (simp add: binary_search_def m_def Let_def)
qed (simp add: binary_search_def)

section \<open>Invariant and abstraction\<close>

definition sa_inv :: "'v sparse_array \<Rightarrow> bool" where
  "sa_inv sa \<longleftrightarrow> 0 < sa_size sa \<and> int (sa_size sa) \<le> INT_MAX \<and> sa_nr_objs sa \<le> sa_size sa \<and>
     sa_size sa \<le> length (sa_indices sa) \<and> length (sa_indices sa) \<le> sa_size sa * 2 \<and>
     length (sa_objs sa) = sa_size sa \<and>
     sorted_wrt (<) (take (sa_nr_objs sa) (sa_indices sa))"

text \<open>The finite map a sparse array stands for.\<close>

definition sa_map :: "'v sparse_array \<Rightarrow> int \<rightharpoonup> 'v" where
  "sa_map sa = map_of (zip (take (sa_nr_objs sa) (sa_indices sa)) (take (sa_nr_objs sa) (sa_objs sa)))"

lemma sa_map_Some:
  assumes "sa_inv sa"
  shows "sa_map sa k = Some v \<longleftrightarrow> (\<exists>i < sa_nr_objs sa. sa_indices sa ! i = k \<and> sa_objs sa ! i = v)"
proof -
  have "distinct (take (sa_nr_objs sa) (sa_indices sa))"
    using assms by (simp add: sa_inv_def strict_sorted_iff)
  then show ?thesis
    using assms unfolding sa_map_def by (subst map_of_zip_nth) (auto simp: sa_inv_def)
qed

lemma sa_get_map:
  assumes "sa_inv sa"
  shows "sparse_array_get sa k = sa_map sa k"
proof -
  let ?r = "binary_search (sa_indices sa) k (sa_nr_objs sa)"
  have s: "sorted_wrt (<) (take (sa_nr_objs sa) (sa_indices sa))" "sa_nr_objs sa \<le> length (sa_indices sa)"
    using assms by (auto simp: sa_inv_def)
  show ?thesis
  proof (cases "0 \<le> ?r")
    case True
    with binary_search_found [OF s True] have "sa_map sa k = Some (sa_objs sa ! nat ?r)"
      using sa_map_Some [OF assms] by blast
    then show ?thesis using True by (simp add: sparse_array_get_def)
  next
    case False
    then have "?r < 0" by simp
    note b = binary_search_absent [OF s this]
    have "sa_map sa k \<noteq> Some v" for v
      using b(2,3) by (auto simp: sa_map_Some [OF assms]) (metis leI less_irrefl)
    then have "sa_map sa k = None" by (meson not_Some_eq)
    then show ?thesis using False by (simp add: sparse_array_get_def)
  qed
qed

section \<open>Insertion\<close>

lemma sa_grow_inv:
  assumes "sa_inv sa" "grows ri" "grows ro" "sa_grow ri ro sa = Some (ok, sa1)"
  shows "sa_inv sa1" "sa_map sa1 = sa_map sa" "sa_nr_objs sa1 = sa_nr_objs sa"
    "take (sa_nr_objs sa) (sa_indices sa1) = take (sa_nr_objs sa) (sa_indices sa)"
    "ok \<Longrightarrow> sa_nr_objs sa1 < sa_size sa1"
proof -
  let ?n = "sa_nr_objs sa"
  have I: "sa_inv sa1 \<and> sa_map sa1 = sa_map sa \<and> sa_nr_objs sa1 = ?n \<and>
    take ?n (sa_indices sa1) = take ?n (sa_indices sa) \<and> (ok \<longrightarrow> sa_nr_objs sa1 < sa_size sa1)"
  proof (cases "?n = sa_size sa")
    case False
    then show ?thesis using assms(1,4) by (auto simp: sa_grow_def sa_inv_def)
  next
    case full: True
    show ?thesis
    proof (cases "ri (sa_indices sa) (sa_size sa * 2)")
      case None
      then show ?thesis using assms(1,4) full by (simp add: sa_grow_def)
    next
      case (Some ia)
      have ia: "length ia = sa_size sa * 2" "take ?n ia = take ?n (sa_indices sa)"
        using growsD [OF assms(2) Some] grows_take [OF assms(2) Some] assms(1) by (auto simp: sa_inv_def)
      show ?thesis
      proof (cases "ro (sa_objs sa) (sa_size sa * 2)")
        case None
        then show ?thesis using assms(1,4) full Some ia by (auto simp: sa_grow_def sa_inv_def sa_map_def)
      next
        case (Some oa)
        have oa: "length oa = sa_size sa * 2" "take ?n oa = take ?n (sa_objs sa)"
          using growsD [OF assms(3) Some] grows_take [OF assms(3) Some] assms(1) full by (auto simp: sa_inv_def)
        show ?thesis
          using assms(1,4) full \<open>ri _ _ = Some ia\<close> Some ia oa
          by (auto simp: sa_grow_def sa_inv_def sa_map_def Let_def split: if_splits)
      qed
    qed
  qed
  then show "sa_inv sa1" "sa_map sa1 = sa_map sa" "sa_nr_objs sa1 = ?n"
    "take ?n (sa_indices sa1) = take ?n (sa_indices sa)" "ok \<Longrightarrow> sa_nr_objs sa1 < sa_size sa1"
    by auto
qed

text \<open>Storing at the position bisection found, in a state with room.\<close>

lemma sa_insert_at:
  fixes sa :: "'v sparse_array" and v :: 'v
  assumes "sa_inv sa" "sa_nr_objs sa < sa_size sa" "binary_search (sa_indices sa) x (sa_nr_objs sa) < 0"
  defines "p \<equiv> nat (bnot (binary_search (sa_indices sa) x (sa_nr_objs sa)))"
    and "n \<equiv> sa_nr_objs sa"
  defines "sa' \<equiv> sa\<lparr>sa_indices := (memmove (sa_indices sa) (p + 1) p (n - p))[p := x],
    sa_objs := (memmove (sa_objs sa) (p + 1) p (n - p))[p := v], sa_nr_objs := n + 1\<rparr>"
  shows "p \<le> n" "sa_inv sa'" "sa_map sa' = (sa_map sa)(x \<mapsto> v)"
proof -
  let ?is = "take n (sa_indices sa)" and ?os = "take n (sa_objs sa)"
  have inv: "n < length (sa_indices sa)" "n < length (sa_objs sa)" "sorted_wrt (<) ?is"
    using assms(1,2) by (auto simp: sa_inv_def n_def)
  note b = binary_search_absent [OF inv(3) less_imp_le [OF inv(1)], unfolded n_def, OF assms(3), folded p_def n_def]
  show pn: "p \<le> n" by (rule b(1))
  have gap: "take (n + 1) (sa_indices sa') = insert_at p x ?is" "take (n + 1) (sa_objs sa') = insert_at p v ?os"
    using memmove_gap [OF pn inv(1)] memmove_gap [OF pn inv(2)] by (simp_all add: sa'_def)
  have srt: "sorted_wrt (<) (insert_at p x ?is)"
    using b inv by (intro sorted_insert_at) auto
  then show "sa_inv sa'"
    using assms(1,2) gap pn inv by (auto simp: sa_inv_def sa'_def n_def)
  have "x \<notin> set ?is"
    using b(2,3) inv(1) by (auto simp: in_set_conv_nth) (metis leI less_irrefl)
  then have "x \<notin> fst ` set (zip ?is ?os)" by (auto dest: set_zip_leftD)
  then show "sa_map sa' = (sa_map sa)(x \<mapsto> v)"
    using gap inv by (simp add: sa_map_def sa'_def n_def [symmetric] zip_insert_at map_of_insert_at)
qed

text \<open>The one call that overflows: a new index in a full array of at least \<open>2 ^ 30\<close> cells.\<close>

definition sa_overflows :: "int ralloc \<Rightarrow> 'v ralloc \<Rightarrow> 'v sparse_array \<Rightarrow> int \<Rightarrow> bool" where
  "sa_overflows ri ro sa x \<longleftrightarrow> sparse_array_get sa x = None \<and> sa_nr_objs sa = sa_size sa \<and> 2 ^ 30 \<le> sa_size sa \<and>
     ri (sa_indices sa) (sa_size sa * 2) \<noteq> None \<and> ro (sa_objs sa) (sa_size sa * 2) \<noteq> None"

lemma sa_grow_None:
  "sa_grow ri ro sa = None \<longleftrightarrow> sa_nr_objs sa = sa_size sa \<and> 2 ^ 30 \<le> sa_size sa \<and>
     ri (sa_indices sa) (sa_size sa * 2) \<noteq> None \<and> ro (sa_objs sa) (sa_size sa * 2) \<noteq> None"
  by (auto simp: sa_grow_def INT_MAX_def Let_def split: option.splits)

lemma sa_get_absent: "sparse_array_get sa x = None \<longleftrightarrow> binary_search (sa_indices sa) x (sa_nr_objs sa) < 0"
  by (simp add: sparse_array_get_def Let_def not_le)

lemma sa_set_overflows: "sa_overflows ri ro sa x \<Longrightarrow> sparse_array_set ri ro sa x v = None"
proof -
  assume o: "sa_overflows ri ro sa x"
  then have "binary_search (sa_indices sa) x (sa_nr_objs sa) < 0" "sa_grow ri ro sa = None"
    unfolding sa_overflows_def sa_get_absent sa_grow_None by blast+
  then show ?thesis unfolding sparse_array_set_def Let_def by simp
qed

lemma sa_set_found:
  assumes "sa_inv sa" "\<not> binary_search (sa_indices sa) x (sa_nr_objs sa) < 0"
  shows "\<exists>sa'. sparse_array_set ri ro sa x v = Some (0, sa') \<and> sa_inv sa' \<and> sa_map sa' = (sa_map sa)(x \<mapsto> v) \<and>
    sa_nr_objs sa' = sa_nr_objs sa"
proof -
  let ?n = "sa_nr_objs sa"
  let ?r = "binary_search (sa_indices sa) x ?n"
  have s: "sorted_wrt (<) (take ?n (sa_indices sa))" "?n \<le> length (sa_indices sa)"
    using assms by (auto simp: sa_inv_def)
  note f = binary_search_found [OF s, where x = x]
  let ?sa' = "sa\<lparr>sa_objs := (sa_objs sa)[nat ?r := v]\<rparr>"
  have "sa_inv ?sa'" using assms(1) by (simp add: sa_inv_def)
  moreover have "sa_map ?sa' = (sa_map sa)(x \<mapsto> v)"
    using assms f map_of_zip_update [of "take ?n (sa_indices sa)" "take ?n (sa_objs sa)" "nat ?r" v]
    by (auto simp: sa_map_def sa_inv_def take_update_swap strict_sorted_iff)
  ultimately show ?thesis using assms(2) by (simp add: sparse_array_set_def)
qed

lemma sa_set_effect:
  assumes "sa_inv sa" "grows ri" "grows ro" "\<not> sa_overflows ri ro sa x"
  shows "\<exists>r sa'. sparse_array_set ri ro sa x v = Some (r, sa') \<and> sa_inv sa' \<and> sa_nr_objs sa' \<le> Suc (sa_nr_objs sa) \<and>
    (r = 0 \<and> sa_map sa' = (sa_map sa)(x \<mapsto> v) \<or>
     r = - ENOMEM \<and> sa_map sa' = sa_map sa \<and> (\<exists>sa1. sa_grow ri ro sa = Some (False, sa1)))"
proof -
  let ?n = "sa_nr_objs sa"
  let ?r = "binary_search (sa_indices sa) x ?n"
  show ?thesis
  proof (cases "?r < 0")
    case False
    then show ?thesis using sa_set_found [OF assms(1) False, of ri ro v] by force
  next
    case True
    then obtain ok sa1 where g: "sa_grow ri ro sa = Some (ok, sa1)"
      using assms(4) sa_grow_None [of ri ro sa] sa_get_absent [of sa x]
      by (cases "sa_grow ri ro sa") (auto simp: sa_overflows_def)
    note gi = sa_grow_inv [OF assms(1-3) g]
    show ?thesis
    proof (cases ok)
      case False
      then show ?thesis using True g gi(1-3) by (auto simp: sparse_array_set_def)
    next
      case ok: True
      have bs: "binary_search (sa_indices sa1) x (sa_nr_objs sa1) = ?r"
        using gi(3,4) binary_search_prefix by metis
      have lt: "binary_search (sa_indices sa1) x (sa_nr_objs sa1) < 0" using bs True by simp
      note ins = sa_insert_at(1) [OF gi(1) gi(5) [OF ok] lt, unfolded bs]
        sa_insert_at(2,3) [OF gi(1) gi(5) [OF ok] lt, where v = v, unfolded bs]
      have "nat (bnot ?r) < sa_size sa1" using ins(1) gi(5) [OF ok] by simp
      then show ?thesis using True ok g ins(2,3) gi(2,3)
        by (auto simp: sparse_array_set_def Let_def)
    qed
  qed
qed

section \<open>The test driver\<close>

text \<open>
  \<^verbatim>\<open>run_test1\<close>, lines 152 to 188: the list is the sequence of random index and data
  pairs the loop draws. A failed check ends in \<^verbatim>\<open>test_failed\<close>, which aborts.
\<close>

datatype sa_test = SetFailed int | GetFailed | VerifyFailed int int int | SetUndefined

fun run_test1_loop :: "int ralloc \<Rightarrow> int ralloc \<Rightarrow> int sparse_array \<Rightarrow> (int \<times> int) list \<Rightarrow> sa_test + int sparse_array" where
  "run_test1_loop ri ro sa [] = Inr sa"
| "run_test1_loop ri ro sa ((rnd_i, rnd_data) # rest) =
     (case sparse_array_set ri ro sa rnd_i rnd_data of
        None \<Rightarrow> Inl SetUndefined
      | Some (ret, sa1) \<Rightarrow>
          if ret < 0 then Inl (SetFailed ret)
          else (case sparse_array_get sa1 rnd_i of
                  None \<Rightarrow> Inl GetFailed
                | Some objp \<Rightarrow>
                    if objp \<noteq> rnd_data then Inl (VerifyFailed rnd_i rnd_data objp)
                    else run_test1_loop ri ro sa1 rest))"

definition run_test1 :: "int ralloc \<Rightarrow> int ralloc \<Rightarrow> int list \<Rightarrow> int list \<Rightarrow> (int \<times> int) list \<Rightarrow> sa_test + int sparse_array" where
  "run_test1 ri ro objs0 indices0 draws =
     (case sparse_array_create True objs0 indices0 of
        None \<Rightarrow> Inl GetFailed
      | Some sa \<Rightarrow> run_test1_loop ri ro sa draws)"

section \<open>The sparse array as a store\<close>

definition sa_put :: "nat \<Rightarrow> 'v \<Rightarrow> 'v sparse_array \<Rightarrow> int \<Rightarrow> 'v \<Rightarrow> bool \<times> 'v sparse_array" where
  "sa_put lim junk sa k v =
     (case sparse_array_set (c_realloc lim 0) (c_realloc lim junk) sa k v of
        Some (r, sa') \<Rightarrow> (r = 0, sa') | None \<Rightarrow> (False, sa))"

interpretation sa_store: store sa_inv sparse_array_get "sa_put lim junk" for lim :: nat and junk :: 'v
proof
  fix s :: "'v sparse_array" and k v
  assume s: "sa_inv s"
  let ?set = "sparse_array_set (c_realloc lim 0) (c_realloc lim junk) s k v"
  have e: "?set = None \<or> (\<exists>r s'. ?set = Some (r, s') \<and> sa_inv s' \<and>
      (r = 0 \<and> sa_map s' = (sa_map s)(k \<mapsto> v) \<or> r = - ENOMEM \<and> sa_map s' = sa_map s))"
  proof (cases "sa_overflows (c_realloc lim 0) (c_realloc lim junk) s k")
    case True
    then show ?thesis by (simp add: sa_set_overflows)
  next
    case False
    from sa_set_effect [OF s grows_c_realloc grows_c_realloc False] show ?thesis by blast
  qed
  show "sa_inv (snd (sa_put lim junk s k v))" using e s by (auto simp: sa_put_def)
  show "sparse_array_get (snd (sa_put lim junk s k v)) = (sparse_array_get s)(k \<mapsto> v)"
    if "fst (sa_put lim junk s k v)"
    using that e s by (auto simp: sa_put_def sa_get_map ENOMEM_def fun_eq_iff)
  show "sparse_array_get (snd (sa_put lim junk s k v)) = sparse_array_get s"
    if "\<not> fst (sa_put lim junk s k v)"
    using that e s by (auto simp: sa_put_def sa_get_map fun_eq_iff)
qed

section \<open>Properties\<close>

text \<open>A full two-element array, for the witnesses.\<close>

definition sa_small :: "int sparse_array" where
  "sa_small = \<lparr>sa_objs = [10, 20], sa_size = 2, sa_indices = [1, 5], sa_nr_objs = 2\<rparr>"

text \<open>
  Bisection over an ascending array returns the position of the key when it is
  present, and otherwise the complement of the position that separates the smaller elements
  from the larger ones.
\<close>

theorem binary_search_correct:
  assumes "sorted_wrt (<) (take len a)" "len \<le> length a"
  shows "(\<exists>i<len. a ! i = x) \<and> 0 \<le> binary_search a x len \<and>
           nat (binary_search a x len) < len \<and> a ! nat (binary_search a x len) = x
       \<or> (\<forall>i<len. a ! i \<noteq> x) \<and> binary_search a x len < 0 \<and>
           (\<forall>i<len. (a ! i < x) = (int i < bnot (binary_search a x len))) \<and>
           bnot (binary_search a x len) \<le> int len"
proof (cases "0 \<le> binary_search a x len")
  case True
  then show ?thesis using binary_search_found [OF assms True] by blast
next
  case False
  then have neg: "binary_search a x len < 0" by simp
  note b = binary_search_absent [OF assms neg]
  have pos: "0 \<le> bnot (binary_search a x len)" using neg by (simp add: bnot_def)
  have "(a ! i < x) = (int i < bnot (binary_search a x len))" if "i < len" for i
  proof (cases "i < nat (bnot (binary_search a x len))")
    case True
    then show ?thesis using b(2) by (simp add: zless_nat_eq_int_zless)
  next
    case False
    then show ?thesis using b(3) that pos by (fastforce simp: zless_nat_eq_int_zless)
  qed
  moreover have "\<forall>i<len. a ! i \<noteq> x"
    using b(2,3) by (metis leI less_irrefl)
  ultimately show ?thesis using neg b(1) pos by (simp add: nat_le_iff)
qed

theorem binary_search_correct_witness:
  "binary_search [3, 7, 9] 7 3 = 1 \<and> binary_search [3, 7, 9] 8 3 = -3 \<and>
   bnot (binary_search [3, 7, 9] 8 3) \<le> 3"
proof -
  have s: "sorted_wrt (<) (take 3 [3, 7, 9 :: int])" "3 \<le> length [3, 7, 9 :: int]" by simp_all
  have v: "binary_search [3, 7, 9] 8 3 = -3" "binary_search [3, 7, 9] 7 3 = 1"
    by (simp_all add: binary_search_def bs_loop.simps bnot_def)
  show ?thesis using binary_search_correct [OF s, of 8] v by simp
qed

text \<open>
  Property C3: on a well-formed array and with a \<^verbatim>\<open>realloc\<close> that keeps old contents, the only call of
  \<^verbatim>\<open>sparse_array_set\<close> that is undefined is the one that doubles a size of at least \<open>2 ^ 30\<close>: a new index
  in a full array of that size. Every other call returns, keeps the array well-formed, and either reports
  success and updates exactly one index, or reports \<^verbatim>\<open>-ENOMEM\<close> and changes no entry.
\<close>

theorem sparse_array_set_refines:
  assumes "sa_inv sa" "grows ri" "grows ro"
  shows "if sparse_array_get sa x = None \<and> sa_nr_objs sa = sa_size sa \<and> 2 ^ 30 \<le> sa_size sa \<and>
       ri (sa_indices sa) (sa_size sa * 2) \<noteq> None \<and> ro (sa_objs sa) (sa_size sa * 2) \<noteq> None
    then sparse_array_set ri ro sa x v = None
    else \<exists>r sa'. sparse_array_set ri ro sa x v = Some (r, sa') \<and> sa_inv sa' \<and>
      (r = 0 \<and> sparse_array_get sa' = (sparse_array_get sa)(x \<mapsto> v) \<or>
       r = - ENOMEM \<and> sparse_array_get sa' = sparse_array_get sa)"
proof (cases "sa_overflows ri ro sa x")
  case True
  then show ?thesis using sa_set_overflows [OF True] by (simp add: sa_overflows_def)
next
  case False
  then obtain r sa' where "sparse_array_set ri ro sa x v = Some (r, sa')" "sa_inv sa'"
      "r = 0 \<and> sa_map sa' = (sa_map sa)(x \<mapsto> v) \<or> r = - ENOMEM \<and> sa_map sa' = sa_map sa"
    using sa_set_effect [OF assms False] by blast
  moreover from this(2) assms(1) have "sparse_array_get sa' = sa_map sa'" "sparse_array_get sa = sa_map sa"
    by (simp_all add: sa_get_map fun_eq_iff)
  ultimately show ?thesis using False unfolding sa_overflows_def [symmetric] by auto
qed

theorem sparse_array_set_refines_witness:
  "\<exists>r sa'. sparse_array_set (c_realloc 8 0) (c_realloc 8 0) sa_small 3 30 = Some (r, sa') \<and> sa_inv sa' \<and>
    (r = 0 \<and> sparse_array_get sa' = (sparse_array_get sa_small)(3 \<mapsto> 30) \<or>
     r = - ENOMEM \<and> sparse_array_get sa' = sparse_array_get sa_small)"
proof -
  have "sa_inv sa_small" by (simp add: sa_inv_def sa_small_def INT_MAX_def)
  moreover have "\<not> 2 ^ 30 \<le> sa_size sa_small" by (simp add: sa_small_def)
  ultimately show ?thesis
    using sparse_array_set_refines [OF _ grows_c_realloc grows_c_realloc, of sa_small 3 8 0 8 0 30] by simp
qed

lemma run_test1_loop_passes:
  assumes "grows ri" "grows ro" "\<forall>xs n. ri xs n \<noteq> None" "\<forall>xs n. ro xs n \<noteq> None"
  shows "sa_inv sa \<Longrightarrow> sa_nr_objs sa + length draws \<le> 2 ^ 30 \<Longrightarrow> \<exists>sa'. run_test1_loop ri ro sa draws = Inr sa' \<and> sa_inv sa' \<and>
    sparse_array_get sa' = sparse_array_get sa ++ map_of (rev draws)"
proof (induction draws arbitrary: sa)
  case Nil
  then show ?case by simp
next
  case (Cons d draws)
  obtain i v where d: "d = (i, v)" by fastforce
  obtain ia oa where "ri (sa_indices sa) (sa_size sa * 2) = Some ia" "ro (sa_objs sa) (sa_size sa * 2) = Some oa"
    using assms(3,4) by (meson not_None_eq)
  then have nf: "sa_grow ri ro sa \<noteq> Some (False, sa1)" for sa1 by (auto simp: sa_grow_def Let_def)
  have "\<not> sa_overflows ri ro sa i" using Cons.prems(2) by (simp add: sa_overflows_def)
  then obtain r sa1 where e: "sparse_array_set ri ro sa i v = Some (r, sa1)" "sa_inv sa1" "sa_nr_objs sa1 \<le> Suc (sa_nr_objs sa)"
    "sa_map sa1 = (sa_map sa)(i \<mapsto> v)" and r0: "r = 0"
    using sa_set_effect [OF Cons.prems(1) assms(1,2), of i v] nf by blast
  with e have g: "sparse_array_get sa1 = (sparse_array_get sa)(i \<mapsto> v)"
    using Cons.prems(1) by (auto simp: sa_get_map ENOMEM_def fun_eq_iff)
  obtain sa' where "run_test1_loop ri ro sa1 draws = Inr sa'" "sa_inv sa'"
    "sparse_array_get sa' = sparse_array_get sa1 ++ map_of (rev draws)"
    using Cons.IH [OF e(2)] e(3) Cons.prems(2) by auto
  then show ?case using d e(1) r0 g by (simp add: map_of_append map_add_upd)
qed

text \<open>
  The random insert-and-verify test of the program, with its ten thousand rounds, never reports a
  failure while the allocator does not fail, whatever indices and data are drawn.
\<close>

theorem run_test1_passes:
  assumes "grows ri" "grows ro" "\<forall>xs n. ri xs n \<noteq> None" "\<forall>xs n. ro xs n \<noteq> None"
    and "length objs0 = SPARSE_ARRAY_INIT_LEN" "length indices0 = SPARSE_ARRAY_INIT_LEN" "length draws \<le> 10000"
  shows "\<exists>sa'. run_test1 ri ro objs0 indices0 draws = Inr sa' \<and>
    sparse_array_get sa' = map_of (rev draws)"
proof -
  let ?sa = "\<lparr>sa_objs = objs0, sa_size = SPARSE_ARRAY_INIT_LEN, sa_indices = indices0, sa_nr_objs = 0\<rparr>"
  have "sa_inv ?sa" using assms(5,6) by (simp add: sa_inv_def SPARSE_ARRAY_INIT_LEN_def INT_MAX_def)
  moreover have "sparse_array_get ?sa = Map.empty"
    by (simp add: sparse_array_get_def binary_search_def bnot_def fun_eq_iff)
  ultimately show ?thesis
    using run_test1_loop_passes [OF assms(1-4), of ?sa draws] assms(7)
    by (auto simp: run_test1_def sparse_array_create_def)
qed

theorem run_test1_passes_witness:
  "\<exists>sa'. run_test1 (\<lambda>xs n. Some (take n xs @ replicate (n - length xs) 0))
      (\<lambda>xs n. Some (take n xs @ replicate (n - length xs) 0)) (replicate 64 7) (replicate 64 9)
      [(4, 40), (2, 20), (4, 44)] = Inr sa' \<and>
    sparse_array_get sa' = map_of (rev [(4, 40), (2, 20), (4, 44)])"
  by (rule run_test1_passes) (auto simp: grows_def SPARSE_ARRAY_INIT_LEN_def)

text \<open>
  A sequence of insertions that all succeed leaves the last value written at
  every index and the previous contents elsewhere.
\<close>

theorem sparse_array_put_all:
  assumes "sa_inv sa" "fst (store.put_all (sa_put lim junk) sa kvs)"
  shows "sparse_array_get (snd (store.put_all (sa_put lim junk) sa kvs)) k =
    (case map_of (rev kvs) k of Some v \<Rightarrow> Some v | None \<Rightarrow> sparse_array_get sa k)"
  using sa_store.put_all_get [OF assms] by (simp add: map_add_def)

theorem sparse_array_put_all_witness:
  "sparse_array_get (snd (store.put_all (sa_put 8 0) sa_small [(3, 30), (5, 50)])) 5 = Some 50"
proof -
  have i: "sa_inv sa_small" by (simp add: sa_inv_def sa_small_def INT_MAX_def)
  have f: "fst (store.put_all (sa_put 8 0) sa_small [(3, 30), (5, 50)])"
  proof -
    have "sa_put 8 0 sa_small 3 30 = (True, \<lparr>sa_objs = [10, 30, 20, 0], sa_size = 4,
        sa_indices = [1, 3, 5, 0], sa_nr_objs = 3\<rparr>)" by code_simp
    moreover have "fst (sa_put 8 0 \<lparr>sa_objs = [10, 30, 20, 0], sa_size = 4,
        sa_indices = [1, 3, 5, 0], sa_nr_objs = 3\<rparr> 5 50)" by code_simp
    ultimately show ?thesis by (simp add: sa_store.put_all.simps split: prod.splits)
  qed
  show ?thesis using sparse_array_put_all [OF i f, of 5] by simp
qed

end
