(* ===== verification/Cpio_Format.thy ===== *)
theory Cpio_Format
  imports Prelude
begin

unbundle bit_operations_syntax

text \<open>
  The output layer of \<^verbatim>\<open>src/gen_init_cpio.c\<close>: the per-thread temporary file, the byte
  counter \<open>offset\<close>, the \<^verbatim>\<open>push_*\<close> routines and the headers they are given, against a
  specification of the "newc" archive format (an encoder of entries and a decoder). A
  temporary file is a byte string with a position; writing overwrites in place, as the
  program rewinds its files without truncating them. \<open>offset\<close> is a 32-bit counter that
  wraps around.
\<close>

section \<open>Temporary files and the thread's state\<close>

record cfile =
  fdata :: string
  fpos :: nat

definition f_write :: "string \<Rightarrow> cfile \<Rightarrow> cfile" where
  "f_write bs f = \<lparr>fdata = take (fpos f) (fdata f) @ bs @ drop (fpos f + length bs) (fdata f),
                   fpos = fpos f + length bs\<rparr>"

definition fputs :: "string \<Rightarrow> cfile \<Rightarrow> cfile" where
  "fputs s f = f_write s f"

definition fputc :: "char \<Rightarrow> cfile \<Rightarrow> cfile" where
  "fputc c f = f_write [c] f"

definition rewind :: "cfile \<Rightarrow> cfile" where
  "rewind f = f\<lparr>fpos := 0\<rparr>"

record my_state =
  ms_offset :: u32
  ms_fp :: cfile

definition push_string :: "string \<Rightarrow> my_state \<Rightarrow> my_state" where
  "push_string name st =
     (let name_len = word_of_nat (length name) + 1;
          fp1 = fputs name (ms_fp st);
          fp2 = fputc NUL fp1
      in st\<lparr>ms_fp := fp2, ms_offset := ms_offset st + name_len\<rparr>)"

function push_pad :: "my_state \<Rightarrow> my_state" where
  "push_pad st =
     (if ms_offset st AND 3 \<noteq> 0
      then push_pad (st\<lparr>ms_fp := fputc NUL (ms_fp st), ms_offset := ms_offset st + 1\<rparr>)
      else st)"
  by pat_completeness auto

text \<open>Testing the two low bits is testing divisibility by four.\<close>

lemma and3_zero: "(x AND 3 = (0 :: u32)) \<longleftrightarrow> unat x mod 4 = 0"
proof -
  have "x AND 3 = x mod 4" using take_bit_eq_mask [of 2 x] by (simp add: take_bit_eq_mod mask_eq_exp_minus_1)
  then have "unat (x AND 3) = unat x mod 4" by (simp add: unat_mod_distrib)
  then show ?thesis by (metis unat_0 unat_eq_zero)
qed

lemmas mod4_Suc = unat_add1_mod [of 4, simplified]
lemmas mod512_Suc = unat_add1_mod [of 512, simplified]

lemma pad4_word: "pad 4 (unat (word_of_nat n :: u32)) = pad 4 n"
  by (rule pad_mod, rule unat_of_nat_mod) simp

lemma pad512_word: "pad 512 (unat (word_of_nat n :: u32)) = pad 512 n"
  by (rule pad_mod, rule unat_of_nat_mod) simp

termination push_pad
proof (relation "measure (\<lambda>st. pad 4 (unat (ms_offset st)))")
  fix st :: my_state
  assume "ms_offset st AND 3 \<noteq> 0"
  then have "unat (ms_offset st) mod 4 \<noteq> 0" by (simp add: and3_zero)
  then show "(st\<lparr>ms_fp := fputc NUL (ms_fp st), ms_offset := ms_offset st + 1\<rparr>, st)
      \<in> measure (\<lambda>st. pad 4 (unat (ms_offset st)))"
    using pad_Suc pad_mod [OF mod4_Suc] by simp
qed simp

declare push_pad.simps [simp del]

text \<open>
  The loop of \<^verbatim>\<open>push_rest\<close>, lines 155 to 160, on \<open>tmp_ofs\<close>.
\<close>

function push_rest_loop :: "u32 \<Rightarrow> my_state \<Rightarrow> my_state" where
  "push_rest_loop tmp_ofs st =
     (if tmp_ofs AND 3 \<noteq> 0
      then push_rest_loop (tmp_ofs + 1)
             (st\<lparr>ms_fp := fputc NUL (ms_fp st), ms_offset := ms_offset st + 1\<rparr>)
      else st)"
  by pat_completeness auto

termination push_rest_loop
proof (relation "measure (\<lambda>(t, st). pad 4 (unat t))")
  fix t :: u32 and st :: my_state
  assume "t AND 3 \<noteq> 0"
  then have "unat t mod 4 \<noteq> 0" by (simp add: and3_zero)
  then show "((t + 1, st\<lparr>ms_fp := fputc NUL (ms_fp st), ms_offset := ms_offset st + 1\<rparr>), t, st)
      \<in> measure (\<lambda>(t, st). pad 4 (unat t))"
    using pad_Suc pad_mod [OF mod4_Suc] by simp
qed simp

declare push_rest_loop.simps [simp del]

definition push_rest :: "string \<Rightarrow> my_state \<Rightarrow> my_state" where
  "push_rest name st =
     (let name_len = word_of_nat (length name) + 1 :: u32;
          fp2 = fputc NUL (fputs name (ms_fp st));
          st1 = st\<lparr>ms_fp := fp2, ms_offset := ms_offset st + name_len\<rparr>
      in push_rest_loop (name_len + 110) st1)"

definition push_hdr :: "string \<Rightarrow> my_state \<Rightarrow> my_state" where
  "push_hdr s st = st\<lparr>ms_fp := fputs s (ms_fp st), ms_offset := ms_offset st + 110\<rparr>"

section \<open>Headers\<close>

text \<open>\<^verbatim>\<open>%08X\<close> and \<^verbatim>\<open>%08lX\<close>: upper-case hexadecimal, at least eight digits.\<close>

definition hex_char :: "nat \<Rightarrow> char" where
  "hex_char d = ''0123456789ABCDEF'' ! d"

fun hex_digits :: "nat \<Rightarrow> string" where
  "hex_digits n = (if n < 16 then [hex_char n] else hex_digits (n div 16) @ [hex_char (n mod 16)])"

declare hex_digits.simps [simp del]

definition fmt_08X :: "nat \<Rightarrow> string" where
  "fmt_08X n = replicate (8 - length (hex_digits n)) CHR ''0'' @ hex_digits n"

text \<open>
  The \<^verbatim>\<open>sprintf\<close> of every entry: the magic number and thirteen numbers. \<open>mtime\<close> and
  \<open>filesize\<close> are printed as 64-bit values, the others as 32-bit ones.
\<close>

definition newc_header ::
  "u32 \<Rightarrow> u32 \<Rightarrow> u32 \<Rightarrow> u32 \<Rightarrow> u32 \<Rightarrow> u64 \<Rightarrow> u64 \<Rightarrow> u32 \<Rightarrow> u32 \<Rightarrow> u32 \<Rightarrow> u32 \<Rightarrow> u32 \<Rightarrow> string" where
  "newc_header ino mode uid gid nlink mtime filesize major minor rmajor rminor namesize =
     ''070701'' @ concat (map fmt_08X
       [unat ino, unat mode, unat uid, unat gid, unat nlink, unat mtime, unat filesize,
        unat major, unat minor, unat rmajor, unat rminor, unat namesize, 0])"

text \<open>\<^verbatim>\<open>cpio_trailer\<close> and its fill loop, lines 197 to 200.\<close>

function pad512 :: "my_state \<Rightarrow> my_state" where
  "pad512 st =
     (if unat (ms_offset st) mod 512 \<noteq> 0
      then pad512 (st\<lparr>ms_fp := fputc NUL (ms_fp st), ms_offset := ms_offset st + 1\<rparr>)
      else st)"
  by pat_completeness auto

termination pad512
proof (relation "measure (\<lambda>st. pad 512 (unat (ms_offset st)))")
  fix st :: my_state
  assume a: "unat (ms_offset st) mod 512 \<noteq> 0"
  show "(st\<lparr>ms_fp := fputc NUL (ms_fp st), ms_offset := ms_offset st + 1\<rparr>, st)
      \<in> measure (\<lambda>st. pad 512 (unat (ms_offset st)))"
    using pad_Suc [OF _ a] pad_mod [OF mod512_Suc] by simp
qed simp

declare pad512.simps [simp del]

definition cpio_trailer :: "my_state \<Rightarrow> my_state" where
  "cpio_trailer st =
     (let name = ''TRAILER!!!'';
          s = newc_header 0 0 0 0 1 0 0 0 0 0 0 (word_of_nat (length name) + 1)
      in pad512 (push_rest name (push_hdr s st)))"

section \<open>What the push routines write\<close>

definition f_ok :: "cfile \<Rightarrow> bool" where
  "f_ok f \<longleftrightarrow> fpos f \<le> length (fdata f)"

text \<open>The bytes written since the last rewind.\<close>

definition written :: "my_state \<Rightarrow> string" where
  "written st = take (fpos (ms_fp st)) (fdata (ms_fp st))"

definition st_ok :: "my_state \<Rightarrow> bool" where
  "st_ok st \<longleftrightarrow> f_ok (ms_fp st) \<and> ms_offset st = word_of_nat (length (written st))"

definition emit :: "string \<Rightarrow> my_state \<Rightarrow> my_state" where
  "emit bs st = st\<lparr>ms_fp := f_write bs (ms_fp st), ms_offset := ms_offset st + word_of_nat (length bs)\<rparr>"

lemma f_write_append: "f_ok f \<Longrightarrow> f_write (a @ b) f = f_write b (f_write a f)"
  by (auto simp: f_write_def f_ok_def ac_simps)

lemma f_ok_write [simp]: "f_ok f \<Longrightarrow> f_ok (f_write bs f)"
  by (auto simp: f_write_def f_ok_def)

lemma emit_append: "f_ok (ms_fp st) \<Longrightarrow> emit (a @ b) st = emit b (emit a st)"
  by (simp add: emit_def f_write_append algebra_simps)

lemma emit_Nil [simp]: "f_ok (ms_fp st) \<Longrightarrow> emit [] st = st"
  by (simp add: emit_def f_write_def)

lemma f_ok_emit [simp]: "f_ok (ms_fp st) \<Longrightarrow> f_ok (ms_fp (emit bs st))"
  by (simp add: emit_def)

lemma written_emit [simp]: "f_ok (ms_fp st) \<Longrightarrow> written (emit bs st) = written st @ bs"
  by (auto simp: emit_def written_def f_write_def f_ok_def)

lemma length_written: "f_ok (ms_fp st) \<Longrightarrow> length (written st) = fpos (ms_fp st)"
  by (simp add: written_def f_ok_def)

lemma st_ok_emit: "st_ok st \<Longrightarrow> st_ok (emit bs st)"
  by (simp add: st_ok_def) (simp add: emit_def)

lemma push_string_emit:
  "f_ok (ms_fp st) \<Longrightarrow> push_string name st = emit (name @ [NUL]) st"
  by (simp add: push_string_def emit_def fputs_def fputc_def f_write_append algebra_simps)

lemma fputc_emit:
  "st\<lparr>ms_fp := fputc c (ms_fp st), ms_offset := ms_offset st + 1\<rparr> = emit [c] st"
  by (simp add: emit_def fputc_def)

lemma push_pad_emit:
  "f_ok (ms_fp st) \<Longrightarrow> push_pad st = emit (replicate (pad 4 (unat (ms_offset st))) NUL) st"
proof (induction st rule: push_pad.induct)
  case (1 st)
  show ?case
  proof (cases "unat (ms_offset st) mod 4 = 0")
    case True
    then show ?thesis
      using 1 by (subst push_pad.simps) (simp add: and3_zero pad_0)
  next
    case False
    let ?st1 = "emit [NUL] st"
    have off: "ms_offset ?st1 = ms_offset st + 1" by (simp add: emit_def)
    have "push_pad st = push_pad ?st1"
      using False by (subst push_pad.simps) (simp add: and3_zero fputc_emit)
    also have "\<dots> = emit (replicate (pad 4 (unat (ms_offset st + 1))) NUL) ?st1"
      using 1 False off by (simp add: fputc_emit and3_zero)
    also have "\<dots> = emit (replicate (pad 4 (unat (ms_offset st))) NUL) st"
      using emit_append [OF "1.prems", of "[NUL]", symmetric] pad_Suc [OF _ False] pad_mod [OF mod4_Suc] by simp
    finally show ?thesis .
  qed
qed

lemma push_rest_loop_emit:
  "f_ok (ms_fp st) \<Longrightarrow> push_rest_loop t st = emit (replicate (pad 4 (unat t)) NUL) st"
proof (induction t st rule: push_rest_loop.induct)
  case (1 t st)
  show ?case
  proof (cases "unat t mod 4 = 0")
    case True
    then show ?thesis
      using 1 by (subst push_rest_loop.simps) (simp add: and3_zero pad_0)
  next
    case False
    let ?st1 = "emit [NUL] st"
    have "push_rest_loop t st = push_rest_loop (t + 1) ?st1"
      using False by (subst push_rest_loop.simps) (simp add: and3_zero fputc_emit)
    also have "\<dots> = emit (replicate (pad 4 (unat (t + 1))) NUL) ?st1"
      using 1 False by (simp add: fputc_emit and3_zero)
    also have "\<dots> = emit (replicate (pad 4 (unat t)) NUL) st"
      using emit_append [OF "1.prems", of "[NUL]", symmetric] pad_Suc [OF _ False] pad_mod [OF mod4_Suc] by simp
    finally show ?thesis .
  qed
qed

lemma push_rest_emit:
  assumes "f_ok (ms_fp st)"
  shows "push_rest name st = emit (name @ [NUL] @ replicate (pad 4 (110 + Suc (length name))) NUL) st"
proof -
  have w: "word_of_nat (length name) + 1 + 110 = (word_of_nat (110 + Suc (length name)) :: u32)"
    by (simp only: of_nat_add of_nat_Suc of_nat_numeral ac_simps)
  have "push_rest name st = push_rest_loop (word_of_nat (length name) + 1 + 110) (push_string name st)"
    by (simp only: push_rest_def push_string_def Let_def)
  also have "\<dots> = push_rest_loop (word_of_nat (110 + Suc (length name))) (emit (name @ [NUL]) st)"
    by (simp only: push_string_emit [OF assms] w)
  also have "\<dots> = emit (replicate (pad 4 (110 + Suc (length name))) NUL) (emit (name @ [NUL]) st)"
    by (simp only: push_rest_loop_emit f_ok_emit assms pad4_word)
  also have "\<dots> = emit (name @ [NUL] @ replicate (pad 4 (110 + Suc (length name))) NUL) st"
    by (simp only: emit_append [OF assms, of "name @ [NUL]", symmetric] append_assoc)
  finally show ?thesis .
qed

lemma push_hdr_emit: "length s = 110 \<Longrightarrow> push_hdr s st = emit s st"
  by (simp add: push_hdr_def emit_def fputs_def)

lemma push_pad_written:
  "st_ok st \<Longrightarrow> push_pad st = emit (replicate (pad 4 (length (written st))) NUL) st"
  by (simp add: push_pad_emit st_ok_def pad4_word del: unsigned_of_nat)

lemma pad512_emit:
  "f_ok (ms_fp st) \<Longrightarrow> pad512 st = emit (replicate (pad 512 (unat (ms_offset st))) NUL) st"
proof (induction st rule: pad512.induct)
  case (1 st)
  show ?case
  proof (cases "unat (ms_offset st) mod 512 = 0")
    case True
    then show ?thesis using 1 by (subst pad512.simps) (simp add: pad_0)
  next
    case False
    let ?st1 = "emit [NUL] st"
    have off: "ms_offset ?st1 = ms_offset st + 1" by (simp add: emit_def)
    have "pad512 st = pad512 ?st1"
      using False by (subst pad512.simps) (simp add: fputc_emit)
    also have "\<dots> = emit (replicate (pad 512 (unat (ms_offset st + 1))) NUL) ?st1"
      using 1 False off by (simp add: fputc_emit)
    also have "\<dots> = emit (replicate (pad 512 (unat (ms_offset st))) NUL) st"
      using emit_append [OF "1.prems", of "[NUL]", symmetric] pad_Suc [OF _ False] pad_mod [OF mod512_Suc] by simp
    finally show ?thesis .
  qed
qed

section \<open>Hexadecimal fields\<close>

definition hex_val :: "char \<Rightarrow> nat" where
  "hex_val c = (let n = of_char c in if n < 58 then n - 48 else n - 55)"

definition is_hex :: "char \<Rightarrow> bool" where
  "is_hex c \<longleftrightarrow> c \<in> set ''0123456789ABCDEF''"

definition hex_num :: "string \<Rightarrow> nat" where
  "hex_num s = foldl (\<lambda>a c. 16 * a + hex_val c) 0 s"

text \<open>Reading a field of exactly eight digits.\<close>

definition parse8 :: "string \<Rightarrow> nat option" where
  "parse8 s = (if length s = 8 \<and> list_all is_hex s then Some (hex_num s) else None)"

lemma hex_table: "\<forall>d\<in>set [0..<16]. hex_val (hex_char d) = d \<and> is_hex (hex_char d)"
  by code_simp

lemma hex_char_val [simp]: "d < 16 \<Longrightarrow> hex_val (hex_char d) = d"
  and hex_char_hex [simp]: "d < 16 \<Longrightarrow> is_hex (hex_char d)"
  using hex_table by auto

lemma hex_num_snoc [simp]: "hex_num (s @ [c]) = 16 * hex_num s + hex_val c"
  by (simp add: hex_num_def)

lemma hex_num_zeros [simp]: "hex_num (replicate k CHR ''0'' @ s) = hex_num s"
proof -
  have "foldl (\<lambda>a c. 16 * a + hex_val c) 0 (replicate k CHR ''0'') = 0"
    by (induction k) (simp_all add: hex_val_def)
  then show ?thesis by (simp add: hex_num_def)
qed

lemma hex_digits_num [simp]: "hex_num (hex_digits n) = n"
proof (induction n rule: hex_digits.induct)
  case (1 n)
  then show ?case
    by (subst hex_digits.simps) (auto simp: hex_num_def [of "[_]"])
qed

lemma hex_digits_hex: "list_all is_hex (hex_digits n)"
proof (induction n rule: hex_digits.induct)
  case (1 n)
  then show ?case by (subst hex_digits.simps) simp
qed

lemma length_hex_digits: "0 < k \<Longrightarrow> length (hex_digits n) \<le> k \<longleftrightarrow> n < 16 ^ k"
proof (induction n arbitrary: k rule: hex_digits.induct)
  case (1 n)
  obtain j where k: "k = Suc j" using "1.prems" gr0_implies_Suc by blast
  show ?case
  proof (cases "n < 16")
    case True
    moreover have "(16::nat) \<le> 16 ^ k" using k by simp
    ultimately show ?thesis using "1.prems" by (subst hex_digits.simps) (auto simp: Suc_le_eq)
  next
    case False
    show ?thesis
    proof (cases "j = 0")
      case True
      have "hex_digits (n div 16) \<noteq> []" by (subst hex_digits.simps) simp
      then show ?thesis using True False k by (subst hex_digits.simps) simp
    next
      case j: False
      then have "length (hex_digits (n div 16)) \<le> j \<longleftrightarrow> n div 16 < 16 ^ j"
        using "1.IH" [OF False] by simp
      moreover have "n div 16 < 16 ^ j \<longleftrightarrow> n < 16 ^ k"
        using k by (simp add: div_less_iff_less_mult mult.commute)
      ultimately show ?thesis using False k by (subst hex_digits.simps) simp
    qed
  qed
qed

lemma length_fmt_08X: "length (fmt_08X n) = 8 \<longleftrightarrow> n < 2 ^ 32"
  using length_hex_digits [of 8 n] by (auto simp: fmt_08X_def)

lemma parse8_fmt: "n < 2 ^ 32 \<Longrightarrow> parse8 (fmt_08X n) = Some n"
proof -
  assume n: "n < 2 ^ 32"
  have "list_all is_hex (fmt_08X n)"
    using hex_digits_hex [of n] hex_char_hex [of 0] by (simp add: fmt_08X_def hex_char_def list_all_length nth_append)
  then show ?thesis using n length_fmt_08X [of n] by (simp add: parse8_def) (simp add: fmt_08X_def)
qed

lemma unat_u32_less [simp]: "unat (x :: u32) < 2 ^ 32"
  using unsigned_less [of x, where 'a = nat] by simp

section \<open>The archive format\<close>

text \<open>
  An entry as the format sees it. \<open>ce_mtime\<close> is 64 bits wide like the \<^verbatim>\<open>time_t\<close> it is printed
  from; \<open>entry_ok\<close> states what fits the fixed-width header.
\<close>

record cpio_entry =
  ce_ino :: u32
  ce_mode :: u32
  ce_uid :: u32
  ce_gid :: u32
  ce_nlink :: u32
  ce_mtime :: u64
  ce_major :: u32
  ce_minor :: u32
  ce_rmajor :: u32
  ce_rminor :: u32
  ce_name :: string
  ce_data :: string

definition entry_header :: "cpio_entry \<Rightarrow> string" where
  "entry_header e = newc_header (ce_ino e) (ce_mode e) (ce_uid e) (ce_gid e) (ce_nlink e)
     (ce_mtime e) (word_of_nat (length (ce_data e))) (ce_major e) (ce_minor e)
     (ce_rmajor e) (ce_rminor e) (word_of_nat (length (ce_name e)) + 1)"

definition entry_ok :: "cpio_entry \<Rightarrow> bool" where
  "entry_ok e \<longleftrightarrow> unat (ce_mtime e) < 2 ^ 32 \<and> length (ce_data e) < 2 ^ 32 \<and>
     Suc (length (ce_name e)) < 2 ^ 32 \<and> cstring (ce_name e)"

definition encode_entry :: "cpio_entry \<Rightarrow> string" where
  "encode_entry e =
     entry_header e @ ce_name e @ [NUL] @ replicate (pad 4 (110 + Suc (length (ce_name e)))) NUL @
     ce_data e @ replicate (pad 4 (length (ce_data e))) NUL"

text \<open>Reading an entry back: the entry and the rest of the input.\<close>

definition decode_fields :: "string \<Rightarrow> nat list option" where
  "decode_fields s = those (map (\<lambda>i. parse8 (take 8 (drop (8 * i) s))) [0..<13])"

definition decode_entry :: "string \<Rightarrow> (cpio_entry \<times> string) option" where
  "decode_entry s =
     (if take 6 s \<noteq> ''070701'' then None
      else case decode_fields (drop 6 s) of
        Some [ino, mode, uid, gid, nlink, mtime, filesize, major, minor, rmajor, rminor, namesize, chksum] \<Rightarrow>
          let s1 = drop 110 s; name = take (namesize - 1) s1;
              s2 = drop (namesize + pad 4 (110 + namesize)) s1;
              data = take filesize s2; s3 = drop (filesize + pad 4 filesize) s2
          in if namesize = 0 \<or> length s1 < namesize \<or> s1 ! (namesize - 1) \<noteq> NUL \<or> length s2 < filesize
             then None
             else Some (\<lparr>ce_ino = word_of_nat ino, ce_mode = word_of_nat mode, ce_uid = word_of_nat uid,
                         ce_gid = word_of_nat gid, ce_nlink = word_of_nat nlink, ce_mtime = word_of_nat mtime,
                         ce_major = word_of_nat major, ce_minor = word_of_nat minor,
                         ce_rmajor = word_of_nat rmajor, ce_rminor = word_of_nat rminor,
                         ce_name = name, ce_data = data\<rparr>, s3)
      | _ \<Rightarrow> None)"

definition trailer_entry :: cpio_entry where
  "trailer_entry = \<lparr>ce_ino = 0, ce_mode = 0, ce_uid = 0, ce_gid = 0, ce_nlink = 1, ce_mtime = 0,
     ce_major = 0, ce_minor = 0, ce_rmajor = 0, ce_rminor = 0, ce_name = ''TRAILER!!!'', ce_data = []\<rparr>"

text \<open>An archive: entries up to the one named \<^verbatim>\<open>TRAILER!!!\<close>; \<open>fuel\<close> bounds their number.\<close>

fun decode_archive :: "nat \<Rightarrow> string \<Rightarrow> cpio_entry list option" where
  "decode_archive 0 s = None"
| "decode_archive (Suc fuel) s =
     (case decode_entry s of
        None \<Rightarrow> None
      | Some (e, rest) \<Rightarrow>
          if ce_name e = ''TRAILER!!!'' then Some []
          else map_option ((#) e) (decode_archive fuel rest))"

lemma length_concat_fmt:
  "list_all (\<lambda>n. n < 2 ^ 32) ns \<Longrightarrow> length (concat (map fmt_08X ns)) = 8 * length ns"
proof (induction ns)
  case (Cons n ns)
  then show ?case using length_fmt_08X [of n] by simp
qed simp

lemma decode_chunk:
  assumes "list_all (\<lambda>n. n < 2 ^ 32) ns" "i < length ns"
  shows "parse8 (take 8 (drop (8 * i) (concat (map fmt_08X ns) @ s))) = Some (ns ! i)"
  using assms
proof (induction ns arbitrary: i)
  case (Cons n ns)
  have l: "length (fmt_08X n) = 8" using Cons.prems length_fmt_08X [of n] by simp
  show ?case
  proof (cases i)
    case 0
    then show ?thesis using l Cons.prems by (simp add: parse8_fmt)
  next
    case (Suc j)
    then show ?thesis using l Cons by simp
  qed
qed simp

lemma those_map_Some: "(\<And>x. x \<in> set xs \<Longrightarrow> f x = Some (g x)) \<Longrightarrow> those (map f xs) = Some (map g xs)"
  by (induction xs) auto

lemma decode_fields_fmt:
  assumes "list_all (\<lambda>n. n < 2 ^ 32) ns" "length ns = 13"
  shows "decode_fields (concat (map fmt_08X ns) @ s) = Some ns"
proof -
  have "decode_fields (concat (map fmt_08X ns) @ s) = Some (map ((!) ns) [0..<13])"
    unfolding decode_fields_def
    by (rule those_map_Some, rule decode_chunk) (use assms in auto)
  moreover have "map ((!) ns) [0..<13] = ns" using map_nth [of ns] assms(2) by simp
  ultimately show ?thesis by simp
qed

definition header_fields :: "cpio_entry \<Rightarrow> nat list" where
  "header_fields e =
     [unat (ce_ino e), unat (ce_mode e), unat (ce_uid e), unat (ce_gid e), unat (ce_nlink e),
      unat (ce_mtime e), length (ce_data e), unat (ce_major e), unat (ce_minor e),
      unat (ce_rmajor e), unat (ce_rminor e), Suc (length (ce_name e)), 0]"

lemma unat_u64_of_nat: "n < 2 ^ 32 \<Longrightarrow> unat (word_of_nat n :: u64) = n"
  by (simp add: unat_of_nat)

lemma unat_u32_of_nat: "n < 2 ^ 32 \<Longrightarrow> unat (word_of_nat n :: u32) = n"
  by (simp add: unat_of_nat)

lemma entry_header_fields:
  assumes "entry_ok e"
  shows "entry_header e = ''070701'' @ concat (map fmt_08X (header_fields e))"
proof -
  have "unat (word_of_nat (length (ce_name e)) + 1 :: u32) = Suc (length (ce_name e))"
    using assms unat_u32_of_nat [of "Suc (length (ce_name e))"] by (simp add: entry_ok_def add.commute)
  moreover have "unat (word_of_nat (length (ce_data e)) :: u64) = length (ce_data e)"
    using assms by (intro unat_u64_of_nat) (simp add: entry_ok_def)
  ultimately show ?thesis
    by (simp only: entry_header_def newc_header_def header_fields_def)
qed

lemma header_fields_small: "entry_ok e \<Longrightarrow> list_all (\<lambda>n. n < 2 ^ 32) (header_fields e)"
  by (simp add: header_fields_def entry_ok_def unat_u32_less [simplified])

lemma length_entry_header: "entry_ok e \<Longrightarrow> length (entry_header e) = 110"
  using length_concat_fmt [OF header_fields_small [of e]]
  by (simp add: entry_header_fields) (simp add: header_fields_def)

lemma length_encode_entry: "entry_ok e \<Longrightarrow> length (encode_entry e) mod 4 = 0"
proof -
  assume e: "entry_ok e"
  let ?n = "110 + Suc (length (ce_name e))" and ?d = "length (ce_data e)"
  have "length (encode_entry e) = (?n + pad 4 ?n) + (?d + pad 4 ?d)"
    using length_entry_header [OF e] by (simp add: encode_entry_def)
  moreover have "4 dvd (?n + pad 4 ?n)" "4 dvd (?d + pad 4 ?d)"
    by (rule mod_0_imp_dvd, rule pad_aligns, simp)+
  ultimately show ?thesis by (simp only: dvd_add dvd_imp_mod_0)
qed

lemma decode_encode_entry:
  assumes "entry_ok e"
  shows "decode_entry (encode_entry e @ rest) = Some (e, rest)"
proof -
  let ?ns = "Suc (length (ce_name e))" and ?d = "length (ce_data e)"
  let ?tail = "ce_name e @ [NUL] @ replicate (pad 4 (110 + ?ns)) NUL @ ce_data e @ replicate (pad 4 ?d) NUL @ rest"
  have s: "encode_entry e @ rest = ''070701'' @ concat (map fmt_08X (header_fields e)) @ ?tail"
    by (simp add: encode_entry_def entry_header_fields [OF assms])
  have h: "take 6 (encode_entry e @ rest) = ''070701''"
    "drop 6 (encode_entry e @ rest) = concat (map fmt_08X (header_fields e)) @ ?tail"
    unfolding s by simp_all
  have f: "decode_fields (drop 6 (encode_entry e @ rest)) = Some (header_fields e)"
    unfolding h(2) by (rule decode_fields_fmt [OF header_fields_small [OF assms]]) (simp add: header_fields_def)
  have s1: "drop 110 (encode_entry e @ rest) = ?tail"
    using length_entry_header [OF assms] by (simp add: encode_entry_def)
  have s2: "drop (?ns + pad 4 (110 + ?ns)) ?tail = ce_data e @ replicate (pad 4 ?d) NUL @ rest"
    by simp
  show ?thesis
    unfolding decode_entry_def h(1) f header_fields_def s1
    by (simp add: Let_def s2 [simplified])
qed

lemma decode_archive_encode:
  assumes "list_all entry_ok es" "\<forall>e\<in>set es. ce_name e \<noteq> ''TRAILER!!!''" "length es < fuel"
  shows "decode_archive fuel (concat (map encode_entry es) @ encode_entry trailer_entry @ rest) = Some es"
  using assms
proof (induction es arbitrary: fuel)
  case Nil
  obtain k where "fuel = Suc k" using Nil.prems(3) by (cases fuel) auto
  moreover have "entry_ok trailer_entry" by (simp add: entry_ok_def trailer_entry_def cstring_def)
  ultimately show ?case by (simp add: decode_encode_entry) (simp add: trailer_entry_def)
next
  case (Cons e es)
  obtain k where "fuel = Suc k" using Cons.prems(3) by (cases fuel) auto
  with Cons show ?case by (simp add: decode_encode_entry)
qed

lemma trailer_ok: "entry_ok trailer_entry"
  by (simp add: entry_ok_def trailer_entry_def cstring_def)

lemma trailer_header:
  "newc_header 0 0 0 0 1 0 0 0 0 0 0 (word_of_nat (length ''TRAILER!!!'') + 1) = entry_header trailer_entry"
  by (simp add: entry_header_def trailer_entry_def)

lemma length_trailer: "length (encode_entry trailer_entry) = 124"
  using length_entry_header [OF trailer_ok]
  by (simp add: encode_entry_def) (simp add: trailer_entry_def pad_def)

lemma cpio_trailer_emit:
  assumes f: "f_ok (ms_fp st)" and k: "ms_offset st = word_of_nat k"
  shows "cpio_trailer st = emit (encode_entry trailer_entry @ replicate (pad 512 (k + 124)) NUL) st"
proof -
  let ?h = "entry_header trailer_entry" and ?n = "''TRAILER!!!''"
  have h: "push_hdr ?h st = emit ?h st"
    by (rule push_hdr_emit) (rule length_entry_header [OF trailer_ok])
  have "push_rest ?n (push_hdr ?h st) = emit (encode_entry trailer_entry) st"
  proof -
    have "push_rest ?n (push_hdr ?h st) =
        emit (?n @ [NUL] @ replicate (pad 4 (110 + Suc (length ?n))) NUL) (emit ?h st)"
      unfolding h by (rule push_rest_emit) (simp only: f_ok_emit f)
    also have "\<dots> = emit (encode_entry trailer_entry) st"
      by (simp only: emit_append [OF f, symmetric]) (simp add: encode_entry_def trailer_entry_def pad_def)
    finally show ?thesis .
  qed
  moreover have "pad 512 (unat (ms_offset (emit (encode_entry trailer_entry) st))) =
      pad 512 (k + 124)"
  proof -
    have "ms_offset (emit (encode_entry trailer_entry) st) = word_of_nat (k + 124)"
      using k by (simp add: emit_def length_trailer)
    then show ?thesis by (simp only: pad512_word)
  qed
  ultimately show ?thesis
    unfolding cpio_trailer_def Let_def trailer_header
    using f by (simp add: pad512_emit emit_append)
qed

end
