(* ===== verification/C_Library.thy ===== *)
theory C_Library
  imports Prelude
begin

text \<open>
  The parts of C and its library that several programs use: narrowing and division of integers,
  the conversions of \<^verbatim>\<open>sscanf\<close>, decimal printing and its round trip, the searches of \<^verbatim>\<open>string.h\<close> and
  \<^verbatim>\<open>strncmp\<close>, on C strings.
\<close>

section \<open>Numbers\<close>

text \<open>The value of an \<^verbatim>\<open>int\<close> stored in a signed \<^verbatim>\<open>char\<close>.\<close>

definition schar :: "int \<Rightarrow> int" where
  "schar v = sint (word_of_int v :: u8)"

lemma schar_id: "-128 \<le> v \<Longrightarrow> v < 128 \<Longrightarrow> schar v = v"
  by (simp add: schar_def signed_of_int signed_take_bit_int_eq_self)

text \<open>The value of an \<^verbatim>\<open>int\<close> in range survives being kept as a word.\<close>

lemma sint_word_of_int: "- (2 ^ 31) \<le> v \<Longrightarrow> v < 2 ^ 31 \<Longrightarrow> sint (word_of_int v :: u32) = v"
  by (simp add: signed_of_int signed_take_bit_int_eq_self)

text \<open>C's division and remainder truncate towards zero.\<close>

definition c_div :: "int \<Rightarrow> int \<Rightarrow> int" where
  "c_div a b = sgn a * sgn b * (\<bar>a\<bar> div \<bar>b\<bar>)"

definition c_mod :: "int \<Rightarrow> int \<Rightarrow> int" where
  "c_mod a b = a - c_div a b * b"

lemma c_div_pos: "0 \<le> a \<Longrightarrow> 0 < b \<Longrightarrow> c_div a b = a div b"
  by (cases "a = 0") (simp_all add: c_div_def)

lemma c_mod_pos: "0 \<le> a \<Longrightarrow> 0 < b \<Longrightarrow> c_mod a b = a mod b"
  by (simp add: c_mod_def c_div_pos minus_div_mult_eq_mod)

lemma c_div_mult: "0 < b \<Longrightarrow> c_div (b * q) b = q"
  by (simp add: c_div_def abs_mult sgn_mult mult_sgn_abs)

section \<open>Scanning\<close>

definition c_isspace :: "char \<Rightarrow> bool" where
  "c_isspace c \<longleftrightarrow> c \<in> {CHR '' '', CHR 0x09, CHR 0x0A, CHR 0x0B, CHR 0x0C, CHR 0x0D}"

definition c_isgraph :: "char \<Rightarrow> bool" where
  "c_isgraph c \<longleftrightarrow> 32 < (of_char c :: nat) \<and> (of_char c :: nat) < 127"

definition skip_ws :: "string \<Rightarrow> string" where
  "skip_ws s = dropWhile c_isspace s"

text \<open>\<^verbatim>\<open>%4096s\<close>: a token of at most \<open>n\<close> characters and the rest of the input.\<close>

definition scan_str :: "nat \<Rightarrow> string \<Rightarrow> (string \<times> string) option" where
  "scan_str n s =
     (let s1 = skip_ws s; t = take n (takeWhile (\<lambda>c. \<not> c_isspace c) s1)
      in if t = [] then None else Some (t, drop (length t) s1))"

definition digit_in :: "nat \<Rightarrow> char \<Rightarrow> bool" where
  "digit_in base c \<longleftrightarrow> 48 \<le> (of_char c :: nat) \<and> of_char c < 48 + base"

definition num_of :: "nat \<Rightarrow> string \<Rightarrow> nat" where
  "num_of base ds = foldl (\<lambda>a c. base * a + (of_char c - 48)) 0 ds"

text \<open>An optional sign and at least one digit: sign, magnitude and rest.\<close>

definition scan_num :: "nat \<Rightarrow> string \<Rightarrow> (bool \<times> nat \<times> string) option" where
  "scan_num base s =
     (let s1 = skip_ws s;
          (neg, s2) = (case s1 of
             c # r \<Rightarrow> if c = CHR ''-'' then (True, r) else if c = CHR ''+'' then (False, r) else (False, s1)
           | [] \<Rightarrow> (False, []));
          ds = takeWhile (digit_in base) s2
      in if ds = [] then None else Some (neg, num_of base ds, drop (length ds) s2))"

text \<open>
  \<^verbatim>\<open>%d\<close> converts like \<^verbatim>\<open>strtol\<close> (64 bits, saturating) and stores the low 32 bits;
  \<^verbatim>\<open>%o\<close> and \<^verbatim>\<open>%u\<close> convert like \<^verbatim>\<open>strtoul\<close>, where a sign negates modulo \<open>2 ^ 64\<close>.
\<close>

definition scan_int :: "string \<Rightarrow> (u32 \<times> string) option" where
  "scan_int s = (case scan_num 10 s of
     None \<Rightarrow> None
   | Some (neg, m, r) \<Rightarrow>
       Some (word_of_int (if neg then max (- (2 ^ 63)) (- int m) else min (2 ^ 63 - 1) (int m)), r))"

text \<open>\<^verbatim>\<open>sscanf(s, "%d", &x)\<close> leaves the variable alone when there is no number.\<close>

definition scan_into :: "string \<Rightarrow> int \<Rightarrow> int" where
  "scan_into s x = (case scan_int s of None \<Rightarrow> x | Some (w, _) \<Rightarrow> sint w)"

definition scan_unsigned :: "nat \<Rightarrow> string \<Rightarrow> (u32 \<times> string) option" where
  "scan_unsigned base s = (case scan_num base s of
     None \<Rightarrow> None
   | Some (neg, m, r) \<Rightarrow>
       Some (if 2 ^ 64 \<le> m then word_of_int (2 ^ 64 - 1)
             else if neg then word_of_int (- int m) else word_of_nat m, r))"

definition scan_char :: "string \<Rightarrow> (char \<times> string) option" where
  "scan_char s = (case skip_ws s of [] \<Rightarrow> None | c # r \<Rightarrow> Some (c, r))"

section \<open>Printing numbers\<close>

text \<open>\<^verbatim>\<open>%d\<close> of a non-negative number and of any number; the conversion reads it back.\<close>

fun dec_string :: "nat \<Rightarrow> string" where
  "dec_string n = (if n < 10 then [char_of (48 + n)] else dec_string (n div 10) @ [char_of (48 + n mod 10)])"

declare dec_string.simps [simp del]

definition int_string :: "int \<Rightarrow> string" where
  "int_string v = (if v < 0 then CHR ''-'' # dec_string (nat (- v)) else dec_string (nat v))"

lemma of_char_digit [simp]: "d < 10 \<Longrightarrow> of_char (char_of (48 + d :: nat)) = 48 + d"
  by simp

lemma num_of_snoc: "num_of base (ds @ [c]) = base * num_of base ds + (of_char c - 48)"
  by (simp add: num_of_def)

lemma dec_string_ok:
  "list_all (digit_in 10) (dec_string n) \<and> dec_string n \<noteq> [] \<and> num_of 10 (dec_string n) = n"
proof (induction n rule: dec_string.induct)
  case (1 n)
  have one: "list_all (digit_in 10) [char_of (48 + d)] \<and> of_char (char_of (48 + d :: nat)) - 48 = d" if "d < 10" for d
    using that by (simp add: digit_in_def)
  show ?case
  proof (cases "n < 10")
    case True
    then show ?thesis using one [OF True] by (subst (1 2 3) dec_string.simps) (simp add: num_of_def)
  next
    case False
    have IH: "list_all (digit_in 10) (dec_string (n div 10))" "num_of 10 (dec_string (n div 10)) = n div 10"
      using "1.IH" [OF False] by auto
    have e: "dec_string n = dec_string (n div 10) @ [char_of (48 + n mod 10)]"
      using False by (subst dec_string.simps) simp
    have "num_of 10 (dec_string n) = 10 * (n div 10) + n mod 10"
      unfolding e num_of_snoc IH(2) using one [of "n mod 10"] by simp
    then have "num_of 10 (dec_string n) = n" by simp
    then show ?thesis using e IH(1) one [of "n mod 10"] by simp
  qed
qed

text \<open>A number is read back when no digit follows it.\<close>

definition no_digit :: "string \<Rightarrow> bool" where
  "no_digit r \<longleftrightarrow> (case r of [] \<Rightarrow> True | c # _ \<Rightarrow> \<not> digit_in 10 c)"

lemma digit_not_space: "digit_in 10 c \<Longrightarrow> \<not> c_isspace c \<and> c \<noteq> CHR ''-'' \<and> c \<noteq> CHR ''+''"
  by (auto simp: digit_in_def c_isspace_def)

lemma takeWhile_dec: "no_digit r \<Longrightarrow> takeWhile (digit_in 10) (dec_string n @ r) = dec_string n"
  using dec_string_ok [of n] by (subst takeWhile_append2) (auto simp: list_all_iff no_digit_def split: list.splits)

lemma scan_num_int_string:
  assumes "no_digit r"
  shows "scan_num 10 (int_string v @ r) = Some (v < 0, nat \<bar>v\<bar>, r)"
proof -
  obtain c ds where d: "dec_string (nat \<bar>v\<bar>) = c # ds" "digit_in 10 c"
    using dec_string_ok [of "nat \<bar>v\<bar>"] by (cases "dec_string (nat \<bar>v\<bar>)") auto
  note t = takeWhile_dec [OF assms, of "nat \<bar>v\<bar>"] dec_string_ok [of "nat \<bar>v\<bar>"]
  show ?thesis
  proof (cases "v < 0")
    case True
    then have "int_string v = CHR ''-'' # dec_string (nat \<bar>v\<bar>)" by (simp add: int_string_def)
    then show ?thesis using True t by (simp add: scan_num_def skip_ws_def c_isspace_def)
  next
    case False
    then have "int_string v = dec_string (nat \<bar>v\<bar>)" by (simp add: int_string_def)
    moreover have "skip_ws (dec_string (nat \<bar>v\<bar>) @ r) = dec_string (nat \<bar>v\<bar>) @ r"
      using d digit_not_space [OF d(2)] by (simp add: skip_ws_def)
    ultimately show ?thesis using False t d digit_not_space [OF d(2)]
      by (simp add: scan_num_def del: takeWhile.simps)
  qed
qed

lemma scan_int_int_string:
  assumes "no_digit r" "- (2 ^ 31) \<le> v" "v < 2 ^ 31"
  shows "scan_int (int_string v @ r) = Some (word_of_int v, r)"
  using assms by (simp add: scan_int_def scan_num_int_string)

lemma scan_into_int_string: "- (2 ^ 31) \<le> v \<Longrightarrow> v < 2 ^ 31 \<Longrightarrow> scan_into (int_string v) x = v"
  using scan_int_int_string [where v = v and r = "[]"] sint_word_of_int [of v]
  by (simp add: scan_into_def no_digit_def)

section \<open>Searching\<close>

text \<open>\<^verbatim>\<open>strstr\<close> and \<^verbatim>\<open>strchr\<close>, as positions.\<close>

fun strstr_pos :: "string \<Rightarrow> string \<Rightarrow> nat option" where
  "strstr_pos [] pat = (if pat = [] then Some 0 else None)"
| "strstr_pos (c # s) pat =
     (if take (length pat) (c # s) = pat then Some 0 else map_option Suc (strstr_pos s pat))"

fun strchr_pos :: "string \<Rightarrow> char \<Rightarrow> nat option" where
  "strchr_pos [] c = None"
| "strchr_pos (d # s) c = (if d = c then Some 0 else map_option Suc (strchr_pos s c))"

lemma strstr_pos_Some:
  "strstr_pos s pat = Some i \<Longrightarrow> \<exists>r. s = take i s @ pat @ r \<and> i + length pat \<le> length s"
proof (induction s arbitrary: i)
  case (Cons c s)
  show ?case
  proof (cases "take (length pat) (c # s) = pat")
    case True
    then have "i = 0" using Cons.prems by simp
    moreover have "length pat \<le> length (c # s)" by (metis True length_take min.absorb_iff2 nat_le_linear)
    ultimately show ?thesis by (intro exI [of _ "drop (length pat) (c # s)"]) (metis True add_0 append_Nil append_take_drop_id take_0)
  next
    case False
    then obtain k where "strstr_pos s pat = Some k" "i = Suc k" using Cons.prems by auto
    then show ?thesis using Cons.IH by fastforce
  qed
qed (auto split: if_splits)

lemma strchr_pos_Some: "strchr_pos s c = Some k \<Longrightarrow> k < length s \<and> s ! k = c"
  by (induction s arbitrary: k) (auto split: if_splits)

text \<open>
  \<open>strncmp_eq s t n\<close> is \<^verbatim>\<open>!strncmp(s, t, n)\<close>: the strings agree up to \<open>n\<close> characters or a
  common end. \<open>c_at s i\<close> is \<^verbatim>\<open>s[i]\<close> for the array of the characters and the NUL: nothing beyond.
\<close>

fun strncmp_eq :: "string \<Rightarrow> string \<Rightarrow> nat \<Rightarrow> bool" where
  "strncmp_eq s t 0 = True"
| "strncmp_eq [] [] (Suc n) = True"
| "strncmp_eq (a # s) (b # t) (Suc n) = (a = b \<and> strncmp_eq s t n)"
| "strncmp_eq _ _ (Suc n) = False"

definition c_at :: "string \<Rightarrow> nat \<Rightarrow> char option" where
  "c_at s i = (if i < length s then Some (s ! i) else if i = length s then Some NUL else None)"

lemma strncmp_eq_prefix: "strncmp_eq s t (length t) \<longleftrightarrow> take (length t) s = t"
proof (induction t arbitrary: s)
  case (Cons b t)
  then show ?case by (cases s) auto
qed simp

lemma c_at_less [simp]: "i < length s \<Longrightarrow> c_at s i = Some (s ! i)"
  by (simp add: c_at_def)

section \<open>Occurrences\<close>

definition occurs_at :: "string \<Rightarrow> string \<Rightarrow> nat \<Rightarrow> bool" where
  "occurs_at pat s i \<longleftrightarrow> i + length pat \<le> length s \<and> take (length pat) (drop i s) = pat"

lemma occurs_at_nth:
  "occurs_at pat s i \<longleftrightarrow> i + length pat \<le> length s \<and> (\<forall>k < length pat. s ! (i + k) = pat ! k)"
  by (auto simp: occurs_at_def list_eq_iff_nth_eq)

lemma strstr_pos_cons:
  "strstr_pos (c # s) pat = (if occurs_at pat (c # s) 0 then Some 0 else map_option Suc (strstr_pos s pat))"
proof -
  have "take (length pat) (c # s) = pat \<longleftrightarrow> occurs_at pat (c # s) 0"
    by (metis add_0 append_take_drop_id drop0 le_add1 length_append occurs_at_def)
  then show ?thesis by simp
qed

lemma occurs_at_Suc [simp]: "occurs_at pat (c # s) (Suc i) \<longleftrightarrow> occurs_at pat s i"
  by (simp add: occurs_at_def)

text \<open>\<^verbatim>\<open>strstr\<close> finds the first occurrence.\<close>

lemma strstr_pos_first:
  "strstr_pos s pat = Some i \<longleftrightarrow> occurs_at pat s i \<and> (\<forall>k < i. \<not> occurs_at pat s k)"
proof (induction s arbitrary: i)
  case Nil
  then show ?case by (auto simp: occurs_at_def)
next
  case (Cons c s)
  show ?case
  proof (cases i)
    case 0
    then show ?thesis unfolding strstr_pos_cons by auto
  next
    case (Suc j)
    have "(\<forall>k < Suc j. \<not> occurs_at pat (c # s) k) \<longleftrightarrow>
        \<not> occurs_at pat (c # s) 0 \<and> (\<forall>k < j. \<not> occurs_at pat s k)"
      by (simp add: All_less_Suc2)
    then show ?thesis unfolding strstr_pos_cons using Suc Cons.IH [of j] by auto
  qed
qed

lemma strstr_pos_none: "strstr_pos s pat = None \<longleftrightarrow> (\<forall>i. \<not> occurs_at pat s i)"
proof
  assume n: "strstr_pos s pat = None"
  show "\<forall>i. \<not> occurs_at pat s i"
  proof (rule ccontr)
    assume "\<not> (\<forall>i. \<not> occurs_at pat s i)"
    then have "\<exists>i. occurs_at pat s i" by blast
    then have "\<exists>i. occurs_at pat s i \<and> (\<forall>k < i. \<not> occurs_at pat s k)" by (rule exists_least_iff [THEN iffD1])
    then show False using n strstr_pos_first by (metis option.distinct(1))
  qed
qed (metis not_None_eq strstr_pos_first)

lemma length_dec_string: "n < 10 ^ Suc k \<Longrightarrow> length (dec_string n) \<le> Suc k"
proof (induction k arbitrary: n)
  case 0
  then show ?case by (subst dec_string.simps) simp
next
  case (Suc k)
  have "n div 10 < 10 ^ Suc k" using Suc.prems by (simp add: less_mult_imp_div_less)
  then show ?case using Suc.IH [of "n div 10"] by (subst dec_string.simps) simp
qed

lemma int_string_char: "c \<in> set (int_string v) \<Longrightarrow> c = CHR ''-'' \<or> digit_in 10 c"
  using dec_string_ok by (auto simp: int_string_def list_all_iff split: if_splits)

lemma int_string_nonempty [simp]: "int_string v \<noteq> []"
  using dec_string_ok by (simp add: int_string_def)

lemma length_int_string:
  assumes "- (10 ^ 10) < v" "v < 10 ^ 10"
  shows "length (int_string v) \<le> 11"
proof (cases "v < 0")
  case True
  then have "nat (- v) < 10 ^ Suc 9" using assms by simp
  then have "length (dec_string (nat (- v))) \<le> Suc 9" by (rule length_dec_string)
  then show ?thesis using True by (simp add: int_string_def)
next
  case False
  then have "nat v < 10 ^ Suc 9" using assms by simp
  then have "length (dec_string (nat v)) \<le> Suc 9" by (rule length_dec_string)
  then show ?thesis using False by (simp add: int_string_def)
qed

section \<open>Lines of a file\<close>

text \<open>\<^verbatim>\<open>fgets\<close> with a buffer of \<open>n\<close> on the text still to be read.\<close>

definition fgets :: "nat \<Rightarrow> string \<Rightarrow> (string \<times> string) option" where
  "fgets n s =
     (if s = [] \<or> n \<le> 1 then None
      else let k = min (n - 1) (case strchr_pos s CHR 0x0A of Some j \<Rightarrow> Suc j | None \<Rightarrow> length s)
           in Some (take k s, drop k s))"

lemma strchr_pos_first: "strchr_pos s c = Some k \<Longrightarrow> i < k \<Longrightarrow> s ! i \<noteq> c"
  by (induction s arbitrary: k i) (auto simp: nth_Cons split: if_splits nat.splits)

lemma strchr_pos_None: "strchr_pos s c = None \<longleftrightarrow> c \<notin> set s"
  by (induction s) auto

text \<open>\<^verbatim>\<open>fgets\<close> cuts off a non-empty piece that fits, ends at a newline or is as long as can be.\<close>

lemma fgets_split:
  assumes "fgets n s = Some (line, rest)"
  shows "s = line @ rest" "line \<noteq> []" "length line < n" "\<forall>i < length line - 1. line ! i \<noteq> CHR 0x0A"
    "rest \<noteq> [] \<Longrightarrow> last line = CHR 0x0A \<or> length line = n - 1"
proof -
  let ?m = "case strchr_pos s CHR 0x0A of Some j \<Rightarrow> Suc j | None \<Rightarrow> length s"
  have n: "s \<noteq> []" "1 < n" and l: "line = take (min (n - 1) ?m) s" and r: "rest = drop (min (n - 1) ?m) s"
    using assms by (auto simp: fgets_def Let_def split: if_splits)
  have m: "0 < ?m" "?m \<le> length s" using n(1) by (auto split: option.splits dest!: strchr_pos_Some)
  have before: "s ! i \<noteq> CHR 0x0A" if "i < ?m - 1" for i
  proof (cases "strchr_pos s CHR 0x0A")
    case None
    then have "CHR 0x0A \<notin> set s" by (simp add: strchr_pos_None)
    moreover have "i < length s" using that m(2) by linarith
    ultimately show ?thesis using nth_mem by metis
  next
    case (Some j)
    then show ?thesis using that strchr_pos_first by simp
  qed
  have ll: "length line = min (n - 1) ?m" using l m(2) by simp
  show "s = line @ rest" using l r by simp
  show "line \<noteq> []" using ll m n(2) by (metis length_0_conv min_def less_numeral_extra(3) zero_less_diff)
  show "length line < n" using ll n(2) by linarith
  show "\<forall>i < length line - 1. line ! i \<noteq> CHR 0x0A"
  proof (intro allI impI)
    fix i assume i: "i < length line - 1"
    then have "line ! i = s ! i" by (metis l ll diff_le_self less_le_trans nth_take)
    moreover have "i < ?m - 1" using i ll by linarith
    ultimately show "line ! i \<noteq> CHR 0x0A" using before [of i] by simp
  qed
  show "last line = CHR 0x0A \<or> length line = n - 1" if "rest \<noteq> []"
  proof (cases "strchr_pos s CHR 0x0A")
    case None
    then show ?thesis using that ll r by (simp add: min_def split: if_splits)
  next
    case (Some j)
    have "last line = CHR 0x0A" if "\<not> n - 1 \<le> Suc j"
      using that Some l strchr_pos_Some [OF Some] by (simp add: min_def take_Suc_conv_app_nth)
    then show ?thesis using ll Some by (auto simp: min_def)
  qed
qed

text \<open>A whole line that the buffer has room for.\<close>

lemma strchr_pos_append: "c \<notin> set l \<Longrightarrow> strchr_pos (l @ c # r) c = Some (length l)"
  by (induction l) auto

lemma fgets_whole_line:
  assumes "CHR 0x0A \<notin> set l" "length l + 1 < n"
  shows "fgets n (l @ CHR 0x0A # r) = Some (l @ [CHR 0x0A], r)"
  using assms(2) strchr_pos_append [OF assms(1), of r] by (simp add: fgets_def Let_def)

end
