(* ===== verification/Cpio_Line.thy ===== *)
theory Cpio_Line
  imports Cpio_Format C_Library "HOL-Library.Monad_Syntax"
begin

unbundle bit_operations_syntax

text \<open>
  The line handlers of \<^verbatim>\<open>src/gen_init_cpio.c\<close>: the expansion of environment variables in file locations, and the routines that emit one
  archive entry for a directory, pipe, socket, device node, symbolic link or regular file.
  The operating system is a record of functions (open, fstat, malloc, read, fwrite, getenv);
  everything the handlers do with its answers is modelled. A handler takes the inode counter
  and the thread's state and returns its return code with both.
\<close>

definition PATH_MAX :: nat where
  "PATH_MAX = 4096"

section \<open>Outcomes and the operating system\<close>

datatype ub_kind = NullArgument | BufferOverflow | NoReturn | FreedLine

datatype 'a outcome = Returns 'a | Undefined ub_kind

record os =
  os_open :: "string \<Rightarrow> nat option"
  os_fstat :: "nat \<Rightarrow> (u64 \<times> u64) option"
  os_malloc :: "nat \<Rightarrow> string option"
  os_read :: "nat \<Rightarrow> nat \<Rightarrow> string option"
  os_fwrite :: "string \<Rightarrow> bool"
  os_getenv :: "string \<Rightarrow> string option"

type_synonym wstate = "u32 \<times> my_state"
type_synonym handler = "wstate \<Rightarrow> (int \<times> wstate) outcome"

definition S_IFDIR :: u32 where "S_IFDIR = 0x4000"
definition S_IFIFO :: u32 where "S_IFIFO = 0x1000"
definition S_IFSOCK :: u32 where "S_IFSOCK = 0xC000"
definition S_IFLNK :: u32 where "S_IFLNK = 0xA000"
definition S_IFREG :: u32 where "S_IFREG = 0x8000"
definition S_IFBLK :: u32 where "S_IFBLK = 0x6000"
definition S_IFCHR :: u32 where "S_IFCHR = 0x2000"

text \<open>\<^verbatim>\<open>get_ino\<close>: fetch and add on the shared counter, which starts at 721.\<close>

definition i_no_init :: u32 where
  "i_no_init = 721"

definition get_ino :: "u32 \<Rightarrow> u32 \<times> u32" where
  "get_ino i_no = (i_no, i_no + 1)"

definition strip_slash :: "string \<Rightarrow> string" where
  "strip_slash name = (case name of c # r \<Rightarrow> if c = CHR ''/'' then r else name | [] \<Rightarrow> name)"

section \<open>Symbolic links\<close>

definition cpio_mkslink ::
  "u64 \<Rightarrow> string \<Rightarrow> string \<Rightarrow> u32 \<Rightarrow> u32 \<Rightarrow> u32 \<Rightarrow> wstate \<Rightarrow> int \<times> wstate" where
  "cpio_mkslink default_mtime name target mode uid gid w =
     (let (i_no, st) = w; name = strip_slash name; (ino, i_no) = get_ino i_no;
          s = newc_header ino (S_IFLNK OR mode) uid gid 1 default_mtime
                (ucast (word_of_nat (length target) + 1 :: u32)) 3 1 0 0 (word_of_nat (length name) + 1);
          st = push_hdr s st;
          st = push_string name st;
          st = push_pad st;
          st = push_string target st;
          st = push_pad st
      in (0, i_no, st))"

text \<open>The \<^verbatim>\<open>sscanf\<close> call of a handler: the fields, or a mismatch.\<close>

definition slink_args :: "string \<Rightarrow> (string \<times> string \<times> u32 \<times> u32 \<times> u32) option" where
  "slink_args l = do {
     (name, l) \<leftarrow> scan_str PATH_MAX l;
     (target, l) \<leftarrow> scan_str PATH_MAX l;
     (mode, l) \<leftarrow> scan_unsigned 8 l;
     (uid, l) \<leftarrow> scan_int l;
     (gid, l) \<leftarrow> scan_int l;
     Some (name, target, mode, uid, gid)
   }"

definition cpio_mkslink_line :: "u64 \<Rightarrow> string option \<Rightarrow> handler" where
  "cpio_mkslink_line default_mtime line w =
     (case line of
        None \<Rightarrow> Undefined NullArgument
      | Some l \<Rightarrow>
          (case slink_args l of
             None \<Rightarrow> Returns (-1, w)
           | Some (name, target, mode, uid, gid) \<Rightarrow>
               Returns (cpio_mkslink default_mtime name target mode uid gid w)))"

section \<open>Directories, pipes and sockets\<close>

definition cpio_mkgeneric :: "u64 \<Rightarrow> string \<Rightarrow> u32 \<Rightarrow> u32 \<Rightarrow> u32 \<Rightarrow> wstate \<Rightarrow> int \<times> wstate" where
  "cpio_mkgeneric default_mtime name mode uid gid w =
     (let (i_no, st) = w; name = strip_slash name; (ino, i_no) = get_ino i_no;
          s = newc_header ino mode uid gid 2 default_mtime 0 3 1 0 0 (word_of_nat (length name) + 1);
          st = push_hdr s st;
          st = push_rest name st
      in (0, i_no, st))"

datatype generic_types = GT_DIR | GT_PIPE | GT_SOCK

fun generic_type_table :: "generic_types \<Rightarrow> u32" where
  "generic_type_table GT_DIR = S_IFDIR"
| "generic_type_table GT_PIPE = S_IFIFO"
| "generic_type_table GT_SOCK = S_IFSOCK"

definition generic_args :: "string \<Rightarrow> (string \<times> u32 \<times> u32 \<times> u32) option" where
  "generic_args l = do {
     (name, l) \<leftarrow> scan_str PATH_MAX l;
     (mode, l) \<leftarrow> scan_unsigned 8 l;
     (uid, l) \<leftarrow> scan_int l;
     (gid, l) \<leftarrow> scan_int l;
     Some (name, mode, uid, gid)
   }"

definition cpio_mkgeneric_line :: "u64 \<Rightarrow> generic_types \<Rightarrow> string option \<Rightarrow> handler" where
  "cpio_mkgeneric_line default_mtime gt line w =
     (case line of
        None \<Rightarrow> Undefined NullArgument
      | Some l \<Rightarrow>
          (case generic_args l of
             None \<Rightarrow> Returns (-1, w)
           | Some (name, mode, uid, gid) \<Rightarrow>
               Returns (cpio_mkgeneric default_mtime name (mode OR generic_type_table gt) uid gid w)))"

definition cpio_mkdir_line :: "u64 \<Rightarrow> string option \<Rightarrow> handler" where
  "cpio_mkdir_line default_mtime line = cpio_mkgeneric_line default_mtime GT_DIR line"

definition cpio_mkpipe_line :: "u64 \<Rightarrow> string option \<Rightarrow> handler" where
  "cpio_mkpipe_line default_mtime line = cpio_mkgeneric_line default_mtime GT_PIPE line"

definition cpio_mksock_line :: "u64 \<Rightarrow> string option \<Rightarrow> handler" where
  "cpio_mksock_line default_mtime line = cpio_mkgeneric_line default_mtime GT_SOCK line"

section \<open>Device nodes\<close>

definition cpio_mknod ::
  "u64 \<Rightarrow> string \<Rightarrow> u32 \<Rightarrow> u32 \<Rightarrow> u32 \<Rightarrow> char \<Rightarrow> u32 \<Rightarrow> u32 \<Rightarrow> wstate \<Rightarrow> int \<times> wstate" where
  "cpio_mknod default_mtime name mode uid gid dev_type major minor w =
     (let (i_no, st) = w;
          mode = (if dev_type = CHR ''b'' then mode OR S_IFBLK else mode OR S_IFCHR);
          name = strip_slash name; (ino, i_no) = get_ino i_no;
          s = newc_header ino mode uid gid 1 default_mtime 0 3 1 major minor (word_of_nat (length name) + 1);
          st = push_hdr s st;
          st = push_rest name st
      in (0, i_no, st))"

definition nod_args :: "string \<Rightarrow> (string \<times> u32 \<times> u32 \<times> u32 \<times> char \<times> u32 \<times> u32) option" where
  "nod_args l = do {
     (name, l) \<leftarrow> scan_str PATH_MAX l;
     (mode, l) \<leftarrow> scan_unsigned 8 l;
     (uid, l) \<leftarrow> scan_int l;
     (gid, l) \<leftarrow> scan_int l;
     (dev_type, l) \<leftarrow> scan_char l;
     (major, l) \<leftarrow> scan_unsigned 10 l;
     (minor, l) \<leftarrow> scan_unsigned 10 l;
     Some (name, mode, uid, gid, dev_type, major, minor)
   }"

definition cpio_mknod_line :: "u64 \<Rightarrow> string option \<Rightarrow> handler" where
  "cpio_mknod_line default_mtime line w =
     (case line of
        None \<Rightarrow> Undefined NullArgument
      | Some l \<Rightarrow>
          (case nod_args l of
             None \<Rightarrow> Returns (-1, w)
           | Some (name, mode, uid, gid, dev_type, major, minor) \<Rightarrow>
               Returns (cpio_mknod default_mtime name mode uid gid dev_type major minor w)))"

section \<open>Regular files\<close>

text \<open>
  The loop of \<^verbatim>\<open>cpio_mkfile\<close>, lines 440 to 478, over the names that lie one behind the other in
  \<open>dname\<close>; the contents go with the last one. \<open>buf\<close> is \<open>filebuf\<close>, of the \<open>st_size\<close> bytes
  \<^verbatim>\<open>fstat\<close> reported.
\<close>

fun mkfile_links ::
  "os \<Rightarrow> u32 \<Rightarrow> u32 \<Rightarrow> u32 \<Rightarrow> u32 \<Rightarrow> u32 \<Rightarrow> u64 \<Rightarrow> u64 \<Rightarrow> string \<Rightarrow> string list \<Rightarrow> my_state \<Rightarrow> int \<times> my_state" where
  "mkfile_links sys ino mode uid gid nlinks mtime st_size buf [] st = (0, st)"
| "mkfile_links sys ino mode uid gid nlinks mtime st_size buf (nm # names) st =
     (let size = (if names = [] then st_size else 0);
          name = strip_slash nm;
          namesize = word_of_nat (length name) + 1;
          s = newc_header ino mode uid gid nlinks mtime size 3 1 0 0 namesize;
          st = push_hdr s st;
          st = push_string name st;
          st = push_pad st
      in if size \<noteq> 0 then
           if \<not> os_fwrite sys buf then (-1, st)
           else let st = st\<lparr>ms_fp := f_write buf (ms_fp st), ms_offset := ms_offset st + ucast size\<rparr>;
                    st = push_pad st
                in mkfile_links sys ino mode uid gid nlinks mtime st_size buf names st
         else mkfile_links sys ino mode uid gid nlinks mtime st_size buf names st)"

definition cpio_mkfile ::
  "os \<Rightarrow> string list \<Rightarrow> string \<Rightarrow> u32 \<Rightarrow> u32 \<Rightarrow> u32 \<Rightarrow> u32 \<Rightarrow> wstate \<Rightarrow> int \<times> wstate" where
  "cpio_mkfile sys names location mode uid gid nlinks w =
     (let (i_no, st) = w; mode = mode OR S_IFREG in
      case os_open sys location of
        None \<Rightarrow> (-1, w)
      | Some fd \<Rightarrow>
          (case os_fstat sys fd of
             None \<Rightarrow> (-1, w)
           | Some (st_size, st_mtime) \<Rightarrow>
               (case os_malloc sys (unat st_size) of
                  None \<Rightarrow> (-1, w)
                | Some filebuf \<Rightarrow>
                    (case os_read sys fd (unat st_size) of
                       None \<Rightarrow> (-1, w)
                     | Some bs \<Rightarrow>
                         let filebuf = bs @ drop (length bs) filebuf;
                             (ino, i_no) = get_ino i_no;
                             (rc, st) = mkfile_links sys ino mode uid gid nlinks st_mtime st_size filebuf names st
                         in (rc, i_no, st)))))"

text \<open>
  One turn of the loop of \<^verbatim>\<open>cpio_replace_env\<close>: \<open>None\<close> when it leaves the loop. An unset
  variable hands \<^verbatim>\<open>strncat\<close> a null pointer; a result that does not fit with its NUL overruns
  \<open>expanded\<close> or leaves \<open>new_location\<close> unterminated.
\<close>

definition env_step :: "(string \<Rightarrow> string option) \<Rightarrow> string \<Rightarrow> string outcome option" where
  "env_step getenv loc =
     (case strstr_pos loc ''${'' of
        None \<Rightarrow> None
      | Some i \<Rightarrow>
          (case strchr_pos (drop i loc) CHR ''}'' of
             None \<Rightarrow> None
           | Some k \<Rightarrow>
               let env_var = take (k - 2) (drop (i + 2) loc) in
               (case getenv env_var of
                  None \<Rightarrow> Some (Undefined NullArgument)
                | Some v \<Rightarrow>
                    let expanded = take i loc @ take PATH_MAX v @ take PATH_MAX (drop (i + k + 1) loc)
                    in if length expanded < PATH_MAX then Some (Returns expanded)
                       else Some (Undefined BufferOverflow))))"

partial_function (option) cpio_replace_env ::
  "(string \<Rightarrow> string option) \<Rightarrow> string \<Rightarrow> string outcome option" where
  "cpio_replace_env getenv loc =
     (case env_step getenv loc of
        None \<Rightarrow> Some (Returns loc)
      | Some (Returns loc') \<Rightarrow> cpio_replace_env getenv loc'
      | Some (Undefined k) \<Rightarrow> Some (Undefined k))"

text \<open>The hard-link names behind the fixed fields, lines 542 to 552.\<close>

function link_names :: "string \<Rightarrow> string list" where
  "link_names l =
     (case scan_str PATH_MAX l of
        None \<Rightarrow> []
      | Some (name, r) \<Rightarrow>
          let r' = skip_ws r in
          name # (if r' \<noteq> [] \<and> c_isgraph (hd r') then link_names r' else []))"
  by pat_completeness auto

lemma scan_str_shorter: "scan_str n l = Some (t, r) \<Longrightarrow> length r < length l"
proof -
  assume a: "scan_str n l = Some (t, r)"
  let ?s = "skip_ws l"
  have t: "t = take n (takeWhile (\<lambda>c. \<not> c_isspace c) ?s)" "t \<noteq> []" "r = drop (length t) ?s"
    using a by (auto simp: scan_str_def Let_def split: if_splits)
  have "length t \<le> length ?s" unfolding t(1) using length_takeWhile_le [of "\<lambda>c. \<not> c_isspace c" ?s] by simp
  then have "length r < length ?s" using t(2,3) by (cases ?s) auto
  also have "\<dots> \<le> length l" by (simp add: skip_ws_def length_dropWhile_le)
  finally show ?thesis .
qed

lemma length_skip_ws: "length (skip_ws l) \<le> length l"
  by (simp add: skip_ws_def length_dropWhile_le)

termination link_names
  by (relation "measure length") (auto dest!: scan_str_shorter intro: le_less_trans [OF length_skip_ws])

declare link_names.simps [simp del]

text \<open>
  The bytes the names take in \<open>dname\<close>, which is allocated with \<^verbatim>\<open>strlen(line)\<close> bytes.
\<close>

definition dname_len :: "string list \<Rightarrow> nat" where
  "dname_len names = sum_list (map (\<lambda>n. Suc (length n)) names)"

definition mkfile_env ::
  "os \<Rightarrow> string list \<Rightarrow> string \<Rightarrow> u32 \<Rightarrow> u32 \<Rightarrow> u32 \<Rightarrow> wstate \<Rightarrow> (int \<times> wstate) outcome" where
  "mkfile_env sys names location mode uid gid w =
     (case cpio_replace_env (os_getenv sys) location of
        None \<Rightarrow> Undefined NoReturn
      | Some (Undefined k) \<Rightarrow> Undefined k
      | Some (Returns location) \<Rightarrow>
          Returns (cpio_mkfile sys names location mode uid gid (word_of_nat (length names)) w))"

definition file_args :: "string \<Rightarrow> (string \<times> string \<times> u32 \<times> u32 \<times> u32 \<times> string) option" where
  "file_args l = do {
     (name, l) \<leftarrow> scan_str PATH_MAX l;
     (location, l) \<leftarrow> scan_str PATH_MAX l;
     (mode, l) \<leftarrow> scan_unsigned 8 l;
     (uid, l) \<leftarrow> scan_int l;
     (gid, l) \<leftarrow> scan_int l;
     Some (name, location, mode, uid, gid, skip_ws l)
   }"

definition cpio_mkfile_line :: "os \<Rightarrow> string option \<Rightarrow> handler" where
  "cpio_mkfile_line sys line w =
     (case line of
        None \<Rightarrow> Undefined NullArgument
      | Some l \<Rightarrow>
          (case file_args l of
             None \<Rightarrow> Returns (-1, w)
           | Some (name, location, mode, uid, gid, rest) \<Rightarrow>
               if rest \<noteq> [] \<and> c_isgraph (hd rest) then
                 (case os_malloc sys (length l) of
                    None \<Rightarrow> Returns (-1, w)
                  | Some dname \<Rightarrow>
                      let names = name # link_names rest in
                      if length l < dname_len names then Undefined BufferOverflow
                      else mkfile_env sys names location mode uid gid w)
               else mkfile_env sys [name] location mode uid gid w))"

end
