(* ===== verification/Cpio_Handlers.thy ===== *)
theory Cpio_Handlers
  imports Cpio_Line
begin

unbundle bit_operations_syntax

text \<open>
  What the line handlers of \<^verbatim>\<open>src/gen_init_cpio.c\<close> append to the archive. Each maker, from a
  state whose counter agrees with the file and is a multiple of four, appends exactly the
  encoding of the entry it was asked for and leaves such a state behind.
\<close>

section \<open>Appending one entry\<close>

definition aligned :: "my_state \<Rightarrow> bool" where
  "aligned st \<longleftrightarrow> st_ok st \<and> 4 dvd length (written st)"

lemma aligned_f_ok: "aligned st \<Longrightarrow> f_ok (ms_fp st)"
  by (simp add: aligned_def st_ok_def)

lemma aligned_emit: "aligned st \<Longrightarrow> 4 dvd length bs \<Longrightarrow> aligned (emit bs st)"
  by (simp add: aligned_def st_ok_emit) (simp add: st_ok_def)

lemma aligned_encode: "aligned st \<Longrightarrow> entry_ok e \<Longrightarrow> aligned (emit (encode_entry e) st)"
  using length_encode_entry [of e] by (intro aligned_emit) (auto intro: mod_0_imp_dvd)

lemma pad4_add: "4 dvd a \<Longrightarrow> pad 4 (a + b) = pad 4 b"
  by (rule pad_mod) (auto elim!: dvdE)

text \<open>Header, name and fill bytes, in the two ways the program writes them.\<close>

definition entry_front :: "cpio_entry \<Rightarrow> string" where
  "entry_front e = entry_header e @ ce_name e @ [NUL] @
     replicate (pad 4 (110 + Suc (length (ce_name e)))) NUL"

lemma encode_front: "encode_entry e = entry_front e @ ce_data e @ replicate (pad 4 (length (ce_data e))) NUL"
  by (simp add: encode_entry_def entry_front_def)

lemma encode_front_empty: "ce_data e = [] \<Longrightarrow> encode_entry e = entry_front e"
  by (simp add: encode_front pad_def)

lemma length_entry_front: "entry_ok e \<Longrightarrow> 4 dvd length (entry_front e)"
proof -
  assume "entry_ok e"
  then have "length (entry_front e) = 110 + Suc (length (ce_name e)) + pad 4 (110 + Suc (length (ce_name e)))"
    by (simp add: entry_front_def length_entry_header)
  moreover have "4 dvd 110 + Suc (length (ce_name e)) + pad 4 (110 + Suc (length (ce_name e)))"
    by (rule mod_0_imp_dvd, rule pad_aligns) simp
  ultimately show ?thesis by simp
qed

lemma push_front_rest:
  assumes "aligned st" "entry_ok e"
  shows "push_rest (ce_name e) (push_hdr (entry_header e) st) = emit (entry_front e) st"
proof -
  note f = aligned_f_ok [OF assms(1)]
  have h: "push_hdr (entry_header e) st = emit (entry_header e) st"
    by (rule push_hdr_emit, rule length_entry_header [OF assms(2)])
  have "push_rest (ce_name e) (push_hdr (entry_header e) st) =
      emit (ce_name e @ [NUL] @ replicate (pad 4 (110 + Suc (length (ce_name e)))) NUL) (emit (entry_header e) st)"
    unfolding h by (rule push_rest_emit) (rule f_ok_emit [OF f])
  then show ?thesis by (simp only: emit_append [OF f, symmetric] entry_front_def)
qed

lemma push_front_pad:
  assumes "aligned st" "entry_ok e"
  shows "push_pad (push_string (ce_name e) (push_hdr (entry_header e) st)) = emit (entry_front e) st"
proof -
  note f = aligned_f_ok [OF assms(1)]
  let ?n = "ce_name e"
  have h: "push_hdr (entry_header e) st = emit (entry_header e) st"
    by (rule push_hdr_emit, rule length_entry_header [OF assms(2)])
  have s: "push_string ?n (emit (entry_header e) st) = emit (entry_header e @ ?n @ [NUL]) st"
    by (simp only: push_string_emit [OF f_ok_emit [OF f]] emit_append [OF f, symmetric])
  have ok: "st_ok (emit (entry_header e @ ?n @ [NUL]) st)"
    using assms(1) by (intro st_ok_emit) (simp add: aligned_def)
  have "pad 4 (length (written (emit (entry_header e @ ?n @ [NUL]) st))) = pad 4 (110 + Suc (length ?n))"
    using assms f pad4_add [of "length (written st)" "110 + Suc (length ?n)"]
    by (simp add: aligned_def length_entry_header)
  then show ?thesis
    by (simp only: h s push_pad_written [OF ok] emit_append [OF f, symmetric] entry_front_def append_assoc)
qed

lemma push_data_pad:
  assumes "aligned st"
  shows "push_pad (emit bs st) = emit (bs @ replicate (pad 4 (length bs)) NUL) st"
proof -
  note f = aligned_f_ok [OF assms]
  have ok: "st_ok (emit bs st)" using assms by (intro st_ok_emit) (simp add: aligned_def)
  have "pad 4 (length (written (emit bs st))) = pad 4 (length bs)"
    using assms f pad4_add by (simp add: aligned_def)
  then show ?thesis by (simp only: push_pad_written [OF ok] emit_append [OF f, symmetric])
qed

section \<open>The entries asked for\<close>

definition slink_entry :: "u64 \<Rightarrow> u32 \<Rightarrow> string \<Rightarrow> string \<Rightarrow> u32 \<Rightarrow> u32 \<Rightarrow> u32 \<Rightarrow> cpio_entry" where
  "slink_entry mtime ino name target mode uid gid =
     \<lparr>ce_ino = ino, ce_mode = S_IFLNK OR mode, ce_uid = uid, ce_gid = gid, ce_nlink = 1, ce_mtime = mtime,
      ce_major = 3, ce_minor = 1, ce_rmajor = 0, ce_rminor = 0,
      ce_name = strip_slash name, ce_data = target @ [NUL]\<rparr>"

definition special_entry ::
  "u64 \<Rightarrow> u32 \<Rightarrow> string \<Rightarrow> u32 \<Rightarrow> u32 \<Rightarrow> u32 \<Rightarrow> u32 \<Rightarrow> u32 \<Rightarrow> u32 \<Rightarrow> cpio_entry" where
  "special_entry mtime ino name mode uid gid nlink rmajor rminor =
     \<lparr>ce_ino = ino, ce_mode = mode, ce_uid = uid, ce_gid = gid, ce_nlink = nlink, ce_mtime = mtime,
      ce_major = 3, ce_minor = 1, ce_rmajor = rmajor, ce_rminor = rminor,
      ce_name = strip_slash name, ce_data = []\<rparr>"

definition file_entry :: "u64 \<Rightarrow> u32 \<Rightarrow> u32 \<Rightarrow> u32 \<Rightarrow> u32 \<Rightarrow> u32 \<Rightarrow> string \<Rightarrow> string \<Rightarrow> cpio_entry" where
  "file_entry mtime ino mode uid gid nlinks name contents =
     \<lparr>ce_ino = ino, ce_mode = mode, ce_uid = uid, ce_gid = gid, ce_nlink = nlinks, ce_mtime = mtime,
      ce_major = 3, ce_minor = 1, ce_rmajor = 0, ce_rminor = 0,
      ce_name = strip_slash name, ce_data = contents\<rparr>"

text \<open>One entry per hard link; the contents go with the last.\<close>

fun file_entries :: "u64 \<Rightarrow> u32 \<Rightarrow> u32 \<Rightarrow> u32 \<Rightarrow> u32 \<Rightarrow> u32 \<Rightarrow> string list \<Rightarrow> string \<Rightarrow> cpio_entry list" where
  "file_entries mtime ino mode uid gid nlinks [] contents = []"
| "file_entries mtime ino mode uid gid nlinks (nm # names) contents =
     file_entry mtime ino mode uid gid nlinks nm (if names = [] then contents else []) #
     file_entries mtime ino mode uid gid nlinks names contents"

section \<open>The makers\<close>

lemma mkslink_emits:
  assumes "aligned st" "entry_ok (slink_entry mtime i name target mode uid gid)"
  shows "cpio_mkslink mtime name target mode uid gid (i, st) =
    (0, i + 1, emit (encode_entry (slink_entry mtime i name target mode uid gid)) st)"
proof -
  let ?e = "slink_entry mtime i name target mode uid gid"
  note f = aligned_f_ok [OF assms(1)]
  have "Suc (length target) < 2 ^ 32" using assms(2) by (simp add: entry_ok_def slink_entry_def)
  then have "unat (word_of_nat (length target) + 1 :: u32) = Suc (length target)"
    using unat_u32_of_nat [of "Suc (length target)"] by (simp add: add.commute)
  then have "ucast (word_of_nat (length target) + 1 :: u32) = (word_of_nat (Suc (length target)) :: u64)"
    by (metis of_nat_unat)
  then have h: "newc_header i (S_IFLNK OR mode) uid gid 1 mtime
      (ucast (word_of_nat (length target) + 1 :: u32)) 3 1 0 0 (word_of_nat (length (strip_slash name)) + 1) =
      entry_header ?e"
    by (simp add: entry_header_def slink_entry_def)
  have n: "ce_name ?e = strip_slash name" and d: "ce_data ?e = target @ [NUL]"
    by (simp_all add: slink_entry_def)
  have al: "aligned (emit (entry_front ?e) st)"
    by (rule aligned_emit [OF assms(1) length_entry_front [OF assms(2)]])
  have "push_pad (push_string target (emit (entry_front ?e) st)) = emit (encode_entry ?e) st"
    unfolding push_string_emit [OF f_ok_emit [OF f]] push_data_pad [OF al]
    by (simp only: emit_append [OF f, symmetric] encode_front d append_assoc)
  then show ?thesis
    using push_front_pad [OF assms, unfolded n]
    by (simp add: cpio_mkslink_def get_ino_def Let_def h)
qed

lemma mkgeneric_emits:
  assumes "aligned st" "entry_ok (special_entry mtime i name mode uid gid 2 0 0)"
  shows "cpio_mkgeneric mtime name mode uid gid (i, st) =
    (0, i + 1, emit (encode_entry (special_entry mtime i name mode uid gid 2 0 0)) st)"
proof -
  let ?e = "special_entry mtime i name mode uid gid 2 0 0"
  have "newc_header i mode uid gid 2 mtime 0 3 1 0 0 (word_of_nat (length (strip_slash name)) + 1) = entry_header ?e"
    by (simp add: entry_header_def special_entry_def)
  moreover have "ce_name ?e = strip_slash name" "ce_data ?e = []" by (simp_all add: special_entry_def)
  ultimately show ?thesis
    using push_front_rest [OF assms] by (simp add: cpio_mkgeneric_def get_ino_def Let_def encode_front_empty)
qed

lemma mknod_emits:
  fixes mode :: u32 and dev :: char
  defines "m \<equiv> mode OR (if dev = CHR ''b'' then S_IFBLK else S_IFCHR)"
  assumes "aligned st" "entry_ok (special_entry mtime i name m uid gid 1 major minor)"
  shows "cpio_mknod mtime name mode uid gid dev major minor (i, st) =
    (0, i + 1, emit (encode_entry (special_entry mtime i name m uid gid 1 major minor)) st)"
proof -
  let ?e = "special_entry mtime i name m uid gid 1 major minor"
  have "newc_header i m uid gid 1 mtime 0 3 1 major minor (word_of_nat (length (strip_slash name)) + 1) = entry_header ?e"
    by (simp add: entry_header_def special_entry_def)
  moreover have "ce_name ?e = strip_slash name" "ce_data ?e = []" by (simp_all add: special_entry_def)
  moreover have "(if dev = CHR ''b'' then mode OR S_IFBLK else mode OR S_IFCHR) = m" by (simp add: m_def)
  ultimately show ?thesis
    using push_front_rest [OF assms(2,3)] by (simp add: cpio_mknod_def get_ino_def Let_def encode_front_empty)
qed

abbreviation encode_all :: "cpio_entry list \<Rightarrow> string" where
  "encode_all es \<equiv> concat (map encode_entry es)"

lemma aligned_encode_all:
  "aligned st \<Longrightarrow> list_all entry_ok es \<Longrightarrow> aligned (emit (encode_all es) st)"
proof (induction es arbitrary: st)
  case Nil
  then show ?case by (simp add: aligned_f_ok)
next
  case (Cons e es)
  then have "aligned (emit (encode_all es) (emit (encode_entry e) st))"
    by (simp add: aligned_encode)
  then show ?case using emit_append [OF aligned_f_ok [OF Cons.prems(1)]] by simp
qed

lemma mkfile_links_emits:
  assumes "aligned st" "list_all entry_ok (file_entries mtime ino mode uid gid nlinks names buf)"
    and "unat fsize = length buf" "buf \<noteq> [] \<Longrightarrow> os_fwrite sys buf"
  shows "mkfile_links sys ino mode uid gid nlinks mtime fsize buf names st =
    (0, emit (encode_all (file_entries mtime ino mode uid gid nlinks names buf)) st)"
  using assms(1,2)
proof (induction names arbitrary: st)
  case Nil
  then show ?case by (simp add: aligned_f_ok)
next
  case (Cons nm names)
  let ?sz = "if names = [] then fsize else 0"
  let ?e = "file_entry mtime ino mode uid gid nlinks nm (if names = [] then buf else [])"
  note f = aligned_f_ok [OF Cons.prems(1)]
  have ok: "entry_ok ?e" "list_all entry_ok (file_entries mtime ino mode uid gid nlinks names buf)"
    using Cons.prems(2) by simp_all
  have sz: "fsize = word_of_nat (length buf)" "(ucast fsize :: u32) = word_of_nat (length buf)"
    using assms(3) by (metis of_nat_unat ucast_id)+
  have n: "ce_name ?e = strip_slash nm" by (simp add: file_entry_def)
  have h: "newc_header ino mode uid gid nlinks mtime ?sz 3 1 0 0 (word_of_nat (length (strip_slash nm)) + 1) =
      entry_header ?e"
    by (simp add: entry_header_def file_entry_def sz(1))
  note front = push_front_pad [OF Cons.prems(1) ok(1), unfolded n, folded h]
  have al: "aligned (emit (entry_front ?e) st)"
    by (rule aligned_emit [OF Cons.prems(1) length_entry_front [OF ok(1)]])
  have step: "mkfile_links sys ino mode uid gid nlinks mtime fsize buf (nm # names) st =
      mkfile_links sys ino mode uid gid nlinks mtime fsize buf names (emit (encode_entry ?e) st)"
  proof (cases "?sz = 0")
    case True
    have "names = [] \<longrightarrow> buf = []" using True assms(3) by auto
    then have d: "ce_data ?e = []" by (simp add: file_entry_def)
    show ?thesis
      unfolding mkfile_links.simps(2) Let_def front encode_front_empty [OF d]
      by (simp only: True simp_thms if_False)
  next
    case False
    then have ne: "names = []" "fsize \<noteq> 0" by (auto split: if_splits)
    then have "buf \<noteq> []" using assms(3) by (metis list.size(3) unat_eq_zero)
    then have w: "os_fwrite sys buf" by (rule assms(4))
    have b: "st1\<lparr>ms_fp := f_write buf (ms_fp st1), ms_offset := ms_offset st1 + ucast ?sz\<rparr> = emit buf st1" for st1
      by (simp only: emit_def sz(2) ne if_True simp_thms)
    have d: "ce_data ?e = buf" using ne by (simp add: file_entry_def)
    have "push_pad (emit buf (emit (entry_front ?e) st)) = emit (encode_entry ?e) st"
      unfolding push_data_pad [OF al] by (simp only: emit_append [OF f, symmetric] encode_front d)
    then show ?thesis
      unfolding mkfile_links.simps(2) Let_def front b
      by (simp only: False w simp_thms if_True if_False)
  qed
  have "aligned (emit (encode_entry ?e) st)" by (rule aligned_encode [OF Cons.prems(1) ok(1)])
  from Cons.IH [OF this ok(2)] show ?case
    unfolding step by (simp add: emit_append [OF f, symmetric])
qed

section \<open>The contract of a line handler\<close>

text \<open>
  \<open>ents l\<close> lists the entries a line asks for, with inode number 0. On a null argument the
  handler reads through it. On a line that meets its precondition it returns; when the line
  asks for nothing it reports -1 and changes nothing, otherwise it takes one inode number,
  appends the encodings of exactly the entries asked for under that number, and reports 0.
\<close>

definition with_ino :: "u32 \<Rightarrow> cpio_entry \<Rightarrow> cpio_entry" where
  "with_ino i e = e\<lparr>ce_ino := i\<rparr>"

lemma entry_ok_with_ino [simp]: "entry_ok (with_ino i e) = entry_ok e"
  by (simp add: with_ino_def entry_ok_def)

lemma list_all_with_ino [simp]: "list_all entry_ok (map (with_ino i) es) = list_all entry_ok es"
  by (induction es) simp_all

definition appended :: "cpio_entry list \<Rightarrow> wstate \<Rightarrow> int \<times> wstate" where
  "appended es w =
     (let (i, st) = w in
      if es = [] then (-1, w) else (0, i + 1, emit (encode_all (map (with_ino i) es)) st))"

locale line_handler =
  fixes h :: "string option \<Rightarrow> handler" and pre :: "string \<Rightarrow> bool" and ents :: "string \<Rightarrow> cpio_entry list"
  assumes null: "h None w = Undefined NullArgument"
    and appends: "aligned st \<Longrightarrow> pre l \<Longrightarrow> h (Some l) (i, st) = Returns (appended (ents l) (i, st))"
    and ents_ok: "pre l \<Longrightarrow> list_all entry_ok (ents l)"
begin

lemma returns_aligned:
  assumes "aligned st" "pre l" "h (Some l) (i, st) = Returns (rc, i', st')"
  shows "aligned st'"
  using appends [OF assms(1,2), of i] assms(1,3) ents_ok [OF assms(2)] aligned_encode_all [OF assms(1), of "map (with_ino i) (ents l)"]
  by (auto simp: appended_def Let_def simp del: map_map split: if_splits)

lemma output_decodes:
  assumes "aligned st" "pre l" "written st = encode_all es0" "list_all entry_ok es0"
    and "\<forall>e\<in>set (es0 @ ents l). ce_name e \<noteq> ''TRAILER!!!''" "length (es0 @ ents l) < fuel"
    and "h (Some l) (i, st) = Returns (rc, i', st')"
  shows "decode_archive fuel (written st' @ encode_entry trailer_entry @ rest) =
    Some (es0 @ map (with_ino i) (ents l))"
proof -
  have "written st' = encode_all (es0 @ map (with_ino i) (ents l))"
    using appends [OF assms(1,2), of i] assms(3,7) written_emit [OF aligned_f_ok [OF assms(1)]]
    by (auto simp: appended_def Let_def split: if_splits)
  moreover have "decode_archive fuel (encode_all (es0 @ map (with_ino i) (ents l)) @ encode_entry trailer_entry @ rest) =
      Some (es0 @ map (with_ino i) (ents l))"
    using assms(4-6) ents_ok [OF assms(2)]
    by (intro decode_archive_encode) (auto simp: with_ino_def list_all_iff entry_ok_def)
  ultimately show ?thesis by simp
qed

end

text \<open>Lines as the program reads them: NUL-free and shorter than its buffer.\<close>

definition LINE_SIZE :: nat where
  "LINE_SIZE = 2 * PATH_MAX + 50"

definition line_ok :: "u64 \<Rightarrow> string \<Rightarrow> bool" where
  "line_ok mtime l \<longleftrightarrow> cstring l \<and> length l < LINE_SIZE \<and> unat mtime < 2 ^ 32"

lemma skip_ws_set: "set (skip_ws l) \<subseteq> set l"
  unfolding skip_ws_def by (meson set_dropWhileD subsetI)

lemma scan_str_props:
  assumes "scan_str n l = Some (t, r)"
  shows "length t \<le> n" "t \<noteq> []" "set t \<subseteq> set l" "set r \<subseteq> set l"
    "length t + length r \<le> length l"
    "length t = n \<or> r = [] \<or> c_isspace (hd r)"
proof -
  let ?s = "skip_ws l"
  let ?w = "takeWhile (\<lambda>c. \<not> c_isspace c) ?s"
  have t: "t = take n ?w" "t \<noteq> []" "r = drop (length t) ?s"
    using assms by (auto simp: scan_str_def Let_def split: if_splits)
  have tl: "length t \<le> length ?w" using t(1) by simp
  have wl: "length ?w \<le> length ?s" by (rule length_takeWhile_le)
  show "length t \<le> n" "t \<noteq> []" using t by auto
  show "set t \<subseteq> set l"
  proof -
    have "set ?w \<subseteq> set ?s" by (meson set_takeWhileD subsetI)
    then show ?thesis unfolding t(1) using skip_ws_set [of l] set_take_subset [of n ?w] by blast
  qed
  show "set r \<subseteq> set l" using t(3) skip_ws_set [of l] set_drop_subset [of "length t" ?s] by blast
  show "length t + length r \<le> length l" using t(3) tl wl length_skip_ws [of l] by simp
  show "length t = n \<or> r = [] \<or> c_isspace (hd r)"
  proof (cases "length t = n")
    case False
    then have "t = ?w" using t(1) by (simp add: min_def split: if_splits)
    then have "r = dropWhile (\<lambda>c. \<not> c_isspace c) ?s"
      using t(3) by (simp add: dropWhile_eq_drop)
    then show ?thesis using hd_dropWhile [of "\<lambda>c. \<not> c_isspace c" ?s] by auto
  qed simp
qed

lemma strip_slash_set: "set (strip_slash s) \<subseteq> set s"
  by (auto simp: strip_slash_def split: list.splits)

lemma strip_slash_length: "length (strip_slash s) \<le> length s"
  by (auto simp: strip_slash_def split: list.splits)

lemma name_ok:
  assumes "scan_str PATH_MAX l = Some (t, r)" "cstring l"
  shows "cstring (strip_slash t)" "Suc (length (strip_slash t)) < 2 ^ 32" "Suc (length t) < 2 ^ 32"
proof -
  note p = scan_str_props [OF assms(1)]
  show "cstring (strip_slash t)" using p(3) strip_slash_set [of t] assms(2) by (auto simp: cstring_def)
  show "Suc (length (strip_slash t)) < 2 ^ 32" "Suc (length t) < 2 ^ 32"
    using p(1) strip_slash_length [of t] by (auto simp: PATH_MAX_def)
qed

lemma scan_str_cstring: "scan_str n l = Some (t, r) \<Longrightarrow> cstring l \<Longrightarrow> cstring t \<and> cstring r"
  using scan_str_props(3,4) by (fastforce simp: cstring_def)

text \<open>The entries a line asks for.\<close>

definition slink_ents :: "u64 \<Rightarrow> string \<Rightarrow> cpio_entry list" where
  "slink_ents mtime l = (case slink_args l of None \<Rightarrow> []
     | Some (name, target, mode, uid, gid) \<Rightarrow> [slink_entry mtime 0 name target mode uid gid])"

definition generic_ents :: "u64 \<Rightarrow> generic_types \<Rightarrow> string \<Rightarrow> cpio_entry list" where
  "generic_ents mtime gt l = (case generic_args l of None \<Rightarrow> []
     | Some (name, mode, uid, gid) \<Rightarrow> [special_entry mtime 0 name (mode OR generic_type_table gt) uid gid 2 0 0])"

definition nod_ents :: "u64 \<Rightarrow> string \<Rightarrow> cpio_entry list" where
  "nod_ents mtime l = (case nod_args l of None \<Rightarrow> []
     | Some (name, mode, uid, gid, dev_type, major, minor) \<Rightarrow>
         [special_entry mtime 0 name (mode OR (if dev_type = CHR ''b'' then S_IFBLK else S_IFCHR))
            uid gid 1 major minor])"

lemma args_name:
  "slink_args l = Some (name, target, x) \<Longrightarrow>
    \<exists>r r'. scan_str PATH_MAX l = Some (name, r) \<and> scan_str PATH_MAX r = Some (target, r')"
  "generic_args l = Some (name, y) \<Longrightarrow> \<exists>r. scan_str PATH_MAX l = Some (name, r)"
  "nod_args l = Some (name, z) \<Longrightarrow> \<exists>r. scan_str PATH_MAX l = Some (name, r)"
  by (auto simp: slink_args_def generic_args_def nod_args_def bind_eq_Some_conv)

lemma slink_ents_ok: "line_ok mtime l \<Longrightarrow> list_all entry_ok (slink_ents mtime l)"
  using name_ok scan_str_cstring
  by (fastforce simp: slink_ents_def slink_entry_def entry_ok_def line_ok_def split: option.splits dest!: args_name)

lemma generic_ents_ok: "line_ok mtime l \<Longrightarrow> list_all entry_ok (generic_ents mtime gt l)"
  using name_ok
  by (fastforce simp: generic_ents_def special_entry_def entry_ok_def line_ok_def split: option.splits dest!: args_name)

lemma nod_ents_ok: "line_ok mtime l \<Longrightarrow> list_all entry_ok (nod_ents mtime l)"
  using name_ok
  by (fastforce simp: nod_ents_def special_entry_def entry_ok_def line_ok_def split: option.splits dest!: args_name)

lemma special_with_ino:
  "special_entry mtime i name mode uid gid n a b = with_ino i (special_entry mtime 0 name mode uid gid n a b)"
  by (simp add: special_entry_def with_ino_def)

lemma slink_with_ino:
  "slink_entry mtime i name target mode uid gid = with_ino i (slink_entry mtime 0 name target mode uid gid)"
  by (simp add: slink_entry_def with_ino_def)

interpretation mkslink: line_handler "cpio_mkslink_line mtime" "line_ok mtime" "slink_ents mtime" for mtime :: u64
proof
  fix w show "cpio_mkslink_line mtime None w = Undefined NullArgument"
    by (simp add: cpio_mkslink_line_def)
next
  fix st l i
  assume "aligned st" "line_ok mtime l"
  then show "cpio_mkslink_line mtime (Some l) (i, st) = Returns (appended (slink_ents mtime l) (i, st))"
    using mkslink_emits [of st mtime i] slink_ents_ok [of mtime l]
    by (auto simp: cpio_mkslink_line_def slink_ents_def appended_def slink_with_ino [of mtime i] split: option.splits)
qed (rule slink_ents_ok)

interpretation mkgeneric: line_handler "cpio_mkgeneric_line mtime gt" "line_ok mtime" "generic_ents mtime gt"
  for mtime :: u64 and gt :: generic_types
proof
  fix w show "cpio_mkgeneric_line mtime gt None w = Undefined NullArgument"
    by (simp add: cpio_mkgeneric_line_def)
next
  fix st l i
  assume "aligned st" "line_ok mtime l"
  then show "cpio_mkgeneric_line mtime gt (Some l) (i, st) = Returns (appended (generic_ents mtime gt l) (i, st))"
    using mkgeneric_emits [of st mtime i] generic_ents_ok [of mtime l gt]
    by (auto simp: cpio_mkgeneric_line_def generic_ents_def appended_def special_with_ino [of mtime i] split: option.splits)
qed (rule generic_ents_ok)

interpretation mknod: line_handler "cpio_mknod_line mtime" "line_ok mtime" "nod_ents mtime" for mtime :: u64
proof
  fix w show "cpio_mknod_line mtime None w = Undefined NullArgument"
    by (simp add: cpio_mknod_line_def)
next
  fix st l i
  assume "aligned st" "line_ok mtime l"
  then show "cpio_mknod_line mtime (Some l) (i, st) = Returns (appended (nod_ents mtime l) (i, st))"
    using mknod_emits [of st mtime i] nod_ents_ok [of mtime l]
    by (auto simp: cpio_mknod_line_def nod_ents_def appended_def special_with_ino [of mtime i] split: option.splits)
qed (rule nod_ents_ok)

end
