(* ===== verification/Cpio_File.thy ===== *)
theory Cpio_File
  imports Cpio_Handlers
begin

unbundle bit_operations_syntax

text \<open>
  The handler of \<open>file\<close> lines in \<^verbatim>\<open>src/gen_init_cpio.c\<close>: when the expansion of environment
  variables ends, why the buffer for the hard-link names is large enough although the code
  never checks it, and the contract of a line handler for \<open>cpio_mkfile_line\<close>.
\<close>

section \<open>Expansion of environment variables\<close>

lemma strstr_pos_no_dollar: "CHR ''$'' \<notin> set s \<Longrightarrow> strstr_pos s ''${'' = None"
proof (rule ccontr)
  assume "CHR ''$'' \<notin> set s" "strstr_pos s ''${'' \<noteq> None"
  then obtain i r where "s = take i s @ ''${'' @ r" using strstr_pos_Some by blast
  then have "CHR ''$'' \<in> set s" by (metis in_set_conv_decomp append_Cons)
  with \<open>CHR ''$'' \<notin> set s\<close> show False by simp
qed

lemma replace_env_plain: "CHR ''$'' \<notin> set loc \<Longrightarrow> cpio_replace_env getenv loc = Some (Returns loc)"
  by (subst cpio_replace_env.simps) (simp add: env_step_def strstr_pos_no_dollar)

text \<open>A turn of the loop removes a dollar sign when the value put in has none.\<close>

lemma env_step_dollars:
  assumes "\<And>x v. getenv x = Some v \<Longrightarrow> CHR ''$'' \<notin> set v"
    and "env_step getenv loc = Some (Returns loc')"
  shows "count_list loc' CHR ''$'' < count_list loc CHR ''$''"
proof -
  obtain i k v where i: "strstr_pos loc ''${'' = Some i" and k: "strchr_pos (drop i loc) CHR ''}'' = Some k"
    and v: "getenv (take (k - 2) (drop (i + 2) loc)) = Some v"
    and l: "loc' = take i loc @ take PATH_MAX v @ take PATH_MAX (drop (i + k + 1) loc)"
    using assms(2) by (auto simp: env_step_def Let_def split: option.splits if_splits)
  obtain r where r: "loc = take i loc @ ''${'' @ r" "i + 2 \<le> length loc"
    using strstr_pos_Some [OF i] by auto
  have cnt: "count_list (take n xs) c \<le> count_list xs c" for n xs and c :: char
    by (metis append_take_drop_id count_list_append le_add1)
  have cntd: "count_list (drop n xs) c \<le> count_list xs c" for n xs and c :: char
    by (metis append_take_drop_id count_list_append le_add2)
  have "count_list (take PATH_MAX v) CHR ''$'' = 0"
    using assms(1) [OF v] set_take_subset [of PATH_MAX v] by (auto simp: count_list_0_iff)
  moreover have "count_list (drop (i + k + 1) loc) CHR ''$'' \<le> count_list r CHR ''$''"
  proof (cases "k = 0")
    case True
    have "drop i loc ! 0 = CHR ''}''" using strchr_pos_Some [OF k] True by simp
    moreover have "drop i loc = ''${'' @ r" by (metis r append_eq_conv_conj length_take min.absorb2 add_leE)
    ultimately show ?thesis by simp
  next
    case False
    have "drop (i + k + 1) loc = drop (k - 1) r"
      using r False by (metis (no_types, opaque_lifting) add.commute add_leE append_eq_conv_conj drop_drop length_take
          min.absorb2 drop_Suc_Cons One_nat_def Suc_pred add_Suc_right append_Cons append_Nil not_gr_zero plus_1_eq_Suc)
    then show ?thesis using cntd by simp
  qed
  moreover have "count_list loc CHR ''$'' = count_list (take i loc) CHR ''$'' + Suc (count_list r CHR ''$'')"
    by (subst r(1)) simp
  moreover have "count_list (take PATH_MAX (drop (i + k + 1) loc)) CHR ''$'' \<le> count_list (drop (i + k + 1) loc) CHR ''$''"
    by (rule cnt)
  ultimately show ?thesis unfolding l by simp
qed

lemma replace_env_ends:
  assumes "\<And>x v. getenv x = Some v \<Longrightarrow> CHR ''$'' \<notin> set v"
  shows "\<exists>r. cpio_replace_env getenv loc = Some r"
proof (induction "count_list loc CHR ''$''" arbitrary: loc rule: less_induct)
  case less
  show ?case
  proof (cases "env_step getenv loc")
    case (Some s)
    show ?thesis
    proof (cases s)
      case (Returns loc')
      then have "count_list loc' CHR ''$'' < count_list loc CHR ''$''"
        using env_step_dollars [of getenv] assms Some by blast
      then obtain r where "cpio_replace_env getenv loc' = Some r" using less by blast
      then show ?thesis using Some Returns by (subst cpio_replace_env.simps) simp
    qed (use Some in \<open>subst cpio_replace_env.simps, simp\<close>)
  qed (subst cpio_replace_env.simps, simp)
qed

text \<open>A variable whose value names itself is replaced for ever.\<close>

lemma replace_env_diverges_step:
  assumes "env_step getenv loc = Some (Returns loc)"
  shows "cpio_replace_env getenv loc \<noteq> Some r"
proof
  assume h: "cpio_replace_env getenv loc = Some r"
  have "env_step getenv loc \<noteq> Some (Returns loc)"
  proof (rule cpio_replace_env.raw_induct [where P = "\<lambda>g l _. env_step g l \<noteq> Some (Returns l)", OF _ h])
    fix rec g l y
    assume ih: "\<And>l' b y. rec l' b = Some y \<Longrightarrow> env_step l' b \<noteq> Some (Returns b)"
      and y: "(case env_step g l of None \<Rightarrow> Some (Returns l) | Some (Returns loc') \<Rightarrow> rec g loc'
        | Some (Undefined k) \<Rightarrow> Some (Undefined k)) = Some y"
    show "env_step g l \<noteq> Some (Returns l)"
    proof
      assume e: "env_step g l = Some (Returns l)"
      then have "rec g l = Some y" using y by simp
      from ih [OF this] e show False by simp
    qed
  qed
  then show False using assms by simp
qed

section \<open>The buffer of the hard-link names\<close>

lemma link_names_len: "dname_len (link_names l) \<le> length l + 1 + length l div PATH_MAX"
proof (induction l rule: link_names.induct)
  case (1 l)
  show ?case
  proof (cases "scan_str PATH_MAX l")
    case None
    then show ?thesis by (subst link_names.simps) (simp add: dname_len_def)
  next
    case (Some nr)
    then obtain n r where s: "scan_str PATH_MAX l = Some (n, r)" by (cases nr) auto
    note p = scan_str_props [OF s]
    let ?r = "skip_ws r"
    show ?thesis
    proof (cases "?r \<noteq> [] \<and> c_isgraph (hd ?r)")
      case False
      then have "link_names l = [n]" using s by (subst link_names.simps) (auto simp: Let_def)
      then show ?thesis using p(5) by (simp add: dname_len_def)
    next
      case True
      then have ln: "dname_len (link_names l) = Suc (length n) + dname_len (link_names ?r)"
        using s by (subst link_names.simps) (simp add: Let_def dname_len_def)
      have ih: "dname_len (link_names ?r) \<le> length ?r + 1 + length ?r div PATH_MAX"
        using "1.IH" [OF s refl refl] True by blast
      have rl: "length ?r \<le> length r" by (rule length_skip_ws)
      have rne: "r \<noteq> []" using True by (auto simp: skip_ws_def)
      consider "length n = PATH_MAX" | "c_isspace (hd r)" using p(6) rne by blast
      then show ?thesis
      proof cases
        case 1
        then have "length ?r + PATH_MAX \<le> length l" using p(5) rl by simp
        then have "Suc (length ?r div PATH_MAX) \<le> length l div PATH_MAX"
          using div_le_mono [of "length ?r + PATH_MAX" "length l" PATH_MAX] by (simp add: PATH_MAX_def)
        then show ?thesis using ln ih p(5) rl 1 by linarith
      next
        case 2
        then have "?r = skip_ws (tl r)" using rne by (cases r) (auto simp: skip_ws_def)
        then have "length ?r < length r" using length_skip_ws [of "tl r"] rne by (cases r) auto
        moreover have "length ?r div PATH_MAX \<le> length l div PATH_MAX"
          using p(5) rl by (intro div_le_mono) linarith
        ultimately show ?thesis using ln ih p(5) by linarith
      qed
    qed
  qed
qed

lemma scan_num_shorter: "scan_num b l = Some (neg, m, r) \<Longrightarrow> length r < length l"
proof -
  assume a: "scan_num b l = Some (neg, m, r)"
  obtain ng s2 where s2: "(case skip_ws l of c # r \<Rightarrow> if c = CHR ''-'' then (True, r)
      else if c = CHR ''+'' then (False, r) else (False, skip_ws l) | [] \<Rightarrow> (False, [])) = (ng, s2)"
    by (rule prod.exhaust)
  let ?ds = "takeWhile (digit_in b) s2"
  have ds: "?ds \<noteq> []" "r = drop (length ?ds) s2"
    using a s2 unfolding scan_num_def Let_def by (auto split: if_splits)
  have "length s2 \<le> length (skip_ws l)"
  proof (cases "skip_ws l")
    case (Cons c cs)
    show ?thesis using s2 unfolding Cons by (simp split: if_splits) auto
  qed (use s2 in simp)
  also have "\<dots> \<le> length l" by (rule length_skip_ws)
  finally show ?thesis using ds by (cases s2) (auto split: if_splits)
qed

lemma scan_num_set: "scan_num b l = Some (neg, m, r) \<Longrightarrow> set r \<subseteq> set l"
proof -
  assume a: "scan_num b l = Some (neg, m, r)"
  obtain ng s2 where s2: "(case skip_ws l of c # r \<Rightarrow> if c = CHR ''-'' then (True, r)
      else if c = CHR ''+'' then (False, r) else (False, skip_ws l) | [] \<Rightarrow> (False, [])) = (ng, s2)"
    by (rule prod.exhaust)
  have "\<exists>n. r = drop n s2" using a s2 unfolding scan_num_def Let_def by (auto split: if_splits)
  moreover have "set s2 \<subseteq> set (skip_ws l)"
  proof (cases "skip_ws l")
    case (Cons c cs)
    show ?thesis using s2 unfolding Cons by (simp split: if_splits) auto
  qed (use s2 in simp)
  ultimately show ?thesis using skip_ws_set [of l] set_drop_subset by fastforce
qed

lemma scan_unsigned_set: "scan_unsigned b l = Some (v, r) \<Longrightarrow> set r \<subseteq> set l"
  by (auto simp: scan_unsigned_def split: option.splits dest: scan_num_set)

lemma scan_int_set: "scan_int l = Some (v, r) \<Longrightarrow> set r \<subseteq> set l"
  by (auto simp: scan_int_def split: option.splits dest: scan_num_set)

lemma scan_unsigned_shorter: "scan_unsigned b l = Some (v, r) \<Longrightarrow> length r < length l"
  by (auto simp: scan_unsigned_def split: option.splits dest: scan_num_shorter)

lemma scan_int_shorter: "scan_int l = Some (v, r) \<Longrightarrow> length r < length l"
  by (auto simp: scan_int_def split: option.splits dest: scan_num_shorter)

lemma dname_fits:
  assumes "length l < LINE_SIZE" "scan_str PATH_MAX l = Some (name, l1)" "scan_str PATH_MAX l1 = Some (loc, l2)"
    and "scan_unsigned 8 l2 = Some (mode, l3)" "scan_int l3 = Some (uid, l4)" "scan_int l4 = Some (gid, l5)"
  shows "dname_len (name # link_names (skip_ws l5)) \<le> length l"
proof -
  let ?r = "skip_ws l5"
  have "length ?r \<le> length l5" by (rule length_skip_ws)
  moreover have "length l5 < length l4" "length l4 < length l3" "length l3 < length l2" "length l2 < length l1"
    using assms(3-6) scan_int_shorter scan_unsigned_shorter scan_str_shorter by blast+
  ultimately have rl: "length ?r + 4 \<le> length l1" by linarith
  have l: "length name + length l1 \<le> length l" by (rule scan_str_props(5) [OF assms(2)])
  have "length ?r < 3 * PATH_MAX" using assms(1) rl l by (simp add: LINE_SIZE_def PATH_MAX_def)
  then have "length ?r div PATH_MAX \<le> 2" by (simp add: less_mult_imp_div_less less_Suc_eq_le [symmetric])
  then show ?thesis using link_names_len [of ?r] rl l by (simp add: dname_len_def)
qed

section \<open>The contract for file lines\<close>

text \<open>
  What the handler relies on: \<^verbatim>\<open>malloc\<close> returns a block of the size asked for, \<^verbatim>\<open>read\<close> at most
  the bytes asked for, the file's size and modification time fit the eight digits of the
  format, and writing to the temporary file succeeds.
\<close>

definition os_ok :: "os \<Rightarrow> bool" where
  "os_ok sys \<longleftrightarrow>
     (\<forall>n b. os_malloc sys n = Some b \<longrightarrow> length b = n) \<and>
     (\<forall>fd n bs. os_read sys fd n = Some bs \<longrightarrow> length bs \<le> n) \<and>
     (\<forall>fd sz mt. os_fstat sys fd = Some (sz, mt) \<longrightarrow> unat sz < 2 ^ 32 \<and> unat mt < 2 ^ 32) \<and>
     (\<forall>bs. os_fwrite sys bs)"

text \<open>The second word of the line is its location; expanding it has to end with a path.\<close>

definition location_ok :: "os \<Rightarrow> string \<Rightarrow> bool" where
  "location_ok sys l \<longleftrightarrow>
     (\<forall>name l1 loc l2. scan_str PATH_MAX l = Some (name, l1) \<longrightarrow> scan_str PATH_MAX l1 = Some (loc, l2) \<longrightarrow>
        (\<exists>p. cpio_replace_env (os_getenv sys) loc = Some (Returns p)))"

definition file_line_ok :: "os \<Rightarrow> string \<Rightarrow> bool" where
  "file_line_ok sys l \<longleftrightarrow> os_ok sys \<and> cstring l \<and> length l < LINE_SIZE \<and> location_ok sys l"

lemma file_entries_inode: "e \<in> set (file_entries mtime ino mode uid gid nl names buf) \<Longrightarrow> ce_ino e = ino"
  by (induction names) (auto simp: file_entry_def)

lemma file_entries_empty: "file_entries mtime ino mode uid gid nl names buf = [] \<longleftrightarrow> names = []"
  by (cases names) simp_all

lemma file_entries_ok:
  assumes "unat mtime < 2 ^ 32" "length buf < 2 ^ 32"
    and "list_all (\<lambda>n. cstring (strip_slash n) \<and> Suc (length (strip_slash n)) < 2 ^ 32) names"
  shows "list_all entry_ok (file_entries mtime ino mode uid gid nl names buf)"
  using assms(3) by (induction names) (use assms(1,2) in \<open>auto simp: file_entry_def entry_ok_def\<close>)

lemma link_names_ok:
  "cstring l \<Longrightarrow> list_all (\<lambda>n. cstring (strip_slash n) \<and> Suc (length (strip_slash n)) < 2 ^ 32) (link_names l)"
proof (induction l rule: link_names.induct)
  case (1 l)
  show ?case
  proof (cases "scan_str PATH_MAX l")
    case None
    then show ?thesis by (subst link_names.simps) simp
  next
    case (Some nr)
    then obtain n r where s: "scan_str PATH_MAX l = Some (n, r)" by (cases nr) auto
    have "cstring (skip_ws r)"
      using scan_str_cstring [OF s "1.prems"] skip_ws_set [of r] by (auto simp: cstring_def)
    then show ?thesis
      using "1.IH" [OF s refl refl] name_ok [OF s "1.prems"] s
      by (subst link_names.simps) (simp add: Let_def)
  qed
qed

text \<open>The names, the path and the entries a \<open>file\<close> line asks for.\<close>

definition file_names :: "string \<Rightarrow> string \<Rightarrow> string list" where
  "file_names name rest = name # (if rest \<noteq> [] \<and> c_isgraph (hd rest) then link_names rest else [])"

definition contents_ents :: "os \<Rightarrow> string list \<Rightarrow> string \<Rightarrow> u32 \<Rightarrow> u32 \<Rightarrow> u32 \<Rightarrow> cpio_entry list" where
  "contents_ents sys names path mode uid gid =
     (case do {
        fd \<leftarrow> os_open sys path;
        (st_size, st_mtime) \<leftarrow> os_fstat sys fd;
        filebuf \<leftarrow> os_malloc sys (unat st_size);
        bs \<leftarrow> os_read sys fd (unat st_size);
        Some (st_mtime, bs @ drop (length bs) filebuf)
      } of None \<Rightarrow> []
    | Some (mt, buf) \<Rightarrow> file_entries mt 0 (mode OR S_IFREG) uid gid (word_of_nat (length names)) names buf)"

definition file_ents :: "os \<Rightarrow> string \<Rightarrow> cpio_entry list" where
  "file_ents sys l =
     (case file_args l of
        None \<Rightarrow> []
      | Some (name, location, mode, uid, gid, rest) \<Rightarrow>
          if rest \<noteq> [] \<and> c_isgraph (hd rest) \<and> os_malloc sys (length l) = None then []
          else (case cpio_replace_env (os_getenv sys) location of
                  Some (Returns path) \<Rightarrow> contents_ents sys (file_names name rest) path mode uid gid
                | _ \<Rightarrow> []))"

lemma file_entries_with_ino:
  "file_entries mt i mode uid gid n names buf = map (with_ino i) (file_entries mt 0 mode uid gid n names buf)"
  by (induction names) (auto simp: file_entry_def with_ino_def)

lemma contents_ents_ok:
  assumes "os_ok sys"
    and "list_all (\<lambda>n. cstring (strip_slash n) \<and> Suc (length (strip_slash n)) < 2 ^ 32) names"
  shows "list_all entry_ok (contents_ents sys names path mode uid gid)"
proof (cases "contents_ents sys names path mode uid gid = []")
  case False
  then obtain fd sz mt b bs where s: "os_fstat sys fd = Some (sz, mt)" "os_malloc sys (unat sz) = Some b"
    "os_read sys fd (unat sz) = Some bs" and e: "contents_ents sys names path mode uid gid =
      file_entries mt 0 (mode OR S_IFREG) uid gid (word_of_nat (length names)) names (bs @ drop (length bs) b)"
    by (auto simp: contents_ents_def bind_eq_Some_conv split: option.splits prod.splits Option.bind_splits)
  have "length b = unat sz" "length bs \<le> unat sz" "unat sz < 2 ^ 32" "unat mt < 2 ^ 32"
    using assms(1) s unfolding os_ok_def by blast+
  then show ?thesis unfolding e by (intro file_entries_ok) (use assms(2) in simp_all)
qed simp

lemma mkfile_appends:
  assumes "aligned st" "os_ok sys" "names \<noteq> []"
    and ok: "list_all (\<lambda>n. cstring (strip_slash n) \<and> Suc (length (strip_slash n)) < 2 ^ 32) names"
  shows "cpio_mkfile sys names path mode uid gid (word_of_nat (length names)) (i, st) =
    appended (contents_ents sys names path mode uid gid) (i, st)"
proof (cases "contents_ents sys names path mode uid gid = []")
  case True
  then show ?thesis
    using assms(3) file_entries_empty
    by (auto simp: contents_ents_def cpio_mkfile_def appended_def bind_eq_Some_conv Let_def
        split: option.splits prod.splits Option.bind_splits)
next
  case False
  then obtain fd sz mt b bs where o: "os_open sys path = Some fd" and
    s: "os_fstat sys fd = Some (sz, mt)" "os_malloc sys (unat sz) = Some b"
    "os_read sys fd (unat sz) = Some bs" and e: "contents_ents sys names path mode uid gid =
      file_entries mt 0 (mode OR S_IFREG) uid gid (word_of_nat (length names)) names (bs @ drop (length bs) b)"
    by (auto simp: contents_ents_def bind_eq_Some_conv split: option.splits prod.splits Option.bind_splits)
  let ?buf = "bs @ drop (length bs) b"
  let ?es = "file_entries mt i (mode OR S_IFREG) uid gid (word_of_nat (length names)) names ?buf"
  have es: "?es = map (with_ino i) (contents_ents sys names path mode uid gid)"
    unfolding e by (rule file_entries_with_ino)
  have "length b = unat sz" "length bs \<le> unat sz" "os_fwrite sys ?buf"
    using assms(2) s unfolding os_ok_def by blast+
  note k = this
  have "list_all entry_ok ?es" unfolding es using contents_ents_ok [OF assms(2) ok] by simp
  then have "mkfile_links sys i (mode OR S_IFREG) uid gid (word_of_nat (length names)) mt sz ?buf names st =
      (0, emit (encode_all ?es) st)"
    using k by (intro mkfile_links_emits [OF assms(1)]) simp_all
  then show ?thesis
    unfolding es using False o s
    by (simp add: cpio_mkfile_def appended_def get_ino_def)
qed

lemma file_args_names:
  assumes "cstring l" "length l < LINE_SIZE" "file_args l = Some (name, loc, mode, uid, gid, rest)"
  shows "dname_len (name # link_names rest) \<le> length l"
    and "list_all (\<lambda>n. cstring (strip_slash n) \<and> Suc (length (strip_slash n)) < 2 ^ 32) (file_names name rest)"
    and "\<exists>l1 l2. scan_str PATH_MAX l = Some (name, l1) \<and> scan_str PATH_MAX l1 = Some (loc, l2)"
proof -
  obtain l1 l2 l3 l4 l5 where
    p: "scan_str PATH_MAX l = Some (name, l1)" "scan_str PATH_MAX l1 = Some (loc, l2)"
    "scan_unsigned 8 l2 = Some (mode, l3)" "scan_int l3 = Some (uid, l4)" "scan_int l4 = Some (gid, l5)"
    and r: "rest = skip_ws l5"
    using assms(3) by (auto simp: file_args_def bind_eq_Some_conv)
  show "dname_len (name # link_names rest) \<le> length l" unfolding r by (rule dname_fits [OF assms(2) p])
  show "\<exists>l1 l2. scan_str PATH_MAX l = Some (name, l1) \<and> scan_str PATH_MAX l1 = Some (loc, l2)" using p by blast
  have "set l5 \<subseteq> set l"
    using scan_str_props(4) [OF p(1)] scan_str_props(4) [OF p(2)] scan_unsigned_set [OF p(3)]
      scan_int_set [OF p(4)] scan_int_set [OF p(5)] by blast
  then have "cstring rest" using skip_ws_set [of l5] assms(1) r by (auto simp: cstring_def)
  then show "list_all (\<lambda>n. cstring (strip_slash n) \<and> Suc (length (strip_slash n)) < 2 ^ 32) (file_names name rest)"
    using name_ok [OF p(1) assms(1)] link_names_ok [of rest] by (simp add: file_names_def)
qed

lemma mkfile_line_env:
  assumes "cstring l" "length l < LINE_SIZE" "file_args l = Some (name, loc, mode, uid, gid, rest)"
  shows "cpio_mkfile_line sys (Some l) w =
    (if rest \<noteq> [] \<and> c_isgraph (hd rest) \<and> os_malloc sys (length l) = None then Returns (-1, w)
     else mkfile_env sys (file_names name rest) loc mode uid gid w)"
  using file_args_names(1) [OF assms] assms(3)
  by (cases "os_malloc sys (length l)") (simp_all add: cpio_mkfile_line_def file_names_def Let_def)

interpretation mkfile: line_handler "cpio_mkfile_line sys" "file_line_ok sys" "file_ents sys" for sys :: os
proof
  fix w show "cpio_mkfile_line sys None w = Undefined NullArgument"
    by (simp add: cpio_mkfile_line_def)
next
  fix l assume "file_line_ok sys l"
  then show "list_all entry_ok (file_ents sys l)"
    using file_args_names(2) [of l] contents_ents_ok [of sys]
    by (auto simp: file_ents_def file_line_ok_def split: option.splits outcome.splits)
next
  fix st l i
  assume al: "aligned st" and l: "file_line_ok sys l"
  have c: "cstring l" "length l < LINE_SIZE" and os: "os_ok sys" using l by (simp_all add: file_line_ok_def)
  show "cpio_mkfile_line sys (Some l) (i, st) = Returns (appended (file_ents sys l) (i, st))"
  proof (cases "file_args l")
    case None
    then show ?thesis by (simp add: cpio_mkfile_line_def file_ents_def appended_def)
  next
    case (Some a)
    then obtain name loc mode uid gid rest where a: "file_args l = Some (name, loc, mode, uid, gid, rest)"
      by (cases a) auto
    note n = file_args_names [OF c a]
    obtain path where path: "cpio_replace_env (os_getenv sys) loc = Some (Returns path)"
      using l n(3) unfolding file_line_ok_def location_ok_def by blast
    have "file_names name rest \<noteq> []" by (simp add: file_names_def)
    from mkfile_appends [OF al os this n(2)] show ?thesis
      using mkfile_line_env [OF c a] path by (simp add: file_ents_def a mkfile_env_def appended_def)
  qed
qed

end
