(* ===== verification/Cpio_Main.thy ===== *)
theory Cpio_Main
  imports Cpio_File
begin

text \<open>
  The threads of \<^verbatim>\<open>src/gen_init_cpio.c\<close>: what a worker does with one line of the list, the
  opportunistic dump of a worker's temporary file to the standard output under a lock that is
  only tried, and \<^verbatim>\<open>main\<close>, which reads its options and the list, starts the workers, joins them
  in order, flushes what they left and writes the trailer. The threads are a step relation:
  they share the inode counter, which each handler advances once and atomically, the standard
  output, which is written under the lock, and the list, so a handler's run is one step.
\<close>

section \<open>One line\<close>

text \<open>\<^verbatim>\<open>strtok_r\<close>: the next token and what the save pointer points to afterwards.\<close>

definition strtok_r :: "char set \<Rightarrow> string \<Rightarrow> (string \<times> string) option" where
  "strtok_r delim s =
     (let s1 = dropWhile (\<lambda>c. c \<in> delim) s in
      if s1 = [] then None
      else Some (takeWhile (\<lambda>c. c \<notin> delim) s1, drop 1 (dropWhile (\<lambda>c. c \<notin> delim) s1)))"

definition blanks :: "char set" where
  "blanks = {CHR '' '', CHR 0x09}"

definition newline :: "char set" where
  "newline = {CHR 0x0A}"

definition file_handler_table :: "os \<Rightarrow> u64 \<Rightarrow> (string \<times> (string option \<Rightarrow> handler)) list" where
  "file_handler_table sys default_mtime =
     [(''file'', cpio_mkfile_line sys), (''nod'', cpio_mknod_line default_mtime),
      (''dir'', cpio_mkdir_line default_mtime), (''slink'', cpio_mkslink_line default_mtime),
      (''pipe'', cpio_mkpipe_line default_mtime), (''sock'', cpio_mksock_line default_mtime)]"

text \<open>
  The body of the worker's loop for a line of its own: \<open>NextLine\<close> is \<^verbatim>\<open>continue\<close>, \<open>Broke\<close> is
  \<^verbatim>\<open>break\<close>, \<open>Handled\<close> reaches \<^verbatim>\<open>free\<close> and \<^verbatim>\<open>try_dump_to_stdout\<close>. The type is compared through
  \<open>line\<close>, which still has the blanks in front of it. A missing argument is reported, and
  handed to the handler all the same.
\<close>

datatype line_end = NextLine | Broke | Handled

definition worker_line :: "os \<Rightarrow> u64 \<Rightarrow> string \<Rightarrow> int \<Rightarrow> wstate \<Rightarrow> (line_end \<times> int \<times> wstate) outcome" where
  "worker_line sys default_mtime line ec w =
     (if line \<noteq> [] \<and> hd line = CHR ''#'' then Returns (NextLine, ec, w)
      else case strtok_r blanks line of
        None \<Rightarrow> Returns (Broke, -1, w)
      | Some (type, save) \<Rightarrow>
          if hd type = CHR 0x0A then Returns (NextLine, ec, w)
          else if length line = length type then Returns (NextLine, ec, w)
          else
            let args = map_option fst (strtok_r newline save);
                ec = (if args = None then -1 else ec);
                buf = takeWhile (\<lambda>c. c \<in> blanks) line @ type
            in case map_of (file_handler_table sys default_mtime) buf of
                 None \<Rightarrow> Returns (Handled, ec, w)
               | Some h \<Rightarrow>
                   (case h args w of
                      Undefined k \<Rightarrow> Undefined k
                    | Returns (rc, w) \<Rightarrow> Returns (Handled, if rc \<noteq> 0 then rc else ec, w)))"

section \<open>Dumping a temporary file\<close>

text \<open>
  The calls that can fail: \<^verbatim>\<open>malloc\<close> of a size, \<^verbatim>\<open>fread\<close> of the bytes that were written, and
  \<^verbatim>\<open>fwrite\<close>, given as the number of bytes the standard output takes.
\<close>

record dump_io =
  io_malloc :: "nat \<Rightarrow> bool"
  io_fread :: "string \<Rightarrow> bool"
  io_fwrite :: "string \<Rightarrow> nat"

definition write_to_stdout :: "dump_io \<Rightarrow> cfile \<Rightarrow> string \<Rightarrow> int \<times> string" where
  "write_to_stdout io fp out =
     (let bytes_to_read = sint (word_of_nat (fpos fp) :: u32) in
      if bytes_to_read < 0 then (-1, out)
      else if bytes_to_read = 0 then (0, out)
      else if \<not> io_malloc io (nat bytes_to_read) then (-1, out)
      else let buf = take (nat bytes_to_read) (fdata fp) in
        if \<not> io_fread io buf then (-1, out)
        else if io_fwrite io buf < length buf then (-1, out @ take (io_fwrite io buf) buf)
        else (bytes_to_read, out @ buf))"

section \<open>The threads\<close>

datatype tpc = AtLoop | AtDump | InDump | Exited

record thread =
  th_pc :: tpc
  th_i :: nat
  th_ec :: int
  th_st :: my_state

datatype mpc = Spawn nat | Join nat | FlushWait nat | Flush nat | Trailer | Finished

record machine =
  m_ino :: u32
  m_threads :: "thread list"
  m_out :: string
  m_lock :: "nat option"
  m_main :: mpc
  m_ec :: int
  m_freed :: "nat list"
  m_crash :: "ub_kind option"

text \<open>What starting a thread can come to: both calls work, no temporary file, or no thread.\<close>

datatype spawn_result = Spawned | NoTmp | CreateFailed int

record program =
  p_os :: os
  p_io :: dump_io
  p_mtime :: u64
  p_lines :: "string list"
  p_threads :: nat
  p_spawn :: "nat \<Rightarrow> spawn_result"

definition empty_file :: cfile where
  "empty_file = \<lparr>fdata = [], fpos = 0\<rparr>"

definition new_thread :: thread where
  "new_thread = \<lparr>th_pc = AtLoop, th_i = 0, th_ec = 0, th_st = \<lparr>ms_offset = 0, ms_fp = empty_file\<rparr>\<rparr>"

text \<open>The thread whose line this is: line numbers count from one.\<close>

definition owner :: "program \<Rightarrow> nat \<Rightarrow> nat" where
  "owner P j = Suc j mod p_threads P"

text \<open>
  The loop of \<^verbatim>\<open>worker_thread_routine\<close>. The length of every line is taken before the test whose line it
  is, so a worker reads the lines of the others too; to read one that its owner has freed is a
  crash. The length itself only matters for a line of the worker's own. \<^verbatim>\<open>try_dump_to_stdout\<close> takes the lock if it is free and
  otherwise goes on; inside, whether or not the dump worked, the file is rewound and the
  counter cleared.
\<close>

definition worker_step :: "program \<Rightarrow> nat \<Rightarrow> thread \<Rightarrow> machine \<Rightarrow> machine" where
  "worker_step P my_id th s =
     (let i = th_i th in
      if length (p_lines P) \<le> i then s\<lparr>m_threads := (m_threads s)[my_id := th\<lparr>th_pc := Exited\<rparr>]\<rparr>
      else if i \<in> set (m_freed s) then s\<lparr>m_crash := Some FreedLine\<rparr>
      else if owner P i \<noteq> my_id then s\<lparr>m_threads := (m_threads s)[my_id := th\<lparr>th_i := Suc i\<rparr>]\<rparr>
      else case worker_line (p_os P) (p_mtime P) (p_lines P ! i) (th_ec th) (m_ino s, th_st th) of
        Undefined k \<Rightarrow> s\<lparr>m_crash := Some k\<rparr>
      | Returns (NextLine, ec, ino, st) \<Rightarrow>
          s\<lparr>m_ino := ino, m_threads := (m_threads s)[my_id := th\<lparr>th_i := Suc i, th_ec := ec, th_st := st\<rparr>]\<rparr>
      | Returns (Broke, ec, ino, st) \<Rightarrow>
          s\<lparr>m_ino := ino, m_threads := (m_threads s)[my_id := th\<lparr>th_pc := Exited, th_ec := ec, th_st := st\<rparr>]\<rparr>
      | Returns (Handled, ec, ino, st) \<Rightarrow>
          s\<lparr>m_ino := ino, m_freed := i # m_freed s,
            m_threads := (m_threads s)[my_id := th\<lparr>th_pc := AtDump, th_ec := ec, th_st := st\<rparr>]\<rparr>)"

definition thread_step :: "program \<Rightarrow> nat \<Rightarrow> machine \<Rightarrow> machine option" where
  "thread_step P my_id s =
     (if m_crash s \<noteq> None \<or> m_main s = Finished \<or> length (m_threads s) \<le> my_id then None
      else let th = m_threads s ! my_id; next = th\<lparr>th_pc := AtLoop, th_i := Suc (th_i th)\<rparr> in
        case th_pc th of
          AtLoop \<Rightarrow> Some (worker_step P my_id th s)
        | AtDump \<Rightarrow>
            if m_lock s \<noteq> None then Some (s\<lparr>m_threads := (m_threads s)[my_id := next]\<rparr>)
            else Some (s\<lparr>m_lock := Some my_id, m_threads := (m_threads s)[my_id := th\<lparr>th_pc := InDump\<rparr>]\<rparr>)
        | InDump \<Rightarrow>
            (let (ret, out) = write_to_stdout (p_io P) (ms_fp (th_st th)) (m_out s);
                 st = (th_st th)\<lparr>ms_fp := rewind (ms_fp (th_st th)), ms_offset := 0\<rparr>
             in Some (s\<lparr>m_out := out, m_lock := None, m_threads := (m_threads s)[my_id := next\<lparr>th_st := st\<rparr>]\<rparr>))
        | Exited \<Rightarrow> None)"

text \<open>
  \<^verbatim>\<open>main\<close> from the start of the threads on. A temporary file that cannot be made leaves \<open>ec\<close> at
  zero. The status of a joined thread is stored through a pointer of its own, so \<open>ret\<close>
  stays zero and no error of a worker is seen here. After a flush the file is closed.
\<close>

definition main_step :: "program \<Rightarrow> machine \<Rightarrow> machine option" where
  "main_step P s =
     (if m_crash s \<noteq> None then None
      else case m_main s of
        Spawn i \<Rightarrow>
          if p_threads P \<le> i then Some (s\<lparr>m_main := Join 0\<rparr>)
          else (case p_spawn P i of
                  NoTmp \<Rightarrow> Some (s\<lparr>m_main := Trailer\<rparr>)
                | CreateFailed e \<Rightarrow> Some (s\<lparr>m_ec := e, m_main := Trailer\<rparr>)
                | Spawned \<Rightarrow>
                    Some (s\<lparr>m_ec := 0, m_threads := m_threads s @ [new_thread], m_main := Spawn (Suc i)\<rparr>))
      | Join i \<Rightarrow>
          if p_threads P \<le> i then Some (s\<lparr>m_main := Trailer\<rparr>)
          else if th_pc (m_threads s ! i) = Exited then Some (s\<lparr>m_main := FlushWait i\<rparr>)
          else None
      | FlushWait i \<Rightarrow>
          if m_lock s = None then Some (s\<lparr>m_lock := Some (p_threads P), m_main := Flush i\<rparr>) else None
      | Flush i \<Rightarrow>
          (let th = m_threads s ! i;
               (ret, out) = write_to_stdout (p_io P) (ms_fp (th_st th)) (m_out s);
               th = (if ret < 0 then th else th\<lparr>th_st := (th_st th)\<lparr>ms_fp := empty_file\<rparr>\<rparr>)
           in Some (s\<lparr>m_out := out, m_lock := None, m_threads := (m_threads s)[i := th], m_main := Join (Suc i)\<rparr>))
      | Trailer \<Rightarrow>
          (let st = \<lparr>ms_offset = 0, ms_fp = \<lparr>fdata = m_out s, fpos = length (m_out s)\<rparr>\<rparr>
           in Some (s\<lparr>m_out := (if m_ec s = 0 then fdata (ms_fp (cpio_trailer st)) else m_out s), m_main := Finished\<rparr>))
      | Finished \<Rightarrow> None)"

definition cpio_init :: machine where
  "cpio_init = \<lparr>m_ino = i_no_init, m_threads = [], m_out = [], m_lock = None, m_main = Spawn 0, m_ec = 0,
     m_freed = [], m_crash = None\<rparr>"

inductive cpio_step :: "program \<Rightarrow> machine \<Rightarrow> machine \<Rightarrow> bool" for P :: program where
  worker: "thread_step P my_id s = Some s' \<Longrightarrow> cpio_step P s s'"
| main: "main_step P s = Some s' \<Longrightarrow> cpio_step P s s'"

inductive_cases cpio_stepE: "cpio_step P s s'"

section \<open>Reading the options and the list\<close>

definition strtol10 :: "string \<Rightarrow> int \<times> string" where
  "strtol10 s = (case scan_num 10 s of
     None \<Rightarrow> (0, s)
   | Some (neg, m, r) \<Rightarrow> (if neg then max (- (2 ^ 63)) (- int m) else min (2 ^ 63 - 1) (int m), r))"

text \<open>
  The options as \<^verbatim>\<open>getopt\<close> delivers them; \<open>Inl\<close> is the exit status of a run that stops here.
\<close>

fun main_options :: "(char \<times> string) list \<Rightarrow> u64 \<times> u32 \<Rightarrow> int + u64 \<times> u32" where
  "main_options [] cfg = Inr cfg"
| "main_options ((opt, optarg) # opts) (default_mtime, nr_threads) =
     (let (v, invalid) = strtol10 optarg in
      if opt = CHR ''t'' then
        if optarg = [] \<or> invalid \<noteq> [] then Inl 1
        else main_options opts (word_of_int v, nr_threads)
      else if opt = CHR ''r'' then
        if optarg = [] \<or> invalid \<noteq> [] then Inl 1
        else main_options opts (default_mtime, word_of_int v)
      else if opt = CHR ''h'' then Inl 0
      else Inl 1)"

record file_table =
  ft_size :: nat
  ft_table :: "string list"

text \<open>The loop that fills the table; \<open>None\<close> when \<^verbatim>\<open>realloc\<close> or \<^verbatim>\<open>strdup\<close> fails.\<close>

definition file_table_add :: "(nat \<Rightarrow> bool) \<Rightarrow> (string \<Rightarrow> bool) \<Rightarrow> string \<Rightarrow> file_table \<Rightarrow> file_table option" where
  "file_table_add realloc_ok strdup_ok line ft =
     (if length (ft_table ft) = ft_size ft \<and> \<not> realloc_ok (ft_size ft * 2) then None
      else let ft = (if length (ft_table ft) = ft_size ft then ft\<lparr>ft_size := ft_size ft * 2\<rparr> else ft);
               line_dup = takeWhile (\<lambda>c. c \<noteq> NUL) line
           in if \<not> strdup_ok line_dup then None else Some (ft\<lparr>ft_table := ft_table ft @ [line_dup]\<rparr>))"

function read_table :: "(nat \<Rightarrow> bool) \<Rightarrow> (string \<Rightarrow> bool) \<Rightarrow> string \<Rightarrow> file_table \<Rightarrow> file_table option" where
  "read_table realloc_ok strdup_ok inp ft =
     (case fgets LINE_SIZE inp of
        None \<Rightarrow> Some ft
      | Some (line, rest) \<Rightarrow>
          (case file_table_add realloc_ok strdup_ok line ft of
             None \<Rightarrow> None
           | Some ft \<Rightarrow> read_table realloc_ok strdup_ok rest ft))"
  by pat_completeness auto

termination read_table
proof (relation "measure (\<lambda>(_, _, inp, _). length inp)")
  fix realloc_ok :: "nat \<Rightarrow> bool" and strdup_ok :: "string \<Rightarrow> bool" and inp line rest :: string and ft ft' :: file_table and a
  assume "fgets LINE_SIZE inp = Some a" "(line, rest) = a"
  then have "inp = line @ rest" "line \<noteq> []" using fgets_split by blast+
  then show "((realloc_ok, strdup_ok, rest, ft'), realloc_ok, strdup_ok, inp, ft) \<in> measure (\<lambda>(_, _, inp, _). length inp)"
    by simp
qed simp

declare read_table.simps [simp del]

definition empty_table :: file_table where
  "empty_table = \<lparr>ft_size = 4096, ft_table = []\<rparr>"

end
