(* ===== verification/Cpio_Archive.thy ===== *)
theory Cpio_Archive
  imports Cpio_Main
begin

text \<open>
  The archive \<^verbatim>\<open>src/gen_init_cpio.c\<close> writes, whatever the interleaving of its threads: every
  run ends, no worker and no flush waits for ever, and at the end the standard output is an
  interleaving of the entries each thread's lines ask for, each thread's in the order of the
  list, followed by the trailer.
\<close>

section \<open>The lines and what they ask for\<close>

definition ents_table :: "os \<Rightarrow> u64 \<Rightarrow> (string \<times> (string \<Rightarrow> cpio_entry list)) list" where
  "ents_table sys mtime =
     [(''file'', file_ents sys), (''nod'', nod_ents mtime), (''dir'', generic_ents mtime GT_DIR),
      (''slink'', slink_ents mtime), (''pipe'', generic_ents mtime GT_PIPE), (''sock'', generic_ents mtime GT_SOCK)]"

text \<open>A line's type word, with the blanks in front of it, and its arguments.\<close>

definition line_words :: "string \<Rightarrow> (string \<times> string option) option" where
  "line_words line =
     (if line \<noteq> [] \<and> hd line = CHR ''#'' then None
      else case strtok_r blanks line of
        None \<Rightarrow> None
      | Some (type, save) \<Rightarrow>
          if hd type = CHR 0x0A \<or> length line = length type then None
          else Some (takeWhile (\<lambda>c. c \<in> blanks) line @ type, map_option fst (strtok_r newline save)))"

definition line_ents :: "os \<Rightarrow> u64 \<Rightarrow> string \<Rightarrow> cpio_entry list" where
  "line_ents sys mtime line =
     (case line_words line of
        Some (type, Some args) \<Rightarrow> (case map_of (ents_table sys mtime) type of None \<Rightarrow> [] | Some f \<Rightarrow> f args)
      | _ \<Rightarrow> [])"

text \<open>
  The lines the program is meant for: no longer than its buffer, a comment or with some
  word on them, with arguments when the type is known, and for a file a location whose
  variables expand.
\<close>

definition line_good :: "os \<Rightarrow> u64 \<Rightarrow> string \<Rightarrow> bool" where
  "line_good sys mtime line \<longleftrightarrow>
     line_ok mtime line \<and>
     (line \<noteq> [] \<and> hd line = CHR ''#'' \<or> strtok_r blanks line \<noteq> None) \<and>
     (\<forall>type args. line_words line = Some (type, args) \<longrightarrow> type \<in> fst ` set (ents_table sys mtime) \<longrightarrow>
        args \<noteq> None \<and> (type = ''file'' \<longrightarrow> location_ok sys (the args)))"

definition args_ok :: "os \<Rightarrow> u64 \<Rightarrow> string \<Rightarrow> string \<Rightarrow> bool" where
  "args_ok sys mtime type l \<longleftrightarrow> line_ok mtime l \<and> (type = ''file'' \<longrightarrow> file_line_ok sys l)"

lemma line_handler_weaken:
  assumes "line_handler h pre f" "\<And>l. pre' l \<Longrightarrow> pre l"
  shows "line_handler h pre' f"
  using assms unfolding line_handler_def by blast

lemma table_handler:
  assumes "map_of (file_handler_table sys mtime) type = Some h"
  shows "\<exists>f. map_of (ents_table sys mtime) type = Some f \<and> line_handler h (args_ok sys mtime type) f"
proof -
  have w: "args_ok sys mtime ty l \<Longrightarrow> line_ok mtime l" for ty l by (simp add: args_ok_def)
  have g: "line_handler (cpio_mkgeneric_line mtime gt) (args_ok sys mtime ty) (generic_ents mtime gt)" for gt ty
    by (rule line_handler_weaken [OF mkgeneric.line_handler_axioms w])
  have o: "line_handler (cpio_mkslink_line mtime) (args_ok sys mtime ty) (slink_ents mtime)" for ty
    by (rule line_handler_weaken [OF mkslink.line_handler_axioms w])
  have n: "line_handler (cpio_mknod_line mtime) (args_ok sys mtime ty) (nod_ents mtime)" for ty
    by (rule line_handler_weaken [OF mknod.line_handler_axioms w])
  have f: "line_handler (cpio_mkfile_line sys) (args_ok sys mtime ''file'') (file_ents sys)"
    by (rule line_handler_weaken [OF mkfile.line_handler_axioms]) (simp add: args_ok_def)
  have d: "cpio_mkdir_line mtime = cpio_mkgeneric_line mtime GT_DIR" "cpio_mkpipe_line mtime = cpio_mkgeneric_line mtime GT_PIPE"
    "cpio_mksock_line mtime = cpio_mkgeneric_line mtime GT_SOCK"
    by (simp_all add: fun_eq_iff cpio_mkdir_line_def cpio_mkpipe_line_def cpio_mksock_line_def)
  show ?thesis
    using assms g o n f unfolding file_handler_table_def ents_table_def d by (auto split: if_splits)
qed

lemma table_none:
  "map_of (file_handler_table sys mtime) type = None \<longleftrightarrow> map_of (ents_table sys mtime) type = None"
  by (auto simp: file_handler_table_def ents_table_def)

lemma strtok_r_props:
  assumes "strtok_r d s = Some (t, r)"
  shows "set t \<subseteq> set s" "set r \<subseteq> set s" "length t + length r \<le> length s"
proof -
  let ?s = "dropWhile (\<lambda>c. c \<in> d) s"
  have t: "t = takeWhile (\<lambda>c. c \<notin> d) ?s" and r: "r = drop 1 (dropWhile (\<lambda>c. c \<notin> d) ?s)"
    using assms by (auto simp: strtok_r_def Let_def split: if_splits)
  show "set t \<subseteq> set s" unfolding t by (meson set_dropWhileD set_takeWhileD subsetI)
  show "set r \<subseteq> set s" unfolding r by (meson in_set_dropD set_dropWhileD subsetI)
  have "length t + length (dropWhile (\<lambda>c. c \<notin> d) ?s) = length ?s"
    unfolding t by (metis length_append takeWhile_dropWhile_id)
  moreover have "length ?s \<le> length s" by (rule length_dropWhile_le)
  ultimately show "length t + length r \<le> length s" unfolding r by simp
qed

lemma line_words_args:
  assumes "line_words line = Some (type, Some args)" "line_ok mtime line"
  shows "line_ok mtime args"
proof -
  obtain t save r where s: "strtok_r blanks line = Some (t, save)" "strtok_r newline save = Some (args, r)"
    using assms(1) by (auto simp: line_words_def split: if_splits option.splits)
  show ?thesis
    using strtok_r_props [OF s(1)] strtok_r_props [OF s(2)] assms(2)
    by (auto simp: line_ok_def cstring_def)
qed

lemma line_good_args:
  assumes "line_good sys mtime line" "os_ok sys" "line_words line = Some (type, args)"
    "map_of (ents_table sys mtime) type = Some f"
  shows "\<exists>a. args = Some a \<and> args_ok sys mtime type a"
proof -
  have "type \<in> fst ` set (ents_table sys mtime)" using assms(4) by (metis map_of_eq_None_iff option.discI)
  then have "args \<noteq> None \<and> (type = ''file'' \<longrightarrow> location_ok sys (the args))"
    using assms(1,3) unfolding line_good_def by blast
  then obtain a where a: "args = Some a" "type = ''file'' \<longrightarrow> location_ok sys a" by (cases args) auto
  moreover have "line_ok mtime a" using line_words_args assms(1,3) a(1) by (simp add: line_good_def)
  ultimately show ?thesis using assms(2) by (simp add: args_ok_def file_line_ok_def line_ok_def)
qed

lemma line_ents_ok:
  assumes "line_good sys mtime line" "os_ok sys"
  shows "list_all entry_ok (line_ents sys mtime line)"
proof (cases "line_ents sys mtime line = []")
  case False
  then obtain type args f where w: "line_words line = Some (type, Some args)"
    and f: "map_of (ents_table sys mtime) type = Some f" "line_ents sys mtime line = f args"
    by (auto simp: line_ents_def split: option.splits)
  obtain h where h: "line_handler h (args_ok sys mtime type) f"
    using f(1) table_none table_handler by (metis not_None_eq option.inject)
  show ?thesis using line_good_args [OF assms w f(1)] line_handler.ents_ok [OF h] f(2) by simp
qed simp

text \<open>A worker appends what its line asks for and never leaves its loop on it.\<close>

lemma worker_line_good:
  assumes "line_good sys mtime line" "os_ok sys" "aligned st"
  shows "\<exists>k ec'. worker_line sys mtime line ec (i, st) =
      Returns (k, ec', snd (appended (line_ents sys mtime line) (i, st))) \<and> k \<noteq> Broke \<and>
      (k = NextLine \<longrightarrow> line_ents sys mtime line = [])"
proof (cases "line_words line")
  case None
  then have "worker_line sys mtime line ec (i, st) = Returns (NextLine, ec, i, st)"
    using assms(1) by (auto simp: worker_line_def line_words_def line_good_def split: if_splits option.splits)
  then show ?thesis using None by (simp add: line_ents_def appended_def)
next
  case (Some w)
  then obtain type args where w: "line_words line = Some (type, args)" by (cases w) auto
  have wl: "worker_line sys mtime line ec (i, st) = (let ec = (if args = None then -1 else ec) in
      case map_of (file_handler_table sys mtime) type of
        None \<Rightarrow> Returns (Handled, ec, i, st)
      | Some h \<Rightarrow> (case h args (i, st) of Undefined k \<Rightarrow> Undefined k
        | Returns (rc, w) \<Rightarrow> Returns (Handled, if rc \<noteq> 0 then rc else ec, w)))"
  proof -
    have c: "\<not> (line \<noteq> [] \<and> hd line = CHR ''#'')" using w unfolding line_words_def by (rule contrapos_pn) simp
    obtain t save where s: "strtok_r blanks line = Some (t, save)"
      using w unfolding line_words_def if_not_P [OF c] by (cases "strtok_r blanks line") auto
    have n: "\<not> (hd t = CHR 0x0A \<or> length line = length t)"
      using w unfolding line_words_def if_not_P [OF c] s option.case prod.case by (rule contrapos_pn) simp
    have ta: "takeWhile (\<lambda>c. c \<in> blanks) line @ t = type" "map_option fst (strtok_r newline save) = args"
      using w unfolding line_words_def if_not_P [OF c] s option.case prod.case if_not_P [OF n] by simp_all
    have n1: "\<not> hd t = CHR 0x0A" and n2: "\<not> length line = length t" using n by blast+
    show ?thesis
      unfolding worker_line_def if_not_P [OF c] s option.case prod.case if_not_P [OF n1] if_not_P [OF n2]
        Let_def ta ..
  qed
  show ?thesis
  proof (cases "map_of (file_handler_table sys mtime) type")
    case None
    then have "line_ents sys mtime line = []"
      using w table_none [of sys mtime type] by (simp add: line_ents_def split: option.splits)
    then show ?thesis using wl None by (simp add: appended_def)
  next
    case (Some h)
    obtain f where f: "map_of (ents_table sys mtime) type = Some f" "line_handler h (args_ok sys mtime type) f"
      using table_handler [OF Some] by blast
    obtain a where a: "args = Some a" "args_ok sys mtime type a"
      using line_good_args [OF assms(1,2) w f(1)] by blast
    have "h args (i, st) = Returns (appended (line_ents sys mtime line) (i, st))"
      using line_handler.appends [OF f(2) assms(3) a(2)] w f(1) a(1) by (simp add: line_ents_def)
    then show ?thesis using wl Some by (cases "appended (line_ents sys mtime line) (i, st)") auto
  qed
qed

end
