(* ===== verification/Cpio_Threads.thy ===== *)
theory Cpio_Threads
  imports Cpio_Archive
begin

text \<open>
  The invariant of the threads of \<^verbatim>\<open>src/gen_init_cpio.c\<close>, and what it gives at the end of a
  run. An entry in the output is tagged with the number of the line it comes from; \<open>f\<close> numbers
  the lines that asked for something in the order in which they took their inode number.
\<close>

section \<open>Entries by line and by thread\<close>

abbreviation p_ents :: "program \<Rightarrow> nat \<Rightarrow> cpio_entry list" where
  "p_ents P j \<equiv> line_ents (p_os P) (p_mtime P) (p_lines P ! j)"

abbreviation nlines :: "program \<Rightarrow> nat" where
  "nlines P \<equiv> length (p_lines P)"

definition job :: "program \<Rightarrow> (nat \<Rightarrow> nat) \<Rightarrow> nat \<Rightarrow> (nat \<times> cpio_entry) list" where
  "job P f j = map (\<lambda>e. (j, with_ino (i_no_init + word_of_nat (f j)) e)) (p_ents P j)"

definition jobs :: "program \<Rightarrow> (nat \<Rightarrow> nat) \<Rightarrow> nat \<Rightarrow> nat \<Rightarrow> (nat \<times> cpio_entry) list" where
  "jobs P f t p = concat (map (job P f) (filter (\<lambda>j. owner P j = t) [0..<p]))"

lemma jobs_Suc: "jobs P f t (Suc p) = jobs P f t p @ (if owner P p = t then job P f p else [])"
  by (simp add: jobs_def)

lemma jobs_cong: "(\<And>j. j < p \<Longrightarrow> owner P j = t \<Longrightarrow> f j = g j) \<Longrightarrow> jobs P f t p = jobs P g t p"
  unfolding jobs_def job_def by (intro arg_cong [where f = concat] map_cong) auto

lemma jobs_owner: "x \<in> set (jobs P f t p) \<Longrightarrow> owner P (fst x) = t \<and> fst x < p"
  by (auto simp: jobs_def job_def)

abbreviation tagged_bytes :: "(nat \<times> cpio_entry) list \<Rightarrow> string" where
  "tagged_bytes tg \<equiv> encode_all (map snd tg)"

text \<open>How many bytes a thread writes in all does not depend on the inode numbers.\<close>

definition thread_bytes :: "program \<Rightarrow> nat \<Rightarrow> nat" where
  "thread_bytes P t = length (encode_all (concat (map (p_ents P) (filter (\<lambda>j. owner P j = t) [0..<nlines P]))))"

lemma length_encode_with_ino: "entry_ok e \<Longrightarrow> length (encode_entry (with_ino i e)) = length (encode_entry e)"
proof -
  assume ok: "entry_ok e"
  then have "length (entry_header (with_ino i e)) = length (entry_header e)"
    using length_entry_header [of e] length_entry_header [of "with_ino i e"] by simp
  then show ?thesis by (simp add: encode_entry_def with_ino_def)
qed

lemma length_encode_all_with_ino:
  "list_all entry_ok es \<Longrightarrow> length (encode_all (map (with_ino i) es)) = length (encode_all es)"
  by (induction es) (simp_all add: length_encode_with_ino)

section \<open>Programs that run as meant\<close>

definition program_ok :: "program \<Rightarrow> bool" where
  "program_ok P \<longleftrightarrow>
     os_ok (p_os P) \<and> list_all (line_good (p_os P) (p_mtime P)) (p_lines P) \<and> 0 < p_threads P \<and>
     (\<forall>i < p_threads P. p_spawn P i = Spawned) \<and>
     (\<forall>n. io_malloc (p_io P) n) \<and> (\<forall>bs. io_fread (p_io P) bs \<and> length bs \<le> io_fwrite (p_io P) bs) \<and>
     (\<forall>t < p_threads P. thread_bytes P t < 2 ^ 31)"

lemma p_ents_ok: "program_ok P \<Longrightarrow> j < nlines P \<Longrightarrow> list_all entry_ok (p_ents P j)"
  by (rule line_ents_ok) (auto simp: program_ok_def list_all_length)

lemma length_tagged_job:
  "program_ok P \<Longrightarrow> j < nlines P \<Longrightarrow> length (tagged_bytes (job P f j)) = length (encode_all (p_ents P j))"
  using length_encode_all_with_ino [OF p_ents_ok] by (simp add: job_def comp_def)

lemma length_jobs:
  assumes "program_ok P" "p \<le> nlines P"
  shows "length (tagged_bytes (jobs P f t p)) \<le> thread_bytes P t"
proof -
  let ?js = "\<lambda>p. filter (\<lambda>j. owner P j = t) [0..<p]"
  have eq: "length (tagged_bytes (concat (map (job P f) js))) = length (encode_all (concat (map (p_ents P) js)))"
    if "set js \<subseteq> {..<nlines P}" for js
    using that by (induction js) (use length_tagged_job [OF assms(1)] in \<open>simp_all\<close>)
  have "?js (nlines P) = ?js p @ filter (\<lambda>j. owner P j = t) [p..<nlines P]"
    using assms(2) by (metis filter_append le_Suc_ex le0 upt_add_eq_append)
  then have "length (encode_all (concat (map (p_ents P) (?js p)))) \<le> thread_bytes P t"
    by (simp add: thread_bytes_def)
  moreover have "set (?js p) \<subseteq> {..<nlines P}" using assms(2) by auto
  ultimately show ?thesis unfolding jobs_def using eq by simp
qed

lemma jobs_ok: "program_ok P \<Longrightarrow> p \<le> nlines P \<Longrightarrow> x \<in> set (jobs P f t p) \<Longrightarrow> entry_ok (snd x)"
proof -
  assume P: "program_ok P" "p \<le> nlines P" "x \<in> set (jobs P f t p)"
  then obtain j e where "j < p" "e \<in> set (p_ents P j)" "snd x = with_ino (i_no_init + word_of_nat (f j)) e"
    by (auto simp: jobs_def job_def)
  then show ?thesis using p_ents_ok [OF P(1), of j] P(2) by (simp add: list_all_iff)
qed

section \<open>The invariant\<close>

definition progress :: "thread \<Rightarrow> nat" where
  "progress th = (if th_pc th = AtDump \<or> th_pc th = InDump then Suc (th_i th) else th_i th)"

definition buf_inv :: "program \<Rightarrow> (nat \<Rightarrow> nat) \<Rightarrow> (nat \<times> cpio_entry) list \<Rightarrow> nat \<Rightarrow> thread \<Rightarrow>
    (nat \<times> cpio_entry) list \<Rightarrow> bool" where
  "buf_inv P f tg t th es \<longleftrightarrow>
     f_ok (ms_fp (th_st th)) \<and> written (th_st th) = tagged_bytes es \<and>
     (th_pc th \<noteq> Exited \<longrightarrow> aligned (th_st th)) \<and> progress th \<le> nlines P \<and>
     (th_pc th = Exited \<longrightarrow> th_i th = nlines P) \<and>
     filter (\<lambda>x. owner P (fst x) = t) tg @ es = jobs P f t (progress th)"

definition busy :: "program \<Rightarrow> thread list \<Rightarrow> nat set" where
  "busy P ths = {j. owner P j < length ths \<and> j < progress (ths ! owner P j) \<and> p_ents P j \<noteq> []}"

definition data_inv :: "program \<Rightarrow> (nat \<times> cpio_entry) list \<Rightarrow> (nat \<times> cpio_entry) list list \<Rightarrow>
    (nat \<Rightarrow> nat) \<Rightarrow> nat \<Rightarrow> thread list \<Rightarrow> u32 \<Rightarrow> bool" where
  "data_inv P tg ess f k ths ino \<longleftrightarrow>
     length ess = length ths \<and> (\<forall>x\<in>set tg. owner P (fst x) < length ths) \<and>
     (\<forall>t < length ths. buf_inv P f tg t (ths ! t) (ess ! t)) \<and>
     ino = i_no_init + word_of_nat k \<and> bij_betw f (busy P ths) {..<k}"

lemma busy_update_same:
  assumes "t < length ths" "progress th = progress (ths ! t)"
  shows "busy P (ths[t := th]) = busy P ths"
  using assms by (auto simp: busy_def nth_list_update)

lemma busy_update_Suc:
  assumes "t < length ths" "progress th = Suc (progress (ths ! t))"
  shows "busy P (ths[t := th]) =
    (if owner P (progress (ths ! t)) = t \<and> p_ents P (progress (ths ! t)) \<noteq> []
     then insert (progress (ths ! t)) (busy P ths) else busy P ths)"
  using assms by (auto simp: busy_def nth_list_update less_Suc_eq split: if_splits)

text \<open>A thread moves without touching its buffer.\<close>

lemma data_inv_move:
  assumes "data_inv P tg ess f k ths ino" "t < length ths" "busy P (ths[t := th]) = busy P ths"
    and "buf_inv P f tg t th (ess ! t)"
  shows "data_inv P tg ess f k (ths[t := th]) ino"
  using assms unfolding data_inv_def by (auto simp: nth_list_update)

text \<open>A thread appends the entries of its line \<open>j\<close>.\<close>

lemma data_inv_append:
  assumes inv: "data_inv P tg ess f k ths ino" and t: "t < length ths"
    and j: "progress (ths ! t) = j" "owner P j = t" "p_ents P j \<noteq> []" "progress th = Suc j"
    and b: "buf_inv P (f(j := k)) tg t th (ess ! t @ job P (f(j := k)) j)"
  shows "data_inv P tg (ess[t := ess ! t @ job P (f(j := k)) j]) (f(j := k)) (Suc k) (ths[t := th]) (ino + 1)"
proof -
  have j_new: "j \<notin> busy P ths" using j(1,2) by (auto simp: busy_def)
  have bij: "bij_betw (f(j := k)) (busy P (ths[t := th])) {..<Suc k}"
  proof -
    have "bij_betw (f(j := k)) (busy P ths) {..<k}"
      using inv j_new by (subst bij_betw_cong [where g = f]) (auto simp: data_inv_def)
    then have "bij_betw (f(j := k)) (insert j (busy P ths)) (insert k {..<k})"
      using j_new by (subst notIn_Un_bij_betw3 [of j "busy P ths" "f(j := k)" "{..<k}", simplified, symmetric]) auto
    then show ?thesis using busy_update_Suc [OF t] j by (simp add: lessThan_Suc)
  qed
  have "buf_inv P (f(j := k)) tg t' (ths ! t') (ess ! t')" if "t' < length ths" "t' \<noteq> t" for t'
  proof -
    have "jobs P (f(j := k)) t' (progress (ths ! t')) = jobs P f t' (progress (ths ! t'))"
      using j(2) that by (intro jobs_cong) auto
    then show ?thesis using inv that by (simp add: data_inv_def buf_inv_def)
  qed
  then show ?thesis
    using inv t b bij unfolding data_inv_def by (auto simp: nth_list_update)
qed

text \<open>A thread's buffer goes to the output.\<close>

lemma data_inv_dump:
  assumes inv: "data_inv P tg ess f k ths ino" and t: "t < length ths"
    and p: "progress th = progress (ths ! t)"
    and b: "f_ok (ms_fp (th_st th))" "written (th_st th) = []" "th_pc th \<noteq> Exited \<longrightarrow> aligned (th_st th)"
      "th_pc th = Exited \<longrightarrow> th_i th = nlines P"
  shows "data_inv P (tg @ ess ! t) (ess[t := []]) f k (ths[t := th]) ino"
proof -
  have own: "owner P (fst x) = t" if "x \<in> set (ess ! t)" for x
    using inv t that jobs_owner [of x P f t "progress (ths ! t)"]
    unfolding data_inv_def buf_inv_def by (metis Un_iff set_append)
  have flt: "filter (\<lambda>x. owner P (fst x) = t) (ess ! t) = ess ! t"
    using own by (simp add: filter_id_conv)
  have flt': "filter (\<lambda>x. owner P (fst x) = t') (ess ! t) = []" if "t' \<noteq> t" for t'
    using own that by (auto simp: filter_empty_conv)
  have "buf_inv P f (tg @ ess ! t) t' (ths[t := th] ! t') (ess[t := []] ! t')" if "t' < length ths" for t'
    using inv t that p b flt flt' by (cases "t' = t") (auto simp: data_inv_def buf_inv_def)
  then show ?thesis
    using inv t own busy_update_same [OF t p] unfolding data_inv_def by auto
qed

section \<open>The steps keep the invariant\<close>

lemma write_to_stdout_ok:
  assumes "program_ok P" "f_ok fp" "fpos fp < 2 ^ 31"
  shows "write_to_stdout (p_io P) fp out = (int (fpos fp), out @ take (fpos fp) (fdata fp))"
proof -
  have "sint (word_of_nat (fpos fp) :: u32) = int (fpos fp)"
    using assms(3) by (simp add: signed_of_nat signed_take_bit_int_eq_self)
  moreover have "length (take (fpos fp) (fdata fp)) \<le> io_fwrite (p_io P) (take (fpos fp) (fdata fp))"
    using assms(1) unfolding program_ok_def by blast
  ultimately show ?thesis
    using assms(1,2) by (auto simp: write_to_stdout_def program_ok_def f_ok_def Let_def)
qed

definition flushed :: "program \<Rightarrow> mpc \<Rightarrow> nat" where
  "flushed P pc = (case pc of Spawn _ \<Rightarrow> 0 | Join i \<Rightarrow> i | FlushWait i \<Rightarrow> i | Flush i \<Rightarrow> i
     | Trailer \<Rightarrow> p_threads P | Finished \<Rightarrow> p_threads P)"

definition trailer_bytes :: string where
  "trailer_bytes = encode_entry trailer_entry @ replicate 388 NUL"

definition arch_inv :: "program \<Rightarrow> machine \<Rightarrow> bool" where
  "arch_inv P s \<longleftrightarrow>
     m_crash s = None \<and> m_ec s = 0 \<and>
     (\<exists>tg ess f k. data_inv P tg ess f k (m_threads s) (m_ino s) \<and>
        m_out s = tagged_bytes tg @ (if m_main s = Finished then trailer_bytes else []) \<and>
        (\<forall>t < length (m_threads s). t < flushed P (m_main s) \<longrightarrow> ess ! t = []))"

text \<open>Where \<^verbatim>\<open>main\<close> is and which threads have ended, over the threads' positions.\<close>

definition main_inv :: "program \<Rightarrow> mpc \<Rightarrow> tpc list \<Rightarrow> bool" where
  "main_inv P pc pcs \<longleftrightarrow>
     (case pc of
        Spawn i \<Rightarrow> i = length pcs \<and> i \<le> p_threads P
      | Join i \<Rightarrow> i \<le> p_threads P \<and> length pcs = p_threads P
      | FlushWait i \<Rightarrow> i < p_threads P \<and> length pcs = p_threads P \<and> pcs ! i = Exited
      | Flush i \<Rightarrow> i < p_threads P \<and> length pcs = p_threads P \<and> pcs ! i = Exited
      | _ \<Rightarrow> length pcs = p_threads P) \<and>
     (\<forall>t < length pcs. t < flushed P pc \<longrightarrow> pcs ! t = Exited)"

text \<open>
  The lock: held by no one, by the one worker that is dumping, or by \<^verbatim>\<open>main\<close> (under the
  number after the workers') while it flushes.
\<close>

definition flushing :: "mpc \<Rightarrow> bool" where
  "flushing pc = (case pc of Flush _ \<Rightarrow> True | _ \<Rightarrow> False)"

definition lock_inv :: "nat \<Rightarrow> mpc \<Rightarrow> tpc list \<Rightarrow> nat option \<Rightarrow> bool" where
  "lock_inv n pc pcs lock \<longleftrightarrow>
     (\<forall>t < length pcs. pcs ! t = InDump \<longleftrightarrow> lock = Some t) \<and>
     (flushing pc \<longrightarrow> lock = Some n) \<and>
     (\<forall>h. lock = Some h \<longrightarrow> h < length pcs \<or> h = n \<and> flushing pc) \<and> length pcs \<le> n"

definition ctl_inv :: "program \<Rightarrow> machine \<Rightarrow> bool" where
  "ctl_inv P s \<longleftrightarrow> main_inv P (m_main s) (map th_pc (m_threads s)) \<and>
     lock_inv (p_threads P) (m_main s) (map th_pc (m_threads s)) (m_lock s)"

lemma ctl_inv_init: "ctl_inv P cpio_init"
  by (simp add: ctl_inv_def cpio_init_def main_inv_def lock_inv_def flushing_def)

lemma main_inv_update: "main_inv P pc pcs \<Longrightarrow> t < length pcs \<Longrightarrow> pcs ! t \<noteq> Exited \<Longrightarrow> main_inv P pc (pcs[t := x])"
  by (cases pc) (auto simp: main_inv_def nth_list_update)

lemma lock_inv_update:
  "lock_inv n pc pcs l \<Longrightarrow> t < length pcs \<Longrightarrow> pcs ! t \<noteq> InDump \<Longrightarrow> x \<noteq> InDump \<Longrightarrow> lock_inv n pc (pcs[t := x]) l"
  by (auto simp: lock_inv_def nth_list_update)

lemma lock_inv_acquire:
  "lock_inv n pc pcs None \<Longrightarrow> t < length pcs \<Longrightarrow> lock_inv n pc (pcs[t := InDump]) (Some t)"
  by (auto simp: lock_inv_def nth_list_update)

lemma lock_inv_release:
  "lock_inv n pc pcs l \<Longrightarrow> t < length pcs \<Longrightarrow> pcs ! t = InDump \<Longrightarrow> x \<noteq> InDump \<Longrightarrow> lock_inv n pc (pcs[t := x]) None"
  by (auto simp: lock_inv_def nth_list_update)

lemma lock_inv_main:
  "lock_inv n pc pcs l \<Longrightarrow> \<not> flushing pc \<Longrightarrow> \<not> flushing pc' \<Longrightarrow> lock_inv n pc' pcs l"
  by (auto simp: lock_inv_def)

lemma lock_inv_spawn:
  "lock_inv n pc pcs l \<Longrightarrow> \<not> flushing pc \<Longrightarrow> \<not> flushing pc' \<Longrightarrow> length pcs < n \<Longrightarrow> lock_inv n pc' (pcs @ [AtLoop]) l"
  by (auto simp: lock_inv_def nth_append less_Suc_eq)

lemma lock_inv_flush:
  "lock_inv n pc pcs None \<Longrightarrow> lock_inv n (Flush i) pcs (Some n)"
  by (auto simp: lock_inv_def flushing_def)

lemma lock_inv_flushed:
  "lock_inv n (Flush i) pcs l \<Longrightarrow> lock_inv n (Join j) pcs None"
  by (auto simp: lock_inv_def flushing_def)

lemma arch_inv_init: "arch_inv P cpio_init"
  unfolding arch_inv_def cpio_init_def
  by (auto simp: data_inv_def busy_def bij_betw_def intro!: exI [of _ "[]"] exI [of _ "\<lambda>_. 0"] exI [of _ 0])

lemma flush_shape:
  assumes "main_step P s = Some s'" "m_main s = Flush i"
  shows "\<exists>out th. s' = s\<lparr>m_out := out, m_lock := None, m_threads := (m_threads s)[i := th], m_main := Join (Suc i)\<rparr> \<and>
    th_pc th = th_pc (m_threads s ! i) \<and> th_i th = th_i (m_threads s ! i)"
proof -
  obtain ret out where w: "write_to_stdout (p_io P) (ms_fp (th_st (m_threads s ! i))) (m_out s) = (ret, out)"
    by (rule prod.exhaust)
  define th where "th = (if ret < 0 then m_threads s ! i
    else (m_threads s ! i)\<lparr>th_st := (th_st (m_threads s ! i))\<lparr>ms_fp := empty_file\<rparr>\<rparr>)"
  have "s' = s\<lparr>m_out := out, m_lock := None, m_threads := (m_threads s)[i := th], m_main := Join (Suc i)\<rparr>"
    using assms w by (simp add: main_step_def Let_def th_def del: list_update_id split: if_splits)
  moreover have "th_pc th = th_pc (m_threads s ! i)" "th_i th = th_i (m_threads s ! i)" by (simp_all add: th_def)
  ultimately show ?thesis by blast
qed

lemma ctl_inv_main:
  assumes "ctl_inv P s" "main_step P s = Some s'" "\<forall>i < p_threads P. p_spawn P i = Spawned"
  shows "ctl_inv P s'"
proof -
  let ?pcs = "map th_pc (m_threads s)" and ?n = "p_threads P"
  have m: "main_inv P (m_main s) ?pcs" and l: "lock_inv ?n (m_main s) ?pcs (m_lock s)"
    using assms(1) by (simp_all add: ctl_inv_def)
  show ?thesis
  proof (cases "m_main s")
    case (Spawn i)
    note l' = l [unfolded Spawn]
    have f: "\<not> flushing (Spawn i)" "\<not> flushing (Spawn (Suc i))" "\<not> flushing (Join 0)" by (simp_all add: flushing_def)
    show ?thesis
    proof (cases "?n \<le> i")
      case True
      then have "s' = s\<lparr>m_main := Join 0\<rparr>" using assms(2) Spawn by (simp add: main_step_def split: if_splits)
      then show ?thesis using m Spawn True lock_inv_main [OF l' f(1,3)] by (simp add: ctl_inv_def main_inv_def flushed_def)
    next
      case False
      then have "s' = s\<lparr>m_ec := 0, m_threads := m_threads s @ [new_thread], m_main := Spawn (Suc i)\<rparr>"
        using assms(2,3) Spawn by (simp add: main_step_def split: if_splits)
      moreover have "length ?pcs < ?n" using m Spawn False by (simp add: main_inv_def)
      ultimately show ?thesis using m Spawn lock_inv_spawn [OF l' f(1,2)]
        by (simp add: ctl_inv_def main_inv_def flushed_def new_thread_def)
    qed
  next
    case (Join i)
    then have "s' = s\<lparr>m_main := (if ?n \<le> i then Trailer else FlushWait i)\<rparr>" "i < ?n \<longrightarrow> th_pc (m_threads s ! i) = Exited"
      using assms(2) by (auto simp: main_step_def split: if_splits)
    then show ?thesis using m Join lock_inv_main [OF l] by (auto simp: ctl_inv_def main_inv_def flushed_def flushing_def)
  next
    case (FlushWait i)
    then have "s' = s\<lparr>m_lock := Some ?n, m_main := Flush i\<rparr>" "m_lock s = None"
      using assms(2) by (auto simp: main_step_def split: if_splits)
    then show ?thesis using m FlushWait lock_inv_flush l by (simp add: ctl_inv_def main_inv_def flushed_def)
  next
    case (Flush i)
    obtain out th where s': "s' = s\<lparr>m_out := out, m_lock := None, m_threads := (m_threads s)[i := th], m_main := Join (Suc i)\<rparr>"
      "th_pc th = th_pc (m_threads s ! i)"
      using flush_shape [OF assms(2) Flush] by blast
    have i: "i < length (m_threads s)" using m Flush by (simp add: main_inv_def)
    then have "map th_pc ((m_threads s)[i := th]) = ?pcs" using s'(2) by (metis list_update_id map_update nth_map)
    then show ?thesis using s'(1) m Flush lock_inv_flushed [of ?n i ?pcs] l
      by (auto simp: ctl_inv_def main_inv_def flushed_def less_Suc_eq)
  next
    case Trailer
    then have "m_main s' = Finished \<and> m_threads s' = m_threads s \<and> m_lock s' = m_lock s"
      using assms(2) by (auto simp: main_step_def Let_def split: if_splits)
    then show ?thesis using m Trailer lock_inv_main [OF l] by (auto simp: ctl_inv_def main_inv_def flushed_def flushing_def)
  next
    case Finished
    then show ?thesis using assms(2) by (simp add: main_step_def split: if_splits)
  qed
qed

text \<open>What a worker's step can do to the machine.\<close>

lemma worker_step_shape:
  "(\<exists>ino fr th'. worker_step P t th s = s\<lparr>m_ino := ino, m_freed := fr, m_threads := (m_threads s)[t := th']\<rparr> \<and>
      (th_pc th' = Exited \<or> th_i th < nlines P \<and>
        (th_pc th' = th_pc th \<and> th_i th' = Suc (th_i th) \<or> th_pc th' = AtDump \<and> th_i th' = th_i th))) \<or>
   (\<exists>k. worker_step P t th s = s\<lparr>m_crash := Some k\<rparr>)"
proof -
  show ?thesis
  proof (cases "th_i th < nlines P \<and> th_i th \<in> set (m_freed s)")
    case True
    then have "worker_step P t th s = s\<lparr>m_crash := Some FreedLine\<rparr>" by (simp add: worker_step_def Let_def)
    then show ?thesis by blast
  next
    case nf: False
  show ?thesis
  proof (cases "nlines P \<le> th_i th \<or> owner P (th_i th) \<noteq> t")
    case True
    then show ?thesis using nf
      by (intro disjI1 exI [of _ "m_ino s"] exI [of _ "m_freed s"]
          exI [of _ "if nlines P \<le> th_i th then th\<lparr>th_pc := Exited\<rparr> else th\<lparr>th_i := Suc (th_i th)\<rparr>"])
        (auto simp: worker_step_def Let_def)
  next
    case False
    then have r: "worker_step P t th s = (case worker_line (p_os P) (p_mtime P) (p_lines P ! th_i th) (th_ec th) (m_ino s, th_st th) of
        Undefined k \<Rightarrow> s\<lparr>m_crash := Some k\<rparr>
      | Returns (NextLine, ec, ino, st) \<Rightarrow>
          s\<lparr>m_ino := ino, m_threads := (m_threads s)[t := th\<lparr>th_i := Suc (th_i th), th_ec := ec, th_st := st\<rparr>]\<rparr>
      | Returns (Broke, ec, ino, st) \<Rightarrow>
          s\<lparr>m_ino := ino, m_threads := (m_threads s)[t := th\<lparr>th_pc := Exited, th_ec := ec, th_st := st\<rparr>]\<rparr>
      | Returns (Handled, ec, ino, st) \<Rightarrow>
          s\<lparr>m_ino := ino, m_freed := th_i th # m_freed s,
            m_threads := (m_threads s)[t := th\<lparr>th_pc := AtDump, th_ec := ec, th_st := st\<rparr>]\<rparr>)"
      using nf by (simp add: worker_step_def Let_def)
    show ?thesis
    proof (cases "worker_line (p_os P) (p_mtime P) (p_lines P ! th_i th) (th_ec th) (m_ino s, th_st th)")
      case (Returns x)
      obtain k ec ino st where "x = (k, ec, ino, st)" by (cases x)
      with Returns r show ?thesis
        by (intro disjI1 exI [of _ ino] exI [of _ "if k = Handled then th_i th # m_freed s else m_freed s"]
            exI [of _ "case k of NextLine \<Rightarrow> th\<lparr>th_i := Suc (th_i th), th_ec := ec, th_st := st\<rparr>
              | Broke \<Rightarrow> th\<lparr>th_pc := Exited, th_ec := ec, th_st := st\<rparr>
              | Handled \<Rightarrow> th\<lparr>th_pc := AtDump, th_ec := ec, th_st := st\<rparr>"])
          (use False in \<open>cases k; simp\<close>)
    qed (use r in \<open>intro disjI2, auto\<close>)
  qed
  qed
qed

lemma ctl_inv_thread:
  assumes "ctl_inv P s" "thread_step P t s = Some s'"
  shows "ctl_inv P s'"
proof -
  let ?th = "m_threads s ! t"
  let ?pcs = "map th_pc (m_threads s)"
  have g: "m_crash s = None" "m_main s \<noteq> Finished" "t < length (m_threads s)"
    using assms(2) by (auto simp: thread_step_def split: if_splits)
  have m: "main_inv P (m_main s) ?pcs" and l: "lock_inv (p_threads P) (m_main s) ?pcs (m_lock s)"
    using assms(1) by (simp_all add: ctl_inv_def)
  have nx: "?pcs ! t \<noteq> Exited" using assms(2) g by (auto simp: thread_step_def Let_def)
  note mu = main_inv_update [OF m _ nx]
  have t: "t < length ?pcs" "?pcs ! t = th_pc ?th" using g(3) by simp_all
  show ?thesis
  proof (cases "th_pc ?th")
    case AtLoop
    then have s': "s' = worker_step P t ?th s" using assms(2) g by (simp add: thread_step_def Let_def)
    from worker_step_shape [of P t ?th s] show ?thesis
    proof (elim disjE exE)
      fix ino fr th'
      assume "worker_step P t ?th s = s\<lparr>m_ino := ino, m_freed := fr, m_threads := (m_threads s)[t := th']\<rparr> \<and>
        (th_pc th' = Exited \<or> th_i ?th < nlines P \<and>
          (th_pc th' = th_pc ?th \<and> th_i th' = Suc (th_i ?th) \<or> th_pc th' = AtDump \<and> th_i th' = th_i ?th))"
      then have e: "worker_step P t ?th s = s\<lparr>m_ino := ino, m_freed := fr, m_threads := (m_threads s)[t := th']\<rparr>"
        "th_pc th' \<noteq> InDump" using AtLoop by auto
      then show ?thesis using s' e(1) mu t lock_inv_update [OF l t(1)] AtLoop by (simp add: ctl_inv_def map_update)
    next
      fix k assume "worker_step P t ?th s = s\<lparr>m_crash := Some k\<rparr>"
      then show ?thesis using s' assms(1) by (simp add: ctl_inv_def)
    qed
  next
    case AtDump
    show ?thesis
    proof (cases "m_lock s")
      case None
      then have "s' = s\<lparr>m_lock := Some t, m_threads := (m_threads s)[t := ?th\<lparr>th_pc := InDump\<rparr>]\<rparr>"
        using assms(2) g AtDump by (simp add: thread_step_def Let_def)
      then show ?thesis using mu t lock_inv_acquire l None by (simp add: ctl_inv_def map_update)
    next
      case (Some h)
      then have "s' = s\<lparr>m_threads := (m_threads s)[t := ?th\<lparr>th_pc := AtLoop, th_i := Suc (th_i ?th)\<rparr>]\<rparr>"
        using assms(2) g AtDump by (simp add: thread_step_def Let_def)
      then show ?thesis using mu t lock_inv_update [OF l t(1)] AtDump by (simp add: ctl_inv_def map_update)
    qed
  next
    case InDump
    then obtain out th' where "s' = s\<lparr>m_out := out, m_lock := None, m_threads := (m_threads s)[t := th']\<rparr>" "th_pc th' = AtLoop"
      using assms(2) g by (auto simp: thread_step_def Let_def split: prod.splits)
    then show ?thesis using mu t lock_inv_release [OF l t(1)] InDump by (simp add: ctl_inv_def map_update)
  next
    case Exited
    then show ?thesis using nx t by simp
  qed
qed

text \<open>The data of the machine through a worker's step.\<close>

lemma buf_inv_small:
  assumes "program_ok P" "buf_inv P f tg t th es" "t < p_threads P"
  shows "fpos (ms_fp (th_st th)) < 2 ^ 31" "length (written (th_st th)) = fpos (ms_fp (th_st th))"
proof -
  have f: "f_ok (ms_fp (th_st th))" and w: "written (th_st th) = tagged_bytes es"
    and p: "progress th \<le> nlines P" and j: "filter (\<lambda>x. owner P (fst x) = t) tg @ es = jobs P f t (progress th)"
    using assms(2) by (simp_all add: buf_inv_def)
  show l: "length (written (th_st th)) = fpos (ms_fp (th_st th))" by (rule length_written [OF f])
  have "length (tagged_bytes es) \<le> length (tagged_bytes (jobs P f t (progress th)))"
    unfolding j [symmetric] by simp
  also have "\<dots> \<le> thread_bytes P t" by (rule length_jobs [OF assms(1) p])
  also have "\<dots> < 2 ^ 31" using assms(1,3) unfolding program_ok_def by blast
  finally show "fpos (ms_fp (th_st th)) < 2 ^ 31" using w l by simp
qed

lemma worker_own_line:
  assumes P: "program_ok P" and inv: "data_inv P tg ess f k (m_threads s) (m_ino s)"
    and t: "t < length (m_threads s)" and pc: "th_pc (m_threads s ! t) = AtLoop"
    and i: "th_i (m_threads s ! t) < nlines P" "owner P (th_i (m_threads s ! t)) = t" "th_i (m_threads s ! t) \<notin> set (m_freed s)"
  shows "\<exists>ino fr th' ess' f' k'. worker_step P t (m_threads s ! t) s =
      s\<lparr>m_ino := ino, m_freed := fr, m_threads := (m_threads s)[t := th']\<rparr> \<and>
      data_inv P tg ess' f' k' ((m_threads s)[t := th']) ino \<and> (\<forall>t'. t' \<noteq> t \<longrightarrow> ess' ! t' = ess ! t') \<and>
      progress th' = Suc (th_i (m_threads s ! t)) \<and> set fr \<subseteq> insert (th_i (m_threads s ! t)) (set (m_freed s))"
proof -
  let ?th = "m_threads s ! t" let ?j = "th_i ?th" let ?st = "th_st ?th"
  have b: "buf_inv P f tg t ?th (ess ! t)" and ino: "m_ino s = i_no_init + word_of_nat k"
    using inv t by (simp_all add: data_inv_def)
  have al: "aligned ?st" using b pc by (simp add: buf_inv_def)
  have pr: "progress ?th = ?j" using pc by (simp add: progress_def)
  have good: "line_good (p_os P) (p_mtime P) (p_lines P ! ?j)" "os_ok (p_os P)"
    using P i(1) by (simp_all add: program_ok_def list_all_length)
  obtain e ec' where w: "worker_line (p_os P) (p_mtime P) (p_lines P ! ?j) (th_ec ?th) (m_ino s, ?st) =
      Returns (e, ec', snd (appended (p_ents P ?j) (m_ino s, ?st)))" "e \<noteq> Broke" "e = NextLine \<longrightarrow> p_ents P ?j = []"
    using worker_line_good [OF good al] by blast
  define th' where "th' = (if e = NextLine then ?th\<lparr>th_i := Suc ?j, th_ec := ec', th_st := snd (snd (appended (p_ents P ?j) (m_ino s, ?st)))\<rparr>
    else ?th\<lparr>th_pc := AtDump, th_ec := ec', th_st := snd (snd (appended (p_ents P ?j) (m_ino s, ?st)))\<rparr>)"
  define ino' where "ino' = fst (snd (appended (p_ents P ?j) (m_ino s, ?st)))"
  define fr where "fr = (if e = NextLine then m_freed s else ?j # m_freed s)"
  have step: "worker_step P t ?th s = s\<lparr>m_ino := ino', m_freed := fr, m_threads := (m_threads s)[t := th']\<rparr>"
    using w i by (cases e; cases "snd (appended (p_ents P ?j) (m_ino s, ?st))")
      (simp_all add: worker_step_def Let_def th'_def ino'_def fr_def)
  have pr': "progress th' = Suc ?j" and pc': "th_pc th' \<noteq> Exited" and fr: "set fr \<subseteq> insert ?j (set (m_freed s))"
    using pc by (auto simp: th'_def progress_def fr_def)
  show ?thesis
  proof (cases "p_ents P ?j = []")
    case True
    then have st: "th_st th' = ?st" "ino' = m_ino s" by (simp_all add: th'_def ino'_def appended_def)
    have "jobs P f t (Suc ?j) = jobs P f t ?j" using True by (simp add: jobs_Suc job_def)
    then have "buf_inv P f tg t th' (ess ! t)"
      using b st pr pr' pc' i(1) al by (simp add: buf_inv_def)
    moreover have "busy P ((m_threads s)[t := th']) = busy P (m_threads s)"
      using busy_update_Suc [OF t, of th' P] pr pr' True by simp
    ultimately have "data_inv P tg ess f k ((m_threads s)[t := th']) ino'"
      using data_inv_move [OF inv t] st(2) by simp
    then show ?thesis using step pr' fr by blast
  next
    case False
    let ?f = "f(?j := k)"
    have st: "th_st th' = emit (tagged_bytes (job P ?f ?j)) ?st" "ino' = m_ino s + 1"
      using False ino by (simp_all add: th'_def ino'_def appended_def job_def comp_def)
    have f: "f_ok (ms_fp ?st)" using al by (rule aligned_f_ok)
    have ok: "list_all entry_ok (map snd (job P ?f ?j))"
      using p_ents_ok [OF P i(1)] by (auto simp: job_def list_all_iff)
    have "jobs P ?f t (Suc ?j) = jobs P f t ?j @ job P ?f ?j"
      using jobs_cong [of ?j P t ?f f] i(2) by (simp add: jobs_Suc)
    then have "buf_inv P ?f tg t th' (ess ! t @ job P ?f ?j)"
      using b pr pr' pc' i(1) aligned_encode_all [OF al ok] f unfolding buf_inv_def st(1) by simp
    then have d: "data_inv P tg (ess[t := ess ! t @ job P ?f ?j]) ?f (Suc k) ((m_threads s)[t := th']) ino'"
      unfolding st(2) by (rule data_inv_append [OF inv t pr i(2) False pr'])
    show ?thesis by (intro exI conjI, rule step, rule d) (use pr' fr in simp_all)
  qed
qed

lemma arch_invI:
  assumes "data_inv P tg ess f k (m_threads s) (m_ino s)" "m_main s \<noteq> Finished" "m_out s = tagged_bytes tg"
    "\<forall>t < length (m_threads s). t < flushed P (m_main s) \<longrightarrow> ess ! t = []" "m_crash s = None" "m_ec s = 0"
  shows "arch_inv P s"
  unfolding arch_inv_def
  using assms by (intro conjI exI [of _ tg] exI [of _ ess] exI [of _ f] exI [of _ k]) simp_all

lemma arch_inv_thread:
  assumes P: "program_ok P" and c: "ctl_inv P s" and inv: "arch_inv P s" and step: "thread_step P t s = Some s'"
  shows "arch_inv P s' \<or> s' = s\<lparr>m_crash := Some FreedLine\<rparr>"
proof -
  let ?th = "m_threads s ! t" and ?ths = "m_threads s"
  have g: "m_crash s = None" "m_main s \<noteq> Finished" "t < length ?ths"
    using step by (auto simp: thread_step_def split: if_splits)
  obtain tg ess f k where d: "data_inv P tg ess f k ?ths (m_ino s)" and out: "m_out s = tagged_bytes tg"
    and fl: "\<forall>t < length ?ths. t < flushed P (m_main s) \<longrightarrow> ess ! t = []" and ec: "m_ec s = 0"
    using inv g(2) by (auto simp: arch_inv_def)
  have b: "buf_inv P f tg t ?th (ess ! t)" using d g(3) by (simp add: data_inv_def)
  have tn: "t < p_threads P" using c g(3) by (simp add: ctl_inv_def lock_inv_def)
  have nx: "th_pc ?th \<noteq> Exited" using step g by (auto simp: thread_step_def Let_def)
  then have tf: "\<not> t < flushed P (m_main s)" using c g(3) by (auto simp: ctl_inv_def main_inv_def)
  show ?thesis
  proof (cases "th_pc ?th")
    case AtLoop
    then have s': "s' = worker_step P t ?th s" using step g by (simp add: thread_step_def Let_def)
    have pr: "progress ?th = th_i ?th" using AtLoop by (simp add: progress_def)
    consider "nlines P \<le> th_i ?th" | "th_i ?th < nlines P" "owner P (th_i ?th) \<noteq> t" "th_i ?th \<notin> set (m_freed s)"
      | "th_i ?th < nlines P" "owner P (th_i ?th) = t" "th_i ?th \<notin> set (m_freed s)"
      | "th_i ?th < nlines P" "th_i ?th \<in> set (m_freed s)" by linarith
    then show ?thesis
    proof cases
      case 4
      then show ?thesis using s' by (simp add: worker_step_def Let_def)
    next
      case 1
      then have i: "th_i ?th = nlines P" using b pr by (simp add: buf_inv_def)
      have "data_inv P tg ess f k (?ths[t := ?th\<lparr>th_pc := Exited\<rparr>]) (m_ino s)"
        using b i pr busy_update_same [OF g(3)] by (intro data_inv_move [OF d g(3)]) (simp_all add: buf_inv_def progress_def)
      then show ?thesis using s' 1 g out fl ec by (intro disjI1 arch_invI) (simp_all add: worker_step_def Let_def)
    next
      case 2
      have j: "jobs P f t (Suc (th_i ?th)) = jobs P f t (th_i ?th)" using 2 by (simp add: jobs_Suc)
      have "data_inv P tg ess f k (?ths[t := ?th\<lparr>th_i := Suc (th_i ?th)\<rparr>]) (m_ino s)"
        using b 2 pr AtLoop j busy_update_Suc [OF g(3), of "?th\<lparr>th_i := Suc (th_i ?th)\<rparr>" P]
        by (intro data_inv_move [OF d g(3)]) (simp_all add: buf_inv_def progress_def)
      then show ?thesis using s' 2 g out fl ec by (intro disjI1 arch_invI) (simp_all add: worker_step_def Let_def)
    next
      case 3
      obtain ino fr th' ess' f' k' where w: "worker_step P t ?th s =
          s\<lparr>m_ino := ino, m_freed := fr, m_threads := ?ths[t := th']\<rparr>"
        "data_inv P tg ess' f' k' (?ths[t := th']) ino" "\<forall>t'. t' \<noteq> t \<longrightarrow> ess' ! t' = ess ! t'"
        using worker_own_line [OF P d g(3) AtLoop 3] by blast
      have "\<forall>t' < length ?ths. t' < flushed P (m_main s) \<longrightarrow> ess' ! t' = []" using fl w(3) tf by metis
      then show ?thesis using s' w(1,2) g out ec by (intro disjI1 arch_invI) simp_all
    qed
  next
    case AtDump
    let ?next = "?th\<lparr>th_pc := AtLoop, th_i := Suc (th_i ?th)\<rparr>"
    have i: "data_inv P tg ess f k (?ths[t := ?th\<lparr>th_pc := InDump\<rparr>]) (m_ino s)"
      "data_inv P tg ess f k (?ths[t := ?next]) (m_ino s)"
      using b AtDump busy_update_same [OF g(3)]
      by (auto intro!: data_inv_move [OF d g(3)] simp: buf_inv_def progress_def)
    have "s' = (if m_lock s = None
        then s\<lparr>m_lock := Some t, m_threads := ?ths[t := ?th\<lparr>th_pc := InDump\<rparr>]\<rparr> else s\<lparr>m_threads := ?ths[t := ?next]\<rparr>)"
      using step AtDump g by (cases "m_lock s") (simp_all add: thread_step_def Let_def)
    then show ?thesis using i g out fl ec by (cases "m_lock s = None") (auto intro!: arch_invI disjI1)
  next
    case InDump
    let ?st = "(th_st ?th)\<lparr>ms_fp := rewind (ms_fp (th_st ?th)), ms_offset := 0\<rparr>"
    let ?next = "?th\<lparr>th_pc := AtLoop, th_i := Suc (th_i ?th), th_st := ?st\<rparr>"
    have w: "write_to_stdout (p_io P) (ms_fp (th_st ?th)) (m_out s) =
        (int (fpos (ms_fp (th_st ?th))), m_out s @ tagged_bytes (ess ! t))"
      using write_to_stdout_ok [OF P, of "ms_fp (th_st ?th)"] buf_inv_small [OF P b tn] b
      by (simp add: buf_inv_def written_def)
    have s': "s' = s\<lparr>m_out := m_out s @ tagged_bytes (ess ! t), m_lock := None, m_threads := ?ths[t := ?next]\<rparr>"
      using step InDump g w by (simp add: thread_step_def Let_def)
    have "data_inv P (tg @ ess ! t) (ess[t := []]) f k (?ths[t := ?next]) (m_ino s)"
      using InDump by (intro data_inv_dump [OF d g(3)])
        (auto simp: progress_def rewind_def f_ok_def written_def aligned_def st_ok_def)
    moreover have "\<forall>t' < length ?ths. t' < flushed P (m_main s) \<longrightarrow> ess[t := []] ! t' = []"
      using fl tf by (metis nth_list_update_neq)
    ultimately show ?thesis using s' g out ec
      by (intro disjI1 arch_invI [where tg = "tg @ ess ! t" and ess = "ess[t := []]"]) (auto simp: nth_list_update)
  next
    case Exited
    then show ?thesis using nx by simp
  qed
qed

lemma buf_inv_new: "buf_inv P f tg t new_thread []" if "\<forall>x\<in>set tg. owner P (fst x) \<noteq> t"
  using that by (auto simp: buf_inv_def new_thread_def progress_def jobs_def empty_file_def f_ok_def written_def
      aligned_def st_ok_def filter_empty_conv)

lemma busy_append: "busy P (ths @ [new_thread]) = busy P ths"
proof -
  have "progress new_thread = 0" by (simp add: progress_def new_thread_def)
  then have "owner P j < length (ths @ [new_thread]) \<and> j < progress ((ths @ [new_thread]) ! owner P j) \<longleftrightarrow>
      owner P j < length ths \<and> j < progress (ths ! owner P j)" for j
    by (cases "owner P j < length ths") (auto simp: nth_append)
  then show ?thesis unfolding busy_def by blast
qed

lemma data_inv_spawn:
  assumes "data_inv P tg ess f k ths ino"
  shows "data_inv P tg (ess @ [[]]) f k (ths @ [new_thread]) ino"
proof -
  have "buf_inv P f tg (length ths) new_thread []"
    using assms by (intro buf_inv_new) (auto simp: data_inv_def)
  then show ?thesis using assms by (auto simp: data_inv_def busy_append nth_append less_Suc_eq)
qed

lemma trailer_bytes_written:
  "fdata (ms_fp (cpio_trailer \<lparr>ms_offset = 0, ms_fp = \<lparr>fdata = out, fpos = length out\<rparr>\<rparr>)) = out @ trailer_bytes"
  by (subst cpio_trailer_emit [where k = 0]) (simp_all add: f_ok_def emit_def f_write_def trailer_bytes_def pad_def)

lemma arch_inv_main:
  assumes P: "program_ok P" and c: "ctl_inv P s" and inv: "arch_inv P s" and step: "main_step P s = Some s'"
  shows "arch_inv P s'"
proof -
  let ?ths = "m_threads s"
  have g: "m_crash s = None" "m_main s \<noteq> Finished"
    using step by (auto simp: main_step_def split: if_splits)
  obtain tg ess f k where d: "data_inv P tg ess f k ?ths (m_ino s)" and out: "m_out s = tagged_bytes tg"
    and fl: "\<forall>t < length ?ths. t < flushed P (m_main s) \<longrightarrow> ess ! t = []" and ec: "m_ec s = 0"
    using inv g(2) by (auto simp: arch_inv_def)
  have m: "main_inv P (m_main s) (map th_pc ?ths)" using c by (simp add: ctl_inv_def)
  show ?thesis
  proof (cases "m_main s")
    case (Spawn i)
    show ?thesis
    proof (cases "p_threads P \<le> i")
      case True
      then have "s' = s\<lparr>m_main := Join 0\<rparr>" using step Spawn g by (simp add: main_step_def)
      then show ?thesis using d out g ec by (intro arch_invI [where tg = tg]) (simp_all add: flushed_def)
    next
      case False
      then have "p_spawn P i = Spawned" using P by (simp add: program_ok_def)
      then have "s' = s\<lparr>m_ec := 0, m_threads := ?ths @ [new_thread], m_main := Spawn (Suc i)\<rparr>"
        using step Spawn False g by (simp add: main_step_def)
      then show ?thesis using data_inv_spawn [OF d] out g by (intro arch_invI [where tg = tg]) (simp_all add: flushed_def)
    qed
  next
    case (Join i)
    then have "s' = s\<lparr>m_main := (if p_threads P \<le> i then Trailer else FlushWait i)\<rparr>"
      using step g by (auto simp: main_step_def split: if_splits)
    then show ?thesis using d out fl g ec Join m by (intro arch_invI [where tg = tg])
        (auto simp: flushed_def main_inv_def)
  next
    case (FlushWait i)
    then have "s' = s\<lparr>m_lock := Some (p_threads P), m_main := Flush i\<rparr>"
      using step g by (auto simp: main_step_def split: if_splits)
    then show ?thesis using d out fl g ec FlushWait by (intro arch_invI [where tg = tg]) (auto simp: flushed_def)
  next
    case (Flush i)
    let ?th = "?ths ! i"
    let ?th' = "?th\<lparr>th_st := (th_st ?th)\<lparr>ms_fp := empty_file\<rparr>\<rparr>"
    have i: "i < length ?ths" "i < p_threads P" "th_pc ?th = Exited" using m Flush by (auto simp: main_inv_def)
    have b: "buf_inv P f tg i ?th (ess ! i)" using d i(1) by (simp add: data_inv_def)
    have w: "write_to_stdout (p_io P) (ms_fp (th_st ?th)) (m_out s) =
        (int (fpos (ms_fp (th_st ?th))), m_out s @ tagged_bytes (ess ! i))"
      using write_to_stdout_ok [OF P, of "ms_fp (th_st ?th)"] buf_inv_small [OF P b i(2)] b
      by (simp add: buf_inv_def written_def)
    have s': "s' = s\<lparr>m_out := m_out s @ tagged_bytes (ess ! i), m_lock := None, m_threads := ?ths[i := ?th'],
        m_main := Join (Suc i)\<rparr>"
      using step Flush g w by (simp add: main_step_def Let_def)
    have "data_inv P (tg @ ess ! i) (ess[i := []]) f k (?ths[i := ?th']) (m_ino s)"
      using i(3) b by (intro data_inv_dump [OF d i(1)])
        (auto simp: progress_def empty_file_def f_ok_def written_def buf_inv_def)
    moreover have "length ess = length ?ths" using d by (simp add: data_inv_def)
    ultimately show ?thesis using s' g out fl ec Flush
      by (intro arch_invI [where tg = "tg @ ess ! i" and ess = "ess[i := []]"])
        (auto simp: nth_list_update flushed_def less_Suc_eq)
  next
    case Trailer
    then have "s' = s\<lparr>m_out := m_out s @ trailer_bytes, m_main := Finished\<rparr>"
      using step g ec by (simp add: main_step_def trailer_bytes_written Let_def)
    then show ?thesis unfolding arch_inv_def using d out fl g ec Trailer
      by (intro conjI exI [of _ tg] exI [of _ ess] exI [of _ f] exI [of _ k]) (simp_all add: flushed_def)
  next
    case Finished
    then show ?thesis using g by simp
  qed
qed

lemma reach_inv:
  assumes "(cpio_step P)\<^sup>*\<^sup>* cpio_init s" "program_ok P"
  shows "ctl_inv P s \<and> (arch_inv P s \<or> m_crash s = Some FreedLine)"
  using assms(1)
proof (induction rule: rtranclp_induct)
  case base
  show ?case using ctl_inv_init arch_inv_init by blast
next
  case (step s s')
  have sp: "\<forall>i < p_threads P. p_spawn P i = Spawned" using assms(2) by (simp add: program_ok_def)
  from step.hyps(2) show ?case
  proof (cases rule: cpio_step.cases)
    case (worker t)
    then have "arch_inv P s" using step.IH by (auto simp: thread_step_def split: if_splits)
    then show ?thesis using worker step.IH ctl_inv_thread arch_inv_thread [OF assms(2)] by fastforce
  next
    case main
    then have "arch_inv P s" using step.IH by (auto simp: main_step_def split: if_splits)
    then show ?thesis using main step.IH ctl_inv_main [OF _ _ sp] arch_inv_main [OF assms(2)] by blast
  qed
qed

section \<open>Every run ends\<close>

definition thread_work :: "program \<Rightarrow> thread \<Rightarrow> nat" where
  "thread_work P th = (case th_pc th of
     AtLoop \<Rightarrow> 3 * (nlines P - th_i th) + 1
   | AtDump \<Rightarrow> 3 * (nlines P - Suc (th_i th)) + 3
   | InDump \<Rightarrow> 3 * (nlines P - Suc (th_i th)) + 2
   | Exited \<Rightarrow> 0)"

definition main_work :: "program \<Rightarrow> mpc \<Rightarrow> nat" where
  "main_work P pc = (case pc of
     Spawn i \<Rightarrow> (p_threads P - i) * (3 * nlines P + 3) + 3 * p_threads P + 3
   | Join i \<Rightarrow> 3 * (p_threads P - i) + 2
   | FlushWait i \<Rightarrow> 3 * (p_threads P - Suc i) + 4
   | Flush i \<Rightarrow> 3 * (p_threads P - Suc i) + 3
   | Trailer \<Rightarrow> 1
   | Finished \<Rightarrow> 0)"

definition work :: "program \<Rightarrow> machine \<Rightarrow> nat" where
  "work P s = main_work P (m_main s) + sum_list (map (thread_work P) (m_threads s)) +
     (if m_crash s = None then 1 else 0)"

lemma work_thread_update:
  assumes "m_main s' = m_main s" "m_crash s' = m_crash s" "m_threads s' = (m_threads s)[t := th]"
    and "t < length (m_threads s)" "thread_work P th < thread_work P (m_threads s ! t)"
  shows "work P s' < work P s"
proof -
  let ?w = "map (thread_work P) (m_threads s)"
  have "sum_list (?w[t := thread_work P th]) < sum_list ?w"
    using assms(4,5) elem_le_sum_list [of t ?w] by (simp add: sum_list_update)
  then show ?thesis using assms(1-3) by (simp add: work_def map_update)
qed

lemma work_thread_step:
  assumes "thread_step P t s = Some s'"
  shows "work P s' < work P s"
proof -
  let ?th = "m_threads s ! t"
  have g: "m_crash s = None" "m_main s \<noteq> Finished" "t < length (m_threads s)"
    using assms by (auto simp: thread_step_def split: if_splits)
  show ?thesis
  proof (cases "th_pc ?th")
    case AtLoop
    then have s': "s' = worker_step P t ?th s" using assms g by (simp add: thread_step_def Let_def)
    from worker_step_shape [of P t ?th s] show ?thesis
    proof (elim disjE exE)
      fix ino fr th'
      assume e: "worker_step P t ?th s = s\<lparr>m_ino := ino, m_freed := fr, m_threads := (m_threads s)[t := th']\<rparr> \<and>
        (th_pc th' = Exited \<or> th_i ?th < nlines P \<and>
          (th_pc th' = th_pc ?th \<and> th_i th' = Suc (th_i ?th) \<or> th_pc th' = AtDump \<and> th_i th' = th_i ?th))"
      then have "thread_work P th' < thread_work P ?th" using AtLoop by (auto simp: thread_work_def)
      then show ?thesis using s' e g(3) by (intro work_thread_update) simp_all
    next
      fix k assume "worker_step P t ?th s = s\<lparr>m_crash := Some k\<rparr>"
      then show ?thesis using s' g(1) by (simp add: work_def)
    qed
  next
    case AtDump
    then obtain th' where "m_main s' = m_main s" "m_crash s' = m_crash s" "m_threads s' = (m_threads s)[t := th']"
      "thread_work P th' < thread_work P ?th"
      using assms g by (auto simp: thread_step_def Let_def thread_work_def split: if_splits)
    then show ?thesis using work_thread_update g(3) by blast
  next
    case InDump
    then obtain th' where "m_main s' = m_main s" "m_crash s' = m_crash s" "m_threads s' = (m_threads s)[t := th']"
      "thread_work P th' < thread_work P ?th"
      using assms g by (auto simp: thread_step_def Let_def thread_work_def split: prod.splits)
    then show ?thesis using work_thread_update g(3) by blast
  next
    case Exited
    then show ?thesis using assms g by (simp add: thread_step_def)
  qed
qed

lemma work_main_step:
  assumes "ctl_inv P s" "main_step P s = Some s'"
  shows "work P s' < work P s"
proof -
  have m: "main_inv P (m_main s) (map th_pc (m_threads s))" using assms(1) by (simp add: ctl_inv_def)
  have g: "m_crash s = None" using assms(2) by (auto simp: main_step_def split: if_splits)
  show ?thesis
  proof (cases "m_main s")
    case (Spawn i)
    show ?thesis
    proof (cases "p_threads P \<le> i")
      case True
      then show ?thesis using assms(2) Spawn g by (simp add: main_step_def work_def main_work_def) auto
    next
      case False
      then have "p_threads P - i = Suc (p_threads P - Suc i)" by simp
      then show ?thesis using assms(2) Spawn g False
        by (auto simp: main_step_def work_def main_work_def thread_work_def new_thread_def split: spawn_result.splits)
    qed
  next
    case (Join i)
    then show ?thesis using assms(2) g by (auto simp: main_step_def work_def main_work_def split: if_splits)
  next
    case (FlushWait i)
    then show ?thesis using assms(2) g by (auto simp: main_step_def work_def main_work_def split: if_splits)
  next
    case (Flush i)
    obtain out th where s': "s' = s\<lparr>m_out := out, m_lock := None, m_threads := (m_threads s)[i := th], m_main := Join (Suc i)\<rparr>"
      "th_pc th = th_pc (m_threads s ! i)" "th_i th = th_i (m_threads s ! i)"
      using flush_shape [OF assms(2) Flush] by blast
    then have th: "m_threads s' = (m_threads s)[i := th]" "thread_work P th = thread_work P (m_threads s ! i)"
      "m_main s' = Join (Suc i)" "m_crash s' = m_crash s"
      by (simp_all add: thread_work_def split: tpc.split)
    have i: "i < length (m_threads s)" using m Flush by (simp add: main_inv_def)
    then have "map (thread_work P) (m_threads s') = map (thread_work P) (m_threads s)"
      using th(1,2) by (metis list_update_id map_update nth_map)
    then show ?thesis using th(3,4) Flush g by (simp add: work_def main_work_def)
  next
    case Trailer
    then show ?thesis using assms(2) g by (auto simp: main_step_def Let_def work_def main_work_def split: if_splits)
  next
    case Finished
    then show ?thesis using assms(2) g by (simp add: main_step_def)
  qed
qed

lemma main_inv_threads: "main_inv P pc pcs \<Longrightarrow> length pcs \<le> p_threads P"
  by (cases pc) (auto simp: main_inv_def)

text \<open>No state is stuck before \<^verbatim>\<open>main\<close> has finished.\<close>

lemma thread_can_move:
  assumes "m_crash s = None" "m_main s \<noteq> Finished" "t < length (m_threads s)" "th_pc (m_threads s ! t) \<noteq> Exited"
  shows "\<exists>s'. thread_step P t s = Some s'"
  using assms by (cases "th_pc (m_threads s ! t)") (auto simp: thread_step_def Let_def split: prod.splits)

lemma thread_can_step:
  assumes "m_crash s = None" "m_main s \<noteq> Finished" "t < length (m_threads s)" "th_pc (m_threads s ! t) \<noteq> Exited"
  shows "\<exists>s'. cpio_step P s s'"
  using thread_can_move [OF assms] cpio_step.worker by blast

lemma not_stuck:
  assumes "ctl_inv P s" "m_crash s = None" "m_main s \<noteq> Finished"
  shows "\<exists>s'. cpio_step P s s'"
proof -
  have m: "main_inv P (m_main s) (map th_pc (m_threads s))"
    and l: "lock_inv (p_threads P) (m_main s) (map th_pc (m_threads s)) (m_lock s)"
    using assms(1) by (simp_all add: ctl_inv_def)
  consider "\<exists>s'. main_step P s = Some s'" | t where "t < length (m_threads s)" "th_pc (m_threads s ! t) \<noteq> Exited"
  proof (cases "m_main s")
    case (Spawn i)
    then show ?thesis using assms(2) that by (auto simp: main_step_def split: spawn_result.splits)
  next
    case (Join i)
    then show ?thesis using assms(2) that(1) that(2) [of i] m
      by (cases "i < p_threads P"; cases "th_pc (m_threads s ! i) = Exited") (simp_all add: main_step_def main_inv_def)
  next
    case (FlushWait i)
    show ?thesis
    proof (cases "m_lock s")
      case None
      then show ?thesis using FlushWait assms(2) that(1) by (simp add: main_step_def)
    next
      case (Some h)
      then have "h < length (m_threads s)" "th_pc (m_threads s ! h) = InDump"
        using l FlushWait by (auto simp: lock_inv_def flushing_def)
      then show ?thesis using that(2) [of h] by simp
    qed
  next
    case (Flush i)
    then show ?thesis using assms(2) that(1) by (auto simp: main_step_def Let_def split: prod.splits)
  next
    case Trailer
    then show ?thesis using assms(2) that(1) by (auto simp: main_step_def Let_def)
  next
    case Finished
    then show ?thesis using assms(3) by simp
  qed
  then show ?thesis
  proof cases
    case 1
    then show ?thesis using cpio_step.main by blast
  next
    case 2
    then show ?thesis using thread_can_step assms(2,3) by blast
  qed
qed

lemma step_decreases:
  assumes "program_ok P" "(cpio_step P)\<^sup>*\<^sup>* cpio_init s" "cpio_step P s s'"
  shows "work P s' < work P s"
  using assms(3) reach_inv [OF assms(2,1)]
  by (cases rule: cpio_step.cases) (auto intro: work_thread_step work_main_step)

lemma thread_step_main:
  assumes "thread_step P t s = Some s'"
  shows "m_main s' = m_main s"
proof -
  let ?th = "m_threads s ! t"
  have g: "m_crash s = None" "m_main s \<noteq> Finished" "t < length (m_threads s)"
    using assms by (auto simp: thread_step_def split: if_splits)
  show ?thesis
  proof (cases "th_pc ?th")
    case AtLoop
    then have "s' = worker_step P t ?th s" using assms g by (simp add: thread_step_def Let_def)
    then show ?thesis using worker_step_shape [of P t ?th s] by auto
  next
    case AtDump
    then show ?thesis using assms g by (auto simp: thread_step_def Let_def split: if_splits)
  next
    case InDump
    then show ?thesis using assms g by (auto simp: thread_step_def Let_def split: prod.splits)
  next
    case Exited
    then show ?thesis using assms g by (simp add: thread_step_def)
  qed
qed

text \<open>\<^verbatim>\<open>main\<close> only finishes in a program that has not crashed.\<close>

lemma finished_no_crash: "(cpio_step P)\<^sup>*\<^sup>* cpio_init s \<Longrightarrow> m_main s = Finished \<Longrightarrow> m_crash s = None"
proof (induction rule: rtranclp_induct)
  case (step s s')
  from step.hyps(2) show ?case
  proof (cases rule: cpio_step.cases)
    case (worker t)
    then have "m_main s \<noteq> Finished" by (auto simp: thread_step_def split: if_splits)
    then show ?thesis using step.prems thread_step_main [OF worker] by simp
  next
    case main
    then show ?thesis by (auto simp: main_step_def Let_def split: if_splits mpc.splits prod.splits spawn_result.splits)
  qed
qed (simp add: cpio_init_def)

section \<open>Runs in which no freed line is read\<close>

text \<open>
  A line is read by every worker, and freed by its owner. A state is safe when every worker that
  has started is past every freed line, and no worker is still to start once a line has been freed.
\<close>

definition ahead :: "program \<Rightarrow> machine \<Rightarrow> bool" where
  "ahead P s \<longleftrightarrow> (\<forall>j\<in>set (m_freed s). \<forall>th\<in>set (m_threads s). j < progress th) \<and>
     (\<forall>i. m_main s = Spawn i \<longrightarrow> i < p_threads P \<longrightarrow> m_freed s = [])"

lemma ahead_init: "ahead P cpio_init"
  by (simp add: ahead_def cpio_init_def)

lemma aheadD: "ahead P s \<Longrightarrow> j \<in> set (m_freed s) \<Longrightarrow> t < length (m_threads s) \<Longrightarrow> j < progress (m_threads s ! t)"
  by (auto simp: ahead_def)

lemma ahead_not_freed: "ahead P s \<Longrightarrow> t < length (m_threads s) \<Longrightarrow> th_pc (m_threads s ! t) = AtLoop \<Longrightarrow>
    th_i (m_threads s ! t) \<notin> set (m_freed s)"
  using aheadD [of P s "th_i (m_threads s ! t)" t] by (auto simp: progress_def)

lemma ahead_update:
  assumes "ahead P s" "t < length (m_threads s)" "m_threads s' = (m_threads s)[t := th']" "m_main s' = m_main s"
    and "set (m_freed s') \<subseteq> set (m_freed s)" "progress (m_threads s ! t) \<le> progress th'"
  shows "ahead P s'"
proof -
  have "j < progress th" if "j \<in> set (m_freed s')" "th \<in> set (m_threads s')" for j th
  proof -
    have "th = th' \<or> th \<in> set (m_threads s)" using that(2) assms(3) set_update_subset_insert [of "m_threads s" t th'] by auto
    then show ?thesis using aheadD [OF assms(1) _ assms(2), of j] assms(1,5,6) that(1) by (auto simp: ahead_def)
  qed
  then show ?thesis using assms(1,4,5) by (auto simp: ahead_def)
qed

text \<open>A step of a worker keeps this, unless it frees a line that another has not read.\<close>

definition frees_last :: "program \<Rightarrow> machine \<Rightarrow> nat \<Rightarrow> bool" where
  "frees_last P s t \<longleftrightarrow>
     (let th = m_threads s ! t in th_pc th = AtLoop \<longrightarrow> th_i th < nlines P \<longrightarrow> owner P (th_i th) = t \<longrightarrow>
        (\<forall>i. m_main s = Spawn i \<longrightarrow> p_threads P \<le> i) \<and>
        (\<forall>t' < length (m_threads s). t' \<noteq> t \<longrightarrow> th_i th < progress (m_threads s ! t')))"

lemma ahead_own_line:
  assumes P: "program_ok P" and a: "arch_inv P s" and h: "ahead P s" and u: "frees_last P s t"
    and step: "thread_step P t s = Some s'" and pc: "th_pc (m_threads s ! t) = AtLoop"
    and i: "th_i (m_threads s ! t) < nlines P" "owner P (th_i (m_threads s ! t)) = t"
  shows "ahead P s' \<and> m_crash s' = None"
proof -
  let ?th = "m_threads s ! t"
  have g: "m_crash s = None" "m_main s \<noteq> Finished" "t < length (m_threads s)"
    using step by (auto simp: thread_step_def split: if_splits)
  obtain tg ess f k where d: "data_inv P tg ess f k (m_threads s) (m_ino s)" using a by (auto simp: arch_inv_def)
  obtain ino fr th' where w: "worker_step P t ?th s = s\<lparr>m_ino := ino, m_freed := fr, m_threads := (m_threads s)[t := th']\<rparr>"
    "progress th' = Suc (th_i ?th)" "set fr \<subseteq> insert (th_i ?th) (set (m_freed s))"
    using worker_own_line [OF P d g(3) pc i ahead_not_freed [OF h g(3) pc]] by blast
  have s': "s' = worker_step P t ?th s" using step pc g by (simp add: thread_step_def Let_def)
  have "j < progress ((m_threads s)[t := th'] ! t')" if j: "j \<in> set fr" and t': "t' < length (m_threads s)" for j t'
  proof (cases "t' = t")
    case True
    have "j \<le> th_i ?th" using j w(3) aheadD [OF h _ g(3), of j] pc by (auto simp: progress_def)
    then show ?thesis using True t' w(2) by simp
  next
    case False
    then have "th_i ?th < progress (m_threads s ! t')" using u pc i t' by (simp add: frees_last_def Let_def)
    then have "j < progress (m_threads s ! t')" using j w(3) aheadD [OF h _ t', of j] by auto
    then show ?thesis using False by simp
  qed
  moreover have "\<forall>i. m_main s = Spawn i \<longrightarrow> p_threads P \<le> i" using u pc i by (simp add: frees_last_def Let_def)
  ultimately have "ahead P s'" using s' w(1) by (auto simp: ahead_def in_set_conv_nth [of _ "(m_threads s)[t := th']"])
  then show ?thesis using s' w(1) g(1) by simp
qed

lemma ahead_thread:
  assumes P: "program_ok P" and a: "arch_inv P s" and h: "ahead P s" and u: "frees_last P s t"
    and step: "thread_step P t s = Some s'"
  shows "ahead P s' \<and> m_crash s' = None"
proof -
  let ?th = "m_threads s ! t"
  have g: "m_crash s = None" "m_main s \<noteq> Finished" "t < length (m_threads s)"
    using step by (auto simp: thread_step_def split: if_splits)
  show ?thesis
  proof (cases "th_pc ?th")
    case AtLoop
    then have s': "s' = worker_step P t ?th s" using step g by (simp add: thread_step_def Let_def)
    consider "nlines P \<le> th_i ?th" | "th_i ?th < nlines P" "owner P (th_i ?th) \<noteq> t"
      | "th_i ?th < nlines P" "owner P (th_i ?th) = t" by linarith
    then show ?thesis
    proof cases
      case 1
      then have "s' = s\<lparr>m_threads := (m_threads s)[t := ?th\<lparr>th_pc := Exited\<rparr>]\<rparr>"
        using s' by (simp add: worker_step_def Let_def)
      then show ?thesis using g AtLoop by (auto intro!: ahead_update [OF h g(3)] simp: progress_def)
    next
      case 2
      then have "s' = s\<lparr>m_threads := (m_threads s)[t := ?th\<lparr>th_i := Suc (th_i ?th)\<rparr>]\<rparr>"
        using s' ahead_not_freed [OF h g(3) AtLoop] by (simp add: worker_step_def Let_def)
      then show ?thesis using g AtLoop by (auto intro!: ahead_update [OF h g(3)] simp: progress_def)
    next
      case 3
      then show ?thesis using ahead_own_line [OF P a h u step AtLoop] by blast
    qed
  next
    case AtDump
    then show ?thesis using step g
      by (cases "m_lock s") (auto intro!: ahead_update [OF h g(3)] simp: thread_step_def Let_def progress_def)
  next
    case InDump
    obtain ret out where "write_to_stdout (p_io P) (ms_fp (th_st ?th)) (m_out s) = (ret, out)" by (rule prod.exhaust)
    then show ?thesis using step g InDump
      by (auto intro!: ahead_update [OF h g(3)] simp: thread_step_def Let_def progress_def)
  next
    case Exited
    then show ?thesis using step g by (simp add: thread_step_def)
  qed
qed

lemma ahead_main:
  assumes c: "ctl_inv P s" and h: "ahead P s" and step: "main_step P s = Some s'"
  shows "ahead P s' \<and> m_crash s' = None"
proof -
  have g: "m_crash s = None" using step by (auto simp: main_step_def split: if_splits)
  show ?thesis
  proof (cases "m_main s")
    case (Spawn i)
    then show ?thesis using step g h
      by (cases "p_threads P \<le> i"; cases "p_spawn P i") (auto simp: main_step_def ahead_def)
  next
    case (Join i)
    then show ?thesis using step g h by (auto simp: main_step_def ahead_def split: if_splits)
  next
    case (FlushWait i)
    then show ?thesis using step g h by (auto simp: main_step_def ahead_def split: if_splits)
  next
    case (Flush i)
    obtain out th where s': "s' = s\<lparr>m_out := out, m_lock := None, m_threads := (m_threads s)[i := th], m_main := Join (Suc i)\<rparr>"
      "th_pc th = th_pc (m_threads s ! i)" "th_i th = th_i (m_threads s ! i)"
      using flush_shape [OF step Flush] by blast
    have i: "i < length (m_threads s)" using c Flush by (simp add: ctl_inv_def main_inv_def)
    have "ahead P (s\<lparr>m_threads := (m_threads s)[i := th]\<rparr>)"
      by (intro ahead_update [OF h i, of _ th]) (simp_all add: progress_def [of th] progress_def [of "m_threads s ! i"] s'(2) s'(3))
    then show ?thesis using s'(1) g by (simp add: ahead_def)
  next
    case Trailer
    then show ?thesis using step g h by (auto simp: main_step_def ahead_def Let_def)
  next
    case Finished
    then show ?thesis using step g by (simp add: main_step_def)
  qed
qed

text \<open>Some step always keeps it: that of the worker that is furthest behind, if no other.\<close>

lemma waiting_main:
  assumes "ctl_inv P s" "m_crash s = None" "m_main s \<noteq> Finished" "main_step P s = None" "\<forall>i < p_threads P. p_spawn P i = Spawned"
  shows "(\<forall>i. m_main s \<noteq> Spawn i) \<and> (\<exists>t < length (m_threads s). th_pc (m_threads s ! t) \<noteq> Exited)"
proof -
  have m: "main_inv P (m_main s) (map th_pc (m_threads s))"
    and l: "lock_inv (p_threads P) (m_main s) (map th_pc (m_threads s)) (m_lock s)"
    using assms(1) by (simp_all add: ctl_inv_def)
  show ?thesis
  proof (cases "m_main s")
    case (Spawn i)
    then show ?thesis using assms(2,4,5) by (cases "p_threads P \<le> i") (simp_all add: main_step_def)
  next
    case (Join i)
    then show ?thesis using assms(2,4) m
      by (cases "i < p_threads P"; cases "th_pc (m_threads s ! i) = Exited") (auto simp: main_step_def main_inv_def)
  next
    case (FlushWait i)
    then obtain h where "m_lock s = Some h" using assms(2,4) by (cases "m_lock s") (simp_all add: main_step_def)
    then have "h < length (m_threads s)" "th_pc (m_threads s ! h) = InDump"
      using l FlushWait by (auto simp: lock_inv_def flushing_def)
    then show ?thesis using FlushWait by (intro conjI exI [of _ h]) simp_all
  next
    case (Flush i)
    then show ?thesis using assms(2,4) by (auto simp: main_step_def Let_def split: prod.splits)
  next
    case Trailer
    then show ?thesis using assms(2,4) by (simp add: main_step_def Let_def)
  next
    case Finished
    then show ?thesis using assms(3) by simp
  qed
qed

lemma furthest_behind:
  assumes sp: "\<forall>i. m_main s \<noteq> Spawn i" and t: "t < length (m_threads s)" "th_pc (m_threads s ! t) \<noteq> Exited"
    and e: "\<forall>t < length (m_threads s). th_pc (m_threads s ! t) = Exited \<longrightarrow> th_i (m_threads s ! t) = nlines P"
  shows "\<exists>t < length (m_threads s). th_pc (m_threads s ! t) \<noteq> Exited \<and> frees_last P s t"
proof (cases "\<exists>t < length (m_threads s). th_pc (m_threads s ! t) \<noteq> Exited \<and>
    \<not> (th_pc (m_threads s ! t) = AtLoop \<and> th_i (m_threads s ! t) < nlines P \<and> owner P (th_i (m_threads s ! t)) = t)")
  case True
  then show ?thesis by (auto simp: frees_last_def Let_def)
next
  case False
  let ?T = "{t. t < length (m_threads s) \<and> th_pc (m_threads s ! t) \<noteq> Exited}"
  have own: "th_pc (m_threads s ! u) = AtLoop" "th_i (m_threads s ! u) < nlines P" "owner P (th_i (m_threads s ! u)) = u"
    if "u \<in> ?T" for u using False that by blast+
  obtain u where u: "u \<in> ?T" "\<forall>v\<in>?T. th_i (m_threads s ! u) \<le> th_i (m_threads s ! v)"
    using ex_has_least_nat [of "\<lambda>u. u \<in> ?T" t "\<lambda>u. th_i (m_threads s ! u)"] t by blast
  have "th_i (m_threads s ! u) < progress (m_threads s ! v)" if v: "v < length (m_threads s)" "v \<noteq> u" for v
  proof (cases "v \<in> ?T")
    case True
    then have "th_i (m_threads s ! u) \<noteq> th_i (m_threads s ! v)" using own(3) u(1) v(2) by metis
    then show ?thesis using u(2) True own(1) [OF True] by (simp add: progress_def order_less_le)
  next
    case False
    then show ?thesis using e v(1) own(2) [OF u(1)] by (simp add: progress_def)
  qed
  then have "frees_last P s u" using sp by (simp add: frees_last_def Let_def)
  then show ?thesis using u(1) by blast
qed

lemma ahead_can_step:
  assumes P: "program_ok P" and c: "ctl_inv P s" and a: "arch_inv P s" and h: "ahead P s"
    and g: "m_crash s = None" "m_main s \<noteq> Finished"
  shows "\<exists>s'. cpio_step P s s' \<and> ahead P s' \<and> m_crash s' = None"
proof (cases "main_step P s")
  case (Some s')
  then show ?thesis using ahead_main [OF c h] cpio_step.main by blast
next
  case None
  have sp: "\<forall>i < p_threads P. p_spawn P i = Spawned" using P by (simp add: program_ok_def)
  obtain tg ess f k where d: "data_inv P tg ess f k (m_threads s) (m_ino s)" using a by (auto simp: arch_inv_def)
  then have "\<forall>t < length (m_threads s). th_pc (m_threads s ! t) = Exited \<longrightarrow> th_i (m_threads s ! t) = nlines P"
    by (simp add: data_inv_def buf_inv_def)
  then obtain t where t: "t < length (m_threads s)" "th_pc (m_threads s ! t) \<noteq> Exited" "frees_last P s t"
    using waiting_main [OF c g None sp] furthest_behind by blast
  then obtain s' where "thread_step P t s = Some s'"
    using thread_can_move [OF g] by blast
  then show ?thesis using ahead_thread [OF P a h t(3)] cpio_step.worker by blast
qed

lemma ahead_reaches_end:
  assumes P: "program_ok P" and "(cpio_step P)\<^sup>*\<^sup>* cpio_init s" "ahead P s" "m_crash s = None"
  shows "\<exists>s'. (cpio_step P)\<^sup>*\<^sup>* s s' \<and> m_main s' = Finished"
  using assms(2-4)
proof (induction "work P s" arbitrary: s rule: less_induct)
  case less
  show ?case
  proof (cases "m_main s = Finished")
    case False
    have "ctl_inv P s" "arch_inv P s" using reach_inv [OF less.prems(1) P] less.prems(3) by auto
    then obtain s1 where s1: "cpio_step P s s1" "ahead P s1" "m_crash s1 = None"
      using ahead_can_step [OF P _ _ less.prems(2,3) False] by blast
    have r: "(cpio_step P)\<^sup>*\<^sup>* cpio_init s1" using less.prems(1) s1(1) by simp
    obtain s' where "(cpio_step P)\<^sup>*\<^sup>* s1 s'" "m_main s' = Finished"
      using less.hyps [OF step_decreases [OF P less.prems(1) s1(1)] r s1(2,3)] by blast
    then show ?thesis using s1(1) by (meson converse_rtranclp_into_rtranclp)
  qed blast
qed

lemma run_reaches_end:
  assumes "program_ok P"
  shows "\<exists>s. (cpio_step P)\<^sup>*\<^sup>* cpio_init s \<and> m_main s = Finished"
  using ahead_reaches_end [OF assms rtranclp.rtrancl_refl ahead_init] by (simp add: cpio_init_def)

text \<open>A single worker never meets a line that it has freed itself.\<close>

lemma one_thread_ahead:
  assumes P: "program_ok P" "p_threads P = 1" and r: "(cpio_step P)\<^sup>*\<^sup>* cpio_init s"
  shows "ahead P s \<and> m_crash s = None"
  using r
proof (induction rule: rtranclp_induct)
  case base
  show ?case using ahead_init by (simp add: cpio_init_def)
next
  case (step s s')
  have c: "ctl_inv P s" and a: "arch_inv P s" using reach_inv [OF step.hyps(1) P(1)] step.IH by auto
  from step.hyps(2) show ?case
  proof (cases rule: cpio_step.cases)
    case (worker t)
    then have t: "t < length (m_threads s)" by (auto simp: thread_step_def split: if_splits)
    have m: "main_inv P (m_main s) (map th_pc (m_threads s))" using c by (simp add: ctl_inv_def)
    then have "length (m_threads s) \<le> 1" using main_inv_threads P(2) by fastforce
    then have "frees_last P s t" using t m P(2) by (auto simp: frees_last_def Let_def main_inv_def)
    then show ?thesis using ahead_thread [OF P(1) a _ _ worker] step.IH by blast
  next
    case main
    then show ?thesis using ahead_main [OF c] step.IH by blast
  qed
qed

section \<open>The end of a run\<close>

lemma no_infinite_run:
  assumes "program_ok P" "r 0 = cpio_init"
  shows "\<exists>i. \<not> cpio_step P (r i) (r (Suc i))"
proof (rule ccontr)
  assume "\<not> ?thesis"
  then have st: "cpio_step P (r i) (r (Suc i))" for i by blast
  have re: "(cpio_step P)\<^sup>*\<^sup>* cpio_init (r i)" for i
    by (induction i) (use assms(2) st in \<open>auto intro: rtranclp.rtrancl_into_rtrancl\<close>)
  have "work P (r i) + i \<le> work P (r 0)" for i
  proof (induction i)
    case (Suc i)
    then show ?case using step_decreases [OF assms(1) re st, of i] by linarith
  qed simp
  from this [of "Suc (work P (r 0))"] show False by simp
qed

lemma finished_archive:
  assumes P: "program_ok P" and r: "(cpio_step P)\<^sup>*\<^sup>* cpio_init s" and fin: "m_main s = Finished"
  shows "\<exists>tg f. m_out s = tagged_bytes tg @ trailer_bytes \<and>
    (\<forall>x\<in>set tg. owner P (fst x) < p_threads P) \<and>
    (\<forall>t < p_threads P. filter (\<lambda>x. owner P (fst x) = t) tg = jobs P f t (nlines P)) \<and>
    inj_on f {j. j < nlines P \<and> p_ents P j \<noteq> []} \<and>
    f ` {j. j < nlines P \<and> p_ents P j \<noteq> []} \<subseteq> {..<nlines P}"
proof -
  have c: "ctl_inv P s" using reach_inv [OF r P] by simp
  have a: "arch_inv P s" using reach_inv [OF r P] finished_no_crash [OF r fin] by simp
  have n: "length (m_threads s) = p_threads P" "\<forall>t < p_threads P. th_pc (m_threads s ! t) = Exited"
    using c fin by (auto simp: ctl_inv_def main_inv_def flushed_def)
  obtain tg ess f k where d: "data_inv P tg ess f k (m_threads s) (m_ino s)"
    and out: "m_out s = tagged_bytes tg @ trailer_bytes" and e: "\<forall>t < p_threads P. ess ! t = []"
    using a fin n(1) by (auto simp: arch_inv_def flushed_def)
  have pr: "progress (m_threads s ! t) = nlines P" if "t < p_threads P" for t
    using d n that by (auto simp: data_inv_def buf_inv_def progress_def)
  have own: "owner P j < p_threads P" for j using P by (simp add: owner_def program_ok_def)
  have busy: "busy P (m_threads s) = {j. j < nlines P \<and> p_ents P j \<noteq> []}"
    using own pr n(1) by (auto simp: busy_def)
  have bij: "bij_betw f {j. j < nlines P \<and> p_ents P j \<noteq> []} {..<k}" using d busy by (simp add: data_inv_def)
  then have "k = card {j. j < nlines P \<and> p_ents P j \<noteq> []}" using bij_betw_same_card by fastforce
  also have "\<dots> \<le> card {..<nlines P}" by (intro card_mono) auto
  finally have "{..<k} \<subseteq> {..<nlines P}" by simp
  then have "inj_on f {j. j < nlines P \<and> p_ents P j \<noteq> []}" "f ` {j. j < nlines P \<and> p_ents P j \<noteq> []} \<subseteq> {..<nlines P}"
    using bij unfolding bij_betw_def by auto
  moreover have "\<forall>t < p_threads P. filter (\<lambda>x. owner P (fst x) = t) tg = jobs P f t (nlines P)"
    using d e pr n(1) by (auto simp: data_inv_def buf_inv_def)
  moreover have "\<forall>x\<in>set tg. owner P (fst x) < p_threads P" using own by simp
  ultimately show ?thesis using out by blast
qed

lemma finished_decodes:
  assumes P: "program_ok P" and n: "\<forall>j < nlines P. \<forall>e\<in>set (p_ents P j). ce_name e \<noteq> ''TRAILER!!!''"
    and own: "\<forall>x\<in>set tg. owner P (fst x) < p_threads P"
    and j: "\<forall>t < p_threads P. filter (\<lambda>x. owner P (fst x) = t) tg = jobs P f t (nlines P)"
  shows "decode_archive (Suc (length tg)) (tagged_bytes tg @ trailer_bytes) = Some (map snd tg)"
proof -
  have mem: "x \<in> set (jobs P f (owner P (fst x)) (nlines P))" if "x \<in> set tg" for x
  proof -
    have "x \<in> set (filter (\<lambda>y. owner P (fst y) = owner P (fst x)) tg)" using that by simp
    then show ?thesis using j own that by simp
  qed
  have "entry_ok (snd x)" if "x \<in> set tg" for x using jobs_ok [OF P _ mem [OF that]] by simp
  moreover have "ce_name (snd x) \<noteq> ''TRAILER!!!''" if "x \<in> set tg" for x
    using mem [OF that] n by (auto simp: jobs_def job_def with_ino_def)
  ultimately show ?thesis
    using decode_archive_encode [of "map snd tg" "Suc (length tg)" "replicate 388 NUL"]
    by (auto simp: trailer_bytes_def list_all_iff)
qed

end
