(* ===== verification/Cpio_Program.thy ===== *)
theory Cpio_Program
  imports Cpio_Threads
begin

text \<open>
  The correctness of \<^verbatim>\<open>src/gen_init_cpio.c\<close>, stated over the definitions of the source: the
  archive format, the line handlers, the expansion of locations, the reading of the list, and
  whole runs of the threaded program; with a sample program as the concrete instance.
\<close>

section \<open>A sample run\<close>

definition sample_os :: os where
  "sample_os = \<lparr>os_open = (\<lambda>p. if p = ''src/init'' then Some 3 else None), os_fstat = (\<lambda>fd. Some (5, 9)),
     os_malloc = (\<lambda>n. Some (replicate n NUL)), os_read = (\<lambda>fd n. Some (take n ''hello'')), os_fwrite = (\<lambda>_. True),
     os_getenv = (\<lambda>x. if x = ''D'' then Some ''src'' else None)\<rparr>"

definition sample_program :: program where
  "sample_program = \<lparr>p_os = sample_os,
     p_io = \<lparr>io_malloc = (\<lambda>_. True), io_fread = (\<lambda>_. True), io_fwrite = length\<rparr>,
     p_mtime = 1, p_lines = [''# comment'' @ [CHR 0x0A], ''dir /dev 0755 0 0'' @ [CHR 0x0A]], p_threads = 2, p_spawn = (\<lambda>_. Spawned)\<rparr>"

lemma sample_os_ok: "os_ok sample_os"
  by (auto simp: os_ok_def sample_os_def)

lemma sample_lines:
  "line_words (''# comment'' @ [CHR 0x0A]) = None"
  "line_words (''dir /dev 0755 0 0'' @ [CHR 0x0A]) = Some (''dir'', Some ''/dev 0755 0 0'')"
  by code_simp+

lemma sample_good: "list_all (line_good sample_os 1) (p_lines sample_program)"
proof -
  have "line_ok 1 (''# comment'' @ [CHR 0x0A])" "line_ok 1 (''dir /dev 0755 0 0'' @ [CHR 0x0A])"
    by (simp_all add: line_ok_def cstring_def LINE_SIZE_def PATH_MAX_def)
  moreover have "strtok_r blanks (''dir /dev 0755 0 0'' @ [CHR 0x0A]) \<noteq> None" by code_simp
  ultimately show ?thesis by (simp add: sample_program_def line_good_def sample_lines [simplified])
qed

lemmas scan_simps = scan_str_def skip_ws_def c_isspace_def PATH_MAX_def scan_unsigned_def scan_int_def scan_num_def
  digit_in_def num_of_def Let_def

lemma sample_ents:
  "p_ents sample_program 0 = []"
  "p_ents sample_program 1 = [special_entry 1 0 ''/dev'' 0x41ED 0 0 2 0 0]"
proof -
  show "p_ents sample_program 0 = []" by (simp add: sample_program_def line_ents_def sample_lines [simplified])
  have "generic_args ''/dev 0755 0 0'' = Some (''/dev'', 0x1ED, 0, 0)"
    by (simp add: generic_args_def scan_simps)
  then show "p_ents sample_program 1 = [special_entry 1 0 ''/dev'' 0x41ED 0 0 2 0 0]"
    by (simp add: sample_program_def line_ents_def sample_lines [simplified] ents_table_def generic_ents_def S_IFDIR_def)
qed

lemma sample_program_ok: "program_ok sample_program"
proof -
  have e: "entry_ok (special_entry 1 0 ''/dev'' 0x41ED 0 0 2 0 0)"
    using line_ents_ok [of sample_os 1 "''dir /dev 0755 0 0'' @ [CHR 0x0A]"] sample_good sample_os_ok sample_ents(2)
    by (simp add: sample_program_def)
  have l: "length (encode_entry (special_entry 1 0 ''/dev'' 0x41ED 0 0 2 0 0)) < 2 ^ 31"
    by (simp add: encode_entry_def length_entry_header [OF e]) (simp add: special_entry_def strip_slash_def pad_def)
  have n: "nlines sample_program = 2" "p_threads sample_program = 2" by (simp_all add: sample_program_def)
  have "thread_bytes sample_program t < 2 ^ 31" for t
    using l sample_ents by (simp add: thread_bytes_def n numeral_2_eq_2)
  then show ?thesis
    using sample_good sample_os_ok unfolding program_ok_def by (simp add: sample_program_def)
qed

lemma sample_names: "\<forall>j < nlines sample_program. \<forall>e\<in>set (p_ents sample_program j). ce_name e \<noteq> ''TRAILER!!!''"
proof -
  have "nlines sample_program = 2" by (simp add: sample_program_def)
  then show ?thesis using sample_ents by (auto simp: less_2_cases_iff special_entry_def strip_slash_def)
qed

section \<open>Whole runs\<close>

text \<open>
  When the program finishes, under any interleaving of its threads, nothing
  undefined has happened and the standard output is an archive: it decodes to an interleaving
  of the entries of the lines, each thread's share complete and in the order of the list,
  every line's entries under an inode number of its own, and the trailer with its fill at
  the end.
\<close>

theorem gen_init_cpio_archive:
  assumes "program_ok P" "(cpio_step P)\<^sup>*\<^sup>* cpio_init s" "m_main s = Finished"
    and "\<forall>j < nlines P. \<forall>e\<in>set (p_ents P j). ce_name e \<noteq> ''TRAILER!!!''"
  shows "m_crash s = None \<and>
    (\<exists>tg f. decode_archive (Suc (length tg)) (m_out s) = Some (map snd tg) \<and>
      m_out s = concat (map encode_entry (map snd tg)) @ encode_entry trailer_entry @ replicate 388 NUL \<and>
      (\<forall>t < p_threads P. filter (\<lambda>x. owner P (fst x) = t) tg =
        concat (map (\<lambda>j. map (\<lambda>e. (j, with_ino (i_no_init + word_of_nat (f j)) e)) (p_ents P j))
          (filter (\<lambda>j. owner P j = t) [0..<nlines P]))) \<and>
      inj_on f {j. j < nlines P \<and> p_ents P j \<noteq> []} \<and>
      f ` {j. j < nlines P \<and> p_ents P j \<noteq> []} \<subseteq> {..<nlines P})"
proof -
  obtain tg f where t: "m_out s = tagged_bytes tg @ trailer_bytes" "\<forall>x\<in>set tg. owner P (fst x) < p_threads P"
    "\<forall>t < p_threads P. filter (\<lambda>x. owner P (fst x) = t) tg = jobs P f t (nlines P)"
    "inj_on f {j. j < nlines P \<and> p_ents P j \<noteq> []}" "f ` {j. j < nlines P \<and> p_ents P j \<noteq> []} \<subseteq> {..<nlines P}"
    using finished_archive [OF assms(1-3)] by blast
  have "decode_archive (Suc (length tg)) (m_out s) = Some (map snd tg)"
    unfolding t(1) by (rule finished_decodes [OF assms(1,4) t(2,3)])
  moreover have "m_crash s = None" using finished_no_crash [OF assms(2,3)] .
  ultimately show ?thesis using t(1,3-5) unfolding trailer_bytes_def jobs_def job_def by blast
qed

theorem gen_init_cpio_archive_witness:
  "\<exists>s. (cpio_step sample_program)\<^sup>*\<^sup>* cpio_init s \<and> m_main s = Finished \<and> m_crash s = None \<and>
    (\<exists>es. decode_archive (Suc (length es)) (m_out s) = Some es)"
proof -
  obtain s where s: "(cpio_step sample_program)\<^sup>*\<^sup>* cpio_init s" "m_main s = Finished"
    using run_reaches_end [OF sample_program_ok] by blast
  show ?thesis
    using gen_init_cpio_archive [OF sample_program_ok s sample_names] s by (metis length_map)
qed

text \<open>
  Property C11: every run ends. No interleaving goes on for ever, and a run only stops when \<^verbatim>\<open>main\<close> has
  finished or a worker has read a line that its owner had freed. With one worker that never happens,
  so every run finishes; and with any number of workers there is a run that finishes.
\<close>

theorem gen_init_cpio_ends:
  assumes "program_ok P"
  shows "\<not> (\<exists>r. r 0 = cpio_init \<and> (\<forall>i. cpio_step P (r i) (r (Suc i)))) \<and>
    (\<forall>s. (cpio_step P)\<^sup>*\<^sup>* cpio_init s \<longrightarrow> (\<nexists>s'. cpio_step P s s') \<longrightarrow>
       m_main s = Finished \<or> m_crash s = Some FreedLine \<and> p_threads P \<noteq> 1) \<and>
    (\<exists>s. (cpio_step P)\<^sup>*\<^sup>* cpio_init s \<and> m_main s = Finished)"
proof -
  have "m_main s = Finished \<or> m_crash s = Some FreedLine \<and> p_threads P \<noteq> 1"
    if r: "(cpio_step P)\<^sup>*\<^sup>* cpio_init s" and n: "\<nexists>s'. cpio_step P s s'" for s
  proof (cases "m_main s = Finished")
    case False
    have c: "ctl_inv P s" and a: "arch_inv P s \<or> m_crash s = Some FreedLine" using reach_inv [OF r assms] by auto
    have "m_crash s \<noteq> None" using not_stuck [OF c _ False] n by blast
    then show ?thesis using a one_thread_ahead [OF assms _ r] by (auto simp: arch_inv_def)
  qed simp
  then show ?thesis using no_infinite_run [OF assms] run_reaches_end [OF assms] by blast
qed

theorem gen_init_cpio_ends_witness:
  "\<exists>s. (cpio_step sample_program)\<^sup>*\<^sup>* cpio_init s \<and> m_main s = Finished"
  using gen_init_cpio_ends [OF sample_program_ok] by blast

section \<open>The lock and the lines\<close>

text \<open>
  A part of a run of the sample: both threads started; worker 0, whose line is the second,
  has handled and freed it, and worker 1 has come to it.
\<close>

lemma sample_line_0: "worker_line (p_os sample_program) (p_mtime sample_program) (p_lines sample_program ! 0) ec w = Returns (NextLine, ec, w)"
  by (simp add: worker_line_def sample_program_def)

lemma sample_line_1:
  "\<exists>ec' i' st'. worker_line (p_os sample_program) (p_mtime sample_program) (p_lines sample_program ! 1) ec (i, th_st new_thread) =
    Returns (Handled, ec', i', st')"
proof -
  have "aligned (th_st new_thread)"
    by (simp add: aligned_def st_ok_def new_thread_def empty_file_def f_ok_def written_def)
  moreover have "line_good (p_os sample_program) (p_mtime sample_program) (p_lines sample_program ! 1)" "os_ok (p_os sample_program)"
    using sample_good sample_os_ok by (simp_all add: sample_program_def)
  ultimately obtain k ec' where k: "worker_line (p_os sample_program) (p_mtime sample_program) (p_lines sample_program ! 1) ec (i, th_st new_thread) =
      Returns (k, ec', snd (appended (p_ents sample_program 1) (i, th_st new_thread)))" "k \<noteq> Broke"
      "k = NextLine \<longrightarrow> p_ents sample_program 1 = []"
    using worker_line_good by blast
  moreover have "p_ents sample_program 1 \<noteq> []" using sample_ents(2) by simp
  ultimately have "k = Handled" by (cases k) auto
  with k(1) show ?thesis by (cases "snd (appended (p_ents sample_program 1) (i, th_st new_thread))") auto
qed

lemma sample_run:
  "\<exists>ino st ec. (cpio_step sample_program)\<^sup>*\<^sup>* cpio_init
     (cpio_init\<lparr>m_ino := ino, m_freed := [1], m_main := Spawn 2,
        m_threads := [new_thread\<lparr>th_pc := AtDump, th_i := 1, th_ec := ec, th_st := st\<rparr>, new_thread\<lparr>th_i := 1\<rparr>]\<rparr>)"
proof -
  let ?P = sample_program
  have P: "p_threads ?P = 2" "nlines ?P = 2" "p_spawn ?P i = Spawned" for i by (simp_all add: sample_program_def)
  obtain ec i' st where w: "worker_line (p_os ?P) (p_mtime ?P) (p_lines ?P ! 1) 0 (i_no_init, th_st new_thread) =
      Returns (Handled, ec, i', st)" using sample_line_1 by blast
  define s2 where "s2 = cpio_init\<lparr>m_threads := [new_thread, new_thread], m_main := Spawn 2\<rparr>"
  define s3 where "s3 = s2\<lparr>m_threads := [new_thread\<lparr>th_i := 1\<rparr>, new_thread]\<rparr>"
  define s4 where "s4 = s3\<lparr>m_threads := [new_thread\<lparr>th_i := 1\<rparr>, new_thread\<lparr>th_i := 1\<rparr>]\<rparr>"
  have pc: "th_pc new_thread = AtLoop" "th_i new_thread = 0" "th_ec new_thread = 0" by (simp_all add: new_thread_def)
  have "main_step ?P cpio_init = Some (cpio_init\<lparr>m_threads := [new_thread], m_main := Spawn 1\<rparr>)"
    by (simp add: main_step_def cpio_init_def P)
  moreover have "main_step ?P (cpio_init\<lparr>m_threads := [new_thread], m_main := Spawn 1\<rparr>) = Some s2"
    by (simp add: main_step_def cpio_init_def P s2_def numeral_2_eq_2)
  moreover have "thread_step ?P 0 s2 = Some s3"
    by (simp add: thread_step_def worker_step_def Let_def s3_def s2_def cpio_init_def P owner_def pc)
  moreover have "thread_step ?P 1 s3 = Some s4"
    using sample_line_0 by (simp add: thread_step_def worker_step_def Let_def s4_def s3_def s2_def cpio_init_def P owner_def pc)
  moreover have "thread_step ?P 0 s4 = Some (cpio_init\<lparr>m_ino := i', m_freed := [1], m_main := Spawn 2,
      m_threads := [new_thread\<lparr>th_pc := AtDump, th_i := 1, th_ec := ec, th_st := st\<rparr>, new_thread\<lparr>th_i := 1\<rparr>]\<rparr>)"
    using w by (simp add: thread_step_def worker_step_def Let_def s4_def s3_def s2_def cpio_init_def P owner_def pc)
  ultimately show ?thesis
    by (meson converse_rtranclp_into_rtranclp cpio_step.main cpio_step.worker rtranclp.rtrancl_refl)
qed



text \<open>
  Property C29: a worker takes the length of every line before it looks whose line it is, and
  the owner of a line frees it; there is a run of two workers, of a program that runs as meant,
  that ends with one of them reading a line the other has freed, before \<^verbatim>\<open>main\<close> has written the trailer.
\<close>

theorem freed_line_read:
  "\<exists>s. program_ok sample_program \<and> (cpio_step sample_program)\<^sup>*\<^sup>* cpio_init s \<and> m_crash s = Some FreedLine \<and>
    m_main s \<noteq> Finished \<and> (\<nexists>s'. cpio_step sample_program s s')"
proof -
  obtain s ino st ec where r: "(cpio_step sample_program)\<^sup>*\<^sup>* cpio_init s"
    and s: "s = cpio_init\<lparr>m_ino := ino, m_freed := [1], m_main := Spawn 2,
      m_threads := [new_thread\<lparr>th_pc := AtDump, th_i := 1, th_ec := ec, th_st := st\<rparr>, new_thread\<lparr>th_i := 1\<rparr>]\<rparr>"
    using sample_run by blast
  let ?s' = "s\<lparr>m_crash := Some FreedLine\<rparr>"
  have "thread_step sample_program 1 s = Some ?s'"
    by (simp add: thread_step_def worker_step_def Let_def cpio_init_def s new_thread_def sample_program_def)
  then have "(cpio_step sample_program)\<^sup>*\<^sup>* cpio_init ?s'" using r cpio_step.worker by (meson rtranclp.rtrancl_into_rtrancl)
  moreover have "\<nexists>s''. cpio_step sample_program ?s' s''"
    by (auto elim!: cpio_stepE simp: thread_step_def main_step_def)
  ultimately show ?thesis using sample_program_ok by (intro exI [of _ ?s']) (simp add: s cpio_init_def)
qed

text \<open>
  No error of a worker reaches the exit status. As long as every thread can be
  started, \<^verbatim>\<open>main\<close> never sees anything but success, whatever the workers reported.
\<close>

theorem worker_errors_lost:
  assumes "\<forall>i < p_threads P. p_spawn P i = Spawned" "(cpio_step P)\<^sup>*\<^sup>* cpio_init s"
  shows "m_ec s = 0"
  using assms(2)
proof (induction rule: rtranclp_induct)
  case base
  show ?case by (simp add: cpio_init_def)
next
  case (step s s')
  from step.hyps(2) show ?case
  proof (cases rule: cpio_step.cases)
    case (worker t)
    have "m_ec (worker_step P t th s) = m_ec s" for th
      using worker_step_shape [of P t th s] by auto
    then show ?thesis using worker step.IH
      by (auto simp: thread_step_def Let_def split: if_splits tpc.splits prod.splits)
  next
    case main
    then show ?thesis using step.IH assms(1)
      by (auto simp: main_step_def Let_def split: if_splits mpc.splits prod.splits)
  qed
qed

theorem worker_errors_lost_witness:
  "\<exists>s. (cpio_step (sample_program\<lparr>p_lines := [''  ''], p_threads := 1\<rparr>))\<^sup>*\<^sup>* cpio_init s \<and>
    th_pc (m_threads s ! 0) = Exited \<and> th_ec (m_threads s ! 0) = -1 \<and> m_ec s = 0"
proof -
  define P where "P = sample_program\<lparr>p_lines := [''  ''], p_threads := 1\<rparr>"
  have p: "p_threads P = 1" "p_lines P = [''  '']" "p_spawn P i = Spawned" for i by (simp_all add: P_def sample_program_def)
  have b: "worker_line (p_os P) (p_mtime P) ''  '' ec w = Returns (Broke, -1, w)" for ec w
    by (simp add: worker_line_def strtok_r_def blanks_def)
  let ?s1 = "cpio_init\<lparr>m_threads := [new_thread], m_main := Spawn 1\<rparr>"
  let ?s2 = "?s1\<lparr>m_threads := [new_thread\<lparr>th_pc := Exited, th_ec := -1\<rparr>]\<rparr>"
  have "main_step P cpio_init = Some ?s1" by (simp add: main_step_def cpio_init_def p)
  moreover have "thread_step P 0 ?s1 = Some ?s2"
    by (simp add: thread_step_def worker_step_def Let_def p owner_def b new_thread_def cpio_init_def)
  ultimately have r: "(cpio_step P)\<^sup>*\<^sup>* cpio_init ?s2"
    by (meson converse_rtranclp_into_rtranclp cpio_step.main cpio_step.worker rtranclp.rtrancl_refl)
  then have "m_ec ?s2 = 0" using p(3) worker_errors_lost [of P ?s2] by blast
  then show ?thesis using r unfolding P_def by (intro exI [of _ ?s2]) simp
qed

section \<open>Lines\<close>


lemma sample_file_args: "file_args ''/init ${D}/init 0755 0 0 /sbin/init'' =
    Some (''/init'', ''${D}/init'', 0x1ED, 0, 0, ''/sbin/init'')"
  by (simp add: file_args_def scan_simps)



lemma sample_link_names: "link_names ''/sbin/init'' = [''/sbin/init'']"
  by (subst link_names.simps) (simp add: scan_simps)



text \<open>
  Property C12: on the lines of directories, pipes and sockets, device nodes and symbolic links
  the handlers return; a line that does not scan gives -1 and no change, and otherwise
  the archive grows by the encoding of the one entry the line describes and reads back,
  behind whatever was there before, as that entry under the next inode number.
\<close>

theorem special_lines_append:
  assumes "aligned st" "line_ok mtime l" "written st = concat (map encode_entry es0)" "list_all entry_ok es0"
    and "h \<in> {(cpio_mkgeneric_line mtime gt, generic_ents mtime gt), (cpio_mknod_line mtime, nod_ents mtime),
      (cpio_mkslink_line mtime, slink_ents mtime)}"
    and "\<forall>e\<in>set (es0 @ snd h l). ce_name e \<noteq> ''TRAILER!!!''"
  shows "\<exists>st'. fst h (Some l) (i, st) = Returns (if snd h l = [] then -1 else 0, if snd h l = [] then i else i + 1, st') \<and>
    aligned st' \<and> decode_archive (Suc (length (es0 @ snd h l))) (written st' @ encode_entry trailer_entry) =
      Some (es0 @ map (with_ino i) (snd h l))"
proof -
  have lh: "line_handler (fst h) (line_ok mtime) (snd h)"
    using assms(5) mkgeneric.line_handler_axioms mknod.line_handler_axioms mkslink.line_handler_axioms by auto
  obtain rc i' st' where a: "appended (snd h l) (i, st) = (rc, i', st')" by (cases "appended (snd h l) (i, st)")
  have r: "fst h (Some l) (i, st) = Returns (rc, i', st')"
    using line_handler.appends [OF lh assms(1,2)] a by simp
  have "rc = (if snd h l = [] then -1 else 0)" "i' = (if snd h l = [] then i else i + 1)"
    using a by (auto simp: appended_def split: if_splits)
  moreover have "aligned st'" by (rule line_handler.returns_aligned [OF lh assms(1,2) r])
  ultimately show ?thesis
    using line_handler.output_decodes [OF lh assms(1-4,6) lessI r, of "[]"] r by auto
qed

theorem special_lines_append_witness:
  "\<exists>st'. cpio_mkgeneric_line 1 GT_DIR (Some ''/dev 0755 0 0'') (721, th_st new_thread) = Returns (0, 722, st') \<and>
    decode_archive 2 (written st' @ encode_entry trailer_entry) = Some [special_entry 1 721 ''/dev'' 0x41ED 0 0 2 0 0]"
proof -
  have al: "aligned (th_st new_thread)" "written (th_st new_thread) = concat (map encode_entry [])"
    by (simp_all add: aligned_def st_ok_def new_thread_def empty_file_def f_ok_def written_def)
  have e: "generic_ents 1 GT_DIR ''/dev 0755 0 0'' = [special_entry 1 0 ''/dev'' 0x41ED 0 0 2 0 0]"
    by (simp add: generic_ents_def generic_args_def scan_simps S_IFDIR_def)
  have l: "line_ok 1 ''/dev 0755 0 0''" by (simp add: line_ok_def cstring_def LINE_SIZE_def PATH_MAX_def)
  from special_lines_append [OF al(1) l al(2), of "(cpio_mkgeneric_line 1 GT_DIR, generic_ents 1 GT_DIR)" GT_DIR 721]
  show ?thesis by (simp add: e numeral_2_eq_2 special_with_ino [of _ 721])
    (auto simp add: special_entry_def strip_slash_def)
qed

text \<open>
  Property C26: the buffer for the names of a file and its hard links has as many bytes as the
  line has characters, and nothing checks it while it is filled; it is always large enough,
  even for words that are cut at the scan width without a blank between them.
\<close>

theorem dname_never_overflows:
  assumes "length l < LINE_SIZE" "file_args l = Some (name, location, mode, uid, gid, rest)"
  shows "dname_len (name # link_names rest) \<le> length l"
proof -
  obtain l1 l2 l3 l4 l5 where "scan_str PATH_MAX l = Some (name, l1)" "scan_str PATH_MAX l1 = Some (location, l2)"
    "scan_unsigned 8 l2 = Some (mode, l3)" "scan_int l3 = Some (uid, l4)" "scan_int l4 = Some (gid, l5)" "rest = skip_ws l5"
    using assms(2) by (auto simp: file_args_def bind_eq_Some_conv)
  then show ?thesis using dname_fits assms(1) by blast
qed

theorem dname_never_overflows_witness:
  "dname_len [''/init'', ''/sbin/init''] \<le> length ''/init ${D}/init 0755 0 0 /sbin/init''"
  using dname_never_overflows [OF _ sample_file_args] sample_link_names by (simp add: LINE_SIZE_def PATH_MAX_def)

text \<open>
  Property C28: the expansion of variables in a location ends if no variable's value contains
  a dollar sign, whatever the location.
\<close>

theorem replace_env_returns:
  assumes "\<And>x v. getenv x = Some v \<Longrightarrow> CHR ''$'' \<notin> set v"
  shows "\<exists>r. cpio_replace_env getenv location = Some r"
  by (rule replace_env_ends) (rule assms)

theorem replace_env_returns_witness:
  "\<exists>r. cpio_replace_env (\<lambda>x. if x = ''D'' then Some ''src'' else None) ''${D}/${E}/init'' = Some r"
  by (rule replace_env_returns) (auto split: if_splits)

text \<open>
  A variable that names itself is replaced for ever: the loop never returns.
\<close>

theorem replace_env_self_reference:
  "cpio_replace_env (\<lambda>x. if x = ''X'' then Some ''${X}'' else None) ''${X}'' = None"
proof -
  have "env_step (\<lambda>x. if x = ''X'' then Some ''${X}'' else None) ''${X}'' = Some (Returns ''${X}'')"
    by (simp add: env_step_def PATH_MAX_def)
  from replace_env_diverges_step [OF this] show ?thesis by (rule not_Some_eq [THEN iffD1, OF allI])
qed

text \<open>
  A known type with a blank but no argument behind it makes the worker call the
  handler with a null pointer, which every handler reads through.
\<close>

theorem missing_argument_crashes:
  assumes "type \<in> {''file'', ''nod'', ''dir'', ''slink'', ''pipe'', ''sock''}"
  shows "worker_line sys mtime (type @ '' '' @ [CHR 0x0A]) ec w = Undefined NullArgument"
proof -
  have "strtok_r blanks (type @ '' '' @ [CHR 0x0A]) = Some (type, [CHR 0x0A])" "strtok_r newline [CHR 0x0A] = None"
    "takeWhile (\<lambda>c. c \<in> blanks) (type @ '' '' @ [CHR 0x0A]) = []"
    "hd type \<noteq> CHR 0x0A" "hd (type @ '' '' @ [CHR 0x0A]) \<noteq> CHR ''#''"
    using assms by (auto simp: strtok_r_def blanks_def newline_def)
  moreover obtain h where h: "map_of (file_handler_table sys mtime) type = Some h"
    using assms by (auto simp: file_handler_table_def)
  moreover have "h None w = Undefined NullArgument"
    using table_handler [OF h] line_handler.null by metis
  ultimately show ?thesis by (simp add: worker_line_def Let_def)
qed

theorem missing_argument_crashes_witness:
  "worker_line sample_os 1 (''dir '' @ [CHR 0x0A]) 0 (721, th_st new_thread) = Undefined NullArgument"
  using missing_argument_crashes [of "''dir''"] by simp

section \<open>The list and the trailer\<close>

text \<open>The table's invariant: it holds pieces of the input and has room for them.\<close>

lemma read_table_pieces:
  assumes "\<And>n. realloc_ok n" "\<And>l. strdup_ok l" "cstring inp" "length (ft_table ft) \<le> ft_size ft" "0 < ft_size ft"
  shows "\<exists>ft' ls. read_table realloc_ok strdup_ok inp ft = Some ft' \<and> ft_table ft' = ft_table ft @ ls \<and> concat ls = inp \<and>
    list_all (\<lambda>l. l \<noteq> [] \<and> length l < LINE_SIZE) ls \<and> length (ft_table ft') \<le> ft_size ft'"
  using assms(3-5)
proof (induction "length inp" arbitrary: inp ft rule: less_induct)
  case less
  show ?case
  proof (cases "fgets LINE_SIZE inp")
    case None
    then have "inp = []" by (auto simp: fgets_def LINE_SIZE_def PATH_MAX_def Let_def split: if_splits)
    then show ?thesis using None less.prems by (subst read_table.simps) simp
  next
    case (Some lr)
    then obtain line rest where f: "fgets LINE_SIZE inp = Some (line, rest)" by (cases lr) auto
    note sp = fgets_split [OF f]
    have c: "takeWhile (\<lambda>c. c \<noteq> NUL) line = line" "cstring rest"
      using less.prems(1) sp(1) by (auto simp: cstring_def takeWhile_eq_all_conv)
    define ft1 where "ft1 = (if length (ft_table ft) = ft_size ft then ft\<lparr>ft_size := ft_size ft * 2\<rparr> else ft)\<lparr>ft_table := ft_table ft @ [line]\<rparr>"
    have add: "file_table_add realloc_ok strdup_ok line ft = Some ft1"
      using assms(1,2) c(1) by (simp add: file_table_add_def ft1_def Let_def)
    have t1: "ft_table ft1 = ft_table ft @ [line]" "length (ft_table ft1) \<le> ft_size ft1" "0 < ft_size ft1"
      using less.prems(2,3) by (auto simp: ft1_def)
    have "length rest < length inp" using sp(1,2) by simp
    from less.hyps [OF this c(2) t1(2,3)] obtain ft' ls where
      r: "read_table realloc_ok strdup_ok rest ft1 = Some ft'" "ft_table ft' = ft_table ft1 @ ls" "concat ls = rest"
      "list_all (\<lambda>l. l \<noteq> [] \<and> length l < LINE_SIZE) ls" "length (ft_table ft') \<le> ft_size ft'"
      by blast
    have "read_table realloc_ok strdup_ok inp ft = Some ft'"
      using f add r(1) by (subst read_table.simps) simp
    then show ?thesis using r(2-5) t1(1) sp by (intro exI [of _ ft'] exI [of _ "line # ls"]) simp
  qed
qed

text \<open>
  Reading the list cuts it, losing nothing, into non-empty pieces that fit the
  line buffer, and the table, which starts with 4096 places and doubles, always has room for
  them; the loop ends.
\<close>

theorem read_table_complete:
  assumes "\<And>n. realloc_ok n" "\<And>l. strdup_ok l" "cstring inp"
  shows "\<exists>ft. read_table realloc_ok strdup_ok inp empty_table = Some ft \<and> concat (ft_table ft) = inp \<and>
    list_all (\<lambda>l. l \<noteq> [] \<and> length l < LINE_SIZE) (ft_table ft) \<and> length (ft_table ft) \<le> ft_size ft"
  using read_table_pieces [of realloc_ok strdup_ok inp empty_table, OF assms] by (auto simp: empty_table_def)

theorem read_table_complete_witness:
  "\<exists>ft. read_table (\<lambda>_. True) (\<lambda>_. True) (''dir /a 0755 0 0'' @ [CHR 0x0A] @ ''# x'') empty_table = Some ft \<and>
    concat (ft_table ft) = ''dir /a 0755 0 0'' @ [CHR 0x0A] @ ''# x''"
  using read_table_complete [of "\<lambda>_. True" "\<lambda>_. True" "''dir /a 0755 0 0'' @ [CHR 0x0A] @ ''# x''"]
  by (auto simp: cstring_def)

lemma mod_add_same_iff: "((n :: nat) + c) mod m = (k + c) mod m \<longleftrightarrow> n mod m = k mod m"
proof -
  have "int ((n + c) mod m) = int ((k + c) mod m) \<longleftrightarrow> int (n mod m) = int (k mod m)"
    by (simp only: zmod_int mod_eq_dvd_iff) simp
  then show ?thesis by simp
qed

text \<open>
  Property C13: behind any sequence of well-formed entries \<^verbatim>\<open>cpio_trailer\<close> closes the archive, whatever
  the counter of the state says: what the file then holds reads back as exactly those entries. Its
  length is a multiple of 512 exactly when the counter agrees with the length of the file modulo
  512; with the counter at zero, the way \<^verbatim>\<open>main\<close> calls it, the trailer adds 512 bytes to any file.
\<close>

theorem cpio_trailer_closes:
  assumes "f_ok (ms_fp st)" "written st = concat (map encode_entry es)" "list_all entry_ok es"
    and "\<forall>e\<in>set es. ce_name e \<noteq> ''TRAILER!!!''"
  shows "decode_archive (Suc (length es)) (written (cpio_trailer st)) = Some es \<and>
    (512 dvd length (written (cpio_trailer st)) \<longleftrightarrow> unat (ms_offset st) mod 512 = length (written st) mod 512) \<and>
    (ms_offset st = 0 \<longrightarrow> length (written (cpio_trailer st)) = length (written st) + 512)"
proof -
  let ?k = "unat (ms_offset st)" and ?n = "length (written st)"
  have k: "ms_offset st = word_of_nat ?k" by simp
  have w: "written (cpio_trailer st) =
      concat (map encode_entry es) @ encode_entry trailer_entry @ replicate (pad 512 (?k + 124)) NUL"
    unfolding cpio_trailer_emit [OF assms(1) k] written_emit [OF assms(1)] assms(2) by simp
  have "decode_archive (Suc (length es)) (written (cpio_trailer st)) = Some es"
    unfolding w by (rule decode_archive_encode [OF assms(3,4)]) simp
  moreover have l: "length (written (cpio_trailer st)) = ?n + 124 + pad 512 (?k + 124)"
    unfolding w assms(2) by (simp add: length_trailer)
  moreover have "(?k + 124 + pad 512 (?k + 124)) mod 512 = 0" using pad_aligns [of 512 "?k + 124"] by simp
  then have "(?n + 124 + pad 512 (?k + 124)) mod 512 = 0 \<longleftrightarrow> ?k mod 512 = ?n mod 512"
    using mod_add_same_iff [of ?n "124 + pad 512 (?k + 124)" 512 ?k] by (auto simp: add.assoc)
  moreover have "?n + 124 + pad 512 (?k + 124) = ?n + 512" if "ms_offset st = 0" using that by (simp add: pad_def)
  ultimately show ?thesis by (simp add: dvd_eq_mod_eq_0)
qed

theorem cpio_trailer_closes_witness:
  "decode_archive 1 (written (cpio_trailer (th_st new_thread))) = Some [] \<and>
    512 dvd length (written (cpio_trailer (th_st new_thread)))"
  using cpio_trailer_closes [of "th_st new_thread" "[]"]
  by (simp add: new_thread_def empty_file_def f_ok_def written_def)

end
