(* ===== verification/Cpio_Command.thy ===== *)
theory Cpio_Command
  imports Cpio_Program
begin

text \<open>
  The command line of \<^verbatim>\<open>src/gen_init_cpio.c\<close>: from its arguments and the text of the list to the program
  that the threads run, and from there to the archive.
\<close>

section \<open>The command line\<close>

text \<open>
  \<^verbatim>\<open>getopt\<close> with the options \<^verbatim>\<open>t:h:r:\<close>: every known option takes an argument, the rest of its word or the
  next word; an unknown or incomplete one is delivered as a question mark. The words that are not
  options are collected, and all words after \<^verbatim>\<open>--\<close> are such.
\<close>

fun getopt_word :: "string \<Rightarrow> string list \<Rightarrow> (char \<times> string) list \<times> bool" where
  "getopt_word [] rest = ([], False)"
| "getopt_word (c # cs) rest =
     (if c \<in> {CHR ''t'', CHR ''h'', CHR ''r''} then
        if cs \<noteq> [] then ([(c, cs)], False)
        else case rest of [] \<Rightarrow> ([(CHR ''?'', [])], False) | optarg # _ \<Rightarrow> ([(c, optarg)], True)
      else let (opts, used) = getopt_word cs rest in ((CHR ''?'', []) # opts, used))"

fun getopt_args :: "string list \<Rightarrow> (char \<times> string) list \<times> string list" where
  "getopt_args [] = ([], [])"
| "getopt_args [w] =
     (if w = ''--'' then ([], [])
      else if length w \<ge> 2 \<and> hd w = CHR ''-'' then (fst (getopt_word (tl w) []), [])
      else ([], [w]))"
| "getopt_args (w # v # ws) =
     (if w = ''--'' then ([], v # ws)
      else if length w \<ge> 2 \<and> hd w = CHR ''-'' then
        let (opts, used) = getopt_word (tl w) (v # ws);
            (opts', words) = (if used then getopt_args ws else getopt_args (v # ws))
        in (opts @ opts', words)
      else let (opts, words) = getopt_args (v # ws) in (opts, w # words))"

text \<open>
  \<^verbatim>\<open>main\<close> up to the start of the threads: it exits, or it has no room for the state it writes to at the
  end (no threads were asked for), or it runs. \<open>time0\<close> is the current time, \<open>fopen f\<close> the text of the
  file \<open>f\<close>, if it can be opened.
\<close>

record cpio_env =
  env_time :: u64
  env_stdin :: string
  env_fopen :: "string \<Rightarrow> string option"
  env_realloc :: "nat \<Rightarrow> bool"
  env_strdup :: "string \<Rightarrow> bool"
  env_os :: os
  env_io :: dump_io
  env_spawn :: "nat \<Rightarrow> spawn_result"

datatype cpio_start = CpioExit int | CpioNoState | CpioRuns program

definition list_text :: "cpio_env \<Rightarrow> string \<Rightarrow> string option" where
  "list_text E filename = (if filename = ''-'' then Some (env_stdin E) else env_fopen E filename)"

definition cpio_program :: "cpio_env \<Rightarrow> u64 \<Rightarrow> u32 \<Rightarrow> string list \<Rightarrow> program" where
  "cpio_program E mtime nr_threads table =
     \<lparr>p_os = env_os E, p_io = env_io E, p_mtime = mtime, p_lines = table, p_threads = nat (sint nr_threads), p_spawn = env_spawn E\<rparr>"

definition cpio_main :: "cpio_env \<Rightarrow> string list \<Rightarrow> cpio_start" where
  "cpio_main E argv =
     (let (opts, words) = getopt_args (tl argv) in
      case main_options opts (env_time E, 8) of
        Inl code \<Rightarrow> CpioExit code
      | Inr (default_mtime, nr_threads) \<Rightarrow>
          if length words \<noteq> 1 then CpioExit 1
          else (case list_text E (hd words) of
                  None \<Rightarrow> CpioExit 1
                | Some inp \<Rightarrow>
                    (case read_table (env_realloc E) (env_strdup E) inp empty_table of
                       None \<Rightarrow> CpioExit (-1)
                     | Some ft \<Rightarrow>
                         if sint nr_threads \<le> 0 then CpioNoState
                         else CpioRuns (cpio_program E default_mtime nr_threads (ft_table ft)))))"

section \<open>The list\<close>

definition nl :: char where
  "nl = CHR 0x0A"

text \<open>A line of the list that the buffer has room for.\<close>

definition text_line :: "string \<Rightarrow> bool" where
  "text_line l \<longleftrightarrow> nl \<notin> set l \<and> cstring l \<and> length l + 2 \<le> LINE_SIZE"

definition list_of :: "string list \<Rightarrow> string" where
  "list_of ls = concat (map (\<lambda>l. l @ [nl]) ls)"

lemma fgets_line: "text_line l \<Longrightarrow> fgets LINE_SIZE (l @ nl # r) = Some (l @ [nl], r)"
  unfolding nl_def by (rule fgets_whole_line) (simp_all add: text_line_def nl_def)

lemma read_table_lines:
  assumes "\<And>n. realloc_ok n" "\<And>l. strdup_ok l" "list_all text_line ls"
  shows "\<exists>ft'. read_table realloc_ok strdup_ok (list_of ls) ft = Some ft' \<and> ft_table ft' = ft_table ft @ map (\<lambda>l. l @ [nl]) ls"
  using assms(3)
proof (induction ls arbitrary: ft)
  case Nil
  then show ?case by (subst read_table.simps) (simp add: list_of_def fgets_def)
next
  case (Cons l ls)
  have f: "fgets LINE_SIZE (list_of (l # ls)) = Some (l @ [nl], list_of ls)"
    using fgets_line [of l "list_of ls"] Cons.prems by (simp add: list_of_def)
  have "takeWhile (\<lambda>c. c \<noteq> NUL) (l @ [nl]) = l @ [nl]"
    using Cons.prems by (auto simp: text_line_def cstring_def nl_def takeWhile_eq_all_conv)
  then obtain ft1 where a: "file_table_add realloc_ok strdup_ok (l @ [nl]) ft = Some ft1" "ft_table ft1 = ft_table ft @ [l @ [nl]]"
    using assms(1,2) by (simp add: file_table_add_def Let_def)
  obtain ft' where "read_table realloc_ok strdup_ok (list_of ls) ft1 = Some ft'" "ft_table ft' = ft_table ft1 @ map (\<lambda>l. l @ [nl]) ls"
    using Cons.IH [of ft1] Cons.prems by auto
  then show ?case using f a by (subst read_table.simps) simp
qed

section \<open>The options\<close>




text \<open>A file name that is not taken for an option.\<close>

definition file_word :: "string \<Rightarrow> bool" where
  "file_word f \<longleftrightarrow> f \<noteq> [] \<and> hd f \<noteq> CHR ''-''"


text \<open>
  Asking for no threads leaves no state behind for the trailer; \<^verbatim>\<open>-h\<close> alone lacks its argument, so asking for
  help is an error.
\<close>

lemma cpio_main_no_threads:
  assumes "list_all text_line ls" "env_fopen E f = Some (list_of ls)" "\<And>n. env_realloc E n" "\<And>l. env_strdup E l" "file_word f"
  shows "cpio_main E [prog, ''-r'', ''0'', f] = CpioNoState"
proof -
  have "f \<noteq> ''-''" using assms(5) by (auto simp: file_word_def)
  moreover obtain ft where "read_table (env_realloc E) (env_strdup E) (list_of ls) empty_table = Some ft"
    using read_table_lines [of "env_realloc E" "env_strdup E" ls empty_table] assms(1,3,4) by blast
  moreover have "getopt_args [''-r'', ''0'', f] = ([(CHR ''r'', ''0'')], [f])"
    using assms(5) by (auto simp: file_word_def)
  moreover have "strtol10 ''0'' = (0, [])"
    by (simp add: strtol10_def scan_num_def skip_ws_def c_isspace_def digit_in_def num_of_def)
  ultimately show ?thesis using assms(2) by (simp add: cpio_main_def list_text_def)
qed

lemma cpio_main_help: "cpio_main E [prog, ''-h''] = CpioExit 1"
  by (simp add: cpio_main_def)

section \<open>From the list to the archive\<close>


section \<open>A sample command\<close>




end
