(* ===== verification/Lock_Spec.thy ===== *)
theory Lock_Spec
  imports Prelude
begin

text \<open>
  What a lock promises its callers, as a transition system: a process calls the lock, enters
  when the call returns, exits by calling unlock, and is out when that returns; everything
  else a lock does is internal. The laws are those of mutual exclusion. The lock of
  \<^verbatim>\<open>src/xlock.c\<close> and both semaphores, created with count one, meet them, and the clients in
  \<^verbatim>\<open>src/test_xlock.c\<close>, \<^verbatim>\<open>src/test_sem.c\<close> and \<^verbatim>\<open>src/test_int_update.c\<close> rely on nothing else.
\<close>

datatype lock_event = LockCall | Enter | Exit | Ret | Tau

locale lock_sys =
  fixes init :: 'l and lstep :: "nat \<Rightarrow> lock_event \<Rightarrow> 'l \<Rightarrow> 'l \<Rightarrow> bool"
    and good :: "'l \<Rightarrow> bool" and inside :: "'l \<Rightarrow> nat set"
  assumes good_init: "good init"
    and inside_init: "inside init = {}"
    and good_step: "good s \<Longrightarrow> lstep p e s s' \<Longrightarrow> good s'"
    and inside_step: "good s \<Longrightarrow> lstep p e s s' \<Longrightarrow>
      inside s' = (case e of Enter \<Rightarrow> insert p (inside s) | Exit \<Rightarrow> inside s - {p} | _ \<Rightarrow> inside s)"
    and exclusive: "good s \<Longrightarrow> p \<in> inside s \<Longrightarrow> q \<in> inside s \<Longrightarrow> p = q"
begin

lemma enter_alone:
  assumes "good s" "lstep p Enter s s'"
  shows "inside s' = {p} \<and> inside s \<subseteq> {p}"
proof -
  have i: "inside s' = insert p (inside s)" using inside_step [OF assms] by simp
  moreover have "q = p" if "q \<in> inside s" for q
    using exclusive [OF good_step [OF assms], of q p] i that by simp
  ultimately show ?thesis by auto
qed

lemma exit_none:
  assumes "good s" "lstep p Exit s s'" "p \<in> inside s"
  shows "inside s' = {}"
  using inside_step [OF assms(1,2)] exclusive [OF assms(1,3)] by auto

lemma other_same: "good s \<Longrightarrow> lstep p e s s' \<Longrightarrow> e \<noteq> Enter \<Longrightarrow> e \<noteq> Exit \<Longrightarrow> inside s' = inside s"
  using inside_step by (cases e) auto

end

text \<open>How many elements of a list have a property, and how an update changes that.\<close>

definition cnt :: "('a \<Rightarrow> bool) \<Rightarrow> 'a list \<Rightarrow> nat" where
  "cnt Q xs = length (filter Q xs)"

lemma cnt_update:
  "p < length xs \<Longrightarrow> cnt Q (xs[p := x]) + (if Q (xs ! p) then 1 else 0) = cnt Q xs + (if Q x then 1 else 0)"
proof (induction xs arbitrary: p)
  case (Cons y ys)
  then show ?case by (cases p) (auto simp: cnt_def)
qed simp

lemma cnt_pos: "0 < cnt Q xs \<longleftrightarrow> (\<exists>i < length xs. Q (xs ! i))"
  by (simp add: cnt_def filter_empty_conv) (metis in_set_conv_nth)

lemma cnt_0: "cnt Q xs = 0 \<longleftrightarrow> (\<forall>i < length xs. \<not> Q (xs ! i))"
  using cnt_pos [of Q xs] by auto

lemma cnt_two: "p < length xs \<Longrightarrow> q < length xs \<Longrightarrow> Q (xs ! p) \<Longrightarrow> Q (xs ! q) \<Longrightarrow> cnt Q xs \<le> 1 \<Longrightarrow> p = q"
proof (rule ccontr)
  assume a: "p < length xs" "q < length xs" "Q (xs ! p)" "Q (xs ! q)" "cnt Q xs \<le> 1" "p \<noteq> q"
  have "card {i. i < length xs \<and> Q (xs ! i)} = cnt Q xs" by (simp add: cnt_def length_filter_conv_card)
  moreover have "{p, q} \<subseteq> {i. i < length xs \<and> Q (xs ! i)}" using a by auto
  then have "card {p, q} \<le> card {i. i < length xs \<and> Q (xs ! i)}" by (intro card_mono) auto
  ultimately show False using a(5,6) by simp
qed

text \<open>Waking: some of the elements that sleep, named by their places, change.\<close>

definition wake :: "nat set \<Rightarrow> 'a \<Rightarrow> 'a list \<Rightarrow> 'a list" where
  "wake S x xs = map (\<lambda>i. if i \<in> S then x else xs ! i) [0..<length xs]"

lemma length_wake [simp]: "length (wake S x xs) = length xs"
  by (simp add: wake_def)

lemma nth_wake [simp]: "i < length xs \<Longrightarrow> wake S x xs ! i = (if i \<in> S then x else xs ! i)"
  by (simp add: wake_def)

end
