(* ===== verification/Xlock.thy ===== *)
theory Xlock
  imports Lock_Spec
begin

text \<open>
  The futex lock of \<^verbatim>\<open>src/xlock.c\<close> as a step relation over the processes that share it: the
  compare-and-swap of each attempt, the call of \<^verbatim>\<open>FUTEX_WAIT\<close>, which sleeps only while the word
  still is 1, the swap back on unlock and \<^verbatim>\<open>FUTEX_WAKE\<close>, which wakes at least one sleeper if
  there is any (the code passes -1 as the number to wake). Sleeps may also end on their own.
\<close>

section \<open>The lock word\<close>

definition bool_compare_and_swap :: "u32 \<Rightarrow> u32 \<Rightarrow> u32 \<Rightarrow> bool \<times> u32" where
  "bool_compare_and_swap word old new = (if word = old then (True, new) else (False, word))"

definition raw_lock_it :: "u32 \<Rightarrow> bool \<times> u32" where
  "raw_lock_it word = bool_compare_and_swap word 0 1"

definition raw_unlock_it :: "u32 \<Rightarrow> bool \<times> u32" where
  "raw_unlock_it word = bool_compare_and_swap word 1 0"

text \<open>The kernel's test at \<^verbatim>\<open>FUTEX_WAIT\<close>: sleep if the word has the value expected.\<close>

definition futex_sleeps :: "u32 \<Rightarrow> u32 \<Rightarrow> bool" where
  "futex_sleeps word val \<longleftrightarrow> word = val"

section \<open>Processes\<close>

datatype xpc = Idle | AtCas | AtFutex | Sleeping | Inside | AtUnlock | AtWake

record xl =
  xl_word :: u32
  xl_pcs :: "xpc list"

definition xl_init :: "nat \<Rightarrow> xl" where
  "xl_init n = \<lparr>xl_word = 0, xl_pcs = replicate n Idle\<rparr>"

text \<open>\<^verbatim>\<open>xlock_lock\<close> and \<^verbatim>\<open>xlock_unlock\<close>, from one shared access to the next.\<close>

fun xlock_lock :: "xpc \<Rightarrow> u32 \<Rightarrow> (lock_event \<times> xpc \<times> u32) option" where
  "xlock_lock Idle w = Some (LockCall, AtCas, w)"
| "xlock_lock AtCas w =
     (let (ok, w') = raw_lock_it w in if ok then Some (Enter, Inside, w') else Some (Tau, AtFutex, w'))"
| "xlock_lock AtFutex w = (if futex_sleeps w 1 then Some (Tau, Sleeping, w) else Some (Tau, AtCas, w))"
| "xlock_lock Sleeping w = Some (Tau, AtCas, w)"
| "xlock_lock _ w = None"

fun xlock_unlock :: "xpc \<Rightarrow> u32 \<Rightarrow> (lock_event \<times> xpc \<times> u32) option" where
  "xlock_unlock Inside w = Some (Exit, AtUnlock, w)"
| "xlock_unlock AtUnlock w =
     (let (ok, w') = raw_unlock_it w in if ok then Some (Tau, AtWake, w') else Some (Tau, AtUnlock, w'))"
| "xlock_unlock _ w = None"

definition sleepers :: "'a \<Rightarrow> 'a list \<Rightarrow> nat set" where
  "sleepers pc pcs = {i. i < length pcs \<and> pcs ! i = pc}"

inductive xlock_step :: "nat \<Rightarrow> lock_event \<Rightarrow> xl \<Rightarrow> xl \<Rightarrow> bool" where
  lock: "p < length (xl_pcs s) \<Longrightarrow> xlock_lock (xl_pcs s ! p) (xl_word s) = Some (e, pc, w) \<Longrightarrow>
    xlock_step p e s (s\<lparr>xl_word := w, xl_pcs := (xl_pcs s)[p := pc]\<rparr>)"
| unlock: "p < length (xl_pcs s) \<Longrightarrow> xlock_unlock (xl_pcs s ! p) (xl_word s) = Some (e, pc, w) \<Longrightarrow>
    xlock_step p e s (s\<lparr>xl_word := w, xl_pcs := (xl_pcs s)[p := pc]\<rparr>)"
| futex_wake: "p < length (xl_pcs s) \<Longrightarrow> xl_pcs s ! p = AtWake \<Longrightarrow> S \<subseteq> sleepers Sleeping (xl_pcs s) \<Longrightarrow>
    (sleepers Sleeping (xl_pcs s) \<noteq> {} \<Longrightarrow> S \<noteq> {}) \<Longrightarrow>
    xlock_step p Ret s (s\<lparr>xl_pcs := (wake S AtCas (xl_pcs s))[p := Idle]\<rparr>)"

definition xl_inside :: "xl \<Rightarrow> nat set" where
  "xl_inside s = {p. p < length (xl_pcs s) \<and> xl_pcs s ! p = Inside}"

section \<open>Mutual exclusion\<close>

text \<open>The word is one exactly while one process is between the two swaps.\<close>

definition owns :: "xpc \<Rightarrow> bool" where
  "owns pc \<longleftrightarrow> pc = Inside \<or> pc = AtUnlock"

definition xl_good :: "xl \<Rightarrow> bool" where
  "xl_good s \<longleftrightarrow> (xl_word s = 0 \<or> xl_word s = 1) \<and> cnt owns (xl_pcs s) = unat (xl_word s)"

lemma xl_good_init: "xl_good (xl_init n)"
  by (auto simp: xl_good_def xl_init_def cnt_def owns_def filter_empty_conv)

lemmas xlock_defs = raw_lock_it_def raw_unlock_it_def bool_compare_and_swap_def futex_sleeps_def

lemma cnt_wake_owns:
  assumes "S \<subseteq> sleepers Sleeping pcs" "p < length pcs" "pcs ! p = AtWake"
  shows "cnt owns ((wake S AtCas pcs)[p := Idle]) = cnt owns pcs"
proof -
  have "owns ((wake S AtCas pcs)[p := Idle] ! i) = owns (pcs ! i)" if "i < length pcs" for i
    using assms that by (auto simp: nth_list_update owns_def sleepers_def)
  then show ?thesis by (simp add: cnt_def length_filter_conv_card cong: conj_cong)
qed

lemma xl_good_step:
  assumes "xl_good s" "xlock_step p e s s'"
  shows "xl_good s'"
  using assms(2,1)
proof (cases rule: xlock_step.cases)
  case (lock pc w)
  note c = cnt_update [OF lock(2), of owns pc]
  show ?thesis using lock assms(1) c
    by (cases "xl_pcs s ! p") (auto simp: xl_good_def owns_def xlock_defs split: if_splits)
next
  case (unlock pc w)
  note c = cnt_update [OF unlock(2), of owns pc]
  show ?thesis using unlock assms(1) c
    by (cases "xl_pcs s ! p") (auto simp: xl_good_def owns_def xlock_defs split: if_splits)
next
  case (futex_wake S)
  then show ?thesis using assms(1) cnt_wake_owns [OF futex_wake(5,3,4)] by (simp add: xl_good_def)
qed

lemma xl_inside_step:
  assumes "xlock_step p e s s'"
  shows "xl_inside s' = (case e of Enter \<Rightarrow> insert p (xl_inside s) | Exit \<Rightarrow> xl_inside s - {p} | _ \<Rightarrow> xl_inside s)"
  using assms
proof (cases rule: xlock_step.cases)
  case (lock pc w)
  then show ?thesis
    by (cases "xl_pcs s ! p") (auto simp: xl_inside_def nth_list_update xlock_defs split: if_splits)
next
  case (unlock pc w)
  then show ?thesis
    by (cases "xl_pcs s ! p") (auto simp: xl_inside_def nth_list_update xlock_defs split: if_splits)
next
  case (futex_wake S)
  then show ?thesis by (auto simp: xl_inside_def nth_list_update sleepers_def split: if_splits)
qed

lemma xl_exclusive: "xl_good s \<Longrightarrow> p \<in> xl_inside s \<Longrightarrow> q \<in> xl_inside s \<Longrightarrow> p = q"
  using cnt_two [of p "xl_pcs s" q owns] by (auto simp: xl_good_def xl_inside_def owns_def)

interpretation xlock: lock_sys "xl_init n" xlock_step xl_good xl_inside for n :: nat
proof
  show "xl_inside (xl_init n) = {}" by (auto simp: xl_inside_def xl_init_def)
  show "xl_inside s' = (case e of Enter \<Rightarrow> insert p (xl_inside s) | Exit \<Rightarrow> xl_inside s - {p} | _ \<Rightarrow> xl_inside s)"
    if "xlock_step p e s s'" for s s' p e using that by (rule xl_inside_step)
  show "p = q" if "xl_good s" "p \<in> xl_inside s" "q \<in> xl_inside s" for s p q using that by (rule xl_exclusive)
qed (blast intro: xl_good_init xl_good_step)+

section \<open>No wake-up is lost\<close>

definition xl_next :: "xl \<Rightarrow> xl \<Rightarrow> bool" where
  "xl_next s s' \<longleftrightarrow> (\<exists>p e. xlock_step p e s s')"

definition xl_awake :: "xpc \<Rightarrow> bool" where
  "xl_awake pc \<longleftrightarrow> pc = AtCas \<or> pc = AtFutex \<or> pc = AtWake"

definition wakeful :: "xl \<Rightarrow> bool" where
  "wakeful s \<longleftrightarrow> (xl_word s = 0 \<and> sleepers Sleeping (xl_pcs s) \<noteq> {} \<longrightarrow> (\<exists>q < length (xl_pcs s). xl_awake (xl_pcs s ! q)))"

lemma wakeful_update:
  assumes "wakeful s" "p < length (xl_pcs s)" "xl_awake pc \<or> w \<noteq> 0 \<or> w = xl_word s \<and> \<not> xl_awake (xl_pcs s ! p) \<and> pc \<noteq> Sleeping"
  shows "wakeful (s\<lparr>xl_word := w, xl_pcs := (xl_pcs s)[p := pc]\<rparr>)"
proof (cases "xl_awake pc")
  case True
  then show ?thesis using assms(2) by (auto simp: wakeful_def intro!: exI [of _ p])
next
  case False
  have "\<exists>q < length (xl_pcs s). xl_awake ((xl_pcs s)[p := pc] ! q)"
    if z: "w = 0" and sl: "sleepers Sleeping ((xl_pcs s)[p := pc]) \<noteq> {}"
  proof -
    have c: "w = xl_word s" "\<not> xl_awake (xl_pcs s ! p)" "pc \<noteq> Sleeping" using assms(3) False z by auto
    then have "sleepers Sleeping (xl_pcs s) \<noteq> {}" using sl assms(2) by (auto simp: sleepers_def nth_list_update split: if_splits)
    then obtain q where "q < length (xl_pcs s)" "xl_awake (xl_pcs s ! q)"
      using assms(1) c(1) z by (auto simp: wakeful_def)
    then show ?thesis using c(2) assms(2) by (intro exI [of _ q]) (auto simp: nth_list_update)
  qed
  then show ?thesis by (simp add: wakeful_def)
qed

lemma wakeful_step:
  assumes "xl_good s" "wakeful s" "xlock_step p e s s'"
  shows "wakeful s'"
  using assms(3)
proof (cases rule: xlock_step.cases)
  case (lock pc w)
  have "xl_awake pc \<or> w \<noteq> 0 \<or> w = xl_word s \<and> \<not> xl_awake (xl_pcs s ! p) \<and> pc \<noteq> Sleeping"
    using lock(3) by (cases "xl_pcs s ! p") (auto simp: xl_awake_def xlock_defs split: if_splits)
  then show ?thesis unfolding lock(1) by (rule wakeful_update [OF assms(2) lock(2)])
next
  case (unlock pc w)
  have "xl_awake pc \<or> w \<noteq> 0 \<or> w = xl_word s \<and> \<not> xl_awake (xl_pcs s ! p) \<and> pc \<noteq> Sleeping"
    using unlock(3) by (cases "xl_pcs s ! p") (auto simp: xl_awake_def xlock_defs split: if_splits)
  then show ?thesis unfolding unlock(1) by (rule wakeful_update [OF assms(2) unlock(2)])
next
  case (futex_wake S)
  show ?thesis
  proof (cases "S = {}")
    case True
    then have "sleepers Sleeping (xl_pcs s) = {}" using futex_wake(6) by auto
    then have "sleepers Sleeping (xl_pcs s') = {}"
      using futex_wake(2,3) True by (auto simp: sleepers_def nth_list_update split: if_splits)
    then show ?thesis by (simp add: wakeful_def)
  next
    case False
    then obtain q where q: "q \<in> S" by blast
    then have "q < length (xl_pcs s)" "q \<noteq> p" using futex_wake(4,5) by (auto simp: sleepers_def)
    then show ?thesis using futex_wake(2) q by (auto simp: wakeful_def xl_awake_def nth_list_update intro!: exI [of _ q])
  qed
qed

lemma xl_reach:
  assumes "xl_next\<^sup>*\<^sup>* (xl_init n) s"
  shows "xl_good s \<and> wakeful s \<and> length (xl_pcs s) = n"
  using assms
proof (induction rule: rtranclp_induct)
  case base
  show ?case using xl_good_init by (auto simp: wakeful_def xl_init_def sleepers_def)
next
  case (step s s')
  obtain p e where st: "xlock_step p e s s'" using step.hyps(2) by (auto simp: xl_next_def)
  then have "length (xl_pcs s') = length (xl_pcs s)" by (cases rule: xlock_step.cases) auto
  then show ?case using step.IH st xl_good_step wakeful_step by metis
qed

section \<open>Creating and opening\<close>

text \<open>
  A lock lives in a file whose first word is the lock; \<open>fd\<close> is the number the next
  \<^verbatim>\<open>open\<close> returns. The first \<^verbatim>\<open>open\<close> is taken for a failure when it returns 0.
\<close>

type_synonym lock_files = "string \<rightharpoonup> u32"

definition xlock_create_open ::
  "bool \<Rightarrow> bool \<Rightarrow> bool \<Rightarrow> nat \<Rightarrow> string \<Rightarrow> bool \<Rightarrow> lock_files \<Rightarrow> string option \<times> lock_files" where
  "xlock_create_open malloc_ok creat_ok mmap_ok fd name create_flag fs =
     (if \<not> malloc_ok then (None, fs)
      else if create_flag \<and> fs name \<noteq> None \<and> fd > 0 then (None, fs)
      else if create_flag \<and> \<not> creat_ok then (None, fs)
      else
        let fs = (if create_flag \<and> fs name = None then fs(name \<mapsto> 0) else fs) in
        if fs name = None then (None, fs)
        else if \<not> mmap_ok then (None, fs)
        else (Some name, if create_flag then fs(name \<mapsto> 0) else fs))"

definition xlock_create :: "bool \<Rightarrow> bool \<Rightarrow> bool \<Rightarrow> nat \<Rightarrow> string \<Rightarrow> lock_files \<Rightarrow> string option \<times> lock_files" where
  "xlock_create malloc_ok creat_ok mmap_ok fd name fs = xlock_create_open malloc_ok creat_ok mmap_ok fd name True fs"

definition xlock_open :: "bool \<Rightarrow> bool \<Rightarrow> bool \<Rightarrow> nat \<Rightarrow> string \<Rightarrow> lock_files \<Rightarrow> string option \<times> lock_files" where
  "xlock_open malloc_ok creat_ok mmap_ok fd name fs = xlock_create_open malloc_ok creat_ok mmap_ok fd name False fs"

text \<open>\<^verbatim>\<open>xlock_close\<close> refuses a locked lock; otherwise it ends without a return value.\<close>

definition xlock_close :: "u32 \<Rightarrow> int option" where
  "xlock_close word = (if word \<noteq> 0 then Some (-1) else None)"

definition xlock_destroy :: "string \<Rightarrow> lock_files \<Rightarrow> lock_files" where
  "xlock_destroy name fs = fs(name := None)"

section \<open>Properties\<close>

text \<open>
  Property C2: however the processes that use one lock interleave, at most one is between
  \<^verbatim>\<open>xlock_lock\<close> and \<^verbatim>\<open>xlock_unlock\<close>, and the swap in \<^verbatim>\<open>xlock_unlock\<close> succeeds at the first try, so
  its loop never turns.
\<close>

theorem xlock_mutual_exclusion:
  assumes "xl_next\<^sup>*\<^sup>* (xl_init n) s" "p < n" "q < n"
  shows "(xl_pcs s ! p = Inside \<and> xl_pcs s ! q = Inside \<longrightarrow> p = q) \<and>
    (xl_pcs s ! p = AtUnlock \<longrightarrow> xlock_unlock AtUnlock (xl_word s) = Some (Tau, AtWake, 0))"
proof
  note r = xl_reach [OF assms(1)]
  show "xl_pcs s ! p = Inside \<and> xl_pcs s ! q = Inside \<longrightarrow> p = q"
    using xlock.exclusive [of s p q] r assms(2,3) by (simp add: xl_inside_def)
  show "xl_pcs s ! p = AtUnlock \<longrightarrow> xlock_unlock AtUnlock (xl_word s) = Some (Tau, AtWake, 0)"
  proof
    assume "xl_pcs s ! p = AtUnlock"
    then have "0 < cnt owns (xl_pcs s)" using r assms(2) by (auto simp: cnt_pos owns_def)
    then have "xl_word s = 1" using r by (auto simp: xl_good_def)
    then show "xlock_unlock AtUnlock (xl_word s) = Some (Tau, AtWake, 0)" by (simp add: xlock_defs)
  qed
qed

lemma xl_sample_run: "xl_next\<^sup>*\<^sup>* (xl_init 2) \<lparr>xl_word = 1, xl_pcs = [AtUnlock, AtCas]\<rparr>"
proof -
  have i: "xl_init 2 = \<lparr>xl_word = 0, xl_pcs = [Idle, Idle]\<rparr>" by (simp add: xl_init_def numeral_2_eq_2)
  have "xlock_step 0 LockCall \<lparr>xl_word = 0, xl_pcs = [Idle, Idle]\<rparr> \<lparr>xl_word = 0, xl_pcs = [AtCas, Idle]\<rparr>"
    using xlock_step.lock [of 0 "\<lparr>xl_word = 0, xl_pcs = [Idle, Idle]\<rparr>"] by simp
  moreover have "xlock_step 1 LockCall \<lparr>xl_word = 0, xl_pcs = [AtCas, Idle]\<rparr> \<lparr>xl_word = 0, xl_pcs = [AtCas, AtCas]\<rparr>"
    using xlock_step.lock [of 1 "\<lparr>xl_word = 0, xl_pcs = [AtCas, Idle]\<rparr>"] by simp
  moreover have "xlock_step 0 Enter \<lparr>xl_word = 0, xl_pcs = [AtCas, AtCas]\<rparr> \<lparr>xl_word = 1, xl_pcs = [Inside, AtCas]\<rparr>"
    using xlock_step.lock [of 0 "\<lparr>xl_word = 0, xl_pcs = [AtCas, AtCas]\<rparr>"] by (simp add: xlock_defs)
  moreover have "xlock_step 0 Exit \<lparr>xl_word = 1, xl_pcs = [Inside, AtCas]\<rparr> \<lparr>xl_word = 1, xl_pcs = [AtUnlock, AtCas]\<rparr>"
    using xlock_step.unlock [of 0 "\<lparr>xl_word = 1, xl_pcs = [Inside, AtCas]\<rparr>"] by simp
  ultimately show ?thesis unfolding i
    by (meson xl_next_def converse_rtranclp_into_rtranclp rtranclp.rtrancl_refl)
qed

theorem xlock_mutual_exclusion_witness:
  "xl_next\<^sup>*\<^sup>* (xl_init 2) \<lparr>xl_word = 1, xl_pcs = [AtUnlock, AtCas]\<rparr> \<and>
    xlock_unlock AtUnlock (xl_word \<lparr>xl_word = 1, xl_pcs = [AtUnlock, AtCas]\<rparr>) = Some (Tau, AtWake, 0)"
  using xl_sample_run xlock_mutual_exclusion [OF xl_sample_run, of 0 0] by simp

text \<open>
  Property C31: no wake-up is lost: whenever the lock is free and some process sleeps on it,
  another is awake that is about to try the lock or to wake a sleeper.
\<close>

theorem xlock_no_lost_wakeup:
  assumes "xl_next\<^sup>*\<^sup>* (xl_init n) s" "xl_word s = 0" "p < n" "xl_pcs s ! p = Sleeping"
  shows "\<exists>q < n. xl_pcs s ! q \<in> {AtCas, AtFutex, AtWake}"
  using xl_reach [OF assms(1)] assms(2-4) by (auto simp: wakeful_def sleepers_def xl_awake_def)

lemma xl_sample_sleep: "xl_next\<^sup>*\<^sup>* (xl_init 2) \<lparr>xl_word = 0, xl_pcs = [AtWake, Sleeping]\<rparr>"
proof -
  have "xlock_step 1 Tau \<lparr>xl_word = 1, xl_pcs = [AtUnlock, AtCas]\<rparr> \<lparr>xl_word = 1, xl_pcs = [AtUnlock, AtFutex]\<rparr>"
    using xlock_step.lock [of 1 "\<lparr>xl_word = 1, xl_pcs = [AtUnlock, AtCas]\<rparr>"] by (simp add: xlock_defs)
  moreover have "xlock_step 1 Tau \<lparr>xl_word = 1, xl_pcs = [AtUnlock, AtFutex]\<rparr> \<lparr>xl_word = 1, xl_pcs = [AtUnlock, Sleeping]\<rparr>"
    using xlock_step.lock [of 1 "\<lparr>xl_word = 1, xl_pcs = [AtUnlock, AtFutex]\<rparr>"] by (simp add: xlock_defs)
  moreover have "xlock_step 0 Tau \<lparr>xl_word = 1, xl_pcs = [AtUnlock, Sleeping]\<rparr> \<lparr>xl_word = 0, xl_pcs = [AtWake, Sleeping]\<rparr>"
    using xlock_step.unlock [of 0 "\<lparr>xl_word = 1, xl_pcs = [AtUnlock, Sleeping]\<rparr>"] by (simp add: xlock_defs)
  ultimately have "xl_next\<^sup>*\<^sup>* \<lparr>xl_word = 1, xl_pcs = [AtUnlock, AtCas]\<rparr> \<lparr>xl_word = 0, xl_pcs = [AtWake, Sleeping]\<rparr>"
    by (meson xl_next_def converse_rtranclp_into_rtranclp rtranclp.rtrancl_refl)
  then show ?thesis using xl_sample_run by (rule rtranclp_trans [rotated])
qed

theorem xlock_no_lost_wakeup_witness:
  "\<exists>s. xl_next\<^sup>*\<^sup>* (xl_init 2) s \<and> xl_pcs s ! 1 = Sleeping \<and> xl_word s = 0 \<and>
    (\<exists>q. q < 2 \<and> xl_pcs s ! q \<in> {AtCas, AtFutex, AtWake})"
  using xl_sample_sleep xlock_no_lost_wakeup [OF xl_sample_sleep, of 1] by fastforce

text \<open>
  Creating a lock gives a free one under a new name and refuses a name that
  exists without touching it; opening finds it and leaves its word alone. With descriptor 0
  free, though, creation takes over an existing lock and resets it.
\<close>

theorem xlock_create_then_open:
  assumes "fs name = None" "0 < fd"
  shows "xlock_create True True True fd name fs = (Some name, fs(name \<mapsto> 0)) \<and>
    xlock_open True c True fd' name (fs(name \<mapsto> w)) = (Some name, fs(name \<mapsto> w)) \<and>
    xlock_create True True True fd name (fs(name \<mapsto> w)) = (None, fs(name \<mapsto> w)) \<and>
    xlock_create True True True 0 name (fs(name \<mapsto> w)) = (Some name, fs(name \<mapsto> 0)) \<and>
    fst (xlock_open True c True fd' name fs) = None \<and>
    xlock_destroy name (snd (xlock_create True True True fd name fs)) = fs"
  using assms by (auto simp: xlock_create_def xlock_open_def xlock_create_open_def xlock_destroy_def fun_eq_iff)

theorem xlock_create_then_open_witness:
  "xlock_create True True True 3 ''l'' Map.empty = (Some ''l'', [''l'' \<mapsto> 0])"
  using xlock_create_then_open [of Map.empty "''l''" 3] by simp

end
