(* ===== verification/Test_Xlock.thy ===== *)
theory Test_Xlock
  imports Xlock
begin

text \<open>
  The client of \<^verbatim>\<open>src/test_xlock.c\<close>: processes that each, twenty times, take the lock, increment
  the integer in the file \<^verbatim>\<open>test_inc\<close> by separate stat, open, read and write calls, and
  release the lock. Every one of these calls may fail, and so may each fork. The client is written over any lock, and its lemmas are proved from the
  laws of a lock; without mutual exclusion the read and the write of two processes could mix.
\<close>

definition MAX_ITER :: nat where
  "MAX_ITER = 20"

text \<open>
  The file: absent, empty, or holding an integer. \<^verbatim>\<open>do_inc_file\<close> decides by \<^verbatim>\<open>stat\<close> whether to
  start from zero; a read of an empty file leaves the variable as it was. \<open>AtReturn\<close> is the end of
  \<^verbatim>\<open>do_inc_file\<close>, behind the write or behind an open that failed.
\<close>

type_synonym inc_file = "u32 option option"

datatype ipc = New | Locking | AtStat | AtOpen bool | AtRead bool | AtWrite u32 | AtReturn | Unlocking | Done

record iproc =
  ip_pc :: ipc
  ip_i :: nat

record 'l inc_sys =
  is_lock :: 'l
  is_file :: inc_file
  is_procs :: "iproc list"
  is_lost :: nat
  is_bad :: bool

text \<open>
  \<open>is_lost\<close> counts the opens that failed; \<open>is_bad\<close> says that a \<^verbatim>\<open>stat\<close> of the existing file, a read or a write failed.
\<close>

text \<open>The loop of forks in \<^verbatim>\<open>main\<close>, where \<open>forked i\<close> says whether fork \<open>i\<close> succeeds: a failed fork is passed over.\<close>

definition forked_children :: "nat \<Rightarrow> (nat \<Rightarrow> bool) \<Rightarrow> nat" where
  "forked_children nr_forks forked = length (filter forked [0..<nr_forks])"

definition inc_init :: "'l \<Rightarrow> inc_file \<Rightarrow> nat \<Rightarrow> 'l inc_sys" where
  "inc_init l f children = \<lparr>is_lock = l, is_file = f, is_procs = replicate children \<lparr>ip_pc = New, ip_i = 0\<rparr>,
     is_lost = 0, is_bad = False\<rparr>"

text \<open>
  One call of \<^verbatim>\<open>do_inc_file\<close>, system call by system call; \<open>ok\<close> says whether the call succeeds and \<open>garbage\<close> is
  the uninitialised variable. A failed \<^verbatim>\<open>stat\<close> is taken for a missing file, a failed open ends the
  function, and failed reads and writes are not noticed.
\<close>

fun do_inc_file :: "u32 \<Rightarrow> bool \<Rightarrow> ipc \<Rightarrow> inc_file \<Rightarrow> (ipc \<times> inc_file) option" where
  "do_inc_file garbage ok AtStat f = Some (AtOpen (f = None \<or> \<not> ok), f)"
| "do_inc_file garbage ok (AtOpen do_init) f =
     (if ok then Some (AtRead do_init, if f = None then Some None else f) else Some (AtReturn, f))"
| "do_inc_file garbage ok (AtRead do_init) f =
     (let fint = (case f of Some (Some v) \<Rightarrow> if ok then v else garbage | _ \<Rightarrow> garbage);
          fint = (if do_init then 0 else fint)
      in Some (AtWrite (fint + 1), f))"
| "do_inc_file garbage ok (AtWrite v) f = Some (AtReturn, if ok then Some (Some v) else f)"
| "do_inc_file garbage ok _ f = None"

text \<open>An increment is lost by an open that fails; what else fails spoils the count.\<close>

definition loses :: "bool \<Rightarrow> ipc \<Rightarrow> nat" where
  "loses ok pc = (case pc of AtOpen _ \<Rightarrow> if ok then 0 else 1 | _ \<Rightarrow> 0)"

definition spoils :: "bool \<Rightarrow> ipc \<Rightarrow> bool" where
  "spoils ok pc = (case pc of AtOpen _ \<Rightarrow> False | _ \<Rightarrow> \<not> ok)"

text \<open>\<^verbatim>\<open>print_inc_file\<close>: what is printed, if anything.\<close>

definition print_inc_file :: "u32 \<Rightarrow> bool \<Rightarrow> inc_file \<Rightarrow> u32 option" where
  "print_inc_file garbage opened f = (case f of
     None \<Rightarrow> None
   | Some c \<Rightarrow> if opened then Some (case c of None \<Rightarrow> garbage | Some v \<Rightarrow> v) else None)"

text \<open>\<^verbatim>\<open>test2\<close>, the loop of one process, with the lock's steps woven in.\<close>

inductive inc_step :: "(nat \<Rightarrow> lock_event \<Rightarrow> 'l \<Rightarrow> 'l \<Rightarrow> bool) \<Rightarrow> nat \<Rightarrow> 'l inc_sys \<Rightarrow> 'l inc_sys \<Rightarrow> bool"
  for lstep :: "nat \<Rightarrow> lock_event \<Rightarrow> 'l \<Rightarrow> 'l \<Rightarrow> bool" and max_iter :: nat where
  call: "p < length (is_procs s) \<Longrightarrow> is_procs s ! p = \<lparr>ip_pc = New, ip_i = i\<rparr> \<Longrightarrow> i < max_iter \<Longrightarrow>
    lstep p LockCall (is_lock s) l \<Longrightarrow>
    inc_step lstep max_iter s (s\<lparr>is_lock := l, is_procs := (is_procs s)[p := \<lparr>ip_pc = Locking, ip_i = i\<rparr>]\<rparr>)"
| stop: "p < length (is_procs s) \<Longrightarrow> is_procs s ! p = \<lparr>ip_pc = New, ip_i = i\<rparr> \<Longrightarrow> \<not> i < max_iter \<Longrightarrow>
    inc_step lstep max_iter s (s\<lparr>is_procs := (is_procs s)[p := \<lparr>ip_pc = Done, ip_i = i\<rparr>]\<rparr>)"
| lock: "p < length (is_procs s) \<Longrightarrow> ip_pc (is_procs s ! p) \<in> {Locking, Unlocking} \<Longrightarrow>
    lstep p Tau (is_lock s) l \<Longrightarrow> inc_step lstep max_iter s (s\<lparr>is_lock := l\<rparr>)"
| enter: "p < length (is_procs s) \<Longrightarrow> is_procs s ! p = \<lparr>ip_pc = Locking, ip_i = i\<rparr> \<Longrightarrow>
    lstep p Enter (is_lock s) l \<Longrightarrow>
    inc_step lstep max_iter s (s\<lparr>is_lock := l, is_procs := (is_procs s)[p := \<lparr>ip_pc = AtStat, ip_i = i\<rparr>]\<rparr>)"
| body: "p < length (is_procs s) \<Longrightarrow> is_procs s ! p = \<lparr>ip_pc = pc, ip_i = i\<rparr> \<Longrightarrow>
    do_inc_file garbage ok pc (is_file s) = Some (pc', f) \<Longrightarrow>
    inc_step lstep max_iter s (s\<lparr>is_file := f, is_procs := (is_procs s)[p := \<lparr>ip_pc = pc', ip_i = i\<rparr>],
      is_lost := is_lost s + loses ok pc, is_bad := is_bad s \<or> spoils ok pc\<rparr>)"
| exit: "p < length (is_procs s) \<Longrightarrow> is_procs s ! p = \<lparr>ip_pc = AtReturn, ip_i = i\<rparr> \<Longrightarrow>
    lstep p Exit (is_lock s) l \<Longrightarrow>
    inc_step lstep max_iter s (s\<lparr>is_lock := l, is_procs := (is_procs s)[p := \<lparr>ip_pc = Unlocking, ip_i = i\<rparr>]\<rparr>)"
| ret: "p < length (is_procs s) \<Longrightarrow> is_procs s ! p = \<lparr>ip_pc = Unlocking, ip_i = i\<rparr> \<Longrightarrow>
    lstep p Ret (is_lock s) l \<Longrightarrow>
    inc_step lstep max_iter s (s\<lparr>is_lock := l, is_procs := (is_procs s)[p := \<lparr>ip_pc = New, ip_i = Suc i\<rparr>]\<rparr>)"

section \<open>Counting increments\<close>

text \<open>The calls of \<^verbatim>\<open>do_inc_file\<close> a process has behind it.\<close>

definition incs :: "iproc \<Rightarrow> nat" where
  "incs pr = (if ip_pc pr = AtReturn \<or> ip_pc pr = Unlocking then Suc (ip_i pr) else ip_i pr)"

definition in_body :: "ipc \<Rightarrow> bool" where
  "in_body pc = (case pc of AtStat \<Rightarrow> True | AtOpen _ \<Rightarrow> True | AtRead _ \<Rightarrow> True | AtWrite _ \<Rightarrow> True | AtReturn \<Rightarrow> True | _ \<Rightarrow> False)"

abbreviation total_incs :: "iproc list \<Rightarrow> nat" where
  "total_incs prs \<equiv> sum_list (map incs prs)"

text \<open>The increments made: all but those lost.\<close>

definition made_incs :: "iproc list \<Rightarrow> nat \<Rightarrow> nat" where
  "made_incs prs lost = total_incs prs - lost"

lemma made_incs_same: "total_incs prs = total_incs prs' \<Longrightarrow> made_incs prs k = made_incs prs' k"
  by (simp add: made_incs_def)

text \<open>What the process in the body knows about the file, and the file at rest.\<close>

fun body_ok :: "u32 \<Rightarrow> ipc \<Rightarrow> inc_file \<Rightarrow> nat \<Rightarrow> bool" where
  "body_ok v0 (AtOpen d) f t = (if d then f = None \<and> v0 = 0 \<and> t = 0 else f = Some (Some (v0 + word_of_nat t)))"
| "body_ok v0 (AtRead d) f t = (if d then f = Some None \<and> v0 = 0 \<and> t = 0 else f = Some (Some (v0 + word_of_nat t)))"
| "body_ok v0 (AtWrite v) f t = (v = v0 + word_of_nat t + 1)"
| "body_ok v0 _ f t = (f = None \<and> v0 = 0 \<and> t = 0 \<or> f = Some (Some (v0 + word_of_nat t)))"

definition iter_ok :: "nat \<Rightarrow> iproc \<Rightarrow> bool" where
  "iter_ok m pr \<longleftrightarrow> ip_i pr \<le> m \<and> (ip_pc pr = Done \<longrightarrow> ip_i pr = m) \<and> (ip_pc pr \<notin> {New, Done} \<longrightarrow> ip_i pr < m)"

definition bodies :: "iproc list \<Rightarrow> nat set" where
  "bodies prs = {p. p < length prs \<and> in_body (ip_pc (prs ! p))}"

definition inc_ok :: "('l \<Rightarrow> bool) \<Rightarrow> ('l \<Rightarrow> nat set) \<Rightarrow> u32 \<Rightarrow> nat \<Rightarrow> 'l inc_sys \<Rightarrow> bool" where
  "inc_ok good inside v0 m s \<longleftrightarrow>
     good (is_lock s) \<and> inside (is_lock s) = bodies (is_procs s) \<and>
     is_lost s \<le> total_incs (is_procs s) \<and>
     (\<forall>p \<in> bodies (is_procs s). body_ok v0 (ip_pc (is_procs s ! p)) (is_file s) (made_incs (is_procs s) (is_lost s))) \<and>
     (bodies (is_procs s) = {} \<longrightarrow> body_ok v0 New (is_file s) (made_incs (is_procs s) (is_lost s))) \<and>
     (\<forall>p < length (is_procs s). iter_ok m (is_procs s ! p))"

lemma bodies_update:
  "p < length prs \<Longrightarrow> bodies (prs[p := pr]) = (if in_body (ip_pc pr) then insert p (bodies prs) else bodies prs - {p})"
  by (auto simp: bodies_def nth_list_update)

lemma iter_ok_update:
  "(\<forall>p < length prs. iter_ok m (prs ! p)) \<Longrightarrow> iter_ok m pr \<Longrightarrow> \<forall>q < length prs. iter_ok m (prs[p := pr] ! q)"
  by (metis nth_list_update_eq nth_list_update_neq)

lemma total_incs_update:
  "p < length prs \<Longrightarrow> total_incs (prs[p := x]) + incs (prs ! p) = total_incs prs + incs x"
  using elem_le_sum_list [of p "map incs prs"] by (simp add: map_update sum_list_update)

text \<open>A file that is there stays.\<close>

lemma file_stays: "(inc_step lstep m)\<^sup>*\<^sup>* s s' \<Longrightarrow> is_file s \<noteq> None \<Longrightarrow> is_file s' \<noteq> None"
proof (induction rule: rtranclp_induct)
  case (step s' s'')
  have body: "do_inc_file garbage ok pc f = Some (pc', f') \<Longrightarrow> f \<noteq> None \<Longrightarrow> f' \<noteq> None" for garbage ok pc f pc' f'
    by (cases pc) (auto simp: Let_def split: if_splits)
  show ?case using step.hyps(2) step.IH [OF step.prems] by (cases rule: inc_step.cases) (auto dest: body)
qed

context lock_sys
begin

lemma inc_ok_alone:
  assumes "inc_ok good inside v0 m s" "p \<in> bodies (is_procs s)"
  shows "bodies (is_procs s) = {p}"
proof -
  have g: "good (is_lock s)" "inside (is_lock s) = bodies (is_procs s)" using assms(1) by (auto simp: inc_ok_def)
  then show ?thesis using exclusive [OF g(1)] assms(2) by blast
qed

text \<open>A process moves outside the body.\<close>

lemma inc_ok_outside:
  assumes ok: "inc_ok good inside v0 m s" and p: "p < length (is_procs s)"
    and b: "\<not> in_body (ip_pc (is_procs s ! p))" "\<not> in_body (ip_pc pr)" "incs pr = incs (is_procs s ! p)" "iter_ok m pr"
    and l: "good l" "inside l = inside (is_lock s)"
  shows "inc_ok good inside v0 m (s\<lparr>is_lock := l, is_procs := (is_procs s)[p := pr]\<rparr>)"
proof -
  have t: "total_incs ((is_procs s)[p := pr]) = total_incs (is_procs s)" using total_incs_update [OF p, of pr] b(3) by simp
  have np: "p \<notin> bodies (is_procs s)" using b(1) by (simp add: bodies_def)
  have bd: "bodies ((is_procs s)[p := pr]) = bodies (is_procs s)" using bodies_update [OF p, of pr] b(2) np by simp
  have nth: "(is_procs s)[p := pr] ! q = is_procs s ! q" if "q \<in> bodies (is_procs s)" for q
    using that np by (metis nth_list_update_neq)
  show ?thesis using ok l t made_incs_same [OF t] bd nth iter_ok_update [OF _ b(4)] unfolding inc_ok_def by simp
qed

text \<open>The process in the body moves on; it is alone there.\<close>

lemma inc_ok_body:
  assumes ok: "inc_ok good inside v0 m s" and p: "p \<in> bodies (is_procs s)"
    and b: "in_body (ip_pc pr)" "iter_ok m pr"
    and f: "body_ok v0 (ip_pc pr) f (made_incs ((is_procs s)[p := pr]) k)" "k \<le> total_incs ((is_procs s)[p := pr])"
  shows "inc_ok good inside v0 m (s\<lparr>is_file := f, is_procs := (is_procs s)[p := pr], is_lost := k, is_bad := b\<rparr>)"
proof -
  have pl: "p < length (is_procs s)" using p by (simp add: bodies_def)
  have i: "bodies (is_procs s) = {p}" by (rule inc_ok_alone [OF ok p])
  then have bd: "bodies ((is_procs s)[p := pr]) = {p}" using bodies_update [OF pl, of pr] b(1) by simp
  show ?thesis using ok pl i bd f iter_ok_update [OF _ b(2)] unfolding inc_ok_def by simp
qed

lemma inc_ok_enter:
  assumes ok: "inc_ok good inside v0 m s" and p: "p < length (is_procs s)"
    and pr: "is_procs s ! p = \<lparr>ip_pc = Locking, ip_i = i\<rparr>" and l: "lstep p Enter (is_lock s) l"
  shows "inc_ok good inside v0 m (s\<lparr>is_lock := l, is_procs := (is_procs s)[p := \<lparr>ip_pc = AtStat, ip_i = i\<rparr>]\<rparr>)"
proof -
  let ?pr = "\<lparr>ip_pc = AtStat, ip_i = i\<rparr>"
  have g: "good (is_lock s)" "inside (is_lock s) = bodies (is_procs s)" using ok by (auto simp: inc_ok_def)
  have np: "p \<notin> bodies (is_procs s)" using pr by (simp add: bodies_def in_body_def)
  then have i: "bodies (is_procs s) = {}" "inside l = {p}" using enter_alone [OF g(1) l] g(2) by auto
  have t: "total_incs ((is_procs s)[p := ?pr]) = total_incs (is_procs s)"
    using total_incs_update [OF p, of ?pr] pr by (simp add: incs_def)
  have bd: "bodies ((is_procs s)[p := ?pr]) = {p}" using bodies_update [OF p, of ?pr] i(1) by (simp add: in_body_def)
  have it: "iter_ok m ?pr" using ok p pr by (auto simp: inc_ok_def iter_ok_def)
  have "body_ok v0 AtStat (is_file s) (made_incs (is_procs s) (is_lost s))" using ok i(1) by (simp add: inc_ok_def)
  then show ?thesis using ok p i t made_incs_same [OF t] bd good_step [OF g(1) l] iter_ok_update [OF _ it] unfolding inc_ok_def by simp
qed

lemma inc_ok_exit:
  assumes ok: "inc_ok good inside v0 m s" and p: "p < length (is_procs s)"
    and pr: "is_procs s ! p = \<lparr>ip_pc = AtReturn, ip_i = i\<rparr>" and l: "lstep p Exit (is_lock s) l"
  shows "inc_ok good inside v0 m (s\<lparr>is_lock := l, is_procs := (is_procs s)[p := \<lparr>ip_pc = Unlocking, ip_i = i\<rparr>]\<rparr>)"
proof -
  let ?pr = "\<lparr>ip_pc = Unlocking, ip_i = i\<rparr>"
  have g: "good (is_lock s)" "inside (is_lock s) = bodies (is_procs s)" using ok by (auto simp: inc_ok_def)
  have b: "p \<in> bodies (is_procs s)" using p pr by (simp add: bodies_def in_body_def)
  have i: "bodies (is_procs s) = {p}" by (rule inc_ok_alone [OF ok b])
  then have i': "inside l = {}" using exit_none [OF g(1) l] g(2) by simp
  have t: "total_incs ((is_procs s)[p := ?pr]) = total_incs (is_procs s)"
    using total_incs_update [OF p, of ?pr] pr by (simp add: incs_def)
  have bd: "bodies ((is_procs s)[p := ?pr]) = {}" using bodies_update [OF p, of ?pr] i by (simp add: in_body_def)
  have it: "iter_ok m ?pr" using ok p pr by (auto simp: inc_ok_def iter_ok_def)
  have "body_ok v0 (ip_pc (is_procs s ! p)) (is_file s) (made_incs (is_procs s) (is_lost s))" using ok b by (simp add: inc_ok_def)
  then have "body_ok v0 New (is_file s) (made_incs (is_procs s) (is_lost s))" using pr by simp
  then show ?thesis using ok t made_incs_same [OF t] bd i' good_step [OF g(1) l] iter_ok_update [OF _ it] unfolding inc_ok_def by simp
qed

text \<open>One call inside \<open>do_inc_file\<close>.\<close>

lemma body_ok_step:
  assumes "do_inc_file garbage ok pc f = Some (pc', f')" "body_ok v0 pc f t" "\<not> spoils ok pc"
  shows "in_body pc \<and> in_body pc' \<and> pc \<noteq> AtReturn \<and> pc' \<noteq> Unlocking \<and>
    body_ok v0 pc' f' (if pc' = AtReturn then Suc t - loses ok pc else t) \<and> (pc' \<noteq> AtReturn \<longrightarrow> loses ok pc = 0) \<and> loses ok pc \<le> 1"
  using assms by (cases pc) (auto simp: in_body_def Let_def add.assoc loses_def spoils_def split: if_splits option.splits)

lemma inc_ok_step:
  assumes "inc_ok good inside v0 m s" "inc_step lstep m s s'" "\<not> is_bad s'"
  shows "inc_ok good inside v0 m s'"
  using assms(2)
proof (cases rule: inc_step.cases)
  case (call p i l)
  have "inside l = inside (is_lock s)" "good l"
    using other_same [OF _ call(5)] good_step [OF _ call(5)] assms(1) by (auto simp: inc_ok_def)
  then show ?thesis unfolding call(1) using call(2-4)
    by (intro inc_ok_outside [OF assms(1)]) (auto simp: in_body_def incs_def iter_ok_def)
next
  case (stop p i)
  have "iter_ok m (is_procs s ! p)" using assms(1) stop(2) by (auto simp: inc_ok_def)
  then have "inc_ok good inside v0 m (s\<lparr>is_lock := is_lock s, is_procs := (is_procs s)[p := \<lparr>ip_pc = Done, ip_i = i\<rparr>]\<rparr>)"
    using stop(2-4) assms(1) by (intro inc_ok_outside [OF assms(1)]) (auto simp: in_body_def incs_def iter_ok_def inc_ok_def)
  then show ?thesis unfolding stop(1) by simp
next
  case (lock p l)
  have "inside l = inside (is_lock s)" "good l"
    using other_same [OF _ lock(4)] good_step [OF _ lock(4)] assms(1) by (auto simp: inc_ok_def)
  then show ?thesis unfolding lock(1) using assms(1) by (simp add: inc_ok_def)
next
  case (enter p i l)
  then show ?thesis using inc_ok_enter [OF assms(1)] by blast
next
  case (body p pc i garbage ok pc' f)
  let ?pr = "\<lparr>ip_pc = pc', ip_i = i\<rparr>"
  have ib: "in_body pc" using body(4) by (cases pc) (auto simp: in_body_def)
  have p: "p \<in> bodies (is_procs s)" using body(2,3) ib by (simp add: bodies_def)
  have bo: "body_ok v0 pc (is_file s) (made_incs (is_procs s) (is_lost s))" and le: "is_lost s \<le> total_incs (is_procs s)"
    using assms(1) p body(3) by (auto simp: inc_ok_def)
  have "\<not> spoils ok pc" using assms(3) body(1) by simp
  note st = body_ok_step [OF body(4) bo this]
  have "iter_ok m (is_procs s ! p)" using assms(1) body(2) by (auto simp: inc_ok_def)
  then have it: "iter_ok m ?pr" using body(3) ib st by (auto simp: iter_ok_def in_body_def)
  have t: "total_incs ((is_procs s)[p := ?pr]) = (if pc' = AtReturn then Suc (total_incs (is_procs s)) else total_incs (is_procs s))"
    using total_incs_update [OF body(2), of ?pr] body(3) st ib by (auto simp: incs_def in_body_def split: ipc.splits)
  show ?thesis unfolding body(1) using st t le
    by (intro inc_ok_body [OF assms(1) p _ it]) (auto simp: made_incs_def Suc_diff_le split: if_splits)
next
  case (exit p i l)
  then show ?thesis using inc_ok_exit [OF assms(1)] by blast
next
  case (ret p i l)
  have "inside l = inside (is_lock s)" "good l"
    using other_same [OF _ ret(4)] good_step [OF _ ret(4)] assms(1) by (auto simp: inc_ok_def)
  moreover have "iter_ok m (is_procs s ! p)" using assms(1) ret(2) by (auto simp: inc_ok_def)
  ultimately show ?thesis unfolding ret(1) using ret(2,3)
    by (intro inc_ok_outside [OF assms(1)]) (auto simp: in_body_def incs_def iter_ok_def)
qed

lemma is_bad_step: "inc_step lstep m s s' \<Longrightarrow> is_bad s \<Longrightarrow> is_bad s'"
  by (induction rule: inc_step.induct) simp_all

lemma inc_ok_reach:
  assumes "(inc_step lstep m)\<^sup>*\<^sup>* (inc_init init f n) s" "f = None \<and> v0 = 0 \<or> f = Some (Some v0)" "\<not> is_bad s"
  shows "inc_ok good inside v0 m s \<and> length (is_procs s) = n"
  using assms(1,3)
proof (induction rule: rtranclp_induct)
  case base
  let ?prs = "replicate n \<lparr>ip_pc = New, ip_i = 0\<rparr>"
  have t: "total_incs ?prs = 0" by (simp add: incs_def sum_list_replicate)
  moreover have "bodies ?prs = {}" by (auto simp: bodies_def in_body_def)
  ultimately show ?case using assms(2) good_init inside_init
    by (auto simp: inc_ok_def inc_init_def iter_ok_def t made_incs_def simp del: map_replicate sum_list_eq_0_iff)
next
  case (step s s')
  moreover have "length (is_procs s') = length (is_procs s)" using step.hyps(2) by (cases rule: inc_step.cases) auto
  moreover have "\<not> is_bad s" using step.prems is_bad_step [OF step.hyps(2)] by blast
  ultimately show ?case using inc_ok_step [OF _ step.hyps(2)] by simp
qed

lemma inc_final:
  assumes "(inc_step lstep m)\<^sup>*\<^sup>* (inc_init init f n) s" "f = None \<and> v0 = 0 \<or> f = Some (Some v0)" "\<not> is_bad s"
    and "\<forall>p < n. ip_pc (is_procs s ! p) = Done"
  shows "is_lost s \<le> m * n \<and> body_ok v0 New (is_file s) (m * n - is_lost s)"
proof -
  have ok: "inc_ok good inside v0 m s" and n: "length (is_procs s) = n" using inc_ok_reach [OF assms(1,2,3)] by auto
  have "bodies (is_procs s) = {}" using assms(4) n by (auto simp: bodies_def in_body_def)
  then have f: "body_ok v0 New (is_file s) (made_incs (is_procs s) (is_lost s))" using ok by (simp add: inc_ok_def)
  have "incs (is_procs s ! p) = m" if "p < n" for p
    using ok assms(4) n that by (auto simp: inc_ok_def iter_ok_def incs_def)
  then have "map incs (is_procs s) = replicate n m" using n by (simp add: list_eq_iff_nth_eq)
  then have "total_incs (is_procs s) = m * n" by (simp add: sum_list_replicate)
  moreover have "is_lost s \<le> total_incs (is_procs s)" using ok by (simp add: inc_ok_def)
  ultimately show ?thesis using f by (simp only: made_incs_def)
qed

end

section \<open>Over the futex lock\<close>

text \<open>
  Property C33: when every process that \<^verbatim>\<open>test_xlock\<close> could fork is done, and no \<^verbatim>\<open>stat\<close> of the existing
  file, no read and no write has failed, the integer in the file has been incremented exactly twenty
  times per process less once for every open that failed, however their calls interleaved, and
  that is what \<^verbatim>\<open>print_inc_file\<close> prints. The file can only be missing when it was missing at the start
  and every open failed.
\<close>

theorem test_xlock_counts:
  assumes "n = forked_children nr_forks forked"
    and "(inc_step xlock_step MAX_ITER)\<^sup>*\<^sup>* (inc_init (xl_init n) f n) s"
    and "f = None \<and> v0 = 0 \<or> f = Some (Some v0)" "\<not> is_bad s"
    and "\<forall>p < n. ip_pc (is_procs s ! p) = Done"
  shows "is_lost s \<le> 20 * n \<and>
    (is_file s = Some (Some (v0 + word_of_nat (20 * n - is_lost s))) \<and>
       print_inc_file garbage True (is_file s) = Some (v0 + word_of_nat (20 * n - is_lost s)) \<or>
     is_file s = None \<and> f = None \<and> is_lost s = 20 * n)"
proof -
  let ?v = "v0 + word_of_nat (20 * n - is_lost s)"
  have none: "f = None" if "is_file s = None"
    using file_stays [OF assms(2)] that by (cases f) (auto simp: inc_init_def)
  have "is_lost s \<le> 20 * n" "body_ok v0 New (is_file s) (20 * n - is_lost s)"
    using xlock.inc_final [OF assms(2-5)] by (simp_all only: MAX_ITER_def)
  then have "is_file s = Some (Some ?v) \<or> is_file s = None \<and> is_lost s = 20 * n" by (simp only: body_ok.simps) auto
  then show ?thesis using \<open>is_lost s \<le> 20 * n\<close> none
    by (elim disjE conjE) (simp_all only: print_inc_file_def option.case if_True simp_thms)
qed

text \<open>A single process goes round its loop and ends.\<close>

definition lone :: "ipc \<Rightarrow> nat \<Rightarrow> u32 \<Rightarrow> xpc \<Rightarrow> u32 \<Rightarrow> nat \<Rightarrow> xl inc_sys" where
  "lone pc i w x v k = \<lparr>is_lock = \<lparr>xl_word = w, xl_pcs = [x]\<rparr>, is_file = Some (Some v), is_procs = [\<lparr>ip_pc = pc, ip_i = i\<rparr>],
     is_lost = k, is_bad = False\<rparr>"

lemma lone_lock:
  "xlock_lock x w = Some (e, x', w') \<Longrightarrow> xlock_step 0 e (is_lock (lone pc i w x v k)) (is_lock (lone pc' i' w' x' v' k'))"
  "xlock_unlock x w = Some (e, x', w') \<Longrightarrow> xlock_step 0 e (is_lock (lone pc i w x v k)) (is_lock (lone pc' i' w' x' v' k'))"
  using xlock_step.lock [of 0 "\<lparr>xl_word = w, xl_pcs = [x]\<rparr>" e x' w'] xlock_step.unlock [of 0 "\<lparr>xl_word = w, xl_pcs = [x]\<rparr>" e x' w']
  by (simp_all add: lone_def)

lemma lone_body:
  assumes "do_inc_file 0 ok pc (Some (Some v)) = Some (pc', Some (Some v'))" "\<not> spoils ok pc" "k' = k + loses ok pc"
  shows "inc_step xlock_step m (lone pc i w x v k) (lone pc' i w x v' k')"
  using inc_step.body [of 0 "lone pc i w x v k" pc i 0 ok pc' "Some (Some v')"] assms by (simp add: lone_def)

text \<open>The lock is taken, and given back.\<close>

lemma lone_enter:
  assumes "i < m"
  shows "(inc_step xlock_step m)\<^sup>*\<^sup>* (lone New i 0 Idle v k) (lone AtStat i 1 Inside v k)"
proof -
  have "inc_step xlock_step m (lone New i 0 Idle v k) (lone Locking i 0 AtCas v k)"
    using inc_step.call [of 0 "lone New i 0 Idle v k" i m xlock_step] lone_lock(1) [of Idle 0 LockCall AtCas 0] assms
    by (simp add: lone_def)
  moreover have "inc_step xlock_step m (lone Locking i 0 AtCas v k) (lone AtStat i 1 Inside v k)"
    using inc_step.enter [of 0 "lone Locking i 0 AtCas v k" i xlock_step] lone_lock(1) [of AtCas 0 Enter Inside 1]
    by (simp add: lone_def xlock_defs)
  ultimately show ?thesis by (meson converse_rtranclp_into_rtranclp rtranclp.rtrancl_refl)
qed

lemma lone_leave: "(inc_step xlock_step m)\<^sup>*\<^sup>* (lone AtReturn i 1 Inside v k) (lone New (Suc i) 0 Idle v k)"
proof -
  let ?st = "inc_step xlock_step m"
  have "?st (lone AtReturn i 1 Inside v k) (lone Unlocking i 1 AtUnlock v k)"
    using inc_step.exit [of 0 "lone AtReturn i 1 Inside v k" i xlock_step] lone_lock(2) [of Inside 1 Exit AtUnlock 1]
    by (simp add: lone_def)
  moreover have "?st (lone Unlocking i 1 AtUnlock v k) (lone Unlocking i 0 AtWake v k)"
    using inc_step.lock [of 0 "lone Unlocking i 1 AtUnlock v k" xlock_step] lone_lock(2) [of AtUnlock 1 Tau AtWake 0]
    by (simp add: lone_def xlock_defs)
  moreover have "?st (lone Unlocking i 0 AtWake v k) (lone New (Suc i) 0 Idle v k)"
  proof -
    have "xlock_step 0 Ret \<lparr>xl_word = 0, xl_pcs = [AtWake]\<rparr> \<lparr>xl_word = 0, xl_pcs = [Idle]\<rparr>"
      using xlock_step.futex_wake [of 0 "\<lparr>xl_word = 0, xl_pcs = [AtWake]\<rparr>" "{}"] by (simp add: sleepers_def wake_def)
    then show ?thesis using inc_step.ret [of 0 "lone Unlocking i 0 AtWake v k" i xlock_step] by (simp add: lone_def)
  qed
  ultimately show ?thesis by (meson converse_rtranclp_into_rtranclp rtranclp.rtrancl_refl)
qed

lemma lone_round:
  assumes "i < m"
  shows "(inc_step xlock_step m)\<^sup>*\<^sup>* (lone New i 0 Idle v k) (lone New (Suc i) 0 Idle (v + 1) k)"
proof -
  let ?st = "inc_step xlock_step m"
  have "?st (lone AtStat i 1 Inside v k) (lone (AtOpen False) i 1 Inside v k)"
    by (rule lone_body [of True]) (simp_all add: loses_def spoils_def)
  moreover have "?st (lone (AtOpen False) i 1 Inside v k) (lone (AtRead False) i 1 Inside v k)"
    by (rule lone_body [of True]) (simp_all add: loses_def spoils_def)
  moreover have "?st (lone (AtRead False) i 1 Inside v k) (lone (AtWrite (v + 1)) i 1 Inside v k)"
    by (rule lone_body [of True]) (simp_all add: loses_def spoils_def)
  moreover have "?st (lone (AtWrite (v + 1)) i 1 Inside v k) (lone AtReturn i 1 Inside (v + 1) k)"
    by (rule lone_body [of True]) (simp_all add: loses_def spoils_def)
  ultimately have "?st\<^sup>*\<^sup>* (lone AtStat i 1 Inside v k) (lone AtReturn i 1 Inside (v + 1) k)"
    by (meson converse_rtranclp_into_rtranclp rtranclp.rtrancl_refl)
  then show ?thesis using lone_enter [OF assms, of v k] lone_leave [of m i "v + 1" k] by (meson rtranclp_trans)
qed

text \<open>A round whose open fails.\<close>

lemma lone_round_fails:
  assumes "i < m"
  shows "(inc_step xlock_step m)\<^sup>*\<^sup>* (lone New i 0 Idle v k) (lone New (Suc i) 0 Idle v (Suc k))"
proof -
  let ?st = "inc_step xlock_step m"
  have "?st (lone AtStat i 1 Inside v k) (lone (AtOpen False) i 1 Inside v k)"
    by (rule lone_body [of True]) (simp_all add: loses_def spoils_def)
  moreover have "?st (lone (AtOpen False) i 1 Inside v k) (lone AtReturn i 1 Inside v (Suc k))"
    by (rule lone_body [of False]) (simp_all add: loses_def spoils_def)
  ultimately have "?st\<^sup>*\<^sup>* (lone AtStat i 1 Inside v k) (lone AtReturn i 1 Inside v (Suc k))"
    by (meson converse_rtranclp_into_rtranclp rtranclp.rtrancl_refl)
  then show ?thesis using lone_enter [OF assms, of v k] lone_leave [of m i v "Suc k"] by (meson rtranclp_trans)
qed

lemma lone_rounds:
  "j + i \<le> m \<Longrightarrow> (inc_step xlock_step m)\<^sup>*\<^sup>* (lone New j 0 Idle v k) (lone New (j + i) 0 Idle (v + word_of_nat i) k)"
proof (induction i)
  case (Suc i)
  then show ?case using lone_round [of "j + i" m "v + word_of_nat i" k] by (auto simp: add.assoc add.commute [of 1])
qed simp

lemma lone_run:
  "(inc_step xlock_step MAX_ITER)\<^sup>*\<^sup>* (inc_init (xl_init 1) (Some (Some 5)) 1) (lone Done 20 0 Idle 24 1)"
proof -
  have "inc_init (xl_init 1) (Some (Some 5)) 1 = lone New 0 0 Idle 5 0" by (simp add: inc_init_def xl_init_def lone_def)
  moreover have "(inc_step xlock_step MAX_ITER)\<^sup>*\<^sup>* (lone New 0 0 Idle 5 0) (lone New 1 0 Idle 5 1)"
    using lone_round_fails [of 0 MAX_ITER 5 0] by (simp add: MAX_ITER_def)
  moreover have "(inc_step xlock_step MAX_ITER)\<^sup>*\<^sup>* (lone New 1 0 Idle 5 1) (lone New 20 0 Idle 24 1)"
    using lone_rounds [of 1 19 MAX_ITER 5 1] by (simp add: MAX_ITER_def)
  moreover have "inc_step xlock_step MAX_ITER (lone New 20 0 Idle 24 1) (lone Done 20 0 Idle 24 1)"
    using inc_step.stop [of 0 "lone New 20 0 Idle 24 1" 20 MAX_ITER xlock_step] by (simp add: lone_def MAX_ITER_def)
  ultimately show ?thesis by (metis (no_types) rtranclp.rtrancl_into_rtrancl rtranclp_trans)
qed

text \<open>Two forks of which the second fails; the first open of the child fails too.\<close>

theorem test_xlock_counts_witness:
  "\<exists>s. (inc_step xlock_step MAX_ITER)\<^sup>*\<^sup>* (inc_init (xl_init 1) (Some (Some 5)) 1) s \<and> ip_pc (is_procs s ! 0) = Done \<and>
    forked_children 2 (\<lambda>i. i = 0) = 1 \<and> is_lost s = 1 \<and> is_file s = Some (Some 24)"
proof -
  have n: "1 = forked_children 2 (\<lambda>i. i = 0)" by (simp add: forked_children_def upt_rec)
  have "is_file (lone Done 20 0 Idle 24 1) = Some (Some (5 + word_of_nat (20 * 1 - is_lost (lone Done 20 0 Idle 24 1))))"
    using test_xlock_counts [OF n lone_run, of 5 0] by (simp add: lone_def)
  then show ?thesis using lone_run n by (intro exI [of _ "lone Done 20 0 Idle 24 1"]) (simp add: lone_def)
qed

end
