(* ===== verification/Semaphore.thy ===== *)
theory Semaphore
  imports Xlock
begin

text \<open>
  The counting semaphores of \<^verbatim>\<open>src/xsem.c\<close> (shared memory, the futex lock and a futex on the
  count) and \<^verbatim>\<open>src/psem.c\<close> (a mutex and a condition variable), as step relations over the
  processes that use one. Both are written over any lock; reading the count, testing it and
  storing it back are separate steps, so their correctness rests on the lock's laws.
\<close>

section \<open>Positions\<close>

text \<open>
  \<open>D\<close> positions are in down, \<open>U\<close> positions in up. \<open>DStore\<close> and \<open>UStore\<close> carry the value read.
\<close>

datatype spc = SIdle | DLock | DCheck | DDec | DStore int | DLeave | DRet | Got
  | DGive | DGiveRet | DFutex | DSleep | DAgain
  | ULock | UInc | UStore int | ULeave | URet | UWake

record 'l sem =
  sm_lock :: 'l
  sm_count :: int
  sm_pcs :: "spc list"

definition sem_init :: "'l \<Rightarrow> int \<Rightarrow> nat \<Rightarrow> 'l sem" where
  "sem_init l c0 n = \<lparr>sm_lock = l, sm_count = c0, sm_pcs = replicate n SIdle\<rparr>"

section \<open>Steps on the count\<close>

text \<open>The statements of \<^verbatim>\<open>xsem_down\<close> and \<^verbatim>\<open>xsem_up\<close> that touch the count but not the lock.\<close>

fun xsem_local :: "spc \<Rightarrow> int \<Rightarrow> (spc \<times> int) option" where
  "xsem_local DCheck c = Some (if c > 0 then DDec else DGive, c)"
| "xsem_local DDec c = Some (DStore c, c)"
| "xsem_local (DStore t) c = Some (DLeave, t - 1)"
| "xsem_local DFutex c = Some (if c = 0 then DSleep else DAgain, c)"
| "xsem_local DSleep c = Some (DAgain, c)"
| "xsem_local UInc c = Some (UStore c, c)"
| "xsem_local (UStore t) c = Some (ULeave, t + 1)"
| "xsem_local _ c = None"

text \<open>The calls of the lock: from, the lock's event, to, and what the caller of the semaphore sees.\<close>

fun xsem_call :: "spc \<Rightarrow> (lock_event \<times> spc \<times> lock_event) option" where
  "xsem_call SIdle = Some (LockCall, DLock, LockCall)"
| "xsem_call DLock = Some (Enter, DCheck, Tau)"
| "xsem_call DLeave = Some (Exit, DRet, Tau)"
| "xsem_call DRet = Some (Ret, Got, Enter)"
| "xsem_call DGive = Some (Exit, DGiveRet, Tau)"
| "xsem_call DGiveRet = Some (Ret, DFutex, Tau)"
| "xsem_call DAgain = Some (LockCall, DLock, Tau)"
| "xsem_call Got = Some (LockCall, ULock, Exit)"
| "xsem_call ULock = Some (Enter, UInc, Tau)"
| "xsem_call ULeave = Some (Exit, URet, Tau)"
| "xsem_call URet = Some (Ret, UWake, Tau)"
| "xsem_call _ = None"

definition in_lock_code :: "spc \<Rightarrow> bool" where
  "in_lock_code pc \<longleftrightarrow> pc \<in> {DLock, DRet, DGiveRet, ULock, URet}"

inductive xsem_step :: "(nat \<Rightarrow> lock_event \<Rightarrow> 'l \<Rightarrow> 'l \<Rightarrow> bool) \<Rightarrow> nat \<Rightarrow> lock_event \<Rightarrow> 'l sem \<Rightarrow> 'l sem \<Rightarrow> bool"
  for lstep :: "nat \<Rightarrow> lock_event \<Rightarrow> 'l \<Rightarrow> 'l \<Rightarrow> bool" where
  local: "p < length (sm_pcs s) \<Longrightarrow> xsem_local (sm_pcs s ! p) (sm_count s) = Some (pc, c) \<Longrightarrow>
    xsem_step lstep p Tau s (s\<lparr>sm_count := c, sm_pcs := (sm_pcs s)[p := pc]\<rparr>)"
| call: "p < length (sm_pcs s) \<Longrightarrow> xsem_call (sm_pcs s ! p) = Some (le, pc, e) \<Longrightarrow> lstep p le (sm_lock s) l \<Longrightarrow>
    xsem_step lstep p e s (s\<lparr>sm_lock := l, sm_pcs := (sm_pcs s)[p := pc]\<rparr>)"
| lock: "p < length (sm_pcs s) \<Longrightarrow> in_lock_code (sm_pcs s ! p) \<Longrightarrow> lstep p Tau (sm_lock s) l \<Longrightarrow>
    xsem_step lstep p Tau s (s\<lparr>sm_lock := l\<rparr>)"
| futex_wake: "p < length (sm_pcs s) \<Longrightarrow> sm_pcs s ! p = UWake \<Longrightarrow> S \<subseteq> sleepers DSleep (sm_pcs s) \<Longrightarrow>
    (sleepers DSleep (sm_pcs s) \<noteq> {} \<Longrightarrow> S \<noteq> {}) \<Longrightarrow>
    xsem_step lstep p Ret s (s\<lparr>sm_pcs := (wake S DAgain (sm_pcs s))[p := SIdle]\<rparr>)"

text \<open>
  \<^verbatim>\<open>psem_down\<close> differs when the count is not positive: \<^verbatim>\<open>pthread_cond_wait\<close> gives up the mutex and
  sleeps in one step; \<^verbatim>\<open>psem_up\<close> wakes all sleepers.
\<close>

fun psem_call :: "spc \<Rightarrow> (lock_event \<times> spc \<times> lock_event) option" where
  "psem_call DGive = None"
| "psem_call pc = xsem_call pc"

inductive psem_step :: "(nat \<Rightarrow> lock_event \<Rightarrow> 'l \<Rightarrow> 'l \<Rightarrow> bool) \<Rightarrow> nat \<Rightarrow> lock_event \<Rightarrow> 'l sem \<Rightarrow> 'l sem \<Rightarrow> bool"
  for lstep :: "nat \<Rightarrow> lock_event \<Rightarrow> 'l \<Rightarrow> 'l \<Rightarrow> bool" where
  local: "p < length (sm_pcs s) \<Longrightarrow> xsem_local (sm_pcs s ! p) (sm_count s) = Some (pc, c) \<Longrightarrow>
    psem_step lstep p Tau s (s\<lparr>sm_count := c, sm_pcs := (sm_pcs s)[p := pc]\<rparr>)"
| call: "p < length (sm_pcs s) \<Longrightarrow> psem_call (sm_pcs s ! p) = Some (le, pc, e) \<Longrightarrow> lstep p le (sm_lock s) l \<Longrightarrow>
    psem_step lstep p e s (s\<lparr>sm_lock := l, sm_pcs := (sm_pcs s)[p := pc]\<rparr>)"
| lock: "p < length (sm_pcs s) \<Longrightarrow> in_lock_code (sm_pcs s ! p) \<Longrightarrow> lstep p Tau (sm_lock s) l \<Longrightarrow>
    psem_step lstep p Tau s (s\<lparr>sm_lock := l\<rparr>)"
| cond_wait: "p < length (sm_pcs s) \<Longrightarrow> sm_pcs s ! p = DGive \<Longrightarrow> lstep p Exit (sm_lock s) l1 \<Longrightarrow> lstep p Ret l1 l \<Longrightarrow>
    psem_step lstep p Tau s (s\<lparr>sm_lock := l, sm_pcs := (sm_pcs s)[p := DSleep]\<rparr>)"
| broadcast: "p < length (sm_pcs s) \<Longrightarrow> sm_pcs s ! p = UWake \<Longrightarrow>
    psem_step lstep p Ret s (s\<lparr>sm_pcs := (wake (sleepers DSleep (sm_pcs s)) DAgain (sm_pcs s))[p := SIdle]\<rparr>)"

section \<open>The invariant\<close>

text \<open>Positions under the lock, positions that hold a permit, positions that will look at the count.\<close>

fun locked_pc :: "spc \<Rightarrow> bool" where
  "locked_pc DCheck = True"
| "locked_pc DDec = True"
| "locked_pc (DStore t) = True"
| "locked_pc DLeave = True"
| "locked_pc DGive = True"
| "locked_pc UInc = True"
| "locked_pc (UStore t) = True"
| "locked_pc ULeave = True"
| "locked_pc _ = False"

fun permit :: "spc \<Rightarrow> bool" where
  "permit DLeave = True"
| "permit DRet = True"
| "permit Got = True"
| "permit ULock = True"
| "permit UInc = True"
| "permit (UStore t) = True"
| "permit _ = False"

fun active :: "spc \<Rightarrow> bool" where
  "active DAgain = True"
| "active DLock = True"
| "active DCheck = True"
| "active DDec = True"
| "active (DStore t) = True"
| "active DGive = True"
| "active DGiveRet = True"
| "active DFutex = True"
| "active ULeave = True"
| "active URet = True"
| "active UWake = True"
| "active _ = False"

fun local_ok :: "spc \<Rightarrow> int \<Rightarrow> bool" where
  "local_ok DDec c = (c > 0)"
| "local_ok (DStore t) c = (t = c \<and> c > 0)"
| "local_ok (UStore t) c = (t = c)"
| "local_ok DGive c = (c \<le> 0)"
| "local_ok _ c = True"

definition under_lock :: "spc list \<Rightarrow> nat set" where
  "under_lock pcs = {p. p < length pcs \<and> locked_pc (pcs ! p)}"

definition sem_ok :: "('l \<Rightarrow> bool) \<Rightarrow> ('l \<Rightarrow> nat set) \<Rightarrow> int \<Rightarrow> 'l sem \<Rightarrow> bool" where
  "sem_ok good inside c0 s \<longleftrightarrow>
     good (sm_lock s) \<and> inside (sm_lock s) = under_lock (sm_pcs s) \<and>
     sm_count s + int (cnt permit (sm_pcs s)) = c0 \<and> min 0 c0 \<le> sm_count s \<and>
     (\<forall>p \<in> under_lock (sm_pcs s). local_ok (sm_pcs s ! p) (sm_count s)) \<and>
     (sleepers DSleep (sm_pcs s) \<noteq> {} \<longrightarrow> sm_count s \<le> int (cnt active (sm_pcs s)))"

definition delta :: "bool \<Rightarrow> int" where
  "delta b = (if b then 1 else 0)"

lemma cnt_delta:
  "p < length pcs \<Longrightarrow> int (cnt Q (pcs[p := x])) = int (cnt Q pcs) + delta (Q x) - delta (Q (pcs ! p))"
  using cnt_update [of p pcs Q x] by (auto simp: delta_def split: if_splits)

lemma under_lock_update:
  "p < length pcs \<Longrightarrow> under_lock (pcs[p := x]) = (if locked_pc x then insert p (under_lock pcs) else under_lock pcs - {p})"
  by (auto simp: under_lock_def nth_list_update)

context lock_sys
begin

lemma sem_alone:
  assumes "sem_ok good inside c0 s" "p \<in> under_lock (sm_pcs s)"
  shows "under_lock (sm_pcs s) = {p}"
proof -
  have g: "good (sm_lock s)" "inside (sm_lock s) = under_lock (sm_pcs s)" using assms(1) by (auto simp: sem_ok_def)
  then show ?thesis using exclusive [OF g(1)] assms(2) by blast
qed

text \<open>One process moves from \<open>x\<close> to \<open>y\<close> and the count from \<open>c\<close> to \<open>c'\<close>.\<close>

lemma sem_ok_move:
  assumes ok: "sem_ok good inside c0 s" and p: "p < length (sm_pcs s)" and x: "sm_pcs s ! p = x"
    and l: "good l" "inside l = under_lock ((sm_pcs s)[p := y])"
    and c: "c' + delta (permit y) = sm_count s + delta (permit x)" "sm_count s \<le> c' \<or> 0 \<le> c'"
    and lk: "local_ok y c'" "c' = sm_count s \<or> locked_pc x"
    and n: "y = DSleep \<longrightarrow> c' \<le> 0" "c' \<le> 0 \<or> c' + delta (active x) \<le> sm_count s + delta (active y)"
  shows "sem_ok good inside c0 (s\<lparr>sm_lock := l, sm_count := c', sm_pcs := (sm_pcs s)[p := y]\<rparr>)"
proof -
  let ?pcs = "sm_pcs s"
  have "\<forall>q \<in> under_lock (?pcs[p := y]). local_ok (?pcs[p := y] ! q) c'"
  proof
    fix q assume q: "q \<in> under_lock (?pcs[p := y])"
    show "local_ok (?pcs[p := y] ! q) c'"
    proof (cases "q = p")
      case True
      then show ?thesis using lk(1) p by simp
    next
      case False
      then have qb: "q \<in> under_lock ?pcs" using q p by (auto simp: under_lock_update split: if_splits)
      have "c' = sm_count s"
      proof (rule ccontr)
        assume "c' \<noteq> sm_count s"
        then have "p \<in> under_lock ?pcs" using lk(2) p x by (auto simp: under_lock_def)
        then show False using sem_alone [OF ok] qb False by blast
      qed
      then show ?thesis using ok qb False by (auto simp: sem_ok_def)
    qed
  qed
  moreover have "c' + int (cnt permit (?pcs[p := y])) = c0"
    using ok c(1) x by (simp add: sem_ok_def cnt_delta [OF p])
  moreover have "min 0 c0 \<le> c'" using ok c(2) by (auto simp: sem_ok_def)
  moreover have "sleepers DSleep (?pcs[p := y]) \<noteq> {} \<longrightarrow> c' \<le> int (cnt active (?pcs[p := y]))"
  proof
    assume sl: "sleepers DSleep (?pcs[p := y]) \<noteq> {}"
    show "c' \<le> int (cnt active (?pcs[p := y]))"
    proof (cases "c' \<le> 0")
      case False
      then have "y \<noteq> DSleep" using n(1) by blast
      then have "sleepers DSleep ?pcs \<noteq> {}" using sl p by (auto simp: sleepers_def nth_list_update split: if_splits)
      then have "sm_count s \<le> int (cnt active ?pcs)" using ok by (simp add: sem_ok_def)
      then show ?thesis using n(2) False x by (simp add: cnt_delta [OF p])
    qed simp
  qed
  ultimately show ?thesis using l by (simp add: sem_ok_def)
qed

lemma sem_ok_local:
  assumes ok: "sem_ok good inside c0 s" and p: "p < length (sm_pcs s)"
    and st: "xsem_local (sm_pcs s ! p) (sm_count s) = Some (y, c')"
  shows "sem_ok good inside c0 (s\<lparr>sm_count := c', sm_pcs := (sm_pcs s)[p := y]\<rparr>)"
proof -
  let ?x = "sm_pcs s ! p"
  have g: "good (sm_lock s)" "inside (sm_lock s) = under_lock (sm_pcs s)" using ok by (auto simp: sem_ok_def)
  have lo: "locked_pc ?x \<longrightarrow> local_ok ?x (sm_count s)" using ok p by (auto simp: sem_ok_def under_lock_def)
  have same: "locked_pc y = locked_pc ?x" using st by (cases ?x) (auto split: if_splits)
  have "under_lock ((sm_pcs s)[p := y]) = under_lock (sm_pcs s)"
    using p same by (auto simp: under_lock_update) (auto simp: under_lock_def)
  then have "sem_ok good inside c0 (s\<lparr>sm_lock := sm_lock s, sm_count := c', sm_pcs := (sm_pcs s)[p := y]\<rparr>)"
    using st lo g
    by (intro sem_ok_move [OF ok p refl]) (cases ?x; auto simp: delta_def split: if_splits)+
  then show ?thesis by simp
qed

lemma sem_ok_call:
  assumes ok: "sem_ok good inside c0 s" and p: "p < length (sm_pcs s)"
    and st: "xsem_call (sm_pcs s ! p) = Some (le, y, e)" and l: "lstep p le (sm_lock s) l"
  shows "sem_ok good inside c0 (s\<lparr>sm_lock := l, sm_pcs := (sm_pcs s)[p := y]\<rparr>)"
proof -
  let ?x = "sm_pcs s ! p"
  have g: "good (sm_lock s)" "inside (sm_lock s) = under_lock (sm_pcs s)" using ok by (auto simp: sem_ok_def)
  have x: "locked_pc ?x \<longleftrightarrow> p \<in> under_lock (sm_pcs s)" using p by (simp add: under_lock_def)
  have i: "inside l = under_lock ((sm_pcs s)[p := y])"
    unfolding under_lock_update [OF p] inside_step [OF g(1) l] g(2)
    using st x by (cases ?x) (auto split: if_splits)
  have "sem_ok good inside c0 (s\<lparr>sm_lock := l, sm_count := sm_count s, sm_pcs := (sm_pcs s)[p := y]\<rparr>)"
    using st good_step [OF g(1) l] i
    by (intro sem_ok_move [OF ok p refl]) (cases ?x; auto simp: delta_def split: if_splits)+
  then show ?thesis by simp
qed

lemma sem_ok_lock:
  assumes ok: "sem_ok good inside c0 s" and l: "lstep p Tau (sm_lock s) l"
  shows "sem_ok good inside c0 (s\<lparr>sm_lock := l\<rparr>)"
proof -
  have g: "good (sm_lock s)" using ok by (simp add: sem_ok_def)
  then show ?thesis using ok good_step [OF g l] inside_step [OF g l] by (simp add: sem_ok_def)
qed

lemma sem_ok_cond_wait:
  assumes ok: "sem_ok good inside c0 s" and p: "p < length (sm_pcs s)" and x: "sm_pcs s ! p = DGive"
    and l: "lstep p Exit (sm_lock s) l1" "lstep p Ret l1 l"
  shows "sem_ok good inside c0 (s\<lparr>sm_lock := l, sm_pcs := (sm_pcs s)[p := DSleep]\<rparr>)"
proof -
  have g: "good (sm_lock s)" "inside (sm_lock s) = under_lock (sm_pcs s)" using ok by (auto simp: sem_ok_def)
  have g1: "good l1" by (rule good_step [OF g(1) l(1)])
  have u: "p \<in> under_lock (sm_pcs s)" using p x by (simp add: under_lock_def )
  then have "sm_count s \<le> 0" using ok x by (auto simp: sem_ok_def)
  moreover have "inside l = under_lock ((sm_pcs s)[p := DSleep])"
    using inside_step [OF g(1) l(1)] inside_step [OF g1 l(2)] g(2) under_lock_update [OF p, of DSleep]
    by simp
  ultimately have "sem_ok good inside c0 (s\<lparr>sm_lock := l, sm_count := sm_count s, sm_pcs := (sm_pcs s)[p := DSleep]\<rparr>)"
    using good_step [OF g1 l(2)] by (intro sem_ok_move [OF ok p x]) (auto simp: delta_def)
  then show ?thesis by simp
qed

text \<open>Waking moves sleepers to where they look at the count again.\<close>

lemma sem_ok_wake:
  assumes ok: "sem_ok good inside c0 s" and p: "p < length (sm_pcs s)" and x: "sm_pcs s ! p = UWake"
    and S: "S \<subseteq> sleepers DSleep (sm_pcs s)" "sleepers DSleep (sm_pcs s) \<noteq> {} \<Longrightarrow> S \<noteq> {}"
  shows "sem_ok good inside c0 (s\<lparr>sm_pcs := (wake S DAgain (sm_pcs s))[p := SIdle]\<rparr>)"
proof -
  let ?pcs = "sm_pcs s" and ?new = "(wake S DAgain (sm_pcs s))[p := SIdle]"
  have nth: "?new ! i = (if i = p then SIdle else if i \<in> S then DAgain else ?pcs ! i)" if "i < length ?pcs" for i
    using that p by (simp add: nth_list_update)
  have pS: "p \<notin> S" using S(1) x by (auto simp: sleepers_def)
  have sl: "?pcs ! i = DSleep" "i < length ?pcs" if "i \<in> S" for i using S(1) that by (auto simp: sleepers_def)
  have eq: "cnt Q ?new = cnt Q ?pcs" if "\<not> Q UWake" "\<not> Q SIdle" "\<not> Q DSleep" "\<not> Q DAgain" for Q
  proof -
    have "Q (?new ! i) = Q (?pcs ! i)" if "i < length ?pcs" for i
      using nth [OF that] x sl \<open>\<not> Q UWake\<close> \<open>\<not> Q SIdle\<close> \<open>\<not> Q DSleep\<close> \<open>\<not> Q DAgain\<close> by auto
    then show ?thesis by (simp add: cnt_def length_filter_conv_card cong: conj_cong)
  qed
  have u: "under_lock ?new = under_lock ?pcs" "\<And>q. q \<in> under_lock ?pcs \<Longrightarrow> ?new ! q = ?pcs ! q"
    using nth x sl p by (auto simp: under_lock_def split: if_splits)
  have "cnt permit ?new = cnt permit ?pcs" by (rule eq) simp_all
  moreover have "sm_count s \<le> int (cnt active ?new)" if new: "sleepers DSleep ?new \<noteq> {}"
  proof -
    obtain i where "i < length ?pcs" "?new ! i = DSleep" using new by (auto simp: sleepers_def)
    then have "sleepers DSleep ?pcs \<noteq> {}" using nth [of i] by (auto simp: sleepers_def split: if_splits)
    then obtain q where q: "q \<in> S" and le: "sm_count s \<le> int (cnt active ?pcs)" using S(2) ok by (auto simp: sem_ok_def)
    let ?A = "\<lambda>pcs. {i. i < length pcs \<and> active (pcs ! i)}"
    have "insert q (?A ?pcs - {p}) \<subseteq> ?A ?new" using nth sl q pS p by auto
    then have "card (insert q (?A ?pcs - {p})) \<le> card (?A ?new)" by (intro card_mono) auto
    moreover have "q \<notin> ?A ?pcs" using sl [OF q] by simp
    then have "card (insert q (?A ?pcs - {p})) = Suc (card (?A ?pcs - {p}))"
      by (subst card_insert_disjoint) auto
    moreover have "card (?A ?pcs) \<le> Suc (card (?A ?pcs - {p}))"
      by (metis card_Diff1_le card_Suc_Diff1 finite_Collect_conjI finite_Collect_less_nat insert_Diff_single le_SucI card.insert_remove card_insert_le)
    ultimately have "cnt active ?pcs \<le> cnt active ?new" by (simp add: cnt_def length_filter_conv_card)
    then show ?thesis using le by simp
  qed
  ultimately show ?thesis using ok u by (simp add: sem_ok_def)
qed

lemma sem_ok_xsem_step:
  assumes "sem_ok good inside c0 s" "xsem_step lstep p e s s'"
  shows "sem_ok good inside c0 s' \<and> length (sm_pcs s') = length (sm_pcs s)"
  using assms(2)
proof (cases rule: xsem_step.cases)
  case (local pc c)
  then show ?thesis using sem_ok_local [OF assms(1)] by simp
next
  case (call le pc l)
  then show ?thesis using sem_ok_call [OF assms(1)] by simp
next
  case (lock l)
  then show ?thesis using sem_ok_lock [OF assms(1)] by simp
next
  case (futex_wake S)
  then show ?thesis using sem_ok_wake [OF assms(1)] by simp
qed

lemma sem_ok_psem_step:
  assumes "sem_ok good inside c0 s" "psem_step lstep p e s s'"
  shows "sem_ok good inside c0 s' \<and> length (sm_pcs s') = length (sm_pcs s)"
  using assms(2)
proof (cases rule: psem_step.cases)
  case (local pc c)
  then show ?thesis using sem_ok_local [OF assms(1)] by simp
next
  case (call le pc l)
  then have "xsem_call (sm_pcs s ! p) = Some (le, pc, e)" by (cases "sm_pcs s ! p") auto
  then show ?thesis using call sem_ok_call [OF assms(1)] by simp
next
  case (lock l)
  then show ?thesis using sem_ok_lock [OF assms(1)] by simp
next
  case (cond_wait l1 l)
  then show ?thesis using sem_ok_cond_wait [OF assms(1)] by simp
next
  case broadcast
  then show ?thesis using sem_ok_wake [OF assms(1)] by simp
qed

lemma sem_ok_init: "sem_ok good inside c0 (sem_init init c0 n)"
proof -
  have "cnt permit (replicate n SIdle) = 0" by (simp add: cnt_0 )
  then show ?thesis using good_init inside_init
    by (auto simp: sem_ok_def sem_init_def under_lock_def sleepers_def)
qed

text \<open>What the invariant gives: the permits, and no lost wake-up.\<close>

lemma sem_ok_permits:
  assumes "sem_ok good inside c0 s" "0 \<le> c0"
  shows "int (cnt (\<lambda>pc. pc = Got) (sm_pcs s)) \<le> c0" "0 \<le> sm_count s" "sm_count s \<le> c0"
proof -
  have c: "sm_count s + int (cnt permit (sm_pcs s)) = c0" "0 \<le> sm_count s" using assms by (auto simp: sem_ok_def)
  have "cnt (\<lambda>pc. pc = Got) (sm_pcs s) \<le> cnt permit (sm_pcs s)"
    unfolding cnt_def length_filter_conv_card by (intro card_mono) auto
  then show "int (cnt (\<lambda>pc. pc = Got) (sm_pcs s)) \<le> c0" "0 \<le> sm_count s" "sm_count s \<le> c0" using c by auto
qed

lemma sem_ok_wakeful:
  assumes "sem_ok good inside c0 s" "0 < sm_count s" "p < length (sm_pcs s)" "sm_pcs s ! p = DSleep"
  shows "\<exists>q < length (sm_pcs s). active (sm_pcs s ! q)"
proof -
  have "sleepers DSleep (sm_pcs s) \<noteq> {}" using assms(3,4) by (auto simp: sleepers_def)
  then have "0 < cnt active (sm_pcs s)" using assms(1,2) by (simp add: sem_ok_def)
  then show ?thesis by (simp add: cnt_pos)
qed

end

section \<open>A semaphore of count one is a lock\<close>

definition sem_inside :: "'l sem \<Rightarrow> nat set" where
  "sem_inside s = {p. p < length (sm_pcs s) \<and> sm_pcs s ! p = Got}"

lemma xsem_inside_step:
  assumes "xsem_step lstep p e s s'"
  shows "sem_inside s' = (case e of Enter \<Rightarrow> insert p (sem_inside s) | Exit \<Rightarrow> sem_inside s - {p} | _ \<Rightarrow> sem_inside s)"
  using assms
proof (cases rule: xsem_step.cases)
  case (local pc c)
  then show ?thesis
    by (cases "sm_pcs s ! p") (auto simp: sem_inside_def nth_list_update split: if_splits)
next
  case (call le pc l)
  then show ?thesis
    by (cases "sm_pcs s ! p") (auto simp: sem_inside_def nth_list_update split: if_splits)
next
  case (lock l)
  then show ?thesis by (auto simp: sem_inside_def)
next
  case (futex_wake S)
  then show ?thesis by (auto simp: sem_inside_def nth_list_update sleepers_def split: if_splits)
qed

lemma psem_inside_step:
  assumes "psem_step lstep p e s s'"
  shows "sem_inside s' = (case e of Enter \<Rightarrow> insert p (sem_inside s) | Exit \<Rightarrow> sem_inside s - {p} | _ \<Rightarrow> sem_inside s)"
  using assms
proof (cases rule: psem_step.cases)
  case (local pc c)
  then show ?thesis
    by (cases "sm_pcs s ! p") (auto simp: sem_inside_def nth_list_update split: if_splits)
next
  case (call le pc l)
  then show ?thesis
    by (cases "sm_pcs s ! p") (auto simp: sem_inside_def nth_list_update split: if_splits)
next
  case (lock l)
  then show ?thesis by (auto simp: sem_inside_def)
next
  case (cond_wait l1 l)
  then show ?thesis by (auto simp: sem_inside_def nth_list_update split: if_splits)
next
  case broadcast
  then show ?thesis by (auto simp: sem_inside_def nth_list_update sleepers_def split: if_splits)
qed

context lock_sys
begin

lemma sem_exclusive:
  assumes "sem_ok good inside 1 s" "p \<in> sem_inside s" "q \<in> sem_inside s"
  shows "p = q"
  using cnt_two [of p "sm_pcs s" q "\<lambda>pc. pc = Got"] sem_ok_permits(1) [OF assms(1)] assms(2,3)
  by (auto simp: sem_inside_def)

lemma xsem_lock_sys: "lock_sys (sem_init init 1 n) (xsem_step lstep) (sem_ok good inside 1) sem_inside"
proof
  show "sem_ok good inside 1 (sem_init init 1 n)" by (rule sem_ok_init)
  show "sem_inside (sem_init init 1 n) = {}" by (auto simp: sem_inside_def sem_init_def)
  show "sem_ok good inside 1 s'" if "sem_ok good inside 1 s" "xsem_step lstep p e s s'" for s p e s'
    using sem_ok_xsem_step [OF that] by simp
  show "sem_inside s' = (case e of Enter \<Rightarrow> insert p (sem_inside s) | Exit \<Rightarrow> sem_inside s - {p} | _ \<Rightarrow> sem_inside s)"
    if "xsem_step lstep p e s s'" for s p e s' using that by (rule xsem_inside_step)
  show "p = q" if "sem_ok good inside 1 s" "p \<in> sem_inside s" "q \<in> sem_inside s" for s p q
    using that by (rule sem_exclusive)
qed

lemma psem_lock_sys: "lock_sys (sem_init init 1 n) (psem_step lstep) (sem_ok good inside 1) sem_inside"
proof
  show "sem_ok good inside 1 (sem_init init 1 n)" by (rule sem_ok_init)
  show "sem_inside (sem_init init 1 n) = {}" by (auto simp: sem_inside_def sem_init_def)
  show "sem_ok good inside 1 s'" if "sem_ok good inside 1 s" "psem_step lstep p e s s'" for s p e s'
    using sem_ok_psem_step [OF that] by simp
  show "sem_inside s' = (case e of Enter \<Rightarrow> insert p (sem_inside s) | Exit \<Rightarrow> sem_inside s - {p} | _ \<Rightarrow> sem_inside s)"
    if "psem_step lstep p e s s'" for s p e s' using that by (rule psem_inside_step)
  show "p = q" if "sem_ok good inside 1 s" "p \<in> sem_inside s" "q \<in> sem_inside s" for s p q
    using that by (rule sem_exclusive)
qed

end

interpretation xsem: lock_sys "sem_init (xl_init n) 1 n" "xsem_step xlock_step" "sem_ok xl_good xl_inside 1" sem_inside
  for n :: nat
  by (rule xlock.xsem_lock_sys)

section \<open>Creation\<close>

text \<open>
  \<^verbatim>\<open>xsem_create_open\<close> on the count files and the lock files. Where everything worked it ends
  without a return statement.
\<close>

datatype xsem_result = Null | Falls_off

definition xsem_create_open ::
  "bool \<Rightarrow> bool \<Rightarrow> bool \<Rightarrow> nat \<Rightarrow> string \<Rightarrow> int \<Rightarrow> bool \<Rightarrow> (string \<rightharpoonup> int) \<times> lock_files \<Rightarrow>
   xsem_result \<times> (string \<rightharpoonup> int) \<times> lock_files" where
  "xsem_create_open malloc_ok creat_ok mmap_ok fd sem_name cnt0 create_flag fs =
     (let (cf, lf) = fs in
      if \<not> malloc_ok then (Null, fs)
      else if create_flag \<and> cf sem_name \<noteq> None \<and> fd > 0 then (Null, fs)
      else if create_flag \<and> \<not> creat_ok then (Null, fs)
      else
        let cf = (if create_flag \<and> cf sem_name = None then cf(sem_name \<mapsto> 0) else cf) in
        if cf sem_name = None then (Null, cf, lf)
        else if \<not> mmap_ok then (Null, cf, lf)
        else
          let name = sem_name @ ''.lock'';
              (lock, lf) = (if create_flag then xlock_create malloc_ok creat_ok mmap_ok fd name lf
                            else xlock_open malloc_ok creat_ok mmap_ok fd name lf)
          in case lock of
               None \<Rightarrow> (Null, cf, lf)
             | Some _ \<Rightarrow> (Falls_off, if create_flag then cf(sem_name \<mapsto> cnt0) else cf, lf))"

definition xsem_create ::
  "bool \<Rightarrow> bool \<Rightarrow> bool \<Rightarrow> nat \<Rightarrow> string \<Rightarrow> int \<Rightarrow> (string \<rightharpoonup> int) \<times> lock_files \<Rightarrow> xsem_result \<times> (string \<rightharpoonup> int) \<times> lock_files" where
  "xsem_create malloc_ok creat_ok mmap_ok fd name cnt0 fs = xsem_create_open malloc_ok creat_ok mmap_ok fd name cnt0 True fs"

definition xsem_open ::
  "bool \<Rightarrow> bool \<Rightarrow> bool \<Rightarrow> nat \<Rightarrow> string \<Rightarrow> int \<Rightarrow> (string \<rightharpoonup> int) \<times> lock_files \<Rightarrow> xsem_result \<times> (string \<rightharpoonup> int) \<times> lock_files" where
  "xsem_open malloc_ok creat_ok mmap_ok fd name cnt0 fs = xsem_create_open malloc_ok creat_ok mmap_ok fd name cnt0 False fs"

definition xsem_destroy :: "string \<Rightarrow> (string \<rightharpoonup> int) \<times> lock_files \<Rightarrow> (string \<rightharpoonup> int) \<times> lock_files" where
  "xsem_destroy name fs = ((fst fs)(name := None), xlock_destroy (name @ ''.lock'') (snd fs))"

section \<open>Properties\<close>

definition xsem_next :: "xl sem \<Rightarrow> xl sem \<Rightarrow> bool" where
  "xsem_next s s' \<longleftrightarrow> (\<exists>p e. xsem_step xlock_step p e s s')"

definition psem_next :: "(nat \<Rightarrow> lock_event \<Rightarrow> 'l \<Rightarrow> 'l \<Rightarrow> bool) \<Rightarrow> 'l sem \<Rightarrow> 'l sem \<Rightarrow> bool" where
  "psem_next lstep s s' \<longleftrightarrow> (\<exists>p e. psem_step lstep p e s s')"

lemma xsem_reach:
  assumes "xsem_next\<^sup>*\<^sup>* (sem_init (xl_init n) c0 n) s"
  shows "sem_ok xl_good xl_inside c0 s \<and> length (sm_pcs s) = n"
  using assms
proof (induction rule: rtranclp_induct)
  case base
  show ?case using xlock.sem_ok_init [of c0 n] by (simp add: sem_init_def)
next
  case (step s s')
  then obtain p e where "xsem_step xlock_step p e s s'" by (auto simp: xsem_next_def)
  then show ?case using step.IH xlock.sem_ok_xsem_step by metis
qed

lemma psem_reach:
  assumes "lock_sys init lstep good inside" "(psem_next lstep)\<^sup>*\<^sup>* (sem_init init c0 n) s"
  shows "sem_ok good inside c0 s \<and> length (sm_pcs s) = n"
  using assms(2)
proof (induction rule: rtranclp_induct)
  case base
  show ?case using lock_sys.sem_ok_init [OF assms(1), of c0 n] by (simp add: sem_init_def)
next
  case (step s s')
  then obtain p e where "psem_step lstep p e s s'" by (auto simp: psem_next_def)
  then show ?case using step.IH lock_sys.sem_ok_psem_step [OF assms(1)] by metis
qed

text \<open>
  Property C4: a shared-memory semaphore created with count \<open>c0\<close> lets at most \<open>c0\<close> processes be
  between down and up, its count stays between 0 and \<open>c0\<close>, so it cannot overflow, and no
  wake-up is lost: while the count is positive and a process sleeps, some process is on
  its way to look at the count or to wake a sleeper.
\<close>

theorem xsem_permits:
  assumes "xsem_next\<^sup>*\<^sup>* (sem_init (xl_init n) c0 n) s" "0 \<le> c0"
  shows "int (length (filter (\<lambda>pc. pc = Got) (sm_pcs s))) \<le> c0 \<and> 0 \<le> sm_count s \<and> sm_count s \<le> c0 \<and>
    (0 < sm_count s \<and> DSleep \<in> set (sm_pcs s) \<longrightarrow> (\<exists>q < n. active (sm_pcs s ! q)))"
proof -
  have ok: "sem_ok xl_good xl_inside c0 s" and n: "length (sm_pcs s) = n" using xsem_reach [OF assms(1)] by auto
  show ?thesis using xlock.sem_ok_permits [OF ok assms(2)] xlock.sem_ok_wakeful [OF ok] n
    by (auto simp: cnt_def in_set_conv_nth)
qed

lemma xsem_sample: "xsem_next\<^sup>*\<^sup>* (sem_init (xl_init 1) 0 1) \<lparr>sm_lock = \<lparr>xl_word = 1, xl_pcs = [Inside]\<rparr>, sm_count = 0, sm_pcs = [DGive]\<rparr>"
proof -
  let ?s0 = "\<lparr>sm_lock = \<lparr>xl_word = 0, xl_pcs = [Idle]\<rparr>, sm_count = 0, sm_pcs = [SIdle]\<rparr>"
  let ?s1 = "\<lparr>sm_lock = \<lparr>xl_word = 0, xl_pcs = [AtCas]\<rparr>, sm_count = 0, sm_pcs = [DLock]\<rparr>"
  let ?s2 = "\<lparr>sm_lock = \<lparr>xl_word = 1, xl_pcs = [Inside]\<rparr>, sm_count = 0, sm_pcs = [DCheck]\<rparr>"
  let ?s3 = "\<lparr>sm_lock = \<lparr>xl_word = 1, xl_pcs = [Inside]\<rparr>, sm_count = 0, sm_pcs = [DGive]\<rparr>"
  have "xlock_step 0 LockCall (sm_lock ?s0) (sm_lock ?s1)" "xlock_step 0 Enter (sm_lock ?s1) (sm_lock ?s2)"
    using xlock_step.lock [of 0 "sm_lock ?s0"] xlock_step.lock [of 0 "sm_lock ?s1"] by (simp_all add: xlock_defs)
  then have "xsem_step xlock_step 0 LockCall ?s0 ?s1" "xsem_step xlock_step 0 Tau ?s1 ?s2"
    using xsem_step.call [of 0 ?s0] xsem_step.call [of 0 ?s1] by simp_all
  moreover have "xsem_step xlock_step 0 Tau ?s2 ?s3" using xsem_step.local [of 0 ?s2] by simp
  ultimately have "xsem_next\<^sup>*\<^sup>* ?s0 ?s3"
    by (meson xsem_next_def converse_rtranclp_into_rtranclp rtranclp.rtrancl_refl)
  then show ?thesis by (simp add: sem_init_def xl_init_def)
qed

theorem xsem_permits_witness:
  "\<exists>s. xsem_next\<^sup>*\<^sup>* (sem_init (xl_init 1) 0 1) s \<and> sm_pcs s = [DGive] \<and> sm_count s \<le> 0"
  using xsem_sample xsem_permits [OF xsem_sample] by fastforce

text \<open>A mutex as its manual describes it, to run the thread semaphore on.\<close>

inductive mutex_step :: "nat \<Rightarrow> lock_event \<Rightarrow> nat option \<Rightarrow> nat option \<Rightarrow> bool" where
  "e \<in> {LockCall, Ret} \<Longrightarrow> mutex_step p e s s"
| "mutex_step p Enter None (Some p)"
| "mutex_step p Exit (Some p) None"

lemma mutex_lock_sys: "lock_sys None mutex_step (\<lambda>_. True) (\<lambda>s. {p. s = Some p})"
  by unfold_locales (auto elim!: mutex_step.cases)

interpretation pmutex: lock_sys None mutex_step "\<lambda>_. True" "\<lambda>s. {p. s = Some p}"
  by (rule mutex_lock_sys)

interpretation psem: lock_sys "sem_init None 1 n" "psem_step mutex_step" "sem_ok (\<lambda>_. True) (\<lambda>s. {p. s = Some p}) 1" sem_inside
  for n :: nat
  by (rule pmutex.psem_lock_sys)

text \<open>
  Property C32: over any mutex that excludes, the thread semaphore lets at most \<open>c0\<close> threads be
  between down and up, keeps its count between 0 and \<open>c0\<close>, and loses no wake-up.
\<close>

theorem psem_permits:
  assumes "lock_sys init lstep good inside" "(psem_next lstep)\<^sup>*\<^sup>* (sem_init init c0 n) s" "0 \<le> c0"
  shows "int (length (filter (\<lambda>pc. pc = Got) (sm_pcs s))) \<le> c0 \<and> 0 \<le> sm_count s \<and> sm_count s \<le> c0 \<and>
    (0 < sm_count s \<and> DSleep \<in> set (sm_pcs s) \<longrightarrow> (\<exists>q < n. active (sm_pcs s ! q)))"
proof -
  have ok: "sem_ok good inside c0 s" and n: "length (sm_pcs s) = n" using psem_reach [OF assms(1,2)] by auto
  show ?thesis using lock_sys.sem_ok_permits [OF assms(1) ok assms(3)] lock_sys.sem_ok_wakeful [OF assms(1) ok] n
    by (auto simp: cnt_def in_set_conv_nth)
qed

theorem psem_permits_witness:
  "\<exists>s. (psem_next mutex_step)\<^sup>*\<^sup>* (sem_init None 0 1) s \<and> sm_pcs s = [DSleep] \<and> sm_count s \<le> 0"
proof -
  let ?s = "\<lambda>l pc. \<lparr>sm_lock = l, sm_count = 0, sm_pcs = [pc]\<rparr> :: nat option sem"
  have "psem_step mutex_step 0 LockCall (?s None SIdle) (?s None DLock)"
    using psem_step.call [of 0 "?s None SIdle"] mutex_step.intros(1) by simp
  moreover have "psem_step mutex_step 0 Tau (?s None DLock) (?s (Some 0) DCheck)"
    using psem_step.call [of 0 "?s None DLock"] mutex_step.intros(2) by simp
  moreover have "psem_step mutex_step 0 Tau (?s (Some 0) DCheck) (?s (Some 0) DGive)"
    using psem_step.local [of 0 "?s (Some 0) DCheck"] by simp
  moreover have "psem_step mutex_step 0 Tau (?s (Some 0) DGive) (?s None DSleep)"
    using psem_step.cond_wait [of 0 "?s (Some 0) DGive" mutex_step None None] mutex_step.intros(1,3) by simp
  ultimately have r: "(psem_next mutex_step)\<^sup>*\<^sup>* (sem_init None 0 1) (?s None DSleep)"
    by (simp add: sem_init_def) (meson psem_next_def converse_rtranclp_into_rtranclp rtranclp.rtrancl_refl)
  then show ?thesis using psem_permits [OF mutex_lock_sys r] by (intro exI [of _ "?s None DSleep"]) simp
qed

text \<open>
  Creating a semaphore under a new name stores its count and makes its lock, but
  then the function ends without returning the semaphore.
\<close>

theorem xsem_create_falls_off:
  assumes "cf name = None" "lf (name @ ''.lock'') = None"
  shows "xsem_create True True True fd name c0 (cf, lf) =
    (Falls_off, cf(name \<mapsto> c0), lf(name @ ''.lock'' \<mapsto> 0))"
  using assms by (simp add: xsem_create_def xsem_create_open_def xlock_create_def xlock_create_open_def)

theorem xsem_create_falls_off_witness:
  "xsem_create True True True 3 ''s'' 4 (Map.empty, Map.empty) = (Falls_off, [''s'' \<mapsto> 4], [''s.lock'' \<mapsto> 0])"
  using xsem_create_falls_off [of Map.empty "''s''" Map.empty 3 4] by simp

end
