(* ===== verification/Test_Sem.thy ===== *)
theory Test_Sem
  imports Semaphore
begin

text \<open>
  The client of \<^verbatim>\<open>src/test_sem.c\<close>: threads that go down on the semaphore once, increment the shared
  \<open>check_count\<close> by a read and a write, and go up. Written over any lock; with a semaphore of
  count one no increment is lost.
\<close>

datatype tspc = TNew | TDown | TRead | TWrite u32 | TWritten | TUp | TExited

record 'l test_sem =
  ts_sem :: 'l
  ts_count :: u32
  ts_pcs :: "tspc list"

definition test_sem_init :: "'l \<Rightarrow> nat \<Rightarrow> 'l test_sem" where
  "test_sem_init l nr_threads = \<lparr>ts_sem = l, ts_count = 0, ts_pcs = replicate nr_threads TNew\<rparr>"

text \<open>\<^verbatim>\<open>sem_test_thread\<close>: the calls of the semaphore and the two halves of \<^verbatim>\<open>check_count[0]++\<close>.\<close>

fun sem_test_call :: "tspc \<Rightarrow> (lock_event \<times> tspc) option" where
  "sem_test_call TNew = Some (LockCall, TDown)"
| "sem_test_call TDown = Some (Enter, TRead)"
| "sem_test_call TWritten = Some (Exit, TUp)"
| "sem_test_call TUp = Some (Ret, TExited)"
| "sem_test_call _ = None"

fun sem_test_local :: "tspc \<Rightarrow> u32 \<Rightarrow> (tspc \<times> u32) option" where
  "sem_test_local TRead c = Some (TWrite c, c)"
| "sem_test_local (TWrite v) c = Some (TWritten, v + 1)"
| "sem_test_local _ c = None"

inductive sem_test_thread :: "(nat \<Rightarrow> lock_event \<Rightarrow> 'l \<Rightarrow> 'l \<Rightarrow> bool) \<Rightarrow> 'l test_sem \<Rightarrow> 'l test_sem \<Rightarrow> bool"
  for lstep :: "nat \<Rightarrow> lock_event \<Rightarrow> 'l \<Rightarrow> 'l \<Rightarrow> bool" where
  call: "p < length (ts_pcs s) \<Longrightarrow> sem_test_call (ts_pcs s ! p) = Some (e, pc) \<Longrightarrow> lstep p e (ts_sem s) l \<Longrightarrow>
    sem_test_thread lstep s (s\<lparr>ts_sem := l, ts_pcs := (ts_pcs s)[p := pc]\<rparr>)"
| sem: "p < length (ts_pcs s) \<Longrightarrow> ts_pcs s ! p \<in> {TDown, TUp} \<Longrightarrow> lstep p Tau (ts_sem s) l \<Longrightarrow>
    sem_test_thread lstep s (s\<lparr>ts_sem := l\<rparr>)"
| local: "p < length (ts_pcs s) \<Longrightarrow> sem_test_local (ts_pcs s ! p) (ts_count s) = Some (pc, c) \<Longrightarrow>
    sem_test_thread lstep s (s\<lparr>ts_count := c, ts_pcs := (ts_pcs s)[p := pc]\<rparr>)"

fun t_inside :: "tspc \<Rightarrow> bool" where
  "t_inside TRead = True"
| "t_inside (TWrite v) = True"
| "t_inside TWritten = True"
| "t_inside _ = False"

fun t_counted :: "tspc \<Rightarrow> bool" where
  "t_counted TWritten = True"
| "t_counted TUp = True"
| "t_counted TExited = True"
| "t_counted _ = False"

definition t_insides :: "tspc list \<Rightarrow> nat set" where
  "t_insides pcs = {p. p < length pcs \<and> t_inside (pcs ! p)}"

definition test_ok :: "('l \<Rightarrow> bool) \<Rightarrow> ('l \<Rightarrow> nat set) \<Rightarrow> 'l test_sem \<Rightarrow> bool" where
  "test_ok good inside s \<longleftrightarrow>
     good (ts_sem s) \<and> inside (ts_sem s) = t_insides (ts_pcs s) \<and>
     ts_count s = word_of_nat (cnt t_counted (ts_pcs s)) \<and>
     (\<forall>p < length (ts_pcs s). \<forall>v. ts_pcs s ! p = TWrite v \<longrightarrow> v = ts_count s)"

lemma t_insides_update:
  "p < length pcs \<Longrightarrow> t_insides (pcs[p := x]) = (if t_inside x then insert p (t_insides pcs) else t_insides pcs - {p})"
  by (auto simp: t_insides_def nth_list_update)

context lock_sys
begin

lemma test_ok_call:
  assumes ok: "test_ok good inside s" and p: "p < length (ts_pcs s)"
    and st: "sem_test_call (ts_pcs s ! p) = Some (e, pc)" and l: "lstep p e (ts_sem s) l"
  shows "test_ok good inside (s\<lparr>ts_sem := l, ts_pcs := (ts_pcs s)[p := pc]\<rparr>)"
proof -
  let ?x = "ts_pcs s ! p"
  have g: "good (ts_sem s)" "inside (ts_sem s) = t_insides (ts_pcs s)" using ok by (auto simp: test_ok_def)
  have x: "t_inside ?x \<longleftrightarrow> p \<in> t_insides (ts_pcs s)" using p by (simp add: t_insides_def)
  have "inside l = t_insides ((ts_pcs s)[p := pc])"
    unfolding t_insides_update [OF p] inside_step [OF g(1) l] g(2) using st x by (cases ?x) auto
  moreover have "cnt t_counted ((ts_pcs s)[p := pc]) = cnt t_counted (ts_pcs s)"
    using cnt_update [OF p, of t_counted pc] st by (cases ?x) auto
  moreover have "pc \<noteq> TWrite v" for v using st by (cases ?x) auto
  ultimately show ?thesis
    using ok good_step [OF g(1) l] p by (auto simp: test_ok_def nth_list_update split: if_splits)
qed

lemma test_ok_local:
  assumes ok: "test_ok good inside s" and p: "p < length (ts_pcs s)"
    and st: "sem_test_local (ts_pcs s ! p) (ts_count s) = Some (pc, c)"
  shows "test_ok good inside (s\<lparr>ts_count := c, ts_pcs := (ts_pcs s)[p := pc]\<rparr>)"
proof -
  let ?x = "ts_pcs s ! p"
  have g: "good (ts_sem s)" "inside (ts_sem s) = t_insides (ts_pcs s)" using ok by (auto simp: test_ok_def)
  have i: "t_inside ?x" "t_inside pc" using st by (cases ?x; auto)+
  then have pi: "p \<in> t_insides (ts_pcs s)" using p by (simp add: t_insides_def)
  have alone: "q = p" if "q < length (ts_pcs s)" "ts_pcs s ! q = TWrite v" for q v
    using exclusive [OF g(1), of q p] g(2) pi that by (simp add: t_insides_def)
  have ins: "t_insides ((ts_pcs s)[p := pc]) = t_insides (ts_pcs s)" using t_insides_update [OF p, of pc] i(2) pi by auto
  have n: "cnt t_counted ((ts_pcs s)[p := pc]) = (if pc = TWritten then Suc (cnt t_counted (ts_pcs s)) else cnt t_counted (ts_pcs s))"
    using cnt_update [OF p, of t_counted pc] st by (cases ?x) auto
  have c: "c = word_of_nat (cnt t_counted ((ts_pcs s)[p := pc]))"
    using ok p st n by (cases ?x) (auto simp: test_ok_def)
  show ?thesis unfolding test_ok_def
  proof (intro conjI allI impI)
    fix q v assume q: "q < length (ts_pcs (s\<lparr>ts_count := c, ts_pcs := (ts_pcs s)[p := pc]\<rparr>))"
      "ts_pcs (s\<lparr>ts_count := c, ts_pcs := (ts_pcs s)[p := pc]\<rparr>) ! q = TWrite v"
    have "q = p"
    proof (rule ccontr)
      assume "q \<noteq> p"
      then show False using q alone [of q v] by simp
    qed
    then show "v = ts_count (s\<lparr>ts_count := c, ts_pcs := (ts_pcs s)[p := pc]\<rparr>)"
      using q p st by (cases ?x) auto
  qed (use g ins c in simp_all)
qed

lemma test_ok_reach:
  assumes "(sem_test_thread lstep)\<^sup>*\<^sup>* (test_sem_init init n) s"
  shows "test_ok good inside s \<and> length (ts_pcs s) = n"
  using assms
proof (induction rule: rtranclp_induct)
  case base
  have "cnt t_counted (replicate n TNew) = 0" by (simp add: cnt_0)
  then show ?case using good_init inside_init by (auto simp: test_ok_def test_sem_init_def t_insides_def)
next
  case (step s s')
  from step.hyps(2) show ?case
  proof (cases rule: sem_test_thread.cases)
    case (call p e pc l)
    then show ?thesis using step.IH test_ok_call by simp
  next
    case (sem p l)
    have "good (ts_sem s)" using step.IH by (simp add: test_ok_def)
    then show ?thesis using sem step.IH good_step [OF _ sem(4)] inside_step [OF _ sem(4)] by (auto simp: test_ok_def)
  next
    case (local p pc c)
    then show ?thesis using step.IH test_ok_local by simp
  qed
qed

lemma test_final:
  assumes "(sem_test_thread lstep)\<^sup>*\<^sup>* (test_sem_init init n) s" "\<forall>p < n. ts_pcs s ! p = TExited"
  shows "ts_count s = word_of_nat n"
proof -
  have ok: "test_ok good inside s" and n: "length (ts_pcs s) = n" using test_ok_reach [OF assms(1)] by auto
  have "ts_pcs s = replicate n TExited" using assms(2) n by (simp add: list_eq_iff_nth_eq)
  then have "cnt t_counted (ts_pcs s) = n" by (simp add: cnt_def)
  then show ?thesis using ok by (simp add: test_ok_def)
qed

end

section \<open>Over the semaphores of the library\<close>

text \<open>
  Run with semaphore count one on the shared-memory semaphore, the test ends with
  \<open>check_count\<close> equal to the number of processes: no increment is lost.
\<close>

theorem test_sem_counts:
  assumes "(sem_test_thread (xsem_step xlock_step))\<^sup>*\<^sup>* (test_sem_init (sem_init (xl_init n) 1 n) n) s"
    and "\<forall>p < n. ts_pcs s ! p = TExited"
  shows "ts_count s = word_of_nat n"
  using assms by (rule xsem.test_final)

text \<open>A lone process, stepping through the lock, the semaphore and the test.\<close>

definition lone3 :: "u32 \<Rightarrow> xpc \<Rightarrow> int \<Rightarrow> spc \<Rightarrow> u32 \<Rightarrow> tspc \<Rightarrow> xl sem test_sem" where
  "lone3 w x c y v z = \<lparr>ts_sem = \<lparr>sm_lock = \<lparr>xl_word = w, xl_pcs = [x]\<rparr>, sm_count = c, sm_pcs = [y]\<rparr>, ts_count = v, ts_pcs = [z]\<rparr>"

lemma lone3_lock:
  "xlock_lock x w = Some (e, x', w') \<or> xlock_unlock x w = Some (e, x', w') \<Longrightarrow>
    xlock_step 0 e \<lparr>xl_word = w, xl_pcs = [x]\<rparr> \<lparr>xl_word = w', xl_pcs = [x']\<rparr>"
  using xlock_step.lock [of 0 "\<lparr>xl_word = w, xl_pcs = [x]\<rparr>" e x' w'] xlock_step.unlock [of 0 "\<lparr>xl_word = w, xl_pcs = [x]\<rparr>" e x' w']
  by auto

lemma lone3_wake: "xlock_step 0 Ret \<lparr>xl_word = w, xl_pcs = [AtWake]\<rparr> \<lparr>xl_word = w, xl_pcs = [Idle]\<rparr>"
  using xlock_step.futex_wake [of 0 "\<lparr>xl_word = w, xl_pcs = [AtWake]\<rparr>" "{}"] by (simp add: sleepers_def wake_def)

lemma lone3_sem:
  "xsem_call y = Some (le, y', e) \<Longrightarrow> xlock_step 0 le \<lparr>xl_word = w, xl_pcs = [x]\<rparr> \<lparr>xl_word = w', xl_pcs = [x']\<rparr> \<Longrightarrow>
    xsem_step xlock_step 0 e (ts_sem (lone3 w x c y v z)) (ts_sem (lone3 w' x' c y' v z))"
  "xsem_local y c = Some (y', c') \<Longrightarrow> xsem_step xlock_step 0 Tau (ts_sem (lone3 w x c y v z)) (ts_sem (lone3 w x c' y' v z))"
  "in_lock_code y \<Longrightarrow> xlock_step 0 Tau \<lparr>xl_word = w, xl_pcs = [x]\<rparr> \<lparr>xl_word = w', xl_pcs = [x']\<rparr> \<Longrightarrow>
    xsem_step xlock_step 0 Tau (ts_sem (lone3 w x c y v z)) (ts_sem (lone3 w' x' c y v z))"
  "y = UWake \<Longrightarrow> xsem_step xlock_step 0 Ret (ts_sem (lone3 w x c y v z)) (ts_sem (lone3 w x c SIdle v z))"
  using xsem_step.call [of 0 "ts_sem (lone3 w x c y v z)" le y' e xlock_step]
    xsem_step.local [of 0 "ts_sem (lone3 w x c y v z)" y' c' xlock_step]
    xsem_step.lock [of 0 "ts_sem (lone3 w x c y v z)" xlock_step]
    xsem_step.futex_wake [of 0 "ts_sem (lone3 w x c y v z)" "{}" xlock_step]
  by (simp_all add: lone3_def sleepers_def wake_def)

lemma lone3_test:
  "sem_test_call z = Some (e, z') \<Longrightarrow>
    xsem_step xlock_step 0 e (ts_sem (lone3 w x c y v z)) (ts_sem (lone3 w' x' c' y' v z)) \<Longrightarrow>
    sem_test_thread (xsem_step xlock_step) (lone3 w x c y v z) (lone3 w' x' c' y' v z')"
  "z \<in> {TDown, TUp} \<Longrightarrow> xsem_step xlock_step 0 Tau (ts_sem (lone3 w x c y v z)) (ts_sem (lone3 w' x' c' y' v z)) \<Longrightarrow>
    sem_test_thread (xsem_step xlock_step) (lone3 w x c y v z) (lone3 w' x' c' y' v z)"
  "sem_test_local z v = Some (z', v') \<Longrightarrow> sem_test_thread (xsem_step xlock_step) (lone3 w x c y v z) (lone3 w x c y v' z')"
  using sem_test_thread.call [of 0 "lone3 w x c y v z" e z' "xsem_step xlock_step"]
    sem_test_thread.sem [of 0 "lone3 w x c y v z" "xsem_step xlock_step"]
    sem_test_thread.local [of 0 "lone3 w x c y v z" z' v' "xsem_step xlock_step"]
  by (simp_all add: lone3_def)

lemma lone3_run:
  "(sem_test_thread (xsem_step xlock_step))\<^sup>*\<^sup>* (test_sem_init (sem_init (xl_init 1) 1 1) 1) (lone3 0 Idle 1 SIdle 1 TExited)"
proof -
  let ?t = "sem_test_thread (xsem_step xlock_step)"
  have i: "test_sem_init (sem_init (xl_init 1) 1 1) 1 = lone3 0 Idle 1 SIdle 0 TNew"
    by (simp add: test_sem_init_def sem_init_def xl_init_def lone3_def)
  have "?t (lone3 0 Idle 1 SIdle 0 TNew) (lone3 0 AtCas 1 DLock 0 TDown)"
    by (rule lone3_test(1) lone3_sem(1) lone3_lock | simp)+
  moreover have "?t (lone3 0 AtCas 1 DLock 0 TDown) (lone3 1 Inside 1 DCheck 0 TDown)"
    by (rule lone3_test(2), simp, rule lone3_sem(1), simp, rule lone3_lock, simp add: xlock_defs)
  moreover have "?t (lone3 1 Inside 1 DCheck 0 TDown) (lone3 1 Inside 1 DDec 0 TDown)"
    by (rule lone3_test(2), simp, rule lone3_sem(2), simp)
  moreover have "?t (lone3 1 Inside 1 DDec 0 TDown) (lone3 1 Inside 1 (DStore 1) 0 TDown)"
    by (rule lone3_test(2), simp, rule lone3_sem(2), simp)
  moreover have "?t (lone3 1 Inside 1 (DStore 1) 0 TDown) (lone3 1 Inside 0 DLeave 0 TDown)"
    by (rule lone3_test(2), simp, rule lone3_sem(2), simp)
  moreover have "?t (lone3 1 Inside 0 DLeave 0 TDown) (lone3 1 AtUnlock 0 DRet 0 TDown)"
    by (rule lone3_test(2), simp, rule lone3_sem(1), simp, rule lone3_lock, simp)
  moreover have "?t (lone3 1 AtUnlock 0 DRet 0 TDown) (lone3 0 AtWake 0 DRet 0 TDown)"
    by (rule lone3_test(2), simp, rule lone3_sem(3), simp add: in_lock_code_def, rule lone3_lock, simp add: xlock_defs)
  moreover have "?t (lone3 0 AtWake 0 DRet 0 TDown) (lone3 0 Idle 0 Got 0 TRead)"
    by (rule lone3_test(1), simp, rule lone3_sem(1), simp, rule lone3_wake)
  moreover have "?t (lone3 0 Idle 0 Got 0 TRead) (lone3 0 Idle 0 Got 0 (TWrite 0))" by (rule lone3_test(3)) simp
  moreover have "?t (lone3 0 Idle 0 Got 0 (TWrite 0)) (lone3 0 Idle 0 Got 1 TWritten)" by (rule lone3_test(3)) simp
  moreover have "?t (lone3 0 Idle 0 Got 1 TWritten) (lone3 0 AtCas 0 ULock 1 TUp)"
    by (rule lone3_test(1), simp, rule lone3_sem(1), simp, rule lone3_lock, simp)
  moreover have "?t (lone3 0 AtCas 0 ULock 1 TUp) (lone3 1 Inside 0 UInc 1 TUp)"
    by (rule lone3_test(2), simp, rule lone3_sem(1), simp, rule lone3_lock, simp add: xlock_defs)
  moreover have "?t (lone3 1 Inside 0 UInc 1 TUp) (lone3 1 Inside 0 (UStore 0) 1 TUp)"
    by (rule lone3_test(2), simp, rule lone3_sem(2), simp)
  moreover have "?t (lone3 1 Inside 0 (UStore 0) 1 TUp) (lone3 1 Inside 1 ULeave 1 TUp)"
    by (rule lone3_test(2), simp, rule lone3_sem(2), simp)
  moreover have "?t (lone3 1 Inside 1 ULeave 1 TUp) (lone3 1 AtUnlock 1 URet 1 TUp)"
    by (rule lone3_test(2), simp, rule lone3_sem(1), simp, rule lone3_lock, simp)
  moreover have "?t (lone3 1 AtUnlock 1 URet 1 TUp) (lone3 0 AtWake 1 URet 1 TUp)"
    by (rule lone3_test(2), simp, rule lone3_sem(3), simp add: in_lock_code_def, rule lone3_lock, simp add: xlock_defs)
  moreover have "?t (lone3 0 AtWake 1 URet 1 TUp) (lone3 0 Idle 1 UWake 1 TUp)"
    by (rule lone3_test(2), simp, rule lone3_sem(1), simp, rule lone3_wake)
  moreover have "?t (lone3 0 Idle 1 UWake 1 TUp) (lone3 0 Idle 1 SIdle 1 TExited)"
    by (rule lone3_test(1), simp, rule lone3_sem(4), simp)
  ultimately show ?thesis unfolding i by (meson converse_rtranclp_into_rtranclp rtranclp.rtrancl_refl)
qed

theorem test_sem_counts_witness:
  "\<exists>s. (sem_test_thread (xsem_step xlock_step))\<^sup>*\<^sup>* (test_sem_init (sem_init (xl_init 1) 1 1) 1) s \<and>
    ts_pcs s = [TExited] \<and> ts_count s = 1"
proof -
  have "ts_count (lone3 0 Idle 1 SIdle 1 TExited) = word_of_nat 1"
    by (rule test_sem_counts [OF lone3_run]) (simp add: lone3_def)
  then show ?thesis using lone3_run by (intro exI [of _ "lone3 0 Idle 1 SIdle 1 TExited"]) (simp add: lone3_def)
qed

end
