(* ===== verification/Bignum.thy ===== *)
theory Bignum
  imports C_Library
begin

text \<open>
  The decimal arithmetic of \<^verbatim>\<open>src/test_large_mult.c\<close>: numbers as arrays of signed 8-bit digits,
  the least significant first. Every store goes through the conversion to \<^verbatim>\<open>char\<close>; the
  theorems show that no digit ever needs it.
\<close>

section \<open>Numbers\<close>

record bignum =
  bn_num :: "int list"

abbreviation bn_len :: "bignum \<Rightarrow> nat" where
  "bn_len b \<equiv> length (bn_num b)"

definition bignum_alloc :: "nat \<Rightarrow> bignum" where
  "bignum_alloc len = \<lparr>bn_num = replicate len 0\<rparr>"

text \<open>
  \<^verbatim>\<open>bignum_print\<close> starts at the place behind the last digit; the result is the digits read, or
  \<open>None\<close> for that place.
\<close>

definition bignum_print :: "bignum \<Rightarrow> int option list" where
  "bignum_print b = map (\<lambda>i. if i < bn_len b then Some (bn_num b ! i) else None) (rev [0..<Suc (bn_len b)])"

section \<open>Multiplication\<close>

text \<open>The inner loop from digit \<open>j\<close> on, and the store of the last carry behind it.\<close>

function mult_row :: "int list \<Rightarrow> int \<Rightarrow> nat \<Rightarrow> nat \<Rightarrow> int \<Rightarrow> int list \<Rightarrow> int list" where
  "mult_row n1 d k j carry res =
     (if j < length n1 then
        let l_res = d * n1 ! j + carry;
            v = schar (res ! (k + j) + l_res);
            carry = c_div v 10
        in mult_row n1 d k (Suc j) carry (res[k + j := schar (c_mod v 10)])
      else res[k + j := schar (res ! (k + j) + carry)])"
  by pat_completeness auto
termination by (relation "measure (\<lambda>(n1, d, k, j, carry, res). length n1 - j)") auto

declare mult_row.simps [simp del]

function mult_rows :: "int list \<Rightarrow> int list \<Rightarrow> nat \<Rightarrow> int list \<Rightarrow> int list" where
  "mult_rows n1 n2 i res =
     (if i < length n2 then mult_rows n1 n2 (Suc i) (mult_row n1 (n2 ! i) i 0 0 res) else res)"
  by pat_completeness auto
termination by (relation "measure (\<lambda>(n1, n2, i, res). length n2 - i)") auto

declare mult_rows.simps [simp del]

definition bignum_mult :: "bignum \<Rightarrow> bignum \<Rightarrow> bignum" where
  "bignum_mult n1 n2 =
     \<lparr>bn_num = mult_rows (bn_num n1) (bn_num n2) 0 (bn_num (bignum_alloc (bn_len n1 + bn_len n2 + 1)))\<rparr>"

section \<open>Setting and the factorial\<close>

text \<open>The digit loop of \<^verbatim>\<open>bignum_set\<close>.\<close>

function set_digits :: "nat \<Rightarrow> int \<Rightarrow> int list \<Rightarrow> nat \<times> int \<times> int list" where
  "set_digits i num ds =
     (if num \<noteq> 0 \<and> i < length ds then set_digits (Suc i) (c_div num 10) (ds[i := schar (c_mod num 10)]) else (i, num, ds))"
  by pat_completeness auto
termination by (relation "measure (\<lambda>(i, num, ds). length ds - i)") auto

declare set_digits.simps [simp del]

definition bignum_set :: "bignum \<Rightarrow> int \<Rightarrow> int \<times> bignum" where
  "bignum_set b num =
     (let (i, num, ds) = set_digits 0 num (bn_num b) in
      if num \<noteq> 0 then (-1, b\<lparr>bn_num := ds\<rparr>)
      else (0, b\<lparr>bn_num := take i ds @ replicate (length ds - i) 0\<rparr>))"

text \<open>The loop of \<^verbatim>\<open>main\<close> that multiplies up to \<open>upto_n\<close>, and the sum of the digits.\<close>

function factorial_loop :: "int \<Rightarrow> int \<Rightarrow> bignum \<Rightarrow> bignum \<Rightarrow> bignum" where
  "factorial_loop i upto_n num1 num2 =
     (if i \<le> upto_n then
        let (rc, num1) = bignum_set num1 i;
            num3 = bignum_mult num1 num2
        in factorial_loop (i + 1) upto_n num1 num3
      else num2)"
  by pat_completeness auto
termination by (relation "measure (\<lambda>(i, upto_n, _, _). nat (upto_n + 1 - i))") auto

declare factorial_loop.simps [simp del]

definition sum_digits :: "bignum \<Rightarrow> int" where
  "sum_digits b = sum_list (bn_num b)"

definition main_factorial :: "int \<Rightarrow> bignum" where
  "main_factorial upto_n =
     (let num1 = bignum_alloc 4; num2 = bignum_alloc 4;
          (rc, num1) = bignum_set num1 9999; (rc, num2) = bignum_set num2 8999;
          num3 = bignum_mult num1 num2;
          (rc, num2) = bignum_set num2 1
      in factorial_loop 2 upto_n num1 num2)"

section \<open>Values\<close>

fun value_of :: "int list \<Rightarrow> int" where
  "value_of [] = 0"
| "value_of (d # ds) = d + 10 * value_of ds"

definition digits_ok :: "int list \<Rightarrow> bool" where
  "digits_ok ds \<longleftrightarrow> (\<forall>d\<in>set ds. 0 \<le> d \<and> d < 10)"

lemma value_of_update:
  "i < length ds \<Longrightarrow> value_of (ds[i := d]) = value_of ds + 10 ^ i * (d - ds ! i)"
proof (induction ds arbitrary: i)
  case (Cons x xs)
  show ?case
  proof (cases i)
    case (Suc n)
    then have "value_of (xs[n := d]) = value_of xs + 10 ^ n * (d - xs ! n)" using Cons by simp
    then show ?thesis using Suc by simp
  qed simp
qed simp

lemma value_of_replicate [simp]: "value_of (replicate n 0) = 0"
  by (induction n) auto

lemma value_of_append: "value_of (xs @ ys) = value_of xs + 10 ^ length xs * value_of ys"
  by (induction xs) (auto simp: algebra_simps)

lemma value_of_nonneg: "digits_ok ds \<Longrightarrow> 0 \<le> value_of ds"
  by (induction ds) (auto simp: digits_ok_def)

lemma value_of_less: "digits_ok ds \<Longrightarrow> value_of ds < 10 ^ length ds"
  by (induction ds) (force simp: digits_ok_def)+

lemma digits_ok_nth: "digits_ok ds \<Longrightarrow> i < length ds \<Longrightarrow> 0 \<le> ds ! i \<and> ds ! i < 10"
  by (simp add: digits_ok_def)

lemma digits_ok_update: "digits_ok ds \<Longrightarrow> 0 \<le> d \<Longrightarrow> d < 10 \<Longrightarrow> digits_ok (ds[i := d])"
  unfolding digits_ok_def by (metis insertE set_update_subset_insert subsetD)

lemma length_mult_row [simp]: "length (mult_row n1 d k j carry res) = length res"
  by (induction n1 d k j carry res rule: mult_row.induct) (subst mult_row.simps, simp add: Let_def)

text \<open>One row adds \<open>d\<close> times the rest of the first number, shifted, and stays within digits.\<close>

lemma mult_row_correct:
  assumes "digits_ok n1" "0 \<le> d" "d < 10" "0 \<le> carry" "carry < 10" "digits_ok res" "j \<le> length n1"
    "k + length n1 < length res" "\<forall>i. k + length n1 \<le> i \<and> i < length res \<longrightarrow> res ! i = 0"
  shows "value_of (mult_row n1 d k j carry res) = value_of res + 10 ^ (k + j) * (d * value_of (drop j n1) + carry) \<and>
    digits_ok (mult_row n1 d k j carry res) \<and>
    (\<forall>i. k + length n1 < i \<and> i < length res \<longrightarrow> mult_row n1 d k j carry res ! i = 0)"
  using assms
proof (induction n1 d k j carry res rule: mult_row.induct)
  case (1 n1 d k j carry res)
  note P = "1.prems"
  have kj: "k + j < length res" using P(7,8) by simp
  note r = digits_ok_nth [OF P(6) kj]
  show ?case
  proof (cases "j < length n1")
    case False
    then have "j = length n1" using P(7) by simp
    moreover have z: "res ! (k + j) = 0" using P(8,9) calculation by simp
    ultimately show ?thesis
      using P(4-6,9) kj by (subst (1 2 3) mult_row.simps)
        (auto simp: schar_id value_of_update digits_ok_update nth_list_update)
  next
    case True
    note n = digits_ok_nth [OF P(1) True]
    have dn: "0 \<le> d * n1 ! j" "d * n1 ! j \<le> 81"
      using n P(2,3) mult_mono [of d 9 "n1 ! j" 9] by auto
    define v where "v = res ! (k + j) + (d * n1 ! j + carry)"
    have v: "0 \<le> v" "v < 100" "schar v = v" using dn r P(4,5) by (auto simp: v_def schar_id)
    define res' where "res' = res[k + j := v mod 10]"
    have cm: "c_div v 10 = v div 10" "schar (c_mod v 10) = v mod 10"
      using v(1) by (simp_all add: c_div_pos c_mod_pos schar_id)
    have "mult_row n1 d k j carry res = mult_row n1 d k (Suc j) (c_div v 10) (res[k + j := schar (c_mod v 10)])"
      using True v(3) by (subst mult_row.simps) (simp add: Let_def v_def)
    then have step: "mult_row n1 d k j carry res = mult_row n1 d k (Suc j) (v div 10) res'"
      by (simp add: cm res'_def)
    have c: "0 \<le> v div 10" "v div 10 < 10" using v by auto
    have ok: "digits_ok res'" unfolding res'_def by (rule digits_ok_update [OF P(6)]) auto
    have z: "\<forall>i. k + length n1 \<le> i \<and> i < length res' \<longrightarrow> res' ! i = 0"
      using P(9) True by (simp add: res'_def nth_list_update)
    have ih: "value_of (mult_row n1 d k (Suc j) (v div 10) res') =
        value_of res' + 10 ^ (k + Suc j) * (d * value_of (drop (Suc j) n1) + v div 10) \<and>
        digits_ok (mult_row n1 d k (Suc j) (v div 10) res') \<and>
        (\<forall>i. k + length n1 < i \<and> i < length res' \<longrightarrow> mult_row n1 d k (Suc j) (v div 10) res' ! i = 0)"
    proof -
      have sv: "schar (res ! (k + j) + (d * n1 ! j + carry)) = v" using v(3) by (simp add: v_def)
      show ?thesis
        using "1.IH" [OF True refl refl refl, unfolded sv cm, folded res'_def, OF P(1-3) c ok _ _ z] True P(8)
        by (simp add: res'_def)
    qed
    have "value_of (drop j n1) = n1 ! j + 10 * value_of (drop (Suc j) n1)"
      using Cons_nth_drop_Suc [OF True, symmetric] by simp
    moreover have "value_of res' = value_of res + 10 ^ (k + j) * (v mod 10 - res ! (k + j))"
      unfolding res'_def by (rule value_of_update [OF kj])
    moreover have "10 ^ (k + j) * (v mod 10 - res ! (k + j)) + 10 * 10 ^ (k + j) * (v div 10) =
        10 ^ (k + j) * (d * n1 ! j + carry)"
    proof -
      have "v mod 10 - res ! (k + j) + 10 * (v div 10) = d * n1 ! j + carry"
        using mult_div_mod_eq [of 10 v] v_def by linarith
      then have "10 ^ (k + j) * (v mod 10 - res ! (k + j) + 10 * (v div 10)) = 10 ^ (k + j) * (d * n1 ! j + carry)"
        by (rule arg_cong)
      then show ?thesis by (simp add: distrib_left mult.assoc mult.left_commute)
    qed
    ultimately have "value_of (mult_row n1 d k j carry res) =
        value_of res + 10 ^ (k + j) * (d * value_of (drop j n1) + carry)"
      using ih unfolding step by (simp add: distrib_left mult.assoc mult.left_commute)
    then show ?thesis using ih unfolding step by (simp add: res'_def)
  qed
qed

lemma length_mult_rows [simp]: "length (mult_rows n1 n2 i res) = length res"
  by (induction n1 n2 i res rule: mult_rows.induct) (subst mult_rows.simps, simp)

lemma mult_rows_correct:
  assumes "digits_ok n1" "digits_ok n2" "digits_ok res" "i \<le> length n2" "length res = length n1 + length n2 + 1"
    "\<forall>m. i + length n1 \<le> m \<and> m < length res \<longrightarrow> res ! m = 0"
  shows "value_of (mult_rows n1 n2 i res) = value_of res + 10 ^ i * (value_of (drop i n2) * value_of n1) \<and>
    digits_ok (mult_rows n1 n2 i res)"
  using assms
proof (induction n1 n2 i res rule: mult_rows.induct)
  case (1 n1 n2 i res)
  note P = "1.prems"
  show ?case
  proof (cases "i < length n2")
    case False
    then show ?thesis using P(3) by (subst (1 2) mult_rows.simps) simp
  next
    case True
    let ?row = "mult_row n1 (n2 ! i) i 0 0 res"
    note d = digits_ok_nth [OF P(2) True]
    have row: "value_of ?row = value_of res + 10 ^ i * (n2 ! i * value_of n1)" "digits_ok ?row"
      "\<forall>m. i + length n1 < m \<and> m < length res \<longrightarrow> ?row ! m = 0"
      using mult_row_correct [OF P(1), of "n2 ! i" 0 res 0 i] d P(3,5,6) True by auto
    have "value_of (mult_rows n1 n2 (Suc i) ?row) = value_of ?row + 10 ^ Suc i * (value_of (drop (Suc i) n2) * value_of n1) \<and>
        digits_ok (mult_rows n1 n2 (Suc i) ?row)"
      using "1.IH" [OF True P(1,2) row(2)] True P(5) row(3) by simp
    moreover have "value_of (drop i n2) = n2 ! i + 10 * value_of (drop (Suc i) n2)"
      using Cons_nth_drop_Suc [OF True, symmetric] by simp
    ultimately show ?thesis using True row(1) by (subst (1 2) mult_rows.simps) (simp add: algebra_simps)
  qed
qed

lemma bignum_mult_ok:
  assumes "digits_ok (bn_num n1)" "digits_ok (bn_num n2)"
  shows "value_of (bn_num (bignum_mult n1 n2)) = value_of (bn_num n1) * value_of (bn_num n2)"
    "digits_ok (bn_num (bignum_mult n1 n2))" "bn_len (bignum_mult n1 n2) = bn_len n1 + bn_len n2 + 1"
proof -
  let ?z = "replicate (bn_len n1 + bn_len n2 + 1) (0 :: int)"
  have z: "digits_ok ?z" by (simp add: digits_ok_def)
  note r = mult_rows_correct [OF assms z, of 0]
  show "value_of (bn_num (bignum_mult n1 n2)) = value_of (bn_num n1) * value_of (bn_num n2)"
    "digits_ok (bn_num (bignum_mult n1 n2))" "bn_len (bignum_mult n1 n2) = bn_len n1 + bn_len n2 + 1"
    using r by (simp_all add: bignum_mult_def bignum_alloc_def mult.commute del: replicate_Suc)
qed

lemma set_digits_correct:
  assumes "0 \<le> num" "i \<le> length ds" "digits_ok (take i ds)" "set_digits i num ds = (i', num', ds')"
  shows "i \<le> i' \<and> i' \<le> length ds \<and> length ds' = length ds \<and> digits_ok (take i' ds') \<and> 0 \<le> num' \<and>
    (num' = 0 \<or> i' = length ds) \<and>
    value_of (take i' ds') + 10 ^ i' * num' = value_of (take i ds) + 10 ^ i * num"
  using assms
proof (induction i num ds rule: set_digits.induct)
  case (1 i num ds)
  note P = "1.prems"
  show ?case
  proof (cases "num \<noteq> 0 \<and> i < length ds")
    case False
    then have "i' = i" "num' = num" "ds' = ds" using P(4) by (subst (asm) set_digits.simps, simp)+
    then show ?thesis using False P(1-3) by auto
  next
    case True
    let ?d = "num mod 10" let ?ds = "ds[i := ?d]"
    have sd: "schar (c_mod num 10) = ?d" "c_div num 10 = num div 10"
      using P(1) by (simp_all add: c_div_pos c_mod_pos schar_id)
    have st: "set_digits (Suc i) (num div 10) ?ds = (i', num', ds')"
      using P(4) True sd by (subst (asm) set_digits.simps) simp
    have tk: "take (Suc i) ?ds = take i ds @ [?d]" using True by (simp add: take_Suc_conv_app_nth)
    have ok: "digits_ok (take (Suc i) ?ds)" using P(3) unfolding tk by (auto simp: digits_ok_def)
    have "Suc i \<le> i' \<and> i' \<le> length ?ds \<and> length ds' = length ?ds \<and> digits_ok (take i' ds') \<and> 0 \<le> num' \<and>
      (num' = 0 \<or> i' = length ?ds) \<and>
      value_of (take i' ds') + 10 ^ i' * num' = value_of (take (Suc i) ?ds) + 10 ^ Suc i * (num div 10)"
      using "1.IH" [OF True, unfolded sd] P(1) True ok st by simp
    moreover have "value_of (take (Suc i) ?ds) + 10 ^ Suc i * (num div 10) = value_of (take i ds) + 10 ^ i * num"
    proof -
      have "value_of (take (Suc i) ?ds) + 10 ^ Suc i * (num div 10) =
          value_of (take i ds) + (10 ^ i * ?d + 10 ^ i * (10 * (num div 10)))"
        unfolding tk value_of_append using True by simp
      also have "10 ^ i * ?d + 10 ^ i * (10 * (num div 10)) = 10 ^ i * (?d + 10 * (num div 10))"
        by (rule distrib_left [symmetric])
      finally show ?thesis by simp
    qed
    ultimately show ?thesis by simp
  qed
qed

lemma bignum_set_ok:
  assumes "0 \<le> num" "num < 10 ^ bn_len b"
  shows "\<exists>b'. bignum_set b num = (0, b') \<and> value_of (bn_num b') = num \<and> digits_ok (bn_num b') \<and> bn_len b' = bn_len b"
proof -
  obtain i n ds where s: "set_digits 0 num (bn_num b) = (i, n, ds)" by (rule prod_cases3)
  have r: "i \<le> bn_len b" "length ds = bn_len b" "digits_ok (take i ds)" "0 \<le> n" "n = 0 \<or> i = bn_len b"
    "value_of (take i ds) + 10 ^ i * n = num"
    using set_digits_correct [OF assms(1) _ _ s] by (auto simp: digits_ok_def)
  have n0: "n = 0"
  proof (rule ccontr)
    assume "n \<noteq> 0"
    then have "i = bn_len b" "1 \<le> n" using r(4,5) by auto
    then have "10 ^ bn_len b \<le> num" using r(6) value_of_nonneg [OF r(3)]
      by (metis add_increasing mult.right_neutral mult_left_mono zero_le_numeral zero_le_power)
    then show False using assms(2) by simp
  qed
  have "digits_ok (take i ds @ replicate (length ds - i) 0)" using r(3) by (auto simp: digits_ok_def)
  then show ?thesis using s n0 r(1,2,6) by (simp add: bignum_set_def value_of_append)
qed

text \<open>A number that does not fit is refused.\<close>

lemma bignum_set_refused:
  assumes "10 ^ bn_len b \<le> num"
  shows "fst (bignum_set b num) = -1"
proof -
  obtain i n ds where s: "set_digits 0 num (bn_num b) = (i, n, ds)" by (rule prod_cases3)
  have "(0 :: int) \<le> 10 ^ bn_len b" by simp
  then have num: "0 \<le> num" using assms by linarith
  have r: "i \<le> bn_len b" "length ds = bn_len b" "digits_ok (take i ds)"
    "value_of (take i ds) + 10 ^ i * n = num"
    using set_digits_correct [OF num _ _ s] by (auto simp: digits_ok_def)
  have "value_of (take i ds) < 10 ^ i" using value_of_less [OF r(3)] r(1,2) by simp
  also have "(10 :: int) ^ i \<le> 10 ^ bn_len b" using r(1) by (intro power_increasing) auto
  finally have "n \<noteq> 0" using r(4) assms by auto
  then show ?thesis using s by (simp add: bignum_set_def)
qed

lemma factorial_loop_ok:
  assumes "2 \<le> i" "i \<le> upto_n + 1" "upto_n < 10000" "bn_len num1 = 4" "digits_ok (bn_num num2)"
    "value_of (bn_num num2) = fact (nat (i - 1))"
  shows "value_of (bn_num (factorial_loop i upto_n num1 num2)) = fact (nat upto_n) \<and>
    digits_ok (bn_num (factorial_loop i upto_n num1 num2))"
  using assms
proof (induction i upto_n num1 num2 rule: factorial_loop.induct)
  case (1 i upto_n num1 num2)
  note P = "1.prems"
  show ?case
  proof (cases "i \<le> upto_n")
    case False
    then have "i - 1 = upto_n" using P(2) by simp
    then show ?thesis using P(5,6) False by (subst (1 2) factorial_loop.simps) simp
  next
    case True
    obtain b where b: "bignum_set num1 i = (0, b)" "value_of (bn_num b) = i" "digits_ok (bn_num b)" "bn_len b = 4"
      using bignum_set_ok [of i num1] P(1,3,4) True by auto
    have "nat i = Suc (nat (i - 1))" using P(1) by simp
    then have "(fact (nat i) :: int) = i * fact (nat (i - 1))" using P(1) by (simp add: algebra_simps)
    then have m: "value_of (bn_num (bignum_mult b num2)) = fact (nat (i + 1 - 1))"
      using bignum_mult_ok(1) [OF b(3) P(5)] b(2) P(6) by simp
    have "factorial_loop i upto_n num1 num2 = factorial_loop (i + 1) upto_n b (bignum_mult b num2)"
      using True b(1) by (subst factorial_loop.simps) simp
    then show ?thesis
      using "1.IH" [OF True b(1) [symmetric] refl refl] P(1,3) True b(4) bignum_mult_ok(2) [OF b(3) P(5)] m by simp
  qed
qed

section \<open>Properties\<close>

text \<open>
  Property C10: \<^verbatim>\<open>bignum_mult\<close> multiplies: for operands of decimal digits the result has
  decimal digits only, no store overflows a \<^verbatim>\<open>char\<close>, and its value is the product.
\<close>

theorem bignum_mult_correct:
  assumes "digits_ok (bn_num n1)" "digits_ok (bn_num n2)"
  shows "value_of (bn_num (bignum_mult n1 n2)) = value_of (bn_num n1) * value_of (bn_num n2) \<and>
    digits_ok (bn_num (bignum_mult n1 n2)) \<and> bn_len (bignum_mult n1 n2) = bn_len n1 + bn_len n2 + 1"
  using bignum_mult_ok [OF assms] by simp

theorem bignum_mult_correct_witness:
  "value_of (bn_num (bignum_mult \<lparr>bn_num = [9, 9, 9, 9]\<rparr> \<lparr>bn_num = [9, 9, 9, 8]\<rparr>)) = 9999 * 8999"
  using bignum_mult_correct [of "\<lparr>bn_num = [9, 9, 9, 9]\<rparr>" "\<lparr>bn_num = [9, 9, 9, 8]\<rparr>"] by (simp add: digits_ok_def)

text \<open>The digits of a number are determined by its value, and so is their sum.\<close>

fun digit_sum :: "nat \<Rightarrow> nat" where
  "digit_sum n = (if n = 0 then 0 else n mod 10 + digit_sum (n div 10))"

declare digit_sum.simps [simp del]

lemma digit_sum_step: "d < 10 \<Longrightarrow> digit_sum (d + 10 * n) = d + digit_sum n"
proof (cases "d + 10 * n = 0")
  case False
  assume "d < 10"
  then show ?thesis using False by (subst digit_sum.simps) auto
qed (simp add: digit_sum.simps)

lemma sum_list_digit_sum: "digits_ok ds \<Longrightarrow> sum_list ds = int (digit_sum (nat (value_of ds)))"
proof (induction ds)
  case (Cons d ds)
  have d: "0 \<le> d" "nat d < 10" "digits_ok ds" using Cons.prems by (auto simp: digits_ok_def)
  have "nat (value_of (d # ds)) = nat d + 10 * nat (value_of ds)"
    using d(1) value_of_nonneg [OF d(3)] by (simp add: nat_add_distrib nat_mult_distrib)
  then show ?case using Cons.IH [OF d(3)] d(1) digit_sum_step [OF d(2)] by simp
qed (simp add: digit_sum.simps)

definition fact_100_digits :: "int list" where
  "fact_100_digits =
     [0, 0, 0, 0, 0, 0, 0, 0, 0, 0, 0, 0, 0, 0, 0, 0, 0, 0, 0, 0, 0, 0, 0, 0, 4, 6, 8, 6, 1, 9,
      0, 1, 2, 5, 8, 1, 1, 5, 2, 8, 5, 7, 3, 2, 2, 7, 2, 8, 0, 2, 9, 7, 9, 6, 3, 5, 2, 6, 8, 2,
      8, 1, 5, 6, 5, 1, 6, 7, 9, 3, 6, 4, 1, 4, 9, 8, 0, 6, 5, 1, 9, 9, 2, 2, 3, 9, 9, 9, 9, 5,
      7, 1, 2, 5, 9, 8, 3, 6, 9, 2, 9, 5, 8, 6, 4, 1, 2, 6, 1, 8, 3, 4, 6, 2, 8, 6, 9, 5, 1, 7,
      0, 9, 4, 0, 0, 7, 6, 6, 2, 6, 5, 8, 8, 3, 2, 9, 9, 6, 1, 8, 6, 2, 5, 1, 4, 4, 9, 3, 4, 4,
      5, 1, 2, 6, 2, 3, 3, 9]"

lemma fact_100_digits:
  "value_of fact_100_digits = fact 100" "digits_ok fact_100_digits" "sum_list fact_100_digits = 648"
  by (simp_all add: fact_100_digits_def digits_ok_def fact_numeral)

text \<open>
  The program, run as it is written, computes the factorial of 100 in decimal digits
  (every setting of its four-digit factor succeeds), and the digit sum it prints is 648.
\<close>

theorem main_computes_factorial:
  "value_of (bn_num (main_factorial 100)) = fact 100 \<and> digits_ok (bn_num (main_factorial 100)) \<and>
    sum_digits (main_factorial 100) = 648"
proof -
  obtain b1 b2 where b12: "bignum_set (bignum_alloc 4) 9999 = (0, b1)" "bn_len b1 = 4"
      "bignum_set (bignum_alloc 4) 8999 = (0, b2)" "bn_len b2 = 4"
    using bignum_set_ok [of 9999 "bignum_alloc 4"] bignum_set_ok [of 8999 "bignum_alloc 4"]
    by (auto simp: bignum_alloc_def)
  obtain b where b: "bignum_set b2 1 = (0, b)" "value_of (bn_num b) = 1" "digits_ok (bn_num b)"
    using bignum_set_ok [of 1 b2] b12(4) by auto
  have "main_factorial 100 = factorial_loop 2 100 b1 b"
    using b12 b(1) by (simp add: main_factorial_def)
  then have f: "value_of (bn_num (main_factorial 100)) = fact 100" "digits_ok (bn_num (main_factorial 100))"
    using factorial_loop_ok [OF _ _ _ b12(2) b(3), of 2 100] b(2) by simp_all
  have "sum_list fact_100_digits = int (digit_sum (nat (fact 100)))"
    using sum_list_digit_sum [of fact_100_digits] fact_100_digits by simp
  then show ?thesis using f sum_list_digit_sum [OF f(2)] fact_100_digits(3) by (simp add: sum_digits_def)
qed

end
