(* ===== verification/Strstr.thy ===== *)
theory Strstr
  imports C_Library "HOL-Library.Monad_Syntax"
begin

text \<open>
  The two substring searches of \<^verbatim>\<open>src/my_strstr.c\<close>: one with a rolling hash on
  \<^verbatim>\<open>unsigned long\<close>, one with a table of overlaps. Positions are the C return values, \<open>-1\<close> for
  no match; \<open>None\<close> stands for an access outside an array (and, in the second search, for a
  loop that does not end, which is shown not to happen). An occurrence at the very end of the
  string is beyond both loops.
\<close>

section \<open>Search by hash\<close>

definition PRIME :: u64 where
  "PRIME = 11"

text \<open>A \<^verbatim>\<open>char\<close> is signed and is extended to 64 bits when it is added.\<close>

definition char_val :: "char \<Rightarrow> u64" where
  "char_val c = scast (of_char c :: u8)"

function hash_loop :: "string \<Rightarrow> nat \<Rightarrow> nat \<Rightarrow> u64 \<Rightarrow> u64 option" where
  "hash_loop str len i hash =
     (if i < len then
        (case c_at str i of
           None \<Rightarrow> None
         | Some c \<Rightarrow> hash_loop str len (Suc i) (hash * PRIME + char_val c))
      else Some hash)"
  by pat_completeness auto
termination by (relation "measure (\<lambda>(str, len, i, hash). len - i)") auto

declare hash_loop.simps [simp del]

definition hash_new :: "string \<Rightarrow> nat \<Rightarrow> u64 option" where
  "hash_new str len = do { c \<leftarrow> c_at str 0; hash_loop str len 1 (0 + char_val c) }"

primrec mul_loop :: "nat \<Rightarrow> u64 \<Rightarrow> u64" where
  "mul_loop 0 h = h"
| "mul_loop (Suc n) h = mul_loop n (h * PRIME)"

definition hash_add_sub :: "u64 \<Rightarrow> char \<Rightarrow> char \<Rightarrow> nat \<Rightarrow> u64" where
  "hash_add_sub prev_hash sub add len =
     (let sub_hash = mul_loop (len - 1) (char_val sub);
          prev_hash = prev_hash - sub_hash;
          prev_hash = prev_hash * PRIME
      in prev_hash + char_val add)"

function strstr_hash_loop :: "string \<Rightarrow> string \<Rightarrow> u64 \<Rightarrow> nat \<Rightarrow> u64 \<Rightarrow> int option" where
  "strstr_hash_loop string substring hsub i hs =
     (if i + length substring < length string then
        if hs = hsub \<and> strncmp_eq (drop i string) substring (length substring) then Some (int i)
        else (case (c_at string i, c_at string (i + length substring)) of
                (Some sub, Some add) \<Rightarrow>
                  strstr_hash_loop string substring hsub (Suc i) (hash_add_sub hs sub add (length substring))
              | _ \<Rightarrow> None)
      else Some (-1))"
  by pat_completeness auto
termination by (relation "measure (\<lambda>(string, substring, hsub, i, hs). length string - i)") auto

declare strstr_hash_loop.simps [simp del]

definition my_strstr_hash :: "string \<Rightarrow> string \<Rightarrow> int option" where
  "my_strstr_hash string substring = do {
     hsub \<leftarrow> hash_new substring (length substring);
     hs \<leftarrow> hash_new string (length substring);
     strstr_hash_loop string substring hsub 0 hs
   }"

section \<open>Search by overlaps\<close>

text \<open>
  The table is allocated with one place per character of the substring, its contents junk (\<open>junk\<close>); so
  the store to place 0 is outside it when the substring is empty.
\<close>

function overlap_loop :: "string \<Rightarrow> nat \<Rightarrow> nat \<Rightarrow> nat list \<Rightarrow> nat list option" where
  "overlap_loop substring i j overlap =
     (if i < length substring then
        (case c_at substring j of
           None \<Rightarrow> None
         | Some c \<Rightarrow>
             if substring ! i = c then overlap_loop substring (Suc i) (Suc j) (overlap[i := overlap ! (i - 1) + 1])
             else overlap_loop substring (Suc i) 0 (overlap[i := 0]))
      else Some overlap)"
  by pat_completeness auto
termination by (relation "measure (\<lambda>(substring, i, j, overlap). length substring - i)") auto

declare overlap_loop.simps [simp del]

definition overlap_table :: "string \<Rightarrow> nat list \<Rightarrow> nat list option" where
  "overlap_table substring overlap =
     (if overlap = [] then None else overlap_loop substring 1 0 (overlap[0 := 0]))"

text \<open>
  The main loop with its three variables. On a partial match the code steps \<open>i\<close> back and the
  loop header forward again, so the same character is looked at once more.
\<close>

partial_function (option) strstr_loop ::
  "string \<Rightarrow> string \<Rightarrow> nat list \<Rightarrow> nat \<Rightarrow> nat \<Rightarrow> nat \<Rightarrow> int option" where
  "strstr_loop string substring overlap i j match =
     (if i < length string then
        if j = length substring then Some (int i - int match)
        else if length substring < j then None
        else if string ! i = substring ! j then strstr_loop string substring overlap (Suc i) (Suc j) (match + 1)
        else if 1 < match then
          if length overlap < match then None
          else strstr_loop string substring overlap i (overlap ! (match - 1)) (overlap ! (match - 1))
        else strstr_loop string substring overlap (Suc i) 0 0
      else Some (-1))"

definition my_strstr :: "(nat \<Rightarrow> nat) \<Rightarrow> string \<Rightarrow> string \<Rightarrow> int option" where
  "my_strstr junk string substring =
     (if length string < length substring then Some (-1)
      else do {
        overlap \<leftarrow> overlap_table substring (map junk [0..<length substring]);
        strstr_loop string substring overlap 0 0 0
      })"

section \<open>The program\<close>

text \<open>
  \<^verbatim>\<open>main\<close> fills a string with random letters and a substring with about half as many. \<open>rnd k\<close> is
  the result of call number \<open>k\<close> of \<^verbatim>\<open>random\<close>; the buffers were zeroed, so both end in a NUL. The
  result is the three positions printed and whether it prints \<^verbatim>\<open>Correct\<close>.
\<close>

definition random_letter :: "nat \<Rightarrow> char" where
  "random_letter r = char_of (r mod 26 + of_char CHR ''a'' :: nat)"

fun fill_strings :: "(nat \<Rightarrow> nat) \<Rightarrow> nat \<Rightarrow> nat \<Rightarrow> string \<times> string" where
  "fill_strings rnd k 0 = ([], [])"
| "fill_strings rnd k (Suc n) =
     (let c = random_letter (rnd k) in
      if odd (rnd (k + 1)) then
        let d = random_letter (rnd (k + 2)); (str, substr) = fill_strings rnd (k + 3) n in (c # str, d # substr)
      else let (str, substr) = fill_strings rnd (k + 2) n in (c # str, substr))"

definition PAGE_SZ :: nat where
  "PAGE_SZ = 4096"

definition strstr_main :: "(nat \<Rightarrow> nat) \<Rightarrow> (nat \<Rightarrow> nat) \<Rightarrow> nat \<Rightarrow> (int \<times> int \<times> int \<times> bool) option" where
  "strstr_main rnd junk nr_pages =
     (let (str, substr) = fill_strings rnd 0 (PAGE_SZ * nr_pages - 1) in do {
        my_pos \<leftarrow> my_strstr junk str substr;
        let pos = (case strstr_pos str substr of Some i \<Rightarrow> int i | None \<Rightarrow> -1);
        my_hash_pos \<leftarrow> my_strstr_hash str substr;
        Some (pos, my_pos, my_hash_pos, pos = my_pos)
      })"

section \<open>The rolling hash\<close>

definition hash_of :: "string \<Rightarrow> u64" where
  "hash_of s = foldl (\<lambda>h c. h * PRIME + char_val c) 0 s"

lemma hash_of_snoc [simp]: "hash_of (s @ [c]) = hash_of s * PRIME + char_val c"
  by (simp add: hash_of_def)

lemma hash_of_Nil [simp]: "hash_of [] = 0"
  by (simp add: hash_of_def)

lemma hash_of_Cons: "hash_of (c # s) = char_val c * PRIME ^ length s + hash_of s"
proof (induction s rule: rev_induct)
  case (snoc d s)
  have "hash_of (c # s @ [d]) = hash_of (c # s) * PRIME + char_val d"
    using hash_of_snoc [of "c # s" d] by simp
  then show ?case by (simp add: snoc algebra_simps)
qed (simp add: hash_of_def)

lemma mul_loop_power: "mul_loop n h = h * PRIME ^ n"
  by (induction n arbitrary: h) (simp_all add: algebra_simps)

lemma hash_add_sub_rolls: "hash_add_sub (hash_of (c # s)) c d (Suc (length s)) = hash_of (s @ [d])"
  by (simp add: hash_add_sub_def mul_loop_power hash_of_Cons)

lemma hash_loop_prefix:
  assumes "i \<le> len" "len \<le> length str" "hash = hash_of (take i str)"
  shows "hash_loop str len i hash = Some (hash_of (take len str))"
  using assms
proof (induction str len i hash rule: hash_loop.induct)
  case (1 str len i hash)
  note P = "1.prems"
  show ?case
  proof (cases "i < len")
    case True
    then have c: "c_at str i = Some (str ! i)" "take (Suc i) str = take i str @ [str ! i]"
      using P(2) by (simp_all add: take_Suc_conv_app_nth)
    then show ?thesis
      using "1.IH" [OF True c(1)] True P by (subst hash_loop.simps) simp
  next
    case False
    then show ?thesis using P by (subst hash_loop.simps) simp
  qed
qed

lemma hash_new_prefix:
  assumes "0 < len" "len \<le> length str"
  shows "hash_new str len = Some (hash_of (take len str))"
proof -
  have "take (Suc 0) str = [str ! 0]" using assms by (subst take_Suc_conv_app_nth) auto
  then have "hash_of (take 1 str) = char_val (str ! 0)" by (simp add: hash_of_def)
  moreover have "c_at str 0 = Some (str ! 0)" using assms by (intro c_at_less) linarith
  ultimately show ?thesis using assms hash_loop_prefix [of 1 len str] by (simp add: hash_new_def)
qed

section \<open>Search by hash is search by comparison\<close>

abbreviation window :: "string \<Rightarrow> nat \<Rightarrow> nat \<Rightarrow> string" where
  "window s m i \<equiv> take m (drop i s)"

lemma window_Suc:
  assumes "i + m < length s" "0 < m"
  obtains w where "window s m i = s ! i # w" "window s m (Suc i) = w @ [s ! (i + m)]" "length w = m - 1"
proof
  let ?w = "take (m - 1) (drop (Suc i) s)"
  obtain k where m: "m = Suc k" using assms(2) by (cases m) auto
  have "drop i s = s ! i # drop (Suc i) s" using assms(1) by (simp add: Cons_nth_drop_Suc)
  then show "window s m i = s ! i # ?w" by (simp add: m)
  show "window s m (Suc i) = ?w @ [s ! (i + m)]"
    using assms(1) by (simp add: m take_Suc_conv_app_nth)
  show "length ?w = m - 1" using assms(1) by simp
qed

definition find_at :: "nat \<Rightarrow> nat \<Rightarrow> string \<Rightarrow> string \<Rightarrow> int" where
  "find_at i n string substring =
     (case find (occurs_at substring string) [i..<n] of None \<Rightarrow> -1 | Some k \<Rightarrow> int k)"

lemma find_at_step:
  assumes "i < n"
  shows "find_at i n s t = (if occurs_at t s i then int i else find_at (Suc i) n s t)"
  using assms by (simp add: find_at_def upt_conv_Cons)

lemma strstr_hash_loop_find:
  assumes "substring \<noteq> []" "hs = hash_of (window string (length substring) i)"
  shows "strstr_hash_loop string substring (hash_of substring) i hs =
    Some (find_at i (length string - length substring) string substring)"
  using assms
proof (induction string substring "hash_of substring" i hs rule: strstr_hash_loop.induct)
  case (1 string substring i hs)
  let ?m = "length substring"
  show ?case
  proof (cases "i + ?m < length string")
    case False
    then show ?thesis by (subst strstr_hash_loop.simps) (simp add: find_at_def)
  next
    case True
    have occ: "strncmp_eq (drop i string) substring ?m \<longleftrightarrow> occurs_at substring string i"
      using True by (simp add: strncmp_eq_prefix occurs_at_def)
    have n: "find_at i (length string - ?m) string substring =
        (if occurs_at substring string i then int i else find_at (Suc i) (length string - ?m) string substring)"
      using True by (intro find_at_step) simp
    show ?thesis
    proof (cases "occurs_at substring string i")
      case occurs: True
      then have "hs = hash_of substring" using "1.prems"(2) by (simp add: occurs_at_def)
      then show ?thesis using True occurs occ n by (subst strstr_hash_loop.simps) simp
    next
      case no: False
      obtain w where w: "window string ?m i = string ! i # w"
          "window string ?m (Suc i) = w @ [string ! (i + ?m)]" "length w = ?m - 1"
        using window_Suc [OF True] "1.prems"(1) by auto
      have "hash_add_sub hs (string ! i) (string ! (i + ?m)) ?m = hash_of (window string ?m (Suc i))"
        using hash_add_sub_rolls [of "string ! i" w "string ! (i + ?m)"] w "1.prems" by simp
      then show ?thesis
        using "1.hyps" [OF True _ refl _ _ "1.prems"(1)] True no occ n by (subst strstr_hash_loop.simps) simp
    qed
  qed
qed

lemma my_strstr_hash_find:
  assumes "substring \<noteq> []" "length substring \<le> length string"
  shows "my_strstr_hash string substring = Some (find_at 0 (length string - length substring) string substring)"
  using assms strstr_hash_loop_find [OF assms(1) refl, of string 0]
  by (simp add: my_strstr_hash_def hash_new_prefix Suc_leI)

text \<open>A substring longer than the string makes \<^verbatim>\<open>hash_new\<close> read on: to the NUL, or beyond it.\<close>

lemma hash_loop_reads:
  "i \<le> len \<Longrightarrow> i \<le> Suc (length str) \<Longrightarrow> hash_loop str len i hash = None \<longleftrightarrow> Suc (length str) < len"
proof (induction str len i hash rule: hash_loop.induct)
  case (1 str len i hash)
  show ?case
  proof (cases "i < len")
    case False
    then show ?thesis using "1.prems" by (subst hash_loop.simps) simp
  next
    case True
    show ?thesis
    proof (cases "c_at str i")
      case None
      then show ?thesis using True "1.prems" by (subst hash_loop.simps) (auto simp: c_at_def split: if_splits)
    next
      case (Some c)
      moreover from Some have "i \<le> length str" by (simp add: c_at_def split: if_splits)
      ultimately show ?thesis using True "1.IH" [OF True Some] by (subst hash_loop.simps) simp
    qed
  qed
qed

lemma hash_new_reads: "0 < len \<Longrightarrow> hash_new str len = None \<longleftrightarrow> Suc (length str) < len"
  using hash_loop_reads [of 1 len str] by (cases str) (simp_all add: hash_new_def c_at_def)

lemma find_at_strstr:
  "find_at 0 (length s - length t) s t =
     (case strstr_pos s t of Some i \<Rightarrow> if i + length t < length s then int i else -1 | None \<Rightarrow> -1)"
proof (cases "find (occurs_at t s) [0..<length s - length t]")
  case None
  then have no: "\<not> occurs_at t s i" if "i + length t < length s" for i
    using that by (auto simp: find_None_iff)
  show ?thesis
  proof (cases "strstr_pos s t")
    case (Some i)
    then have "occurs_at t s i" by (simp add: strstr_pos_first)
    then show ?thesis using Some None no [of i] by (auto simp: find_at_def)
  qed (simp add: find_at_def None)
next
  case (Some i)
  then have "i < length s - length t" "occurs_at t s i" "\<forall>k < i. \<not> occurs_at t s k"
    by (auto simp: find_Some_iff)
  then have "strstr_pos s t = Some i" "i + length t < length s" by (auto simp: strstr_pos_first)
  then show ?thesis using Some by (simp add: find_at_def)
qed

section \<open>Overlaps are borders\<close>

text \<open>
  \<open>border s k b\<close>: the first \<open>b\<close> characters of \<open>s\<close> are also the last \<open>b\<close> of its first \<open>k\<close>, and
  \<open>b\<close> is smaller than \<open>k\<close>. The table holds such a border for every prefix, not always the
  longest one.
\<close>

definition border :: "string \<Rightarrow> nat \<Rightarrow> nat \<Rightarrow> bool" where
  "border s k b \<longleftrightarrow> b < k \<and> (\<forall>t < b. s ! t = s ! (k - b + t))"

definition overlap_ok :: "string \<Rightarrow> nat list \<Rightarrow> nat \<Rightarrow> bool" where
  "overlap_ok s overlap n \<longleftrightarrow> (\<forall>k < n. border s (Suc k) (overlap ! k))"

lemma border_0 [simp]: "0 < k \<Longrightarrow> border s k 0"
  by (simp add: border_def)

lemma border_Suc:
  assumes "border s k b" "s ! k = s ! b"
  shows "border s (Suc k) (Suc b)"
  using assms by (auto simp: border_def less_Suc_eq)

lemma overlap_ok_update:
  "overlap_ok s ov i \<Longrightarrow> border s (Suc i) b \<Longrightarrow> i < length ov \<Longrightarrow> overlap_ok s (ov[i := b]) (Suc i)"
  by (auto simp: overlap_ok_def less_Suc_eq)

lemma overlap_loop_ok:
  assumes "0 < i" "i \<le> length s" "length ov = length s" "j = ov ! (i - 1)" "overlap_ok s ov i"
  shows "\<exists>ov'. overlap_loop s i j ov = Some ov' \<and> length ov' = length s \<and> overlap_ok s ov' (length s)"
  using assms
proof (induction s i j ov rule: overlap_loop.induct)
  case (1 s i j ov)
  note P = "1.prems"
  show ?case
  proof (cases "i < length s")
    case False
    then show ?thesis using P by (subst overlap_loop.simps) simp
  next
    case True
    have b: "border s i j" using P(1,4,5) by (cases i) (auto simp: overlap_ok_def)
    then have j: "j < i" by (simp add: border_def)
    then have c: "c_at s j = Some (s ! j)" using True by simp
    show ?thesis
    proof (cases "s ! i = s ! j")
      case eq: True
      have "overlap_ok s (ov[i := ov ! (i - 1) + 1]) (Suc i)"
        using overlap_ok_update [OF P(5) border_Suc [OF b eq]] True P(3,4) by simp
      then show ?thesis
        using "1.IH"(1) [OF True c eq] True P c eq by (subst overlap_loop.simps) simp
    next
      case ne: False
      have "overlap_ok s (ov[i := 0]) (Suc i)" using overlap_ok_update [OF P(5)] True P(3) by simp
      then show ?thesis
        using "1.IH"(2) [OF True c ne] True P c ne by (subst overlap_loop.simps) simp
    qed
  qed
qed

lemma overlap_table_ok:
  assumes "s \<noteq> []"
  shows "\<exists>ov. overlap_table s (map junk [0..<length s]) = Some ov \<and> length ov = length s \<and> overlap_ok s ov (length s)"
proof -
  let ?ov = "(map junk [0..<length s])[0 := 0]"
  have "overlap_ok s ?ov 1" using assms by (simp add: overlap_ok_def)
  then show ?thesis using overlap_loop_ok [of 1 s ?ov 0] assms by (simp add: overlap_table_def Suc_leI)
qed

section \<open>Search by overlaps\<close>

text \<open>The \<open>match\<close> characters before place \<open>i\<close> are the first ones of the substring.\<close>

definition matched :: "string \<Rightarrow> string \<Rightarrow> nat \<Rightarrow> nat \<Rightarrow> bool" where
  "matched s t i match \<longleftrightarrow> match \<le> i \<and> match \<le> length t \<and> (\<forall>k < match. s ! (i - match + k) = t ! k)"

lemma matched_0 [simp]: "matched s t i 0"
  by (simp add: matched_def)

lemma matched_Suc:
  "matched s t i match \<Longrightarrow> match < length t \<Longrightarrow> s ! i = t ! match \<Longrightarrow> matched s t (Suc i) (Suc match)"
  by (auto simp: matched_def less_Suc_eq)

lemma matched_border:
  assumes "matched s t i match" "border t match b"
  shows "matched s t i b"
proof -
  have b: "b < match" "\<forall>k < b. t ! k = t ! (match - b + k)" using assms(2) by (auto simp: border_def)
  have m: "match \<le> i" "match \<le> length t" "\<forall>k < match. s ! (i - match + k) = t ! k"
    using assms(1) by (auto simp: matched_def)
  have "s ! (i - b + k) = t ! k" if "k < b" for k
  proof -
    have "match - b + k < match" using b(1) that by simp
    then have "s ! (i - match + (match - b + k)) = t ! (match - b + k)" using m(3) by blast
    moreover have "i - match + (match - b + k) = i - b + k" using m(1) b(1) by simp
    ultimately show ?thesis using b(2) that by simp
  qed
  then show ?thesis using b(1) m(1,2) by (simp add: matched_def)
qed

lemma matched_occurs:
  "matched s t i (length t) \<Longrightarrow> i \<le> length s \<Longrightarrow> occurs_at t s (i - length t)"
  by (auto simp: matched_def occurs_at_nth)

text \<open>
  The loop ends: a step either goes on in the string or, at the same place, shortens the match.
  What it returns is \<open>-1\<close> or an occurrence.
\<close>

lemma strstr_loop_sound:
  assumes "matched s t i match" "overlap_ok t ov (length t)" "length ov = length t"
  shows "\<exists>r. strstr_loop s t ov i match match = Some r \<and>
    (r = -1 \<or> (\<exists>k. r = int k \<and> occurs_at t s k \<and> k + length t < length s))"
  using assms(1)
proof (induction "(length s - i, match)" arbitrary: i match rule: wf_induct_rule [OF wf_lex_prod [OF wf_less_than wf_less_than]])
  case (1 i match)
  note IH = "1.hyps" and M = "1.prems"
  show ?case
  proof (cases "i < length s")
    case False
    then show ?thesis by (subst strstr_loop.simps) simp
  next
    case i: True
    have m: "match \<le> i" "match \<le> length t" using M by (auto simp: matched_def)
    show ?thesis
    proof (cases "match = length t")
      case True
      then have "occurs_at t s (i - length t)" using matched_occurs [of s t i] M i by simp
      then show ?thesis using True i m by (subst strstr_loop.simps) (auto intro!: exI [of _ "i - length t"])
    next
      case False
      then have lt: "match < length t" using m by simp
      consider (eq) "s ! i = t ! match" | (fall) "s ! i \<noteq> t ! match" "1 < match"
        | (skip) "s ! i \<noteq> t ! match" "\<not> 1 < match" by blast
      then show ?thesis
      proof cases
        case eq
        then show ?thesis using IH [OF _ matched_Suc [OF M lt eq]] i lt by (subst strstr_loop.simps) auto
      next
        case fall
        have b: "border t match (ov ! (match - 1))" using assms(2) lt fall(2) by (cases match) (auto simp: overlap_ok_def)
        then have "ov ! (match - 1) < match" by (simp add: border_def)
        then show ?thesis using IH [OF _ matched_border [OF M b]] i lt fall assms(3) by (subst strstr_loop.simps) auto
      next
        case skip
        have "length s - Suc i < length s - i" using i by simp
        then show ?thesis using IH [OF _ matched_0, of "Suc i"] skip i lt by (subst strstr_loop.simps) auto
      qed
    qed
  qed
qed

text \<open>
  Where it succeeds for sure: the string starts with characters other than the first one of the
  substring, and the occurrence that follows is not at its end.
\<close>

lemma strstr_loop_skips:
  assumes "t \<noteq> []" "\<forall>k < n. s ! (i + k) \<noteq> t ! 0" "i + n \<le> length s"
  shows "strstr_loop s t ov i 0 0 = strstr_loop s t ov (i + n) 0 0"
  using assms(2,3)
proof (induction n arbitrary: i)
  case (Suc n)
  have "s ! i \<noteq> t ! 0" "i < length s" using Suc.prems by auto
  then have "strstr_loop s t ov i 0 0 = strstr_loop s t ov (Suc i) 0 0"
    using assms(1) by (subst strstr_loop.simps) simp
  also have "\<dots> = strstr_loop s t ov (Suc i + n) 0 0"
    using Suc.IH [of "Suc i"] Suc.prems by fastforce
  finally show ?case by simp
qed simp

lemma strstr_loop_matches:
  assumes "occurs_at t s i" "m \<le> length t"
  shows "strstr_loop s t ov i 0 0 = strstr_loop s t ov (i + m) m m"
  using assms(2)
proof (induction m)
  case (Suc m)
  have "s ! (i + m) = t ! m" "i + m < length s" using assms(1) Suc.prems by (auto simp: occurs_at_nth)
  then have "strstr_loop s t ov (i + m) m m = strstr_loop s t ov (i + Suc m) (Suc m) (Suc m)"
    using Suc.prems by (subst strstr_loop.simps) simp
  then show ?case using Suc by simp
qed simp

lemma strstr_loop_finds:
  assumes "t \<noteq> []" "hd t \<notin> set p" "r \<noteq> []"
  shows "strstr_loop (p @ t @ r) t ov 0 0 0 = Some (int (length p))"
proof -
  let ?s = "p @ t @ r"
  have "hd t = t ! 0" using assms(1) by (simp add: hd_conv_nth)
  then have "\<forall>k < length p. ?s ! (0 + k) \<noteq> t ! 0" using assms(2) by (metis add_0 nth_append nth_mem)
  then have "strstr_loop ?s t ov 0 0 0 = strstr_loop ?s t ov (length p) 0 0"
    using strstr_loop_skips [of t "length p" ?s 0 ov] assms(1) by simp
  also have "\<dots> = strstr_loop ?s t ov (length p + length t) (length t) (length t)"
    by (rule strstr_loop_matches) (auto simp: occurs_at_def)
  also have "\<dots> = Some (int (length p))"
    using assms(3) by (subst strstr_loop.simps) simp
  finally show ?thesis .
qed

lemma my_strstr_cases:
  assumes "t \<noteq> []"
  shows "\<exists>r. my_strstr junk s t = Some r \<and>
    (r = -1 \<or> (\<exists>k. r = int k \<and> occurs_at t s k \<and> k + length t < length s))"
proof (cases "length s < length t")
  case False
  obtain ov where "overlap_table t (map junk [0..<length t]) = Some ov" "length ov = length t"
      "overlap_ok t ov (length t)"
    using overlap_table_ok [OF assms] by blast
  then show ?thesis using False strstr_loop_sound [of s t 0 0 ov] by (simp add: my_strstr_def)
qed (simp add: my_strstr_def)

lemma my_strstr_hash_cases:
  assumes "substring \<noteq> []"
  shows "my_strstr_hash string substring =
    (if length string + 1 < length substring then None
     else Some (case strstr_pos string substring of
       Some i \<Rightarrow> if i + length substring < length string then int i else -1 | None \<Rightarrow> -1))"
proof (cases "length substring \<le> length string")
  case True
  then show ?thesis using my_strstr_hash_find [OF assms True] find_at_strstr by simp
next
  case False
  then have no: "strstr_pos string substring = None" by (simp add: strstr_pos_none occurs_at_def)
  have sub: "hash_new substring (length substring) \<noteq> None" using assms by (simp add: hash_new_reads)
  have "hash_new string (length substring) = None \<longleftrightarrow> length string + 1 < length substring"
    using assms by (simp add: hash_new_reads)
  then show ?thesis using no sub False
    by (auto simp: my_strstr_hash_def strstr_hash_loop.simps)
qed

lemma length_fill_strings:
  "length (fst (fill_strings rnd k n)) = n \<and> length (snd (fill_strings rnd k n)) \<le> n"
proof (induction n arbitrary: k)
  case (Suc n)
  show ?case using Suc [of "k + 2"] Suc [of "k + 3"] by (auto simp: Let_def split: prod.splits)
qed simp

lemma fill_strings_ones:
  "fill_strings (\<lambda>_. Suc 0) k n = (replicate n CHR ''b'', replicate n CHR ''b'')"
  by (induction n arbitrary: k) (simp_all add: random_letter_def char_of_def bit_0)

section \<open>Properties\<close>

text \<open>
  Property C5: the search with the rolling hash is the search by comparison. Its 64-bit hash never
  loses a match and never invents one: the result is the position \<^verbatim>\<open>strstr\<close> finds, except that
  an occurrence at the end of the string is answered with \<open>-1\<close>. The hash of the string is read
  beyond its end exactly when the substring is longer than the string and its NUL.
\<close>

theorem my_strstr_hash_is_strstr:
  assumes "substring \<noteq> []"
  shows "my_strstr_hash string substring =
    (if length string + 1 < length substring then None
     else Some (case strstr_pos string substring of
       Some i \<Rightarrow> if i + length substring < length string then int i else -1 | None \<Rightarrow> -1))"
  by (rule my_strstr_hash_cases [OF assms])

theorem my_strstr_hash_is_strstr_witness: "my_strstr_hash ''abracadabra'' ''cad'' = Some 4"
  using my_strstr_hash_is_strstr [of "''cad''" "''abracadabra''"] by simp

text \<open>
  Property C34: the search with the overlap table always ends, never reads or writes outside an
  array, whatever the fresh table holds, and a position it returns is an occurrence.
\<close>

theorem my_strstr_sound:
  assumes "substring \<noteq> []"
  shows "\<exists>r. my_strstr junk string substring = Some r \<and>
    (r = -1 \<or> (\<exists>k. r = int k \<and> occurs_at substring string k \<and> k + length substring < length string))"
  by (rule my_strstr_cases [OF assms])

theorem my_strstr_sound_witness:
  "\<exists>r. my_strstr (\<lambda>_. 7) ''aabaaabx'' ''aab'' = Some r \<and>
    (r = -1 \<or> (\<exists>k. r = int k \<and> occurs_at ''aab'' ''aabaaabx'' k \<and>
      k + length ''aab'' < length ''aabaaabx''))"
  by (rule my_strstr_sound) simp

text \<open>
  The overlap search finds an occurrence that comes before the end of the string and
  has no earlier copy of the substring's first character before it.
\<close>

theorem my_strstr_finds:
  assumes "substring \<noteq> []" "hd substring \<notin> set before" "after \<noteq> []"
  shows "my_strstr junk (before @ substring @ after) substring = Some (int (length before))"
  using overlap_table_ok [OF assms(1), of junk] strstr_loop_finds [OF assms]
  by (auto simp: my_strstr_def)

theorem my_strstr_finds_witness: "my_strstr (\<lambda>_. 7) (''xyz'' @ ''abab'' @ ''c'') ''abab'' = Some 3"
  using my_strstr_finds [of "''abab''" "''xyz''" "''c''" "\<lambda>_. 7"] by simp

text \<open>
  What the searches miss. An occurrence at the end is missed by both; the overlap
  search also misses one that begins at the character on which a match of length one broke off;
  and for an empty substring it writes outside its table.
\<close>

theorem my_strstr_misses:
  "my_strstr junk ''ab'' ''ab'' = Some (-1) \<and> my_strstr_hash ''ab'' ''ab'' = Some (-1) \<and>
   my_strstr junk ''aabx'' ''ab'' = Some (-1) \<and> my_strstr junk string [] = None"
  by (simp add: my_strstr_def my_strstr_hash_cases overlap_table_def overlap_loop.simps strstr_loop.simps)

text \<open>
  \<^verbatim>\<open>main\<close> on any random strings with a non-empty substring runs to its end. The hash
  position it prints is that of \<^verbatim>\<open>strstr\<close> unless that is at the end, and the overlap position,
  when there is one, is not before that of \<^verbatim>\<open>strstr\<close>.
\<close>

theorem strstr_main_positions:
  assumes "fill_strings rnd 0 (PAGE_SZ * nr_pages - 1) = (str, substr)" "substr \<noteq> []"
  shows "\<exists>pos my_pos my_hash_pos.
    strstr_main rnd junk nr_pages = Some (pos, my_pos, my_hash_pos, pos = my_pos) \<and>
    pos = (case strstr_pos str substr of Some i \<Rightarrow> int i | None \<Rightarrow> -1) \<and>
    (my_hash_pos = pos \<or> my_hash_pos = -1 \<and> pos = int (length str) - int (length substr)) \<and>
    (my_pos = -1 \<or> 0 \<le> pos \<and> pos \<le> my_pos)"
proof -
  have len: "length substr \<le> length str" using length_fill_strings [of rnd 0 "PAGE_SZ * nr_pages - 1"] assms(1) by simp
  let ?pos = "case strstr_pos str substr of Some i \<Rightarrow> int i | None \<Rightarrow> -1"
  obtain r where r: "my_strstr junk str substr = Some r"
      "r = -1 \<or> (\<exists>k. r = int k \<and> occurs_at substr str k \<and> k + length substr < length str)"
    using my_strstr_cases [OF assms(2)] by blast
  obtain h where h: "my_strstr_hash str substr = Some h"
      "h = ?pos \<or> h = -1 \<and> ?pos = int (length str) - int (length substr)"
  proof (cases "strstr_pos str substr")
    case (Some i)
    then have "i + length substr \<le> length str" using strstr_pos_first occurs_at_def by metis
    then show ?thesis using that my_strstr_hash_cases [OF assms(2), of str] len Some by auto
  qed (use that my_strstr_hash_cases [OF assms(2), of str] len in auto)
  have "r = -1 \<or> 0 \<le> ?pos \<and> ?pos \<le> r"
  proof (rule disjCI)
    assume "\<not> (0 \<le> ?pos \<and> ?pos \<le> r)"
    then show "r = -1" using r(2) strstr_pos_none strstr_pos_first
      by (fastforce split: option.splits simp: not_less)
  qed
  then show ?thesis using r(1) h assms(1) by (simp add: strstr_main_def Let_def)
qed

theorem strstr_main_positions_witness:
  "\<exists>pos my_pos my_hash_pos.
    strstr_main (\<lambda>_. 1) (\<lambda>_. 7) 1 = Some (pos, my_pos, my_hash_pos, pos = my_pos) \<and>
    pos = (case strstr_pos (replicate 4095 CHR ''b'') (replicate 4095 CHR ''b'') of Some i \<Rightarrow> int i | None \<Rightarrow> -1) \<and>
    (my_hash_pos = pos \<or> my_hash_pos = -1 \<and>
       pos = int (length (replicate 4095 CHR ''b'')) - int (length (replicate 4095 CHR ''b''))) \<and>
    (my_pos = -1 \<or> 0 \<le> pos \<and> pos \<le> my_pos)"
  by (rule strstr_main_positions) (simp_all add: fill_strings_ones PAGE_SZ_def)

section \<open>The command line\<close>

text \<open>
  The program from its arguments (its own name first): the usage line, \<open>Some None\<close>, or the result of
  \<open>strstr_main\<close>. Without a number \<^verbatim>\<open>nr_pages\<close> stays 0; for no pages the code compares memory it does not
  have, and for a negative number it clears what it could not allocate: both are \<open>None\<close>.
\<close>

definition strstr_program :: "(nat \<Rightarrow> nat) \<Rightarrow> (nat \<Rightarrow> nat) \<Rightarrow> string list \<Rightarrow> (int \<times> int \<times> int \<times> bool) option option" where
  "strstr_program rnd junk argv =
     (if length argv < 2 then Some None
      else let nr_pages = scan_into (argv ! 1) 0
           in if nr_pages \<le> 0 then None else map_option Some (strstr_main rnd junk (nat nr_pages)))"

lemma strstr_program_int:
  "0 < n \<Longrightarrow> n < 2 ^ 31 \<Longrightarrow> strstr_program rnd junk [prog, int_string (int n)] = map_option Some (strstr_main rnd junk n)"
  by (simp add: strstr_program_def scan_into_int_string)

end
