(* ===== verification/Alloc_Spec.thy ===== *)
theory Alloc_Spec
  imports C_Library
begin

text \<open>
  What the two allocation trackers \<^verbatim>\<open>src/malloc_stats.c\<close> and \<^verbatim>\<open>src/malloc_stats_hcreate.c\<close> promise:
  per allocation string the number of allocations and of frees, the strings in the order of
  their first use, and for every live pointer the string it was allocated under. A locale
  states the contract of a tracker against this specification; the laws of whole runs are
  proved in it once.
\<close>

section \<open>The abstract tracker\<close>

record alloc_abs =
  a_stat :: "string \<rightharpoonup> u64 \<times> u64"
  a_live :: "u64 \<rightharpoonup> string"
  a_order :: "string list"

definition a_init :: alloc_abs where
  "a_init = \<lparr>a_stat = Map.empty, a_live = Map.empty, a_order = []\<rparr>"

definition a_alloc :: "u64 \<Rightarrow> string \<Rightarrow> alloc_abs \<Rightarrow> alloc_abs" where
  "a_alloc ptr s a =
     (case a_stat a s of
        Some (n, f) \<Rightarrow> a\<lparr>a_stat := (a_stat a)(s \<mapsto> (n + 1, f)), a_live := (a_live a)(ptr \<mapsto> s)\<rparr>
      | None \<Rightarrow> a\<lparr>a_stat := (a_stat a)(s \<mapsto> (1, 0)), a_live := (a_live a)(ptr \<mapsto> s), a_order := a_order a @ [s]\<rparr>)"

definition a_free :: "u64 \<Rightarrow> alloc_abs \<Rightarrow> alloc_abs" where
  "a_free ptr a =
     (case a_live a ptr of
        None \<Rightarrow> a
      | Some s \<Rightarrow>
          (case a_stat a s of
             None \<Rightarrow> a\<lparr>a_live := (a_live a)(ptr := None)\<rparr>
           | Some (n, f) \<Rightarrow> a\<lparr>a_stat := (a_stat a)(s \<mapsto> (n, f + 1)), a_live := (a_live a)(ptr := None)\<rparr>))"

text \<open>A row of the report: string, allocations, frees and their difference.\<close>

type_synonym stat_row = "string \<times> u64 \<times> u64 \<times> u64"

definition a_row :: "alloc_abs \<Rightarrow> string \<Rightarrow> stat_row list" where
  "a_row a s = (case a_stat a s of None \<Rightarrow> [] | Some (n, f) \<Rightarrow> [(s, n, f, n - f)])"

definition a_report :: "alloc_abs \<Rightarrow> stat_row list" where
  "a_report a = concat (map (a_row a) (a_order a))"

section \<open>Runs of a client\<close>

datatype alloc_op = Alloc u64 int string | Free u64

fun a_step :: "alloc_op \<Rightarrow> alloc_abs \<Rightarrow> alloc_abs" where
  "a_step (Alloc ptr n s) a = a_alloc ptr s a"
| "a_step (Free ptr) a = a_free ptr a"

definition a_run :: "alloc_op list \<Rightarrow> alloc_abs \<Rightarrow> alloc_abs" where
  "a_run ops a = fold a_step ops a"

text \<open>
  The discipline of the C allocator and its client: an allocated pointer is not live, a freed
  one is.
\<close>

fun client_ok :: "alloc_op list \<Rightarrow> u64 set \<Rightarrow> bool" where
  "client_ok [] L = True"
| "client_ok (Alloc ptr n s # ops) L = (ptr \<notin> L \<and> client_ok ops (insert ptr L))"
| "client_ok (Free ptr # ops) L = (ptr \<in> L \<and> client_ok ops (L - {ptr}))"

fun op_strings :: "alloc_op list \<Rightarrow> string set" where
  "op_strings [] = {}"
| "op_strings (Alloc ptr n s # ops) = insert s (op_strings ops)"
| "op_strings (Free ptr # ops) = op_strings ops"

fun nr_alloc_ops :: "string \<Rightarrow> alloc_op list \<Rightarrow> nat" where
  "nr_alloc_ops s [] = 0"
| "nr_alloc_ops s (Alloc ptr n t # ops) = (if t = s then 1 else 0) + nr_alloc_ops s ops"
| "nr_alloc_ops s (Free ptr # ops) = nr_alloc_ops s ops"

section \<open>Invariant of the specification\<close>

definition live_of :: "alloc_abs \<Rightarrow> string \<Rightarrow> u64 set" where
  "live_of a s = {p. a_live a p = Some s}"

definition a_inv :: "alloc_abs \<Rightarrow> bool" where
  "a_inv a \<longleftrightarrow> distinct (a_order a) \<and> set (a_order a) = dom (a_stat a) \<and> ran (a_live a) \<subseteq> dom (a_stat a) \<and>
     (\<forall>s n f. a_stat a s = Some (n, f) \<longrightarrow> n - f = word_of_nat (card (live_of a s)))"

lemma a_inv_init: "a_inv a_init"
  by (simp add: a_inv_def a_init_def)

lemma finite_live [simp]: "finite (live_of a s)"
  by (rule finite_subset [of _ UNIV]) auto

lemma live_of_alloc:
  assumes "a_live a ptr = None"
  shows "live_of (a_alloc ptr s a) t = (if t = s then insert ptr (live_of a t) else live_of a t)"
    "ptr \<notin> live_of a t"
  using assms by (auto simp: live_of_def a_alloc_def split: option.splits)

lemma live_of_free:
  "live_of (a_free ptr a) t = live_of a t - {ptr}"
  by (auto simp: live_of_def a_free_def split: option.splits)

lemma dom_live_alloc [simp]: "dom (a_live (a_alloc ptr s a)) = insert ptr (dom (a_live a))"
  by (auto simp: a_alloc_def split: option.splits)

lemma dom_live_free [simp]: "dom (a_live (a_free ptr a)) = dom (a_live a) - {ptr}"
  by (auto simp: a_free_def split: option.splits)

lemma dom_stat_alloc [simp]: "dom (a_stat (a_alloc ptr s a)) = insert s (dom (a_stat a))"
  by (auto simp: a_alloc_def split: option.splits)

lemma dom_stat_free [simp]: "dom (a_stat (a_free ptr a)) = dom (a_stat a)"
  by (auto simp: a_free_def split: option.splits)

lemma a_inv_alloc:
  assumes "a_inv a" "a_live a ptr = None"
  shows "a_inv (a_alloc ptr s a)"
proof -
  have bal: "n - f = word_of_nat (card (live_of (a_alloc ptr s a) t))"
    if "a_stat (a_alloc ptr s a) t = Some (n, f)" for t n f
  proof (cases "t = s")
    case False
    then have "a_stat a t = Some (n, f)" using that by (auto simp: a_alloc_def split: option.splits)
    then show ?thesis using assms False by (simp add: live_of_alloc a_inv_def)
  next
    case True
    have c: "card (live_of (a_alloc ptr s a) s) = Suc (card (live_of a s))"
      using live_of_alloc [OF assms(2)] by simp
    show ?thesis
    proof (cases "a_stat a s")
      case None
      then have "live_of a s = {}" using assms(1) by (auto simp: a_inv_def live_of_def ran_def)
      then show ?thesis using that True None c by (auto simp: a_alloc_def)
    next
      case (Some v)
      obtain m g where v: "v = (m, g)" by (cases v)
      then have "n = m + 1" "f = g" using that True Some by (auto simp: a_alloc_def)
      moreover have "m - g = word_of_nat (card (live_of a s))" using assms(1) Some v by (simp add: a_inv_def)
      ultimately show ?thesis using True c by (simp add: algebra_simps)
    qed
  qed
  have "distinct (a_order (a_alloc ptr s a)) \<and> set (a_order (a_alloc ptr s a)) = insert s (dom (a_stat a))"
    using assms(1) by (auto simp: a_inv_def a_alloc_def split: option.splits)
  moreover have "ran (a_live (a_alloc ptr s a)) \<subseteq> insert s (dom (a_stat a))"
    using assms(1) by (auto simp: a_inv_def a_alloc_def ran_def split: option.splits if_splits)
  ultimately show ?thesis using bal by (simp add: a_inv_def)
qed

lemma a_inv_free:
  assumes "a_inv a"
  shows "a_inv (a_free ptr a)"
proof (cases "a_live a ptr")
  case None
  then show ?thesis using assms by (simp add: a_free_def)
next
  case (Some s)
  then obtain n0 f0 where s: "a_stat a s = Some (n0, f0)"
    using assms by (force simp: a_inv_def ran_def dom_def)
  have free: "a_free ptr a = a\<lparr>a_stat := (a_stat a)(s \<mapsto> (n0, f0 + 1)), a_live := (a_live a)(ptr := None)\<rparr>"
    using Some s by (simp add: a_free_def)
  have c: "Suc (card (live_of a s - {ptr})) = card (live_of a s)"
    using Some by (intro card_Suc_Diff1) (auto simp: live_of_def)
  have other: "ptr \<notin> live_of a t" if "t \<noteq> s" for t using that Some by (simp add: live_of_def)
  have bal: "n - f = word_of_nat (card (live_of (a_free ptr a) t))"
    if "a_stat (a_free ptr a) t = Some (n, f)" for t n f
  proof (cases "t = s")
    case False
    then have "a_stat a t = Some (n, f)" using that free by simp
    then show ?thesis using assms other [OF False] by (simp add: live_of_free a_inv_def)
  next
    case True
    then have "n = n0" "f = f0 + 1" using that free by auto
    moreover have "n0 - f0 = word_of_nat (Suc (card (live_of a s - {ptr})))"
      using assms s c by (simp add: a_inv_def)
    ultimately show ?thesis using True by (simp add: live_of_free algebra_simps)
  qed
  have "ran (a_live (a_free ptr a)) \<subseteq> dom (a_stat a)"
    using assms free by (auto simp: a_inv_def ran_def)
  then show ?thesis using bal assms free by (simp add: a_inv_def insert_absorb domI [of "a_stat a" s, OF s])
qed

text \<open>The number of allocations under a string is counted modulo \<open>2 ^ 64\<close>.\<close>

definition nr_allocs_of :: "alloc_abs \<Rightarrow> string \<Rightarrow> u64" where
  "nr_allocs_of a s = (case a_stat a s of None \<Rightarrow> 0 | Some (n, f) \<Rightarrow> n)"

lemma nr_allocs_of_alloc:
  "nr_allocs_of (a_alloc ptr t a) s = nr_allocs_of a s + (if t = s then 1 else 0)"
  by (auto simp: nr_allocs_of_def a_alloc_def split: option.splits)

lemma nr_allocs_of_free: "nr_allocs_of (a_free ptr a) s = nr_allocs_of a s"
  by (auto simp: nr_allocs_of_def a_free_def split: option.splits)

lemma a_run_simps [simp]:
  "a_run [] a = a" "a_run (x # ops) a = a_run ops (a_step x a)"
  by (simp_all add: a_run_def)

lemma a_run_inv: "client_ok ops (dom (a_live a)) \<Longrightarrow> a_inv a \<Longrightarrow> a_inv (a_run ops a)"
proof (induction ops arbitrary: a)
  case (Cons x ops)
  then show ?case by (cases x) (auto simp: a_inv_alloc a_inv_free domIff)
qed simp

lemma a_run_counts: "nr_allocs_of (a_run ops a) s = nr_allocs_of a s + word_of_nat (nr_alloc_ops s ops)"
proof (induction ops arbitrary: a)
  case (Cons x ops)
  then show ?case by (cases x) (simp_all add: nr_allocs_of_alloc nr_allocs_of_free)
qed simp

lemma a_run_strings: "dom (a_stat (a_run ops a)) = dom (a_stat a) \<union> op_strings ops"
proof (induction ops arbitrary: a)
  case (Cons x ops)
  then show ?case by (cases x) auto
qed simp

text \<open>
  The report of a state within the invariant has one row per string, in order, and the
  difference in the row is the number of live pointers.
\<close>

definition row_of :: "alloc_abs \<Rightarrow> string \<Rightarrow> stat_row" where
  "row_of a s = (let n = nr_allocs_of a s; d = word_of_nat (card (live_of a s)) in (s, n, n - d, d))"

lemma a_report_rows: "a_inv a \<Longrightarrow> a_report a = map (row_of a) (a_order a)"
proof -
  assume i: "a_inv a"
  have "a_row a s = [row_of a s]" if "s \<in> set (a_order a)" for s
  proof -
    have "s \<in> dom (a_stat a)" using i that by (simp add: a_inv_def)
    then obtain n f where "a_stat a s = Some (n, f)" by auto
    moreover from this have d: "word_of_nat (card (live_of a s)) = n - f" using i by (simp add: a_inv_def)
    ultimately show ?thesis by (simp add: a_row_def row_of_def nr_allocs_of_def Let_def d)
  qed
  then have "map (a_row a) (a_order a) = map (\<lambda>s. [row_of a s]) (a_order a)" by simp
  then show ?thesis by (simp only: a_report_def concat_map_singleton)
qed

section \<open>The contract of a tracker\<close>

text \<open>
  \<open>room a s\<close> says that the tracker has a place for the string \<open>s\<close>; \<open>alloc\<close> and \<open>free\<close> return
  \<open>None\<close> when they leave the defined behaviour of C or abort.
\<close>

fun track_run ::
  "(u64 \<Rightarrow> int \<Rightarrow> string \<Rightarrow> 'st \<Rightarrow> 'st option) \<Rightarrow> (u64 \<Rightarrow> 'st \<Rightarrow> 'st option) \<Rightarrow>
     alloc_op list \<Rightarrow> 'st \<Rightarrow> 'st option" where
  "track_run alloc release [] st = Some st"
| "track_run alloc release (Alloc ptr n s # ops) st = Option.bind (alloc ptr n s st) (track_run alloc release ops)"
| "track_run alloc release (Free ptr # ops) st = Option.bind (release ptr st) (track_run alloc release ops)"

locale alloc_tracker =
  fixes init :: 'st
    and alloc :: "u64 \<Rightarrow> int \<Rightarrow> string \<Rightarrow> 'st \<Rightarrow> 'st option"
    and release :: "u64 \<Rightarrow> 'st \<Rightarrow> 'st option"
    and report :: "'st \<Rightarrow> stat_row list"
    and invar :: "'st \<Rightarrow> bool"
    and abs :: "'st \<Rightarrow> alloc_abs"
    and max_strings :: nat
  assumes init_ok: "invar init" "abs init = a_init"
    and alloc_ok: "invar st \<Longrightarrow> a_inv (abs st) \<Longrightarrow> a_live (abs st) ptr = None \<Longrightarrow>
      s \<in> dom (a_stat (abs st)) \<or> length (a_order (abs st)) < max_strings \<Longrightarrow>
      \<exists>st'. alloc ptr n s st = Some st' \<and> invar st' \<and> abs st' = a_alloc ptr s (abs st)"
    and release_ok: "invar st \<Longrightarrow> a_inv (abs st) \<Longrightarrow> a_live (abs st) ptr \<noteq> None \<Longrightarrow>
      \<exists>st'. release ptr st = Some st' \<and> invar st' \<and> abs st' = a_free ptr (abs st)"
    and report_ok: "invar st \<Longrightarrow> a_inv (abs st) \<Longrightarrow> report st = a_report (abs st)"
begin

abbreviation run :: "alloc_op list \<Rightarrow> 'st \<Rightarrow> 'st option" where
  "run \<equiv> track_run alloc release"

lemma run_refines:
  assumes "invar st" "a_inv (abs st)" "client_ok ops (dom (a_live (abs st)))"
    "card (dom (a_stat (abs st)) \<union> op_strings ops) \<le> max_strings" "finite (op_strings ops)"
  shows "\<exists>st'. run ops st = Some st' \<and> invar st' \<and> abs st' = a_run ops (abs st)"
  using assms
proof (induction ops arbitrary: st)
  case (Cons x ops)
  show ?case
  proof (cases x)
    case (Alloc ptr n s)
    have live: "a_live (abs st) ptr = None" using Cons.prems(3) Alloc by auto
    have len: "length (a_order (abs st)) = card (dom (a_stat (abs st)))"
      using Cons.prems(2) distinct_card by (fastforce simp: a_inv_def)
    have fin: "finite (dom (a_stat (abs st)))" using Cons.prems(2) by (metis a_inv_def finite_set)
    have "s \<in> dom (a_stat (abs st)) \<or> length (a_order (abs st)) < max_strings"
    proof (rule disjCI)
      assume full: "\<not> length (a_order (abs st)) < max_strings"
      have "card (dom (a_stat (abs st))) \<le> card (insert s (dom (a_stat (abs st)) \<union> op_strings ops))"
        using fin Cons.prems(5) Alloc by (intro card_mono) auto
      then have "card (dom (a_stat (abs st))) = card (dom (a_stat (abs st)) \<union> op_strings (x # ops))"
        using full len Cons.prems(4) Alloc by simp
      moreover have "finite (dom (a_stat (abs st)) \<union> op_strings (x # ops))" using fin Cons.prems(5) by simp
      ultimately have "dom (a_stat (abs st)) = dom (a_stat (abs st)) \<union> op_strings (x # ops)"
        by (intro card_subset_eq) auto
      then show "s \<in> dom (a_stat (abs st))" using Alloc by auto
    qed
    then obtain st' where st': "alloc ptr n s st = Some st'" "invar st'" "abs st' = a_alloc ptr s (abs st)"
      using alloc_ok [OF Cons.prems(1,2) live] by blast
    then show ?thesis using Cons.IH [of st'] Cons.prems Alloc live by (simp add: a_inv_alloc)
  next
    case (Free ptr)
    have "a_live (abs st) ptr \<noteq> None" using Cons.prems(3) Free by auto
    then obtain st' where st': "release ptr st = Some st'" "invar st'" "abs st' = a_free ptr (abs st)"
      using release_ok [OF Cons.prems(1,2)] by blast
    then show ?thesis using Cons.IH [of st'] Cons.prems Free by (simp add: a_inv_free)
  qed
qed simp

text \<open>A run of a disciplined client with few enough strings ends, and the report is that of the specification.\<close>

lemma run_report:
  assumes "client_ok ops {}" "card (op_strings ops) \<le> max_strings" "finite (op_strings ops)"
  shows "\<exists>st'. run ops init = Some st' \<and> report st' = map (row_of (a_run ops a_init)) (a_order (a_run ops a_init)) \<and>
    a_inv (a_run ops a_init)"
proof -
  have "dom (a_live a_init) = {}" "dom (a_stat a_init) = {}" by (simp_all add: a_init_def)
  then obtain st' where "run ops init = Some st'" "invar st'" "abs st' = a_run ops a_init"
    using run_refines [of init ops] assms init_ok a_inv_init by (metis Un_empty_left)
  moreover have "a_inv (a_run ops a_init)" using assms(1) a_inv_init
    by (intro a_run_inv) (simp_all add: a_init_def)
  ultimately show ?thesis using report_ok [of st'] a_report_rows by auto
qed

end

section \<open>The client program\<close>

text \<open>
  The \<^verbatim>\<open>main\<close> of both trackers: it allocates \<open>n\<close> times 20 bytes under one of twenty strings, frees
  about half of the pointers and prints the statistics. \<open>rnd k\<close> is the result of call number
  \<open>k\<close> of \<^verbatim>\<open>random\<close>, \<open>mem i\<close> the pointer that allocation number \<open>i\<close> gets.
\<close>

definition main_string :: "(nat \<Rightarrow> nat) \<Rightarrow> nat \<Rightarrow> string" where
  "main_string rnd i = ''alloc '' @ dec_string (rnd i mod 20)"

definition main_freed :: "(nat \<Rightarrow> nat) \<Rightarrow> nat \<Rightarrow> nat \<Rightarrow> bool" where
  "main_freed rnd n i \<longleftrightarrow> rnd (n + i) mod 2 = 0"

definition main_ops :: "(nat \<Rightarrow> nat) \<Rightarrow> (nat \<Rightarrow> u64) \<Rightarrow> nat \<Rightarrow> alloc_op list" where
  "main_ops rnd mem n =
     map (\<lambda>i. Alloc (mem i) 20 (main_string rnd i)) [0..<n] @
     concat (map (\<lambda>i. if main_freed rnd n i then [Free (mem i)] else []) [0..<n])"

text \<open>
  The program around the calls, from its arguments to the rows printed: without an argument it only
  prints its usage; an argument that is no number leaves 30 iterations.
\<close>

definition alloc_program :: "(nat \<Rightarrow> stat_row list option) \<Rightarrow> string list \<Rightarrow> (string + stat_row list) option" where
  "alloc_program calls argv =
     (if length argv < 2 then Some (Inl (''Usage: '' @ argv ! 0 @ '' <max_iters>'' @ [CHR 0x0A]))
      else map_option Inr (calls (nat (scan_into (argv ! 1) 30))))"

lemma alloc_program_int_string: "n < 2 ^ 31 \<Longrightarrow> alloc_program calls [prog, int_string (int n)] = map_option Inr (calls n)"
  by (simp add: alloc_program_def scan_into_int_string)


definition main_row :: "(nat \<Rightarrow> nat) \<Rightarrow> nat \<Rightarrow> string \<Rightarrow> stat_row" where
  "main_row rnd n s =
     (s, word_of_nat (card {i. i < n \<and> main_string rnd i = s}),
      word_of_nat (card {i. i < n \<and> main_string rnd i = s \<and> main_freed rnd n i}),
      word_of_nat (card {i. i < n \<and> main_string rnd i = s \<and> \<not> main_freed rnd n i}))"

lemma a_run_append [simp]: "a_run (xs @ ys) a = a_run ys (a_run xs a)"
  by (simp add: a_run_def)

lemma client_ok_append:
  "client_ok (xs @ ys) (dom (a_live a)) \<longleftrightarrow>
     client_ok xs (dom (a_live a)) \<and> client_ok ys (dom (a_live (a_run xs a)))"
proof (induction xs arbitrary: a)
  case (Cons x xs)
  show ?case using Cons [of "a_step x a"] by (cases x) simp_all
qed simp

lemma op_strings_append [simp]: "op_strings (xs @ ys) = op_strings xs \<union> op_strings ys"
  by (induction xs rule: op_strings.induct) auto

lemma nr_alloc_ops_append [simp]: "nr_alloc_ops s (xs @ ys) = nr_alloc_ops s xs + nr_alloc_ops s ys"
  by (induction s xs rule: nr_alloc_ops.induct) auto

abbreviation main_allocs :: "(nat \<Rightarrow> nat) \<Rightarrow> (nat \<Rightarrow> u64) \<Rightarrow> nat \<Rightarrow> alloc_op list" where
  "main_allocs rnd mem n \<equiv> map (\<lambda>i. Alloc (mem i) 20 (main_string rnd i)) [0..<n]"

abbreviation main_frees :: "(nat \<Rightarrow> nat) \<Rightarrow> (nat \<Rightarrow> u64) \<Rightarrow> nat \<Rightarrow> nat \<Rightarrow> alloc_op list" where
  "main_frees rnd mem n k \<equiv> concat (map (\<lambda>i. if main_freed rnd n i then [Free (mem i)] else []) [0..<k])"

lemma main_allocs_live:
  assumes "inj_on mem {..<n}"
  shows "client_ok (main_allocs rnd mem n) (dom (a_live a_init)) \<and>
    dom (a_live (a_run (main_allocs rnd mem n) a_init)) = mem ` {..<n} \<and>
    (\<forall>s. live_of (a_run (main_allocs rnd mem n) a_init) s = mem ` {i. i < n \<and> main_string rnd i = s})"
  using assms
proof (induction n)
  case 0
  then show ?case by (simp add: a_init_def live_of_def)
next
  case (Suc n)
  let ?a = "a_run (main_allocs rnd mem n) a_init"
  have IH: "client_ok (main_allocs rnd mem n) (dom (a_live a_init))" "dom (a_live ?a) = mem ` {..<n}"
    "\<And>s. live_of ?a s = mem ` {i. i < n \<and> main_string rnd i = s}"
    using Suc by (auto simp: lessThan_Suc)
  have new: "mem n \<notin> mem ` {..<n}" using Suc.prems by (auto simp: lessThan_Suc)
  then have none: "a_live ?a (mem n) = None" using IH(2) by (metis domIff)
  have "live_of (a_alloc (mem n) (main_string rnd n) ?a) s = mem ` {i. i < Suc n \<and> main_string rnd i = s}" for s
    unfolding live_of_alloc [OF none] IH(3) by (auto simp: less_Suc_eq)
  moreover have "insert (mem n) (mem ` {..<n}) = mem ` {..<Suc n}" by (auto simp: lessThan_Suc)
  ultimately show ?case using IH new by (simp add: client_ok_append)
qed

lemma main_frees_live:
  assumes "inj_on mem {..<n}" "k \<le> n" "dom (a_live a) = mem ` {..<n}"
    "\<And>s. live_of a s = mem ` {i. i < n \<and> main_string rnd i = s}"
  shows "client_ok (main_frees rnd mem n k) (dom (a_live a)) \<and>
    dom (a_live (a_run (main_frees rnd mem n k) a)) = mem ` {i. i < n \<and> \<not> (i < k \<and> main_freed rnd n i)} \<and>
    (\<forall>s. live_of (a_run (main_frees rnd mem n k) a) s =
       mem ` {i. i < n \<and> main_string rnd i = s \<and> \<not> (i < k \<and> main_freed rnd n i)})"
  using assms(2)
proof (induction k)
  case 0
  have "{i. i < n} = {..<n}" by auto
  then show ?case using assms(3,4) by simp
next
  case (Suc k)
  let ?a = "a_run (main_frees rnd mem n k) a"
  have IH: "client_ok (main_frees rnd mem n k) (dom (a_live a))"
    "dom (a_live ?a) = mem ` {i. i < n \<and> \<not> (i < k \<and> main_freed rnd n i)}"
    "\<And>s. live_of ?a s = mem ` {i. i < n \<and> main_string rnd i = s \<and> \<not> (i < k \<and> main_freed rnd n i)}"
    using Suc by auto
  show ?case
  proof (cases "main_freed rnd n k")
    case False
    then have "i < k \<and> main_freed rnd n i \<longleftrightarrow> i < Suc k \<and> main_freed rnd n i" for i by (auto simp: less_Suc_eq)
    then show ?thesis using IH False by simp
  next
    case True
    have diff: "mem ` {i. i < n \<and> P i \<and> \<not> (i < k \<and> main_freed rnd n i)} - {mem k} =
        mem ` {i. i < n \<and> P i \<and> \<not> (i < Suc k \<and> main_freed rnd n i)}" for P
      using assms(1) Suc.prems True by (auto simp: less_Suc_eq inj_on_eq_iff)
    have "mem k \<in> dom (a_live ?a)" using IH(2) Suc.prems by auto
    then show ?thesis using IH True diff diff [of "\<lambda>_. True"] by (simp add: client_ok_append live_of_free)
  qed
qed

lemma main_ops_split: "main_ops rnd mem n = main_allocs rnd mem n @ main_frees rnd mem n n"
  by (simp add: main_ops_def)

lemma main_ops_client:
  assumes "inj_on mem {..<n}"
  shows "client_ok (main_ops rnd mem n) {}"
    "live_of (a_run (main_ops rnd mem n) a_init) s =
       mem ` {i. i < n \<and> main_string rnd i = s \<and> \<not> main_freed rnd n i}"
proof -
  note A = main_allocs_live [OF assms, of rnd]
  have D: "dom (a_live a_init) = {}" by (simp add: a_init_def)
  note F = main_frees_live [OF assms order_refl A [THEN conjunct2, THEN conjunct1]
      A [THEN conjunct2, THEN conjunct2, rule_format]]
  have "client_ok (main_allocs rnd mem n @ main_frees rnd mem n n) (dom (a_live a_init))"
    unfolding client_ok_append using A [THEN conjunct1] F [THEN conjunct1] by (rule conjI)
  then show "client_ok (main_ops rnd mem n) {}" by (simp only: main_ops_split D)
  have "{i. i < n \<and> main_string rnd i = s \<and> \<not> (i < n \<and> main_freed rnd n i)} =
      {i. i < n \<and> main_string rnd i = s \<and> \<not> main_freed rnd n i}" by auto
  then show "live_of (a_run (main_ops rnd mem n) a_init) s =
      mem ` {i. i < n \<and> main_string rnd i = s \<and> \<not> main_freed rnd n i}"
    unfolding main_ops_split using F [THEN conjunct2, THEN conjunct2, rule_format, of s] by simp
qed

lemma op_strings_main: "op_strings (main_ops rnd mem n) = main_string rnd ` {..<n}"
proof -
  have "op_strings (main_allocs rnd mem n) = main_string rnd ` {..<n}"
    by (induction n) (auto simp: lessThan_Suc)
  moreover have "op_strings (main_frees rnd mem n k) = {}" for k
    by (induction k) auto
  ultimately show ?thesis by (simp add: main_ops_split)
qed

lemma nr_alloc_ops_main: "nr_alloc_ops s (main_ops rnd mem n) = card {i. i < n \<and> main_string rnd i = s}"
proof -
  have "nr_alloc_ops s (main_allocs rnd mem n) = card {i. i < n \<and> main_string rnd i = s}" for n
  proof (induction n)
    case (Suc n)
    have "{i. i < Suc n \<and> main_string rnd i = s} =
        (if main_string rnd n = s then insert n {i. i < n \<and> main_string rnd i = s}
         else {i. i < n \<and> main_string rnd i = s})" by (auto simp: less_Suc_eq)
    then show ?case using Suc by simp
  qed simp
  moreover have "nr_alloc_ops s (main_frees rnd mem n k) = 0" for k
    by (induction k) auto
  ultimately show ?thesis by (simp add: main_ops_split)
qed

text \<open>At most twenty strings are in use.\<close>

lemma card_main_strings: "card (main_string rnd ` {..<n}) \<le> 20"
proof -
  have "main_string rnd ` {..<n} \<subseteq> (\<lambda>j. ''alloc '' @ dec_string j) ` {..<20}"
    by (auto simp: main_string_def)
  then have "card (main_string rnd ` {..<n}) \<le> card ((\<lambda>j. ''alloc '' @ dec_string j) ` {..<20})"
    by (intro card_mono) auto
  also have "\<dots> \<le> card {..<20::nat}" by (rule card_image_le) simp
  finally show ?thesis by simp
qed

lemma row_of_main:
  assumes "inj_on mem {..<n}"
  shows "row_of (a_run (main_ops rnd mem n) a_init) s = main_row rnd n s"
proof -
  let ?S = "{i. i < n \<and> main_string rnd i = s}"
  let ?F = "{i. i < n \<and> main_string rnd i = s \<and> main_freed rnd n i}"
  let ?L = "{i. i < n \<and> main_string rnd i = s \<and> \<not> main_freed rnd n i}"
  have "card (mem ` ?L) = card ?L" using assms by (intro card_image) (auto simp: inj_on_def)
  then have l: "card (live_of (a_run (main_ops rnd mem n) a_init) s) = card ?L"
    by (simp add: main_ops_client(2) [OF assms])
  have "?S = ?F \<union> ?L" "?F \<inter> ?L = {}" by auto
  then have c: "card ?S = card ?F + card ?L" by (simp add: card_Un_disjoint)
  have "nr_allocs_of (a_run (main_ops rnd mem n) a_init) s = word_of_nat (card ?S)"
    unfolding a_run_counts nr_alloc_ops_main by (simp add: nr_allocs_of_def a_init_def)
  then show ?thesis using l c by (simp add: row_of_def main_row_def Let_def)
qed

context alloc_tracker
begin

lemma main_report:
  assumes "inj_on mem {..<n}" "20 \<le> max_strings"
  shows "\<exists>st order. run (main_ops rnd mem n) init = Some st \<and> report st = map (main_row rnd n) order \<and>
    distinct order \<and> set order = main_string rnd ` {..<n}"
proof -
  let ?a = "a_run (main_ops rnd mem n) a_init"
  have few: "card (op_strings (main_ops rnd mem n)) \<le> max_strings"
    using card_main_strings [of rnd n] assms(2) by (simp add: op_strings_main)
  have fin: "finite (op_strings (main_ops rnd mem n))" by (simp add: op_strings_main)
  obtain st where st: "run (main_ops rnd mem n) init = Some st" "report st = map (row_of ?a) (a_order ?a)" "a_inv ?a"
    using run_report [OF main_ops_client(1) [OF assms(1)] few fin] by blast
  have "row_of ?a = main_row rnd n" using row_of_main [OF assms(1)] by blast
  moreover have "set (a_order ?a) = main_string rnd ` {..<n}"
    using st(3) a_run_strings [of "main_ops rnd mem n" a_init] by (simp add: a_inv_def op_strings_main a_init_def)
  moreover have "distinct (a_order ?a)" using st(3) by (simp add: a_inv_def)
  ultimately show ?thesis using st(1,2) by (metis (no_types))
qed

end

section \<open>What a report tells a client\<close>

text \<open>
  The rows in terms of the client's calls alone: the number of allocations under the string, and
  the number of pointers that are still allocated under it.
\<close>

fun live_after :: "alloc_op list \<Rightarrow> (u64 \<rightharpoonup> string) \<Rightarrow> (u64 \<rightharpoonup> string)" where
  "live_after [] m = m"
| "live_after (Alloc ptr n s # ops) m = live_after ops (m(ptr \<mapsto> s))"
| "live_after (Free ptr # ops) m = live_after ops (m(ptr := None))"

definition client_row :: "alloc_op list \<Rightarrow> string \<Rightarrow> stat_row" where
  "client_row ops s =
     (let n = word_of_nat (nr_alloc_ops s ops); d = word_of_nat (card {p. live_after ops Map.empty p = Some s})
      in (s, n, n - d, d))"

lemma a_live_run: "a_live (a_run ops a) = live_after ops (a_live a)"
proof (induction ops arbitrary: a)
  case (Cons x ops)
  have "a_live (a_alloc ptr s a) = (a_live a)(ptr \<mapsto> s)" for ptr s
    by (simp add: a_alloc_def split: option.splits)
  moreover have "a_live (a_free ptr a) = (a_live a)(ptr := None)" for ptr
    by (auto simp: a_free_def split: option.splits)
  ultimately show ?case using Cons by (cases x) (simp_all add: fun_upd_def)
qed simp

lemma row_of_client: "row_of (a_run ops a_init) s = client_row ops s"
proof -
  have "nr_allocs_of (a_run ops a_init) s = word_of_nat (nr_alloc_ops s ops)"
    unfolding a_run_counts by (simp add: nr_allocs_of_def a_init_def)
  moreover have "live_of (a_run ops a_init) s = {p. live_after ops Map.empty p = Some s}"
    unfolding live_of_def a_live_run by (simp add: a_init_def)
  ultimately show ?thesis by (simp add: row_of_def client_row_def)
qed

lemma finite_op_strings [simp]: "finite (op_strings ops)"
  by (induction ops rule: op_strings.induct) auto

context alloc_tracker
begin

lemma client_report:
  assumes "client_ok ops {}" "card (op_strings ops) \<le> max_strings"
  shows "\<exists>st order. run ops init = Some st \<and> report st = map (client_row ops) order \<and>
    distinct order \<and> set order = op_strings ops"
proof -
  let ?a = "a_run ops a_init"
  obtain st where st: "run ops init = Some st" "report st = map (row_of ?a) (a_order ?a)" "a_inv ?a"
    using run_report [OF assms finite_op_strings] by blast
  moreover have "row_of ?a = client_row ops" using row_of_client by blast
  moreover have "set (a_order ?a) = op_strings ops"
    using st(3) a_run_strings [of ops a_init] by (simp add: a_inv_def a_init_def)
  moreover have "distinct (a_order ?a)" using st(3) by (simp add: a_inv_def)
  ultimately show ?thesis by metis
qed

end

end
