(* ===== verification/Malloc_Stats.thy ===== *)
theory Malloc_Stats
  imports Alloc_Spec "HOL-Library.Monad_Syntax"
begin

text \<open>
  The allocation tracker \<^verbatim>\<open>src/malloc_stats.c\<close>. Its two hash tables come from GLib: they are a
  parameter, a record of the calls the code makes, and \<open>ghash_ok\<close> states the documented laws of
  such a table. The objects the tables point to live in two arrays, an address being an index;
  they are changed in place through the pointers, as in the code. \<open>None\<close> is the use of an
  object that does not exist. The allocations the tracker makes for itself are taken to succeed.
\<close>

section \<open>Data\<close>

record ('t, 'k) ghash =
  g_hash_table_new :: 't
  g_hash_table_lookup :: "'t \<Rightarrow> 'k \<Rightarrow> nat option"
  g_hash_table_insert :: "'t \<Rightarrow> 'k \<Rightarrow> nat \<Rightarrow> 't"
  g_hash_table_remove :: "'t \<Rightarrow> 'k \<Rightarrow> 't"

definition ghash_ok :: "('t, 'k) ghash \<Rightarrow> bool" where
  "ghash_ok G \<longleftrightarrow>
     (\<forall>k. g_hash_table_lookup G (g_hash_table_new G) k = None) \<and>
     (\<forall>t k v k'. g_hash_table_lookup G (g_hash_table_insert G t k v) k' =
        (if k' = k then Some v else g_hash_table_lookup G t k')) \<and>
     (\<forall>t k k'. g_hash_table_lookup G (g_hash_table_remove G t k) k' =
        (if k' = k then None else g_hash_table_lookup G t k'))"

record alloc_data =
  alloc_string :: string
  ad_ptr :: u64
  ad_size :: int

record alloc_stat =
  nr_allocs :: u64
  nr_frees :: u64
  stat_string :: string

record ('s, 't) tracker =
  as_mem :: "alloc_stat list"
  ad_mem :: "alloc_data option list"
  alloc_stat_table :: 's
  alloc_track_table :: 't
  alloc_string_table :: "string list"

definition debug_init :: "('s, string) ghash \<Rightarrow> ('t, u64) ghash \<Rightarrow> ('s, 't) tracker" where
  "debug_init S T = \<lparr>as_mem = [], ad_mem = [], alloc_stat_table = g_hash_table_new S,
     alloc_track_table = g_hash_table_new T, alloc_string_table = []\<rparr>"

section \<open>Operations\<close>

text \<open>Access to an object through its address.\<close>

definition deref :: "'a list \<Rightarrow> nat \<Rightarrow> 'a option" where
  "deref xs i = (if i < length xs then Some (xs ! i) else None)"

definition debug_alloc ::
  "('s, string) ghash \<Rightarrow> ('t, u64) ghash \<Rightarrow> u64 \<Rightarrow> int \<Rightarrow> string \<Rightarrow> ('s, 't) tracker \<Rightarrow> ('s, 't) tracker option" where
  "debug_alloc S T ptr n s st = do {
     (as, st) \<leftarrow>
       (case g_hash_table_lookup S (alloc_stat_table st) s of
          Some as \<Rightarrow> do {
            ob \<leftarrow> deref (as_mem st) as;
            Some (as, st\<lparr>as_mem := (as_mem st)[as := ob\<lparr>nr_allocs := nr_allocs ob + 1\<rparr>]\<rparr>)
          }
        | None \<Rightarrow>
            let as = length (as_mem st);
                ob = \<lparr>nr_allocs = 0, nr_frees = 0, stat_string = s\<rparr>;
                ob = ob\<lparr>nr_allocs := nr_allocs ob + 1\<rparr>
            in Some (as, st\<lparr>as_mem := as_mem st @ [ob],
                 alloc_stat_table := g_hash_table_insert S (alloc_stat_table st) (stat_string ob) as,
                 alloc_string_table := alloc_string_table st @ [s]\<rparr>));
     ob \<leftarrow> deref (as_mem st) as;
     let ad = length (ad_mem st);
     Some (st\<lparr>ad_mem := ad_mem st @ [Some \<lparr>alloc_string = stat_string ob, ad_ptr = ptr, ad_size = n\<rparr>],
       alloc_track_table := g_hash_table_insert T (alloc_track_table st) ptr ad\<rparr>)
   }"

definition debug_free ::
  "('s, string) ghash \<Rightarrow> ('t, u64) ghash \<Rightarrow> u64 \<Rightarrow> ('s, 't) tracker \<Rightarrow> ('s, 't) tracker option" where
  "debug_free S T ptr st =
     (case g_hash_table_lookup T (alloc_track_table st) ptr of
        None \<Rightarrow> Some st
      | Some ad \<Rightarrow> do {
          od \<leftarrow> deref (ad_mem st) ad;
          d \<leftarrow> od;
          st \<leftarrow>
            (case g_hash_table_lookup S (alloc_stat_table st) (alloc_string d) of
               None \<Rightarrow> Some st
             | Some as \<Rightarrow> do {
                 ob \<leftarrow> deref (as_mem st) as;
                 Some (st\<lparr>as_mem := (as_mem st)[as := ob\<lparr>nr_frees := nr_frees ob + 1\<rparr>]\<rparr>)
               });
          let st = st\<lparr>ad_mem := (ad_mem st)[ad := None]\<rparr>;
          Some (st\<lparr>alloc_track_table := g_hash_table_remove T (alloc_track_table st) ptr\<rparr>)
        })"

text \<open>\<^verbatim>\<open>print_stats\<close>: the rows it prints, one per string that the table knows.\<close>

definition print_stats :: "('s, string) ghash \<Rightarrow> ('s, 't) tracker \<Rightarrow> stat_row list" where
  "print_stats S st =
     concat (map (\<lambda>s. case Option.bind (g_hash_table_lookup S (alloc_stat_table st) s) (deref (as_mem st)) of
         None \<Rightarrow> []
       | Some ob \<Rightarrow> [(s, nr_allocs ob, nr_frees ob, nr_allocs ob - nr_frees ob)]) (alloc_string_table st))"

text \<open>
  \<^verbatim>\<open>do_alloc\<close> and \<^verbatim>\<open>do_free\<close> with the pointer that \<^verbatim>\<open>malloc\<close> returns or \<^verbatim>\<open>free\<close> takes, and the whole
  program on the calls its \<^verbatim>\<open>main\<close> makes.
\<close>

definition malloc_stats_main ::
  "('s, string) ghash \<Rightarrow> ('t, u64) ghash \<Rightarrow> (nat \<Rightarrow> nat) \<Rightarrow> (nat \<Rightarrow> u64) \<Rightarrow> nat \<Rightarrow> stat_row list option" where
  "malloc_stats_main S T rnd mem max_iter =
     map_option (print_stats S)
       (track_run (debug_alloc S T) (debug_free S T) (main_ops rnd mem max_iter) (debug_init S T))"

section \<open>Refinement of the specification\<close>

definition ms_abs :: "('s, string) ghash \<Rightarrow> ('t, u64) ghash \<Rightarrow> ('s, 't) tracker \<Rightarrow> alloc_abs" where
  "ms_abs S T st =
     \<lparr>a_stat = (\<lambda>s. map_option (\<lambda>as. (nr_allocs (as_mem st ! as), nr_frees (as_mem st ! as)))
        (g_hash_table_lookup S (alloc_stat_table st) s)),
      a_live = (\<lambda>p. map_option (\<lambda>ad. alloc_string (the (ad_mem st ! ad)))
        (g_hash_table_lookup T (alloc_track_table st) p)),
      a_order = alloc_string_table st\<rparr>"

text \<open>
  Every entry of a table points to an object that exists and that carries the entry's key; so no
  two entries share an object.
\<close>

definition stats_ok :: "('s, string) ghash \<Rightarrow> ('s, 't) tracker \<Rightarrow> bool" where
  "stats_ok S st \<longleftrightarrow> (\<forall>s as. g_hash_table_lookup S (alloc_stat_table st) s = Some as \<longrightarrow>
     as < length (as_mem st) \<and> stat_string (as_mem st ! as) = s)"

definition tracks_ok :: "('t, u64) ghash \<Rightarrow> ('s, 't) tracker \<Rightarrow> bool" where
  "tracks_ok T st \<longleftrightarrow> (\<forall>p ad. g_hash_table_lookup T (alloc_track_table st) p = Some ad \<longrightarrow>
     ad < length (ad_mem st) \<and> (\<exists>d. ad_mem st ! ad = Some d \<and> ad_ptr d = p))"

definition ms_inv :: "('s, string) ghash \<Rightarrow> ('t, u64) ghash \<Rightarrow> ('s, 't) tracker \<Rightarrow> bool" where
  "ms_inv S T st \<longleftrightarrow> stats_ok S st \<and> tracks_ok T st"

lemma stats_okD:
  "stats_ok S st \<Longrightarrow> g_hash_table_lookup S (alloc_stat_table st) s = Some as \<Longrightarrow> as < length (as_mem st)"
  "stats_ok S st \<Longrightarrow> g_hash_table_lookup S (alloc_stat_table st) s = Some as \<Longrightarrow> stat_string (as_mem st ! as) = s"
  by (auto simp: stats_ok_def)

lemma tracks_okD:
  "tracks_ok T st \<Longrightarrow> g_hash_table_lookup T (alloc_track_table st) p = Some ad \<Longrightarrow> ad < length (ad_mem st)"
  "tracks_ok T st \<Longrightarrow> g_hash_table_lookup T (alloc_track_table st) p = Some ad \<Longrightarrow>
     \<exists>d. ad_mem st ! ad = Some d \<and> ad_ptr d = p"
  by (auto simp: tracks_ok_def)

lemma ghash_simps:
  assumes "ghash_ok G"
  shows "g_hash_table_lookup G (g_hash_table_new G) k = None"
    "g_hash_table_lookup G (g_hash_table_insert G t k v) k' = (if k' = k then Some v else g_hash_table_lookup G t k')"
    "g_hash_table_lookup G (g_hash_table_remove G t k) k' = (if k' = k then None else g_hash_table_lookup G t k')"
  using assms by (simp_all add: ghash_ok_def)

lemma debug_init_ok:
  assumes "ghash_ok S" "ghash_ok T"
  shows "ms_inv S T (debug_init S T)" "ms_abs S T (debug_init S T) = a_init"
  by (simp_all add: ms_inv_def stats_ok_def tracks_ok_def debug_init_def ms_abs_def a_init_def
      ghash_simps [OF assms(1)] ghash_simps [OF assms(2)])

lemma debug_alloc_known:
  assumes "g_hash_table_lookup S (alloc_stat_table st) s = Some as" "stats_ok S st"
  shows "debug_alloc S T ptr n s st = Some (st\<lparr>
    as_mem := (as_mem st)[as := (as_mem st ! as)\<lparr>nr_allocs := nr_allocs (as_mem st ! as) + 1\<rparr>],
    ad_mem := ad_mem st @ [Some \<lparr>alloc_string = s, ad_ptr = ptr, ad_size = n\<rparr>],
    alloc_track_table := g_hash_table_insert T (alloc_track_table st) ptr (length (ad_mem st))\<rparr>)"
  using stats_okD [OF assms(2,1)] assms(1) by (simp add: debug_alloc_def deref_def)

lemma debug_alloc_new:
  assumes "g_hash_table_lookup S (alloc_stat_table st) s = None"
  shows "debug_alloc S T ptr n s st = Some (st\<lparr>
    as_mem := as_mem st @ [\<lparr>nr_allocs = 1, nr_frees = 0, stat_string = s\<rparr>],
    alloc_stat_table := g_hash_table_insert S (alloc_stat_table st) s (length (as_mem st)),
    alloc_string_table := alloc_string_table st @ [s],
    ad_mem := ad_mem st @ [Some \<lparr>alloc_string = s, ad_ptr = ptr, ad_size = n\<rparr>],
    alloc_track_table := g_hash_table_insert T (alloc_track_table st) ptr (length (ad_mem st))\<rparr>)"
  using assms by (simp add: debug_alloc_def deref_def Let_def)

lemma tracks_ok_insert:
  assumes "tracks_ok T st" "ghash_ok T" "ad_mem st' = ad_mem st @ [Some d]" "ad_ptr d = ptr"
    "alloc_track_table st' = g_hash_table_insert T (alloc_track_table st) ptr (length (ad_mem st))"
  shows "tracks_ok T st'"
    "a_live (ms_abs S T st') = (a_live (ms_abs S T st))(ptr \<mapsto> alloc_string d)"
proof -
  show "tracks_ok T st'"
    unfolding tracks_ok_def
  proof (intro allI impI)
    fix p ad assume "g_hash_table_lookup T (alloc_track_table st') p = Some ad"
    then have "p = ptr \<and> ad = length (ad_mem st) \<or> g_hash_table_lookup T (alloc_track_table st) p = Some ad"
      by (auto simp: assms(5) ghash_simps [OF assms(2)] split: if_splits)
    then show "ad < length (ad_mem st') \<and> (\<exists>d. ad_mem st' ! ad = Some d \<and> ad_ptr d = p)"
      using tracks_okD [OF assms(1)] assms(3,4) by (auto simp: nth_append less_SucI)
  qed
  show "a_live (ms_abs S T st') = (a_live (ms_abs S T st))(ptr \<mapsto> alloc_string d)"
  proof
    fix p
    show "a_live (ms_abs S T st') p = ((a_live (ms_abs S T st))(ptr \<mapsto> alloc_string d)) p"
      using tracks_okD(1) [OF assms(1), of p] assms(3,5)
      by (cases "g_hash_table_lookup T (alloc_track_table st) p")
        (auto simp: ms_abs_def ghash_simps [OF assms(2)] nth_append)
  qed
qed

lemma debug_alloc_ok:
  assumes G: "ghash_ok S" "ghash_ok T" and inv: "ms_inv S T st"
  shows "\<exists>st'. debug_alloc S T ptr n s st = Some st' \<and> ms_inv S T st' \<and>
    ms_abs S T st' = a_alloc ptr s (ms_abs S T st)"
proof (cases "g_hash_table_lookup S (alloc_stat_table st) s")
  case None
  let ?st' = "the (debug_alloc S T ptr n s st)"
  note st' = debug_alloc_new [OF None, of T ptr n]
  have so: "stats_ok S st" and to: "tracks_ok T st" using inv by (auto simp: ms_inv_def)
  have T: "tracks_ok T ?st'" "a_live (ms_abs S T ?st') = (a_live (ms_abs S T st))(ptr \<mapsto> s)"
    using tracks_ok_insert(1) [OF to G(2), of ?st' _ ptr] tracks_ok_insert(2) [OF to G(2), of ?st' _ ptr S]
    by (simp_all add: st')
  have S: "stats_ok S ?st'"
    using so by (auto simp: stats_ok_def st' ghash_simps [OF G(1)] nth_append less_SucI split: if_splits)
  have "a_stat (ms_abs S T ?st') = (a_stat (ms_abs S T st))(s \<mapsto> (1, 0))"
  proof
    fix t
    show "a_stat (ms_abs S T ?st') t = ((a_stat (ms_abs S T st))(s \<mapsto> (1, 0))) t"
      using stats_okD(1) [OF so, of t]
      by (cases "g_hash_table_lookup S (alloc_stat_table st) t") (auto simp: ms_abs_def st' ghash_simps [OF G(1)] nth_append)
  qed
  moreover have "a_stat (ms_abs S T st) s = None" "a_order (ms_abs S T ?st') = a_order (ms_abs S T st) @ [s]"
    using None by (simp_all add: ms_abs_def st')
  ultimately have "ms_abs S T ?st' = a_alloc ptr s (ms_abs S T st)" using T(2) by (simp add: a_alloc_def)
  then show ?thesis using S T(1) st' by (auto simp: ms_inv_def)
next
  case (Some as)
  let ?st' = "the (debug_alloc S T ptr n s st)"
  have so: "stats_ok S st" and to: "tracks_ok T st" using inv by (auto simp: ms_inv_def)
  note st' = debug_alloc_known [OF Some so, of T ptr n]
  note as = stats_okD [OF so Some]
  have T: "tracks_ok T ?st'" "a_live (ms_abs S T ?st') = (a_live (ms_abs S T st))(ptr \<mapsto> s)"
    using tracks_ok_insert(1) [OF to G(2), of ?st' _ ptr] tracks_ok_insert(2) [OF to G(2), of ?st' _ ptr S]
    by (simp_all add: st')
  have S: "stats_ok S ?st'" using so as by (auto simp: stats_ok_def st' nth_list_update)
  have "a_stat (ms_abs S T ?st') =
      (a_stat (ms_abs S T st))(s \<mapsto> (nr_allocs (as_mem st ! as) + 1, nr_frees (as_mem st ! as)))"
  proof
    fix t
    show "a_stat (ms_abs S T ?st') t =
        ((a_stat (ms_abs S T st))(s \<mapsto> (nr_allocs (as_mem st ! as) + 1, nr_frees (as_mem st ! as)))) t"
      using stats_okD [OF so, of t] as Some
      by (cases "g_hash_table_lookup S (alloc_stat_table st) t") (auto simp: ms_abs_def st' nth_list_update)
  qed
  moreover have "a_stat (ms_abs S T st) s = Some (nr_allocs (as_mem st ! as), nr_frees (as_mem st ! as))"
      "a_order (ms_abs S T ?st') = a_order (ms_abs S T st)"
    using Some by (simp_all add: ms_abs_def st')
  ultimately have "ms_abs S T ?st' = a_alloc ptr s (ms_abs S T st)" using T(2) by (simp add: a_alloc_def)
  then show ?thesis using S T(1) st' by (auto simp: ms_inv_def)
qed

lemma debug_free_ok:
  assumes G: "ghash_ok S" "ghash_ok T" and inv: "ms_inv S T st" "a_inv (ms_abs S T st)"
    and live: "a_live (ms_abs S T st) ptr \<noteq> None"
  shows "\<exists>st'. debug_free S T ptr st = Some st' \<and> ms_inv S T st' \<and>
    ms_abs S T st' = a_free ptr (ms_abs S T st)"
proof -
  have so: "stats_ok S st" and to: "tracks_ok T st" using inv by (auto simp: ms_inv_def)
  obtain ad where ad: "g_hash_table_lookup T (alloc_track_table st) ptr = Some ad" using live by (auto simp: ms_abs_def)
  obtain d where d: "ad_mem st ! ad = Some d" "ad_ptr d = ptr" "ad < length (ad_mem st)"
    using tracks_okD [OF to ad] by blast
  let ?s = "alloc_string d"
  have l: "a_live (ms_abs S T st) ptr = Some ?s" using ad d by (simp add: ms_abs_def)
  then have "?s \<in> dom (a_stat (ms_abs S T st))" using inv(2) by (auto simp: a_inv_def ran_def)
  then obtain as where as: "g_hash_table_lookup S (alloc_stat_table st) ?s = Some as" by (auto simp: ms_abs_def)
  note as' = stats_okD [OF so as]
  let ?o = "as_mem st ! as"
  let ?st' = "st\<lparr>as_mem := (as_mem st)[as := ?o\<lparr>nr_frees := nr_frees ?o + 1\<rparr>], ad_mem := (ad_mem st)[ad := None],
    alloc_track_table := g_hash_table_remove T (alloc_track_table st) ptr\<rparr>"
  have st': "debug_free S T ptr st = Some ?st'"
    using ad d as as' by (simp add: debug_free_def deref_def)
  have other: "ad' \<noteq> ad" if "g_hash_table_lookup T (alloc_track_table st) p = Some ad'" "p \<noteq> ptr" for p ad'
    using tracks_okD(2) [OF to that(1)] that(2) d by auto
  have S: "stats_ok S ?st'" using so as' by (auto simp: stats_ok_def nth_list_update)
  have T: "tracks_ok T ?st'"
    unfolding tracks_ok_def
  proof (intro allI impI)
    fix p ad' assume "g_hash_table_lookup T (alloc_track_table ?st') p = Some ad'"
    then have p: "p \<noteq> ptr" "g_hash_table_lookup T (alloc_track_table st) p = Some ad'"
      by (auto simp: ghash_simps [OF G(2)] split: if_splits)
    then show "ad' < length (ad_mem ?st') \<and> (\<exists>d. ad_mem ?st' ! ad' = Some d \<and> ad_ptr d = p)"
      using tracks_okD [OF to p(2)] other [OF p(2,1)] by simp
  qed
  have "a_live (ms_abs S T ?st') = (a_live (ms_abs S T st))(ptr := None)"
  proof
    fix p
    show "a_live (ms_abs S T ?st') p = ((a_live (ms_abs S T st))(ptr := None)) p"
      using other [of p] by (cases "g_hash_table_lookup T (alloc_track_table st) p")
        (auto simp: ms_abs_def ghash_simps [OF G(2)])
  qed
  moreover have "a_stat (ms_abs S T ?st') = (a_stat (ms_abs S T st))(?s \<mapsto> (nr_allocs ?o, nr_frees ?o + 1))"
  proof
    fix t
    show "a_stat (ms_abs S T ?st') t = ((a_stat (ms_abs S T st))(?s \<mapsto> (nr_allocs ?o, nr_frees ?o + 1))) t"
      using stats_okD [OF so, of t] as as'
      by (cases "g_hash_table_lookup S (alloc_stat_table st) t") (auto simp: ms_abs_def nth_list_update)
  qed
  moreover have "a_stat (ms_abs S T st) ?s = Some (nr_allocs ?o, nr_frees ?o)"
      "a_order (ms_abs S T ?st') = a_order (ms_abs S T st)"
    using as by (simp_all add: ms_abs_def)
  ultimately have "ms_abs S T ?st' = a_free ptr (ms_abs S T st)" using l by (simp add: a_free_def)
  then show ?thesis using st' S T by (auto simp: ms_inv_def)
qed

lemma print_stats_ok: "ms_inv S T st \<Longrightarrow> print_stats S st = a_report (ms_abs S T st)"
proof -
  assume "ms_inv S T st"
  then have so: "stats_ok S st" by (simp add: ms_inv_def)
  have "(case Option.bind (g_hash_table_lookup S (alloc_stat_table st) s) (deref (as_mem st)) of
        None \<Rightarrow> [] | Some ob \<Rightarrow> [(s, nr_allocs ob, nr_frees ob, nr_allocs ob - nr_frees ob)]) =
      a_row (ms_abs S T st) s" for s
    using stats_okD(1) [OF so, of s]
    by (cases "g_hash_table_lookup S (alloc_stat_table st) s") (auto simp: a_row_def ms_abs_def deref_def)
  then show ?thesis by (simp add: print_stats_def a_report_def ms_abs_def)
qed

text \<open>The tracker meets the contract over any two tables that meet theirs.\<close>

lemma malloc_stats_tracker:
  assumes "ghash_ok S" "ghash_ok T"
  shows "alloc_tracker (debug_init S T) (debug_alloc S T) (debug_free S T) (print_stats S) (ms_inv S T) (ms_abs S T) k"
proof
  show "ms_inv S T (debug_init S T)" "ms_abs S T (debug_init S T) = a_init"
    using debug_init_ok [OF assms] by auto
  show "\<exists>st'. debug_alloc S T ptr n s st = Some st' \<and> ms_inv S T st' \<and> ms_abs S T st' = a_alloc ptr s (ms_abs S T st)"
    if "ms_inv S T st" for st ptr n s by (rule debug_alloc_ok [OF assms that])
  show "\<exists>st'. debug_free S T ptr st = Some st' \<and> ms_inv S T st' \<and> ms_abs S T st' = a_free ptr (ms_abs S T st)"
    if "ms_inv S T st" "a_inv (ms_abs S T st)" "a_live (ms_abs S T st) ptr \<noteq> None" for st ptr
    by (rule debug_free_ok [OF assms that])
  show "print_stats S st = a_report (ms_abs S T st)" if "ms_inv S T st" for st by (rule print_stats_ok [OF that])
qed

section \<open>Properties\<close>

text \<open>
  Property C8: the tracker over any tables with the laws of GLib's refines its specification. For
  every client that frees what it holds and gets pointers it does not hold, the run never
  follows a dangling pointer, and the report has one row per string used, with the number of
  allocations, of frees, and, as their difference, of the pointers not yet freed.
\<close>

theorem malloc_stats_report:
  assumes "ghash_ok S" "ghash_ok T" "client_ok ops {}"
  shows "\<exists>st order. track_run (debug_alloc S T) (debug_free S T) ops (debug_init S T) = Some st \<and>
    print_stats S st = map (client_row ops) order \<and> distinct order \<and> set order = op_strings ops"
  by (rule alloc_tracker.client_report [OF malloc_stats_tracker [OF assms(1,2)] assms(3) order_refl])

text \<open>An instance of the tables: maps.\<close>

definition map_table :: "('k \<rightharpoonup> nat, 'k) ghash" where
  "map_table = \<lparr>g_hash_table_new = Map.empty, g_hash_table_lookup = (\<lambda>t. t),
     g_hash_table_insert = (\<lambda>t k v. t(k \<mapsto> v)), g_hash_table_remove = (\<lambda>t k. t(k := None))\<rparr>"

lemma ghash_ok_map_table: "ghash_ok map_table"
  by (simp add: ghash_ok_def map_table_def)

theorem malloc_stats_report_witness:
  "\<exists>st order. track_run (debug_alloc map_table map_table) (debug_free map_table map_table)
      [Alloc 16 20 ''x'', Alloc 32 20 ''y'', Free 16, Alloc 16 4 ''y''] (debug_init map_table map_table) = Some st \<and>
    print_stats map_table st = map (client_row [Alloc 16 20 ''x'', Alloc 32 20 ''y'', Free 16, Alloc 16 4 ''y'']) order \<and>
    distinct order \<and> set order = op_strings [Alloc 16 20 ''x'', Alloc 32 20 ''y'', Free 16, Alloc 16 4 ''y'']"
  by (rule malloc_stats_report [OF ghash_ok_map_table ghash_ok_map_table]) simp

lemma malloc_stats_main_rows:
  assumes "ghash_ok S" "ghash_ok T" "inj_on mem {..<n}"
  shows "\<exists>order. malloc_stats_main S T rnd mem n = Some (map (main_row rnd n) order) \<and>
    distinct order \<and> set order = main_string rnd ` {..<n}"
  using alloc_tracker.main_report [OF malloc_stats_tracker [OF assms(1,2)] assms(3) order_refl, of rnd]
  by (auto simp: malloc_stats_main_def)

text \<open>A pointer that is not tracked is ignored.\<close>

lemma debug_free_unknown:
  "g_hash_table_lookup T (alloc_track_table st) ptr = None \<Longrightarrow> debug_free S T ptr st = Some st"
  by (simp add: debug_free_def)

end
