(* ===== verification/Malloc_Hsearch.thy ===== *)
theory Malloc_Hsearch
  imports Alloc_Spec "HOL-Library.Monad_Syntax" "HOL-Library.Tree"
begin

text \<open>
  The allocation tracker \<^verbatim>\<open>src/malloc_stats_hcreate.c\<close>, on the C library's \<^verbatim>\<open>hsearch_r\<close> and
  \<^verbatim>\<open>tsearch\<close>. The hash table has a capacity, at least the one asked for; the tree is a binary search
  tree of the objects put in, and every search, insertion and deletion goes left or right by the sign
  of the program's comparison. The library balances its trees in a way it does not document, so
  after every change the tree may take any other shape with the same order (\<open>h_shape\<close>, arbitrary). \<open>None\<close> is an access
  outside an array, the use of a freed object, or the failing assertion of \<^verbatim>\<open>debug_free\<close>. The
  allocations the tracker makes for itself are taken to succeed.
\<close>

section \<open>Data\<close>

definition HTABLE_SZ :: nat where
  "HTABLE_SZ = 1024"

record h_alloc_data =
  h_string :: string
  h_ptr :: u64
  h_size :: int

record h_alloc_stat =
  h_allocs :: u64
  h_frees :: u64

record h_tracker =
  hs_mem :: "h_alloc_stat list"
  hd_mem :: "h_alloc_data option list"
  h_stat_table :: "(string \<times> nat) list"
  h_capacity :: nat
  h_track_table :: "nat tree"
  h_shape :: "nat tree \<Rightarrow> nat list \<Rightarrow> nat"
  h_string_table :: "string list"

definition h_debug_init :: "nat \<Rightarrow> (nat tree \<Rightarrow> nat list \<Rightarrow> nat) \<Rightarrow> h_tracker" where
  "h_debug_init capacity shape = \<lparr>hs_mem = [], hd_mem = [], h_stat_table = [], h_capacity = capacity,
     h_track_table = Leaf, h_shape = shape, h_string_table = []\<rparr>"

section \<open>The library's table and tree\<close>

text \<open>\<^verbatim>\<open>hsearch_r\<close> with \<^verbatim>\<open>FIND\<close> and with \<^verbatim>\<open>ENTER\<close>; a full table leaves the entry out.\<close>

definition hsearch_find :: "string \<Rightarrow> h_tracker \<Rightarrow> nat option" where
  "hsearch_find key st = map_of (h_stat_table st) key"

definition hsearch_enter :: "string \<Rightarrow> nat \<Rightarrow> h_tracker \<Rightarrow> h_tracker" where
  "hsearch_enter key data st =
     (if hsearch_find key st \<noteq> None then st
      else if length (h_stat_table st) < h_capacity st then st\<lparr>h_stat_table := (key, data) # h_stat_table st\<rparr>
      else st)"

definition ad_compare :: "h_alloc_data \<Rightarrow> h_alloc_data \<Rightarrow> int" where
  "ad_compare a1 a2 = (if h_ptr a1 < h_ptr a2 then -1 else if h_ptr a2 < h_ptr a1 then 1 else 0)"

text \<open>
  The objects that a search compares the key with must still exist. A deleted node with two subtrees is
  replaced by the first node of the right one. \<open>reshape\<close> gives the tree another shape: \<open>pick\<close> chooses the
  root of every subtree among its nodes, so every tree with the same nodes in the same order is possible.
\<close>

definition obj_at :: "h_alloc_data option list \<Rightarrow> nat \<Rightarrow> h_alloc_data option" where
  "obj_at mem a = (if a < length mem then mem ! a else None)"

fun tfind :: "h_alloc_data option list \<Rightarrow> h_alloc_data \<Rightarrow> nat tree \<Rightarrow> nat option option" where
  "tfind mem key Leaf = Some None"
| "tfind mem key (Node l a r) = do {
     e \<leftarrow> obj_at mem a;
     let c = ad_compare key e;
     if c = 0 then Some (Some a) else if c < 0 then tfind mem key l else tfind mem key r
   }"

fun tsearch :: "h_alloc_data option list \<Rightarrow> h_alloc_data \<Rightarrow> nat \<Rightarrow> nat tree \<Rightarrow> nat tree option" where
  "tsearch mem d ad Leaf = Some (Node Leaf ad Leaf)"
| "tsearch mem d ad (Node l a r) = do {
     e \<leftarrow> obj_at mem a;
     let c = ad_compare d e;
     if c = 0 then Some (Node l a r)
     else if c < 0 then map_option (\<lambda>l'. Node l' a r) (tsearch mem d ad l)
     else map_option (\<lambda>r'. Node l a r') (tsearch mem d ad r)
   }"

fun first_node :: "nat tree \<Rightarrow> nat \<Rightarrow> nat tree \<Rightarrow> nat \<times> nat tree" where
  "first_node Leaf a r = (a, r)"
| "first_node (Node ll b lr) a r = (let (m, l') = first_node ll b lr in (m, Node l' a r))"

fun join_trees :: "nat tree \<Rightarrow> nat tree \<Rightarrow> nat tree" where
  "join_trees l Leaf = l"
| "join_trees l (Node rl b rr) = (let (m, r') = first_node rl b rr in Node l m r')"

fun tdelete :: "h_alloc_data option list \<Rightarrow> h_alloc_data \<Rightarrow> nat tree \<Rightarrow> nat tree option" where
  "tdelete mem key Leaf = Some Leaf"
| "tdelete mem key (Node l a r) = do {
     e \<leftarrow> obj_at mem a;
     let c = ad_compare key e;
     if c = 0 then Some (join_trees l r)
     else if c < 0 then map_option (\<lambda>l'. Node l' a r) (tdelete mem key l)
     else map_option (\<lambda>r'. Node l a r') (tdelete mem key r)
   }"

function build_tree :: "(nat list \<Rightarrow> nat) \<Rightarrow> nat list \<Rightarrow> nat tree" where
  "build_tree pick xs =
     (if xs = [] then Leaf
      else let k = pick xs mod length xs in
        Node (build_tree pick (take k xs)) (xs ! k) (build_tree pick (drop (Suc k) xs)))"
  by pat_completeness auto
termination
  by (relation "measure (\<lambda>(pick, xs). length xs)") auto

declare build_tree.simps [simp del]

definition reshape :: "(nat tree \<Rightarrow> nat list \<Rightarrow> nat) \<Rightarrow> nat tree \<Rightarrow> nat tree" where
  "reshape shape t = build_tree (shape t) (inorder t)"

section \<open>Operations\<close>

text \<open>
  \<^verbatim>\<open>hsearch_r\<close> returns 0 when it fails, never a negative number, so the error branches of the code
  are not taken: after a failed \<^verbatim>\<open>ENTER\<close> it goes on. \<open>h_count_alloc\<close> and \<open>h_track_alloc\<close> are the two
  halves of \<^verbatim>\<open>debug_alloc\<close>: the count of the string and the entry of the pointer.
\<close>

definition h_count_alloc :: "string \<Rightarrow> h_tracker \<Rightarrow> h_tracker option" where
  "h_count_alloc str st =
     (case hsearch_find str st of
        None \<Rightarrow>
          let as = length (hs_mem st);
              st = st\<lparr>hs_mem := hs_mem st @ [\<lparr>h_allocs = 1, h_frees = 0\<rparr>]\<rparr>;
              st = hsearch_enter str as st
          in if length (h_string_table st) < HTABLE_SZ
             then Some (st\<lparr>h_string_table := h_string_table st @ [str]\<rparr>) else None
      | Some as \<Rightarrow>
          if as < length (hs_mem st) then
            let ob = hs_mem st ! as in
            Some (st\<lparr>hs_mem := (hs_mem st)[as := ob\<lparr>h_allocs := h_allocs ob + 1\<rparr>]\<rparr>)
          else None)"

definition h_track_alloc :: "u64 \<Rightarrow> int \<Rightarrow> string \<Rightarrow> h_tracker \<Rightarrow> h_tracker option" where
  "h_track_alloc ptr n str st = do {
     let ad = length (hd_mem st);
     let d = \<lparr>h_string = str, h_ptr = ptr, h_size = n\<rparr>;
     let st = st\<lparr>hd_mem := hd_mem st @ [Some d]\<rparr>;
     tree \<leftarrow> tsearch (hd_mem st) d ad (h_track_table st);
     Some (st\<lparr>h_track_table := reshape (h_shape st) tree\<rparr>)
   }"

definition h_debug_alloc :: "u64 \<Rightarrow> int \<Rightarrow> string \<Rightarrow> h_tracker \<Rightarrow> h_tracker option" where
  "h_debug_alloc ptr n str st = do {
     st \<leftarrow> h_count_alloc str st;
     h_track_alloc ptr n str st
   }"

definition h_debug_free :: "u64 \<Rightarrow> h_tracker \<Rightarrow> h_tracker option" where
  "h_debug_free ptr st = do {
     let ad_key = \<lparr>h_string = [], h_ptr = ptr, h_size = 0\<rparr>;
     adp \<leftarrow> tfind (hd_mem st) ad_key (h_track_table st);
     ad \<leftarrow> adp;
     d \<leftarrow> hd_mem st ! ad;
     tree \<leftarrow> tdelete (hd_mem st) d (h_track_table st);
     let st = st\<lparr>h_track_table := reshape (h_shape st) tree, hd_mem := (hd_mem st)[ad := None]\<rparr>;
     (case hsearch_find (h_string d) st of
        None \<Rightarrow> Some st
      | Some as \<Rightarrow>
          if as < length (hs_mem st) then
            let ob = hs_mem st ! as in
            Some (st\<lparr>hs_mem := (hs_mem st)[as := ob\<lparr>h_frees := h_frees ob + 1\<rparr>]\<rparr>)
          else None)
   }"

definition h_print_stats :: "h_tracker \<Rightarrow> stat_row list" where
  "h_print_stats st =
     concat (map (\<lambda>s. case hsearch_find s st of
         None \<Rightarrow> []
       | Some as \<Rightarrow> let ob = hs_mem st ! as in [(s, h_allocs ob, h_frees ob, h_allocs ob - h_frees ob)])
       (h_string_table st))"

definition malloc_hcreate_main :: "nat \<Rightarrow> (nat tree \<Rightarrow> nat list \<Rightarrow> nat) \<Rightarrow> (nat \<Rightarrow> nat) \<Rightarrow> (nat \<Rightarrow> u64) \<Rightarrow> nat \<Rightarrow> stat_row list option" where
  "malloc_hcreate_main capacity shape rnd mem max_iter =
     map_option h_print_stats
       (track_run h_debug_alloc h_debug_free (main_ops rnd mem max_iter) (h_debug_init capacity shape))"

section \<open>Invariant\<close>

text \<open>The object behind a pointer, and the abstraction.\<close>

definition h_lookup :: "h_tracker \<Rightarrow> u64 \<Rightarrow> nat option" where
  "h_lookup st p = find (\<lambda>a. h_ptr (the (hd_mem st ! a)) = p) (inorder (h_track_table st))"

definition h_abs :: "h_tracker \<Rightarrow> alloc_abs" where
  "h_abs st =
     \<lparr>a_stat = (\<lambda>s. map_option (\<lambda>as. (h_allocs (hs_mem st ! as), h_frees (hs_mem st ! as))) (hsearch_find s st)),
      a_live = (\<lambda>p. map_option (\<lambda>ad. h_string (the (hd_mem st ! ad))) (h_lookup st p)),
      a_order = h_string_table st\<rparr>"

definition h_stats_ok :: "h_tracker \<Rightarrow> bool" where
  "h_stats_ok st \<longleftrightarrow> snd ` set (h_stat_table st) \<subseteq> {..<length (hs_mem st)} \<and> distinct (map snd (h_stat_table st)) \<and>
     length (h_stat_table st) = length (h_string_table st) \<and> HTABLE_SZ \<le> h_capacity st"

definition tree_objects :: "h_alloc_data option list \<Rightarrow> nat tree \<Rightarrow> bool" where
  "tree_objects mem t \<longleftrightarrow> (\<forall>a\<in>set_tree t. a < length mem \<and> mem ! a \<noteq> None)"

definition tree_sorted :: "h_alloc_data option list \<Rightarrow> nat tree \<Rightarrow> bool" where
  "tree_sorted mem t \<longleftrightarrow> sorted_wrt (<) (map (\<lambda>a. h_ptr (the (mem ! a))) (inorder t))"

definition h_tracks_ok :: "h_tracker \<Rightarrow> bool" where
  "h_tracks_ok st \<longleftrightarrow> tree_objects (hd_mem st) (h_track_table st) \<and> tree_sorted (hd_mem st) (h_track_table st)"

definition h_inv :: "h_tracker \<Rightarrow> bool" where
  "h_inv st \<longleftrightarrow> h_stats_ok st \<and> h_tracks_ok st"

lemma inorder_build_tree: "inorder (build_tree pick xs) = xs"
proof (induction pick xs rule: build_tree.induct)
  case (1 pick xs)
  show ?case
  proof (cases "xs = []")
    case False
    then have "pick xs mod length xs < length xs" by simp
    then show ?thesis using 1 False by (subst build_tree.simps) (simp add: Let_def id_take_nth_drop [symmetric])
  qed (simp add: build_tree.simps)
qed

lemma inorder_reshape [simp]: "inorder (reshape shape t) = inorder t"
  by (simp add: reshape_def inorder_build_tree)

lemma set_reshape [simp]: "set_tree (reshape shape t) = set_tree t"
  using inorder_reshape [of shape t] by (metis set_inorder)

text \<open>The comparison is the order of the addresses, as \<^verbatim>\<open>tsearch\<close> asks for.\<close>

lemma ad_compare_sign [simp]:
  "ad_compare a b = 0 \<longleftrightarrow> h_ptr a = h_ptr b" "ad_compare a b < 0 \<longleftrightarrow> h_ptr a < h_ptr b"
  by (auto simp: ad_compare_def)

lemma tree_objects_Node:
  "tree_objects mem (Node l a r) \<longleftrightarrow> (\<exists>e. obj_at mem a = Some e \<and> the (mem ! a) = e) \<and> tree_objects mem l \<and> tree_objects mem r"
  by (auto simp: tree_objects_def obj_at_def)

lemma tree_sorted_Node:
  "tree_sorted mem (Node l a r) \<longleftrightarrow> tree_sorted mem l \<and> tree_sorted mem r \<and>
     (\<forall>b\<in>set_tree l. h_ptr (the (mem ! b)) < h_ptr (the (mem ! a))) \<and>
     (\<forall>b\<in>set_tree r. h_ptr (the (mem ! a)) < h_ptr (the (mem ! b)))"
  by (fastforce simp: tree_sorted_def sorted_wrt_append)

lemma find_append: "find P (xs @ ys) = (case find P xs of None \<Rightarrow> find P ys | Some x \<Rightarrow> Some x)"
  by (induction xs) auto

lemma find_none: "(\<And>x. x \<in> set xs \<Longrightarrow> \<not> P x) \<Longrightarrow> find P xs = None"
  by (simp add: find_None_iff)

lemma tfind_ok:
  assumes "tree_objects mem t" "tree_sorted mem t"
  shows "tfind mem key t = Some (find (\<lambda>a. h_ptr (the (mem ! a)) = h_ptr key) (inorder t))"
  using assms
proof (induction t)
  case (Node l a r)
  let ?P = "\<lambda>b. h_ptr (the (mem ! b)) = h_ptr key" and ?p = "h_ptr (the (mem ! a))"
  obtain e where e: "obj_at mem a = Some e" "the (mem ! a) = e" using Node.prems(1) by (auto simp: tree_objects_Node)
  have s: "\<forall>b\<in>set_tree l. h_ptr (the (mem ! b)) < ?p" "\<forall>b\<in>set_tree r. ?p < h_ptr (the (mem ! b))"
    using Node.prems(2) by (auto simp: tree_sorted_Node)
  have l: "find ?P (inorder l) = None" if "?p \<le> h_ptr key" using s(1) that by (intro find_none) force
  have r: "find ?P (inorder r) = None" if "h_ptr key \<le> ?p" using s(2) that by (intro find_none) force
  consider "h_ptr key < ?p" | "h_ptr key = ?p" | "?p < h_ptr key" by (rule linorder_cases)
  then show ?case
    using Node e l r by cases (auto simp: tree_objects_Node tree_sorted_Node find_append split: option.split)
qed simp

lemma tsearch_ok:
  assumes "tree_objects mem t" "tree_sorted mem t" "\<forall>b\<in>set_tree t. h_ptr (the (mem ! b)) \<noteq> h_ptr d"
  shows "\<exists>t' xs ys. tsearch mem d ad t = Some t' \<and> inorder t = xs @ ys \<and> inorder t' = xs @ ad # ys \<and>
    (\<forall>b\<in>set xs. h_ptr (the (mem ! b)) < h_ptr d) \<and> (\<forall>b\<in>set ys. h_ptr d < h_ptr (the (mem ! b)))"
  using assms
proof (induction t)
  case (Node l a r)
  let ?p = "h_ptr (the (mem ! a))"
  obtain e where e: "obj_at mem a = Some e" "the (mem ! a) = e" using Node.prems(1) by (auto simp: tree_objects_Node)
  have s: "\<forall>b\<in>set_tree l. h_ptr (the (mem ! b)) < ?p" "\<forall>b\<in>set_tree r. ?p < h_ptr (the (mem ! b))"
    using Node.prems(2) by (auto simp: tree_sorted_Node)
  show ?case
  proof (cases "h_ptr d < ?p")
    case True
    obtain l' xs ys where l: "tsearch mem d ad l = Some l'" "inorder l = xs @ ys" "inorder l' = xs @ ad # ys"
      "\<forall>b\<in>set xs. h_ptr (the (mem ! b)) < h_ptr d" "\<forall>b\<in>set ys. h_ptr d < h_ptr (the (mem ! b))"
      using Node.IH(1) Node.prems by (auto simp: tree_objects_Node tree_sorted_Node)
    have "tsearch mem d ad (Node l a r) = Some (Node l' a r)" using l(1) True e by auto
    moreover have "inorder (Node l a r) = xs @ (ys @ a # inorder r)" "inorder (Node l' a r) = xs @ ad # (ys @ a # inorder r)"
      using l(2,3) by simp_all
    moreover have "\<forall>b\<in>set (ys @ a # inorder r). h_ptr d < h_ptr (the (mem ! b))" using l(5) s(2) True by auto
    ultimately show ?thesis using l(4) by blast
  next
    case False
    then have gt: "?p < h_ptr d" using Node.prems(3) by (simp add: not_less_iff_gr_or_eq) metis
    obtain r' xs ys where r: "tsearch mem d ad r = Some r'" "inorder r = xs @ ys" "inorder r' = xs @ ad # ys"
      "\<forall>b\<in>set xs. h_ptr (the (mem ! b)) < h_ptr d" "\<forall>b\<in>set ys. h_ptr d < h_ptr (the (mem ! b))"
      using Node.IH(2) Node.prems by (auto simp: tree_objects_Node tree_sorted_Node)
    have "tsearch mem d ad (Node l a r) = Some (Node l a r')" using r(1) gt e by auto
    moreover have "inorder (Node l a r) = (inorder l @ a # xs) @ ys" "inorder (Node l a r') = (inorder l @ a # xs) @ ad # ys"
      using r(2,3) by simp_all
    moreover have "\<forall>b\<in>set (inorder l @ a # xs). h_ptr (the (mem ! b)) < h_ptr d" using r(4) s(1) gt by auto
    ultimately show ?thesis using r(5) by blast
  qed
qed auto

lemma first_node_inorder: "first_node l a r = (m, t') \<Longrightarrow> inorder l @ a # inorder r = m # inorder t'"
  by (induction l a r arbitrary: m t' rule: first_node.induct) (auto simp: Let_def split: prod.splits)

lemma join_trees_inorder: "inorder (join_trees l r) = inorder l @ inorder r"
  by (cases r) (auto simp: Let_def split: prod.splits dest!: first_node_inorder)

lemma tdelete_ok:
  assumes "tree_objects mem t" "tree_sorted mem t" "a \<in> set_tree t" "h_ptr (the (mem ! a)) = h_ptr key"
  shows "\<exists>t' xs ys. tdelete mem key t = Some t' \<and> inorder t = xs @ a # ys \<and> inorder t' = xs @ ys"
  using assms
proof (induction t)
  case (Node l b r)
  let ?p = "h_ptr (the (mem ! b))"
  obtain e where e: "obj_at mem b = Some e" "the (mem ! b) = e" using Node.prems(1) by (auto simp: tree_objects_Node)
  have s: "\<forall>c\<in>set_tree l. h_ptr (the (mem ! c)) < ?p" "\<forall>c\<in>set_tree r. ?p < h_ptr (the (mem ! c))"
    using Node.prems(2) by (auto simp: tree_sorted_Node)
  consider "a \<in> set_tree l" "h_ptr key < ?p" | "a = b" | "a \<in> set_tree r" "?p < h_ptr key"
    using Node.prems(3,4) s by force
  then show ?case
  proof cases
    case 1
    obtain l' xs ys where l: "tdelete mem key l = Some l'" "inorder l = xs @ a # ys" "inorder l' = xs @ ys"
      using Node.IH(1) 1(1) Node.prems by (auto simp: tree_objects_Node tree_sorted_Node)
    have "tdelete mem key (Node l b r) = Some (Node l' b r)" using l(1) 1(2) e by auto
    moreover have "inorder (Node l b r) = xs @ a # (ys @ b # inorder r)" "inorder (Node l' b r) = xs @ (ys @ b # inorder r)"
      using l(2,3) by simp_all
    ultimately show ?thesis by blast
  next
    case 2
    then have "tdelete mem key (Node l b r) = Some (join_trees l r)" using Node.prems(4) e by auto
    moreover have "inorder (Node l b r) = inorder l @ a # inorder r" using 2 by simp
    ultimately show ?thesis using join_trees_inorder [of l r] by blast
  next
    case 3
    obtain r' xs ys where r: "tdelete mem key r = Some r'" "inorder r = xs @ a # ys" "inorder r' = xs @ ys"
      using Node.IH(2) 3(1) Node.prems by (auto simp: tree_objects_Node tree_sorted_Node)
    have "tdelete mem key (Node l b r) = Some (Node l b r')" using r(1) 3(2) e by auto
    moreover have "inorder (Node l b r) = (inorder l @ b # xs) @ a # ys" "inorder (Node l b r') = (inorder l @ b # xs) @ ys"
      using r(2,3) by simp_all
    ultimately show ?thesis by blast
  qed
qed simp

lemma tfind_lookup:
  assumes "h_tracks_ok st" "h_ptr key = p"
  shows "tfind (hd_mem st) key (h_track_table st) = Some (h_lookup st p)"
  using assms tfind_ok [of "hd_mem st" "h_track_table st" key] by (simp add: h_tracks_ok_def h_lookup_def)

lemma h_debug_init_ok:
  assumes "HTABLE_SZ \<le> capacity"
  shows "h_inv (h_debug_init capacity shape)" "h_abs (h_debug_init capacity shape) = a_init"
  using assms by (simp_all add: h_inv_def h_stats_ok_def h_tracks_ok_def h_debug_init_def h_abs_def a_init_def
      hsearch_find_def h_lookup_def tree_objects_def tree_sorted_def)

lemma tree_objects_reshape [simp]: "tree_objects mem (reshape shape t) = tree_objects mem t"
  by (simp add: tree_objects_def)

lemma tree_sorted_reshape [simp]: "tree_sorted mem (reshape shape t) = tree_sorted mem t"
  by (simp add: tree_sorted_def)

section \<open>Refinement of the specification\<close>

lemma tree_objectsD: "tree_objects mem t \<Longrightarrow> a \<in> set_tree t \<Longrightarrow> a < length mem \<and> (\<exists>d. mem ! a = Some d)"
  by (auto simp: tree_objects_def)

lemma h_lookup_Some:
  "h_lookup st p = Some a \<Longrightarrow> a \<in> set_tree (h_track_table st) \<and> h_ptr (the (hd_mem st ! a)) = p"
  unfolding h_lookup_def find_Some_iff by (metis nth_mem set_inorder)

lemma h_lookup_iff:
  assumes "h_tracks_ok st"
  shows "h_lookup st p = Some a \<longleftrightarrow> a \<in> set_tree (h_track_table st) \<and> h_ptr (the (hd_mem st ! a)) = p"
proof
  assume a: "a \<in> set_tree (h_track_table st) \<and> h_ptr (the (hd_mem st ! a)) = p"
  then obtain b where b: "h_lookup st p = Some b" by (cases "h_lookup st p") (auto simp: h_lookup_def find_None_iff)
  have "inj_on (\<lambda>a. h_ptr (the (hd_mem st ! a))) (set_tree (h_track_table st))"
    using assms by (auto simp: h_tracks_ok_def tree_sorted_def strict_sorted_iff distinct_map)
  then have "a = b" using a h_lookup_Some [OF b] by (auto dest: inj_onD)
  then show "h_lookup st p = Some a" using b by simp
qed (rule h_lookup_Some)

text \<open>A sorted tree of live objects stays one when an object is added in its place, or taken out.\<close>

lemma tree_sorted_cong:
  "(\<And>a. a \<in> set_tree t \<Longrightarrow> mem' ! a = mem ! a) \<Longrightarrow> tree_sorted mem' t = tree_sorted mem t"
proof -
  assume "\<And>a. a \<in> set_tree t \<Longrightarrow> mem' ! a = mem ! a"
  then have "map (\<lambda>a. h_ptr (the (mem' ! a))) (inorder t) = map (\<lambda>a. h_ptr (the (mem ! a))) (inorder t)" by simp
  then show ?thesis by (simp only: tree_sorted_def)
qed

lemma h_tsearch_new:
  assumes "h_tracks_ok st" "h_lookup st ptr = None" "h_ptr d = ptr"
  defines "mem' \<equiv> hd_mem st @ [Some d]" and "n \<equiv> length (hd_mem st)"
  shows "\<exists>t'. tsearch mem' d n (h_track_table st) = Some t' \<and> set_tree t' = insert n (set_tree (h_track_table st)) \<and>
    tree_objects mem' t' \<and> tree_sorted mem' t'"
proof -
  let ?t = "h_track_table st"
  have obj: "a < length (hd_mem st)" if "a \<in> set_tree ?t" for a
    using assms(1) that tree_objectsD by (auto simp: h_tracks_ok_def)
  have nth: "mem' ! a = hd_mem st ! a" if "a \<in> set_tree ?t" for a using obj [OF that] by (simp add: mem'_def nth_append)
  have old: "tree_objects mem' ?t"
    using assms(1) obj nth by (auto simp: h_tracks_ok_def tree_objects_def mem'_def less_SucI)
  have srt: "tree_sorted mem' ?t" using assms(1) nth tree_sorted_cong [of ?t mem' "hd_mem st"] by (simp add: h_tracks_ok_def)
  have "\<forall>b\<in>set_tree ?t. h_ptr (the (mem' ! b)) \<noteq> h_ptr d"
    using assms(2,3) nth by (auto simp: h_lookup_def find_None_iff)
  from tsearch_ok [OF old srt this, of n] obtain t' xs ys where t': "tsearch mem' d n ?t = Some t'" "inorder ?t = xs @ ys"
    "inorder t' = xs @ n # ys" "\<forall>b\<in>set xs. h_ptr (the (mem' ! b)) < h_ptr d" "\<forall>b\<in>set ys. h_ptr d < h_ptr (the (mem' ! b))"
    by blast
  have new: "mem' ! n = Some d" by (simp add: mem'_def n_def)
  have set': "set_tree t' = insert n (set_tree ?t)"
    using t'(2,3) by (simp flip: set_inorder)
  moreover have "tree_objects mem' t'" using old new set' by (simp add: tree_objects_def mem'_def n_def)
  moreover have "tree_sorted mem' t'"
    using srt t'(2-5) new by (auto simp: tree_sorted_def sorted_wrt_append)
  ultimately show ?thesis using t'(1) by blast
qed

lemma h_track_insert:
  assumes "h_tracks_ok st" "h_lookup st ptr = None" "hd_mem st' = hd_mem st @ [Some d]" "h_ptr d = ptr"
    and set': "set_tree (h_track_table st') = insert (length (hd_mem st)) (set_tree (h_track_table st))"
    and ok: "h_tracks_ok st'"
  shows "a_live (h_abs st') = (a_live (h_abs st))(ptr \<mapsto> h_string d)"
proof -
  have obj: "a < length (hd_mem st)" if "a \<in> set_tree (h_track_table st)" for a
    using assms(1) that tree_objectsD by (auto simp: h_tracks_ok_def)
  then have nth: "hd_mem st' ! a = hd_mem st ! a" if "a \<in> set_tree (h_track_table st)" for a
    using that assms(3) by (simp add: nth_append)
  have new: "hd_mem st' ! length (hd_mem st) = Some d" using assms(3) by simp
  have at: "h_lookup st' ptr = Some (length (hd_mem st))"
    unfolding h_lookup_iff [OF ok] using new assms(4) set' by simp
  have other: "h_lookup st' p = h_lookup st p" if "p \<noteq> ptr" for p
  proof -
    have "h_lookup st' p = Some a \<longleftrightarrow> h_lookup st p = Some a" for a
    proof (cases "a \<in> set_tree (h_track_table st)")
      case True
      then show ?thesis unfolding h_lookup_iff [OF ok] h_lookup_iff [OF assms(1)] using nth set' by simp
    next
      case False
      then show ?thesis unfolding h_lookup_iff [OF ok] h_lookup_iff [OF assms(1)] using new assms(4) set' that by auto
    qed
    then show ?thesis by (metis not_None_eq)
  qed
  show "a_live (h_abs st') = (a_live (h_abs st))(ptr \<mapsto> h_string d)"
  proof
    fix p
    show "a_live (h_abs st') p = ((a_live (h_abs st))(ptr \<mapsto> h_string d)) p"
    proof (cases "p = ptr")
      case True
      then show ?thesis using at new by (simp add: h_abs_def)
    next
      case False
      then show ?thesis using other [OF False] nth h_lookup_Some [of st p]
        by (cases "h_lookup st p") (simp_all add: h_abs_def)
    qed
  qed
qed

lemma hsearch_idx:
  assumes "h_stats_ok st" "hsearch_find s st = Some as"
  shows "as < length (hs_mem st)" "hsearch_find t st = Some as \<longleftrightarrow> t = s"
proof -
  have m: "(s, as) \<in> set (h_stat_table st)" using assms(2) by (simp add: hsearch_find_def map_of_SomeD)
  then show "as < length (hs_mem st)" using assms(1) by (force simp: h_stats_ok_def)
  have "inj_on snd (set (h_stat_table st))" using assms(1) by (simp add: h_stats_ok_def distinct_map)
  then have "t = s" if "hsearch_find t st = Some as"
    using m that map_of_SomeD [of "h_stat_table st" t as] inj_onD [of snd "set (h_stat_table st)" "(t, as)" "(s, as)"]
    by (simp add: hsearch_find_def)
  then show "hsearch_find t st = Some as \<longleftrightarrow> t = s" using assms(2) by auto
qed

lemma h_inv_update_stat:
  assumes "h_inv st" "hsearch_find s st = Some as" "st' = st\<lparr>hs_mem := (hs_mem st)[as := ob]\<rparr>"
  shows "h_inv st'" "h_abs st' = (h_abs st)\<lparr>a_stat := (a_stat (h_abs st))(s \<mapsto> (h_allocs ob, h_frees ob))\<rparr>"
proof -
  have so: "h_stats_ok st" using assms(1) by (simp add: h_inv_def)
  show "h_inv st'" using assms by (simp add: h_inv_def h_stats_ok_def h_tracks_ok_def)
  have "a_stat (h_abs st') t = ((a_stat (h_abs st))(s \<mapsto> (h_allocs ob, h_frees ob))) t" for t
    using hsearch_idx(1) [OF so assms(2)] hsearch_idx(2) [OF so assms(2), of t] assms(2,3)
    by (cases "hsearch_find t st") (auto simp: h_abs_def hsearch_find_def nth_list_update)
  then show "h_abs st' = (h_abs st)\<lparr>a_stat := (a_stat (h_abs st))(s \<mapsto> (h_allocs ob, h_frees ob))\<rparr>"
    using assms(3) by (auto simp: h_abs_def h_lookup_def)
qed

lemma hsearch_enter_strings [simp]: "h_string_table (hsearch_enter key data st) = h_string_table st"
  by (simp add: hsearch_enter_def)

lemma h_inv_new_stat:
  assumes "h_inv st" "hsearch_find s st = None" "length (h_string_table st) < HTABLE_SZ"
    "h_count_alloc s st = Some st'"
  shows "h_inv st'"
    "h_abs st' = (h_abs st)\<lparr>a_stat := (a_stat (h_abs st))(s \<mapsto> (1, 0)), a_order := a_order (h_abs st) @ [s]\<rparr>"
    "h_track_table st' = h_track_table st" "hd_mem st' = hd_mem st"
proof -
  have so: "h_stats_ok st" and to: "h_tracks_ok st" using assms(1) by (auto simp: h_inv_def)
  have room: "length (h_stat_table st) < h_capacity st" using so assms(3) by (simp add: h_stats_ok_def)
  have st': "st' = st\<lparr>hs_mem := hs_mem st @ [\<lparr>h_allocs = 1, h_frees = 0\<rparr>],
      h_stat_table := (s, length (hs_mem st)) # h_stat_table st, h_string_table := h_string_table st @ [s]\<rparr>"
    using assms(2-4) room by (simp add: h_count_alloc_def hsearch_enter_def hsearch_find_def Let_def)
  then show "h_track_table st' = h_track_table st" "hd_mem st' = hd_mem st" by simp_all
  have "h_stats_ok st'" using so by (auto simp: h_stats_ok_def st')
  then show "h_inv st'" using to by (simp add: h_inv_def h_tracks_ok_def st')
  have "a_stat (h_abs st') t = ((a_stat (h_abs st))(s \<mapsto> (1, 0))) t" for t
    using hsearch_idx(1) [OF so, of t]
    by (cases "hsearch_find t st") (auto simp: h_abs_def hsearch_find_def st' nth_append)
  then show "h_abs st' = (h_abs st)\<lparr>a_stat := (a_stat (h_abs st))(s \<mapsto> (1, 0)), a_order := a_order (h_abs st) @ [s]\<rparr>"
    by (auto simp: h_abs_def h_lookup_def st')
qed

text \<open>The second half of \<^verbatim>\<open>debug_alloc\<close>: the pointer is entered into the tree.\<close>

lemma h_track_part:
  assumes "h_inv st" "h_lookup st ptr = None"
  shows "\<exists>st'. h_track_alloc ptr n str st = Some st' \<and> h_inv st' \<and>
    h_abs st' = (h_abs st)\<lparr>a_live := (a_live (h_abs st))(ptr \<mapsto> str)\<rparr>"
proof -
  let ?d = "\<lparr>h_string = str, h_ptr = ptr, h_size = n\<rparr>"
  have to: "h_tracks_ok st" and so: "h_stats_ok st" using assms(1) by (auto simp: h_inv_def)
  obtain t' where t': "tsearch (hd_mem st @ [Some ?d]) ?d (length (hd_mem st)) (h_track_table st) = Some t'"
    "set_tree t' = insert (length (hd_mem st)) (set_tree (h_track_table st))"
    "tree_objects (hd_mem st @ [Some ?d]) t'" "tree_sorted (hd_mem st @ [Some ?d]) t'"
    using h_tsearch_new [OF to assms(2), of ?d] by auto
  let ?st' = "st\<lparr>hd_mem := hd_mem st @ [Some ?d], h_track_table := reshape (h_shape st) t'\<rparr>"
  have ok: "h_tracks_ok ?st'" using t'(3,4) by (simp add: h_tracks_ok_def)
  then have "h_inv ?st'" using so by (simp add: h_inv_def h_stats_ok_def)
  moreover have "h_abs ?st' = (h_abs st)\<lparr>a_live := (a_live (h_abs st))(ptr \<mapsto> str)\<rparr>"
    using h_track_insert [OF to assms(2) _ _ _ ok, of ?d] t'(2) by (simp add: h_abs_def hsearch_find_def)
  ultimately show ?thesis using t'(1) by (simp add: h_track_alloc_def)
qed

lemma h_debug_alloc_ok:
  assumes "h_inv st" "a_live (h_abs st) ptr = None"
    "s \<in> dom (a_stat (h_abs st)) \<or> length (a_order (h_abs st)) < HTABLE_SZ"
  shows "\<exists>st'. h_debug_alloc ptr n s st = Some st' \<and> h_inv st' \<and> h_abs st' = a_alloc ptr s (h_abs st)"
proof -
  have l: "h_lookup st ptr = None" using assms(2) by (simp add: h_abs_def)
  show ?thesis
  proof (cases "hsearch_find s st")
    case None
    then have no: "a_stat (h_abs st) s = None" by (simp add: h_abs_def)
    then have len: "length (h_string_table st) < HTABLE_SZ" using assms(3) by (auto simp: h_abs_def)
    then obtain st1 where st1: "h_count_alloc s st = Some st1"
      using None len by (simp add: h_count_alloc_def Let_def)
    note N = h_inv_new_stat [OF assms(1) None len st1]
    have "h_lookup st1 ptr = None" using l N(3,4) by (simp add: h_lookup_def)
    from h_track_part [OF N(1) this, of n s] show ?thesis
      using st1 no N(2) by (auto simp: h_debug_alloc_def a_alloc_def)
  next
    case (Some as)
    let ?o = "hs_mem st ! as"
    define st1 where "st1 = st\<lparr>hs_mem := (hs_mem st)[as := ?o\<lparr>h_allocs := h_allocs ?o + 1\<rparr>]\<rparr>"
    note N = h_inv_update_stat [OF assms(1) Some st1_def]
    have as: "as < length (hs_mem st)" using hsearch_idx(1) [OF _ Some] assms(1) by (simp add: h_inv_def)
    have st: "a_stat (h_abs st) s = Some (h_allocs ?o, h_frees ?o)" using Some by (simp add: h_abs_def)
    have "h_lookup st1 ptr = None" using l by (simp add: h_lookup_def st1_def)
    from h_track_part [OF N(1) this, of n s] show ?thesis
      using Some as st N(2) by (auto simp: h_debug_alloc_def h_count_alloc_def Let_def st1_def a_alloc_def)
  qed
qed

lemma h_tdelete_found:
  assumes "h_tracks_ok st" "h_lookup st ptr = Some ad" "h_ptr d = ptr"
  defines "mem' \<equiv> (hd_mem st)[ad := None]"
  shows "\<exists>t'. tdelete (hd_mem st) d (h_track_table st) = Some t' \<and> set_tree t' = set_tree (h_track_table st) - {ad} \<and>
    tree_objects mem' t' \<and> tree_sorted mem' t'"
proof -
  let ?t = "h_track_table st"
  have o: "tree_objects (hd_mem st) ?t" and s: "tree_sorted (hd_mem st) ?t" using assms(1) by (simp_all add: h_tracks_ok_def)
  note ad = h_lookup_Some [OF assms(2)]
  obtain t' xs ys where t': "tdelete (hd_mem st) d ?t = Some t'" "inorder ?t = xs @ ad # ys" "inorder t' = xs @ ys"
    using tdelete_ok [OF o s, of ad d] ad assms(3) by auto
  have "distinct (inorder ?t)" using s by (auto simp: tree_sorted_def strict_sorted_iff distinct_map)
  then have set': "set_tree t' = set_tree ?t - {ad}" using t'(2,3) by (auto simp flip: set_inorder)
  then have nth: "mem' ! a = hd_mem st ! a" if "a \<in> set_tree t'" for a using that by (simp add: mem'_def)
  have "tree_sorted (hd_mem st) t'" using s t'(2,3) by (simp add: tree_sorted_def sorted_wrt_append)
  then have "tree_sorted mem' t'" using nth tree_sorted_cong [of t' mem' "hd_mem st"] by simp
  moreover have "tree_objects mem' t'" using o nth set' by (auto simp: tree_objects_def mem'_def)
  ultimately show ?thesis using t'(1) set' by blast
qed

lemma h_track_remove:
  assumes "h_tracks_ok st" "h_lookup st ptr = Some ad" "hd_mem st' = (hd_mem st)[ad := None]"
    and set': "set_tree (h_track_table st') = set_tree (h_track_table st) - {ad}" and ok: "h_tracks_ok st'"
  shows "a_live (h_abs st') = (a_live (h_abs st))(ptr := None)"
proof -
  note ad = h_lookup_Some [OF assms(2)]
  have nth: "hd_mem st' ! a = hd_mem st ! a" if "a \<in> set_tree (h_track_table st')" for a
    using that assms(3) set' by simp
  have look: "h_lookup st' p = (if p = ptr then None else h_lookup st p)" for p
  proof -
    have "h_lookup st' p = Some a \<longleftrightarrow> p \<noteq> ptr \<and> h_lookup st p = Some a" for a
    proof (cases "a \<in> set_tree (h_track_table st')")
      case True
      then have "a \<noteq> ad" "a \<in> set_tree (h_track_table st)" using set' by auto
      moreover from this have "h_ptr (the (hd_mem st ! a)) \<noteq> ptr"
        using h_lookup_iff [OF assms(1), of ptr a] assms(2) by auto
      ultimately show ?thesis
        unfolding h_lookup_iff [OF ok] h_lookup_iff [OF assms(1)] using True nth [OF True] by auto
    next
      case False
      then show ?thesis unfolding h_lookup_iff [OF ok] h_lookup_iff [OF assms(1)] using set' ad by auto
    qed
    then show ?thesis by (metis not_None_eq)
  qed
  show "a_live (h_abs st') = (a_live (h_abs st))(ptr := None)"
  proof
    fix p
    have "a \<noteq> ad" if "p \<noteq> ptr" "h_lookup st p = Some a" for a
      using h_lookup_Some [OF that(2)] ad that(1) by auto
    then show "a_live (h_abs st') p = ((a_live (h_abs st))(ptr := None)) p"
      using look [of p] assms(3) by (cases "h_lookup st p") (auto simp: h_abs_def)
  qed
qed

lemma h_debug_free_ok:
  assumes "h_inv st" "a_inv (h_abs st)" "a_live (h_abs st) ptr \<noteq> None"
  shows "\<exists>st'. h_debug_free ptr st = Some st' \<and> h_inv st' \<and> h_abs st' = a_free ptr (h_abs st)"
proof -
  have to: "h_tracks_ok st" and so: "h_stats_ok st" using assms(1) by (auto simp: h_inv_def)
  obtain ad where ad: "h_lookup st ptr = Some ad" using assms(3) by (auto simp: h_abs_def)
  obtain d where d: "hd_mem st ! ad = Some d" "h_ptr d = ptr"
    using h_lookup_Some [OF ad] to tree_objectsD by (fastforce simp: h_tracks_ok_def)
  obtain t' where t': "tdelete (hd_mem st) d (h_track_table st) = Some t'" "set_tree t' = set_tree (h_track_table st) - {ad}"
    "tree_objects ((hd_mem st)[ad := None]) t'" "tree_sorted ((hd_mem st)[ad := None]) t'"
    using h_tdelete_found [OF to ad d(2)] by blast
  define st1 where "st1 = st\<lparr>h_track_table := reshape (h_shape st) t', hd_mem := (hd_mem st)[ad := None]\<rparr>"
  have T1: "h_tracks_ok st1" using t'(3,4) by (simp add: st1_def h_tracks_ok_def)
  have T: "h_tracks_ok st1" "a_live (h_abs st1) = (a_live (h_abs st))(ptr := None)"
    using T1 h_track_remove [OF to ad _ _ T1] t'(2) by (simp_all add: st1_def)
  have inv1: "h_inv st1" using T(1) so by (simp add: h_inv_def h_stats_ok_def st1_def)
  have abs1: "h_abs st1 = (h_abs st)\<lparr>a_live := (a_live (h_abs st))(ptr := None)\<rparr>"
    using T(2) by (simp add: h_abs_def hsearch_find_def st1_def)
  have l: "a_live (h_abs st) ptr = Some (h_string d)" using ad d(1) by (simp add: h_abs_def)
  then have "h_string d \<in> dom (a_stat (h_abs st))" using assms(2) by (auto simp: a_inv_def ran_def)
  then obtain as where as: "hsearch_find (h_string d) st = Some as" by (auto simp: h_abs_def)
  then have as1: "hsearch_find (h_string d) st1 = Some as" by (simp add: hsearch_find_def st1_def)
  have idx: "as < length (hs_mem st)" by (rule hsearch_idx(1) [OF so as])
  let ?o = "hs_mem st1 ! as"
  define st2 where "st2 = st1\<lparr>hs_mem := (hs_mem st1)[as := ?o\<lparr>h_frees := h_frees ?o + 1\<rparr>]\<rparr>"
  note N = h_inv_update_stat [OF inv1 as1 st2_def]
  have "h_debug_free ptr st = Some st2"
    using tfind_lookup [OF to, of "\<lparr>h_string = [], h_ptr = ptr, h_size = 0\<rparr>" ptr] t'(1)
      ad d(1) as1 idx by (simp add: h_debug_free_def st2_def st1_def Let_def)
  moreover have "h_abs st2 = a_free ptr (h_abs st)"
  proof -
    have "a_stat (h_abs st) (h_string d) = Some (h_allocs ?o, h_frees ?o)" using as by (simp add: h_abs_def st1_def)
    then show ?thesis using N(2) abs1 l by (simp add: a_free_def)
  qed
  ultimately show ?thesis using N(1) by simp
qed

lemma h_print_stats_ok: "h_print_stats st = a_report (h_abs st)"
proof -
  have "(case hsearch_find s st of None \<Rightarrow> []
       | Some as \<Rightarrow> let ob = hs_mem st ! as in [(s, h_allocs ob, h_frees ob, h_allocs ob - h_frees ob)]) =
      a_row (h_abs st) s" for s
    by (cases "hsearch_find s st") (simp_all add: a_row_def h_abs_def Let_def)
  then show ?thesis by (simp add: h_print_stats_def a_report_def h_abs_def)
qed

interpretation hs: alloc_tracker "h_debug_init (HTABLE_SZ + extra) shape" h_debug_alloc h_debug_free h_print_stats h_inv h_abs HTABLE_SZ
  for extra shape
proof
  show "h_inv (h_debug_init (HTABLE_SZ + extra) shape)" "h_abs (h_debug_init (HTABLE_SZ + extra) shape) = a_init"
    by (simp_all add: h_debug_init_ok)
qed (use h_debug_alloc_ok h_debug_free_ok h_print_stats_ok in blast)+

section \<open>Properties\<close>

text \<open>
  Property C7: the tracker on \<^verbatim>\<open>hsearch_r\<close> and \<^verbatim>\<open>tsearch\<close> refines the same specification, for every
  such client with at most as many strings as the string array has places, whatever capacity
  beyond that \<^verbatim>\<open>hcreate_r\<close> gives the table, and however \<^verbatim>\<open>tsearch\<close> balances the tree that it orders by
  \<^verbatim>\<open>ad_compare\<close>.
\<close>

theorem hcreate_report:
  assumes "client_ok ops {}" "card (op_strings ops) \<le> HTABLE_SZ"
  shows "\<exists>st order. track_run h_debug_alloc h_debug_free ops (h_debug_init (HTABLE_SZ + extra) shape) = Some st \<and>
    h_print_stats st = map (client_row ops) order \<and> distinct order \<and> set order = op_strings ops"
  by (rule hs.client_report [OF assms])

theorem hcreate_report_witness:
  "\<exists>st order. track_run h_debug_alloc h_debug_free
      [Alloc 16 20 ''x'', Alloc 32 20 ''y'', Free 16, Alloc 16 4 ''y''] (h_debug_init (HTABLE_SZ + 7) (\<lambda>t xs. length xs div 2)) = Some st \<and>
    h_print_stats st = map (client_row [Alloc 16 20 ''x'', Alloc 32 20 ''y'', Free 16, Alloc 16 4 ''y'']) order \<and>
    distinct order \<and> set order = op_strings [Alloc 16 20 ''x'', Alloc 32 20 ''y'', Free 16, Alloc 16 4 ''y'']"
  by (rule hcreate_report) (simp_all add: HTABLE_SZ_def card_insert_if)

lemma track_run_append:
  "track_run alloc release (xs @ ys) st = Option.bind (track_run alloc release xs st) (track_run alloc release ys)"
proof (induction xs arbitrary: st)
  case (Cons x xs)
  have "track_run alloc release (xs @ ys) = (\<lambda>st. Option.bind (track_run alloc release xs st) (track_run alloc release ys))"
    using Cons by (intro ext)
  then show ?case by (cases x) simp_all
qed simp

text \<open>
  One string more than that is stored behind the end of the string array: after any
  run with 1024 strings an allocation under another string leaves the defined behaviour.
\<close>

theorem hcreate_string_overflow:
  assumes "client_ok ops {}" "card (op_strings ops) = HTABLE_SZ" "s \<notin> op_strings ops"
  shows "track_run h_debug_alloc h_debug_free (ops @ [Alloc ptr n s]) (h_debug_init (HTABLE_SZ + extra) shape) = None"
proof -
  have D: "dom (a_live a_init) = {}" "dom (a_stat a_init) = {}" by (simp_all add: a_init_def)
  obtain st where st: "track_run h_debug_alloc h_debug_free ops (h_debug_init (HTABLE_SZ + extra) shape) = Some st"
      "h_inv st" "h_abs st = a_run ops a_init"
    using hs.run_refines [of "h_debug_init (HTABLE_SZ + extra) shape" ops] assms D a_inv_init hs.init_ok [of extra shape]
    by (metis Un_empty_left finite_op_strings order_refl)
  have inv: "a_inv (h_abs st)" unfolding st(3) using assms(1) D a_inv_init by (intro a_run_inv) simp_all
  have dom: "dom (a_stat (h_abs st)) = op_strings ops" unfolding st(3) a_run_strings using D by simp
  then have "hsearch_find s st = None" using assms(3) by (auto simp: h_abs_def)
  moreover have "length (h_string_table st) = HTABLE_SZ"
    using inv dom assms(2) distinct_card [of "h_string_table st"] by (simp add: a_inv_def h_abs_def)
  ultimately have "h_debug_alloc ptr n s st = None" by (simp add: h_debug_alloc_def h_count_alloc_def Let_def)
  then show ?thesis by (simp add: track_run_append st(1))
qed

text \<open>A client with 1024 strings: the strings of \<open>0\<close> to \<open>1023\<close> letters.\<close>

definition many_ops :: "nat \<Rightarrow> alloc_op list" where
  "many_ops k = map (\<lambda>i. Alloc (word_of_nat i) 1 (replicate i CHR ''a'')) [0..<k]"

lemma many_ops_ok:
  assumes "k \<le> 2 ^ 64"
  shows "client_ok (many_ops k) {}" "op_strings (many_ops k) = (\<lambda>i. replicate i CHR ''a'') ` {..<k}"
proof -
  have inj: "inj_on (word_of_nat :: nat \<Rightarrow> u64) {..<k}"
    using assms by (auto simp: inj_on_def of_nat_eq_iff take_bit_nat_eq_self word_of_nat_eq_iff)
  have "client_ok (map (\<lambda>i. Alloc (word_of_nat i) 1 (replicate i CHR ''a'')) xs) L"
    if "distinct xs" "set xs \<subseteq> {..<k}" "L \<inter> word_of_nat ` set xs = {}" for xs L
    using that
  proof (induction xs arbitrary: L)
    case (Cons x xs)
    have "(word_of_nat x :: u64) \<notin> word_of_nat ` set xs" using inj Cons.prems by (auto dest!: inj_onD)
    then show ?case using Cons by auto
  qed simp
  then show "client_ok (many_ops k) {}" by (simp add: many_ops_def lessThan_atLeast0)
  have "op_strings (map (\<lambda>i. Alloc (word_of_nat i) 1 (replicate i CHR ''a'')) xs) = (\<lambda>i. replicate i CHR ''a'') ` set xs" for xs
    by (induction xs) auto
  then show "op_strings (many_ops k) = (\<lambda>i. replicate i CHR ''a'') ` {..<k}"
    by (simp add: many_ops_def lessThan_atLeast0)
qed

theorem hcreate_string_overflow_witness:
  "track_run h_debug_alloc h_debug_free (many_ops 1024 @ [Alloc 0 1 ''b'']) (h_debug_init (HTABLE_SZ + 7) (\<lambda>t xs. length xs div 2)) = None"
proof (rule hcreate_string_overflow)
  show "client_ok (many_ops 1024) {}" by (simp add: many_ops_ok)
  have "inj_on (\<lambda>i. replicate i CHR ''a'') {..<1024}" by (rule inj_onI) (metis length_replicate)
  then show "card (op_strings (many_ops 1024)) = HTABLE_SZ" by (simp add: many_ops_ok card_image HTABLE_SZ_def)
  have "''b'' \<noteq> replicate i CHR ''a''" for i by (cases i) auto
  then show "''b'' \<notin> op_strings (many_ops 1024)" by (auto simp: many_ops_ok)
qed

text \<open>A pointer that is not tracked fails the assertion.\<close>

lemma h_debug_free_unknown: "h_inv st \<Longrightarrow> h_lookup st ptr = None \<Longrightarrow> h_debug_free ptr st = None"
  using tfind_lookup [of st "\<lparr>h_string = [], h_ptr = ptr, h_size = 0\<rparr>" ptr]
  by (simp add: h_debug_free_def h_inv_def)

lemma malloc_hcreate_main_rows:
  assumes "inj_on mem {..<n}"
  shows "\<exists>order. malloc_hcreate_main (HTABLE_SZ + extra) shape rnd mem n = Some (map (main_row rnd n) order) \<and>
    distinct order \<and> set order = main_string rnd ` {..<n}"
  using hs.main_report [OF assms, where extra = extra and shape = shape and rnd = rnd] by (auto simp: malloc_hcreate_main_def HTABLE_SZ_def)

end
