(* ===== verification/Uevent.thy ===== *)
theory Uevent
  imports C_Library "HOL-Library.Sublist"
begin

text \<open>
  The listener for kernel device events \<^verbatim>\<open>src/recv_nl_uevent.c\<close>: the scan of a received buffer for
  the eight variables it knows, and the loop of \<^verbatim>\<open>main\<close> over what \<^verbatim>\<open>select\<close> and \<^verbatim>\<open>recvmsg\<close> return. A
  pointer into the buffer is an offset; \<open>None\<close> as the result of the scan is a read behind its end.
\<close>

section \<open>Scanning a buffer\<close>

definition UEVENT_BUF :: nat where
  "UEVENT_BUF = 8192"

definition uevent_env_str :: "string list" where
  "uevent_env_str = [''ACTION='', ''SUBSYSTEM='', ''DEVPATH='', ''DEVTYPE='', ''PHYSDEVBUS='',
     ''PHYSDEVDRIVER='', ''PHYSDEVPATH='', ''SLOT='']"

definition UEVENT_ENV_MAX :: nat where
  "UEVENT_ENV_MAX = 8"

text \<open>The inner loop over the known variables, for the string \<open>s\<close> that starts at offset \<open>envp\<close>.\<close>

function match_env :: "string \<Rightarrow> nat \<Rightarrow> nat \<Rightarrow> nat option list \<Rightarrow> nat \<Rightarrow> nat option list \<times> nat" where
  "match_env s envp j vals matches =
     (if j < UEVENT_ENV_MAX then
        let key = uevent_env_str ! j in
        if strncmp_eq s key (length key)
        then match_env s envp (Suc j) (vals[j := Some (envp + length key)]) (matches + 1)
        else match_env s envp (Suc j) vals matches
      else (vals, matches))"
  by pat_completeness auto
termination by (relation "measure (\<lambda>(s, envp, j, vals, matches). UEVENT_ENV_MAX - j)") auto

declare match_env.simps [simp del]

text \<open>
  The outer loop: from the start of one string to the place behind its NUL, while that is within
  the received length.
\<close>

function uevent_scan :: "string \<Rightarrow> int \<Rightarrow> nat \<Rightarrow> nat option list \<Rightarrow> nat \<Rightarrow> (nat option list \<times> nat) option" where
  "uevent_scan buf buflen envp vals matches =
     (if int envp < buflen then
        (case strchr_pos (drop envp buf) NUL of
           None \<Rightarrow> None
         | Some k \<Rightarrow>
             let (vals, matches) = match_env (take k (drop envp buf)) envp 0 vals matches
             in uevent_scan buf buflen (envp + k + 1) vals matches)
      else Some (vals, matches))"
  by pat_completeness auto
termination by (relation "measure (\<lambda>(buf, buflen, envp, vals, matches). nat (buflen - int envp))") auto

declare uevent_scan.simps [simp del]

text \<open>The string that is printed for a pointer into the buffer.\<close>

definition cstr_at :: "string \<Rightarrow> nat \<Rightarrow> string" where
  "cstr_at buf off = takeWhile (\<lambda>c. c \<noteq> NUL) (drop off buf)"

text \<open>
  A report has \<open>None\<close> for a variable the buffer lacks: \<^verbatim>\<open>printf\<close> is then given a null pointer for \<^verbatim>\<open>%s\<close>, which the C
  standard leaves undefined and the GNU library prints as \<^verbatim>\<open>(null)\<close>.
\<close>

type_synonym uevent_report = "(string \<times> string option) list"

definition process_uevent_buf :: "string \<Rightarrow> int \<Rightarrow> uevent_report option" where
  "process_uevent_buf buf buflen =
     map_option (\<lambda>(vals, matches). map (\<lambda>j. (uevent_env_str ! j, map_option (cstr_at buf) (vals ! j))) [0..<UEVENT_ENV_MAX])
       (uevent_scan buf buflen 0 (replicate UEVENT_ENV_MAX None) 0)"

section \<open>The loop of main\<close>

text \<open>
  What one turn of the loop meets: \<^verbatim>\<open>select\<close> fails, or it returns with the signal descriptor ready
  or not, and then \<^verbatim>\<open>recvmsg\<close> gives a message or fails.
\<close>

datatype select_result = SelectError | Ready bool "string option"

datatype uevent_end = Waiting | Exits int | OutOfBounds

definition recv_buf :: "string option \<Rightarrow> string \<times> int" where
  "recv_buf msg =
     (case msg of
        None \<Rightarrow> (replicate UEVENT_BUF NUL, -1)
      | Some m \<Rightarrow>
          let m = take UEVENT_BUF m in (m @ replicate (UEVENT_BUF - length m) NUL, int (length m)))"

fun uevent_loop :: "select_result list \<Rightarrow> uevent_report list \<times> uevent_end" where
  "uevent_loop [] = ([], Waiting)"
| "uevent_loop (SelectError # evs) = ([], Exits (-1))"
| "uevent_loop (Ready sig msg # evs) =
     (if sig then ([], Exits 0)
      else let (buf, buflen) = recv_buf msg in
        (case process_uevent_buf buf buflen of
           None \<Rightarrow> ([], OutOfBounds)
         | Some r \<Rightarrow> let (rs, e) = uevent_loop evs in (r # rs, e)))"

text \<open>The set-up: the descriptors that \<^verbatim>\<open>socket\<close> and \<^verbatim>\<open>signalfd\<close> return and whether \<^verbatim>\<open>bind\<close> succeeds.\<close>

definition uevent_main :: "int \<Rightarrow> bool \<Rightarrow> int \<Rightarrow> select_result list \<Rightarrow> uevent_report list \<times> uevent_end" where
  "uevent_main nl_fd bind_ok sigmask_fd evs =
     (if nl_fd \<le> 0 then ([], Exits (-1))
      else if \<not> bind_ok then ([], Exits (-1))
      else if sigmask_fd < 0 then ([], Exits (-1))
      else uevent_loop evs)"

section \<open>Messages\<close>

text \<open>
  The kernel sends strings, each with its NUL. The value of a variable is what follows the name in
  the last string that begins with it.
\<close>

definition uevent_msg :: "string list \<Rightarrow> string" where
  "uevent_msg fields = concat (map (\<lambda>s. s @ [NUL]) fields)"

definition env_value :: "string \<Rightarrow> string list \<Rightarrow> string option" where
  "env_value key fields =
     (let ms = filter (prefix key) fields in if ms = [] then None else Some (drop (length key) (last ms)))"

lemma env_value_snoc:
  "env_value key (fields @ [s]) = (if prefix key s then Some (drop (length key) s) else env_value key fields)"
  by (simp add: env_value_def)

lemma strncmp_eq_prefix_iff: "strncmp_eq s key (length key) \<longleftrightarrow> prefix key s"
proof -
  have "take (length key) s = key \<longleftrightarrow> prefix key s"
    by (metis append_eq_conv_conj prefix_def take_is_prefix)
  then show ?thesis by (simp add: strncmp_eq_prefix)
qed

lemma match_env_vals:
  assumes "j \<le> UEVENT_ENV_MAX" "length vals = UEVENT_ENV_MAX"
  shows "length (fst (match_env s envp j vals matches)) = UEVENT_ENV_MAX \<and>
    (\<forall>i < UEVENT_ENV_MAX. fst (match_env s envp j vals matches) ! i =
       (if j \<le> i \<and> prefix (uevent_env_str ! i) s then Some (envp + length (uevent_env_str ! i)) else vals ! i))"
  using assms
proof (induction s envp j vals matches rule: match_env.induct)
  case (1 s envp j vals matches)
  show ?case
  proof (cases "j < UEVENT_ENV_MAX")
    case False
    then show ?thesis using "1.prems" by (subst (1 2) match_env.simps) auto
  next
    case True
    then have sj: "Suc j \<le> UEVENT_ENV_MAX" by simp
    have le: "j \<le> i \<longleftrightarrow> i = j \<or> Suc j \<le> i" for i by auto
    show ?thesis
    proof (cases "prefix (uevent_env_str ! j) s")
      case m: True
      then have "match_env s envp j vals matches =
          match_env s envp (Suc j) (vals[j := Some (envp + length (uevent_env_str ! j))]) (matches + 1)"
        using True by (subst match_env.simps) (simp add: strncmp_eq_prefix_iff)
      then show ?thesis using "1.IH"(1) [OF True refl _ sj] "1.prems" True m
        by (simp add: strncmp_eq_prefix_iff nth_list_update le)
    next
      case m: False
      then have "match_env s envp j vals matches = match_env s envp (Suc j) vals matches"
        using True by (subst match_env.simps) (simp add: strncmp_eq_prefix_iff)
      then show ?thesis using "1.IH"(2) [OF True refl _ sj] "1.prems" True m
        by (auto simp: strncmp_eq_prefix_iff le)
    qed
  qed
qed

lemma strchr_pos_terminated: "NUL \<notin> set s \<Longrightarrow> strchr_pos (s @ NUL # r) NUL = Some (length s)"
  by (induction s) auto

lemma cstr_at_field:
  assumes "prefix key s" "NUL \<notin> set s"
  shows "cstr_at (d @ s @ NUL # r) (length d + length key) = drop (length key) s"
proof -
  obtain v where s: "s = key @ v" using assms(1) by (auto simp: prefix_def)
  have "takeWhile (\<lambda>c. c \<noteq> NUL) (v @ NUL # r) = v" using assms(2) s by (subst takeWhile_append2) auto
  then show ?thesis by (simp add: cstr_at_def s)
qed

section \<open>Correctness of the scan\<close>

text \<open>The pointers found so far, read as strings, are the values of the strings seen so far.\<close>

definition scan_vals :: "string \<Rightarrow> nat option list \<Rightarrow> string list \<Rightarrow> bool" where
  "scan_vals buf vals fields \<longleftrightarrow> length vals = UEVENT_ENV_MAX \<and>
     (\<forall>i < UEVENT_ENV_MAX. map_option (cstr_at buf) (vals ! i) = env_value (uevent_env_str ! i) fields)"

lemma uevent_msg_simps [simp]:
  "uevent_msg [] = []" "uevent_msg (s # fields) = s @ NUL # uevent_msg fields"
  "uevent_msg (fields @ fields') = uevent_msg fields @ uevent_msg fields'"
  by (simp_all add: uevent_msg_def)

lemma scan_vals_step:
  assumes "scan_vals buf vals old" "buf = d @ s @ NUL # r" "NUL \<notin> set s"
  shows "scan_vals buf (fst (match_env s (length d) 0 vals matches)) (old @ [s])"
proof -
  note m = match_env_vals [of 0 vals s "length d" matches]
  have "map_option (cstr_at buf) (fst (match_env s (length d) 0 vals matches) ! i) = env_value (uevent_env_str ! i) (old @ [s])"
    if i: "i < UEVENT_ENV_MAX" for i
  proof (cases "prefix (uevent_env_str ! i) s")
    case True
    then show ?thesis using m assms(1) i cstr_at_field [OF True assms(3)] by (simp add: scan_vals_def env_value_snoc assms(2))
  next
    case False
    then show ?thesis using m assms(1) i by (simp add: scan_vals_def env_value_snoc)
  qed
  then show ?thesis using m assms(1) by (simp add: scan_vals_def)
qed

lemma uevent_scan_fields:
  assumes "buf = uevent_msg old @ uevent_msg fields @ r" "\<forall>s\<in>set fields. cstring s"
    "scan_vals buf vals old"
  shows "\<exists>vals' m. uevent_scan buf (int (length (uevent_msg old @ uevent_msg fields))) (length (uevent_msg old)) vals matches =
      Some (vals', m) \<and> scan_vals buf vals' (old @ fields)"
  using assms
proof (induction fields arbitrary: old vals matches)
  case Nil
  then show ?case by (subst uevent_scan.simps) simp
next
  case (Cons s fields)
  let ?d = "uevent_msg old"
  have s: "NUL \<notin> set s" using Cons.prems(2) by (simp add: cstring_def)
  have buf: "buf = ?d @ s @ NUL # (uevent_msg fields @ r)" using Cons.prems(1) by simp
  then have dr: "drop (length ?d) buf = s @ NUL # (uevent_msg fields @ r)" by simp
  obtain vals' m' where m: "match_env s (length ?d) 0 vals matches = (vals', m')" by (rule prod.exhaust)
  have sv: "scan_vals buf vals' (old @ [s])" using scan_vals_step [OF Cons.prems(3) buf s, of matches] m by simp
  have "uevent_scan buf (int (length (?d @ uevent_msg (s # fields)))) (length ?d) vals matches =
      uevent_scan buf (int (length (uevent_msg (old @ [s]) @ uevent_msg fields))) (length (uevent_msg (old @ [s]))) vals' m'"
    using m by (subst uevent_scan.simps) (simp add: dr strchr_pos_terminated [OF s] algebra_simps)
  then show ?case using Cons.IH [of "old @ [s]" vals' m'] sv Cons.prems(1,2) by simp
qed

lemma scan_vals_none: "scan_vals buf (replicate UEVENT_ENV_MAX None) []"
  by (simp add: scan_vals_def env_value_def)

definition values_of :: "string list \<Rightarrow> uevent_report" where
  "values_of fields = map (\<lambda>key. (key, env_value key fields)) uevent_env_str"

lemma map_env: "map (\<lambda>j. f (uevent_env_str ! j)) [0..<UEVENT_ENV_MAX] = map f uevent_env_str"
proof -
  have n: "UEVENT_ENV_MAX = length uevent_env_str" by (simp add: UEVENT_ENV_MAX_def uevent_env_str_def)
  have "map f (map ((!) uevent_env_str) [0..<length uevent_env_str]) = map f uevent_env_str" by (simp only: map_nth)
  then show ?thesis by (simp add: n comp_def)
qed

lemma process_fields:
  assumes "\<forall>s\<in>set fields. cstring s"
  shows "process_uevent_buf (uevent_msg fields @ r) (int (length (uevent_msg fields))) = Some (values_of fields)"
proof -
  let ?buf = "uevent_msg fields @ r"
  obtain vals m where v: "uevent_scan ?buf (int (length (uevent_msg fields))) 0 (replicate UEVENT_ENV_MAX None) 0 = Some (vals, m)"
      "scan_vals ?buf vals fields"
    using uevent_scan_fields [of ?buf "[]" fields r] assms scan_vals_none by force
  have "values_of fields = map (\<lambda>j. (uevent_env_str ! j, env_value (uevent_env_str ! j) fields)) [0..<UEVENT_ENV_MAX]"
    unfolding values_of_def by (rule map_env [symmetric])
  moreover have "map (\<lambda>j. (uevent_env_str ! j, map_option (cstr_at ?buf) (vals ! j))) [0..<UEVENT_ENV_MAX] =
      map (\<lambda>j. (uevent_env_str ! j, env_value (uevent_env_str ! j) fields)) [0..<UEVENT_ENV_MAX]"
    using v(2) by (simp add: scan_vals_def)
  ultimately show ?thesis using v(1) by (simp add: process_uevent_buf_def)
qed

lemma process_error: "process_uevent_buf (replicate UEVENT_BUF NUL) (-1) = Some (values_of [])"
proof -
  have "values_of [] = map (\<lambda>j. (uevent_env_str ! j, None)) [0..<UEVENT_ENV_MAX]"
    using map_env [of "\<lambda>key. (key, None)", symmetric] by (simp add: values_of_def env_value_def)
  moreover have "uevent_scan (replicate UEVENT_BUF NUL) (-1) 0 (replicate UEVENT_ENV_MAX None) 0 = Some (replicate UEVENT_ENV_MAX None, 0)"
    by (subst uevent_scan.simps) simp
  ultimately show ?thesis by (simp add: process_uevent_buf_def)
qed

section \<open>Properties\<close>

lemma recv_buf_msg:
  "length m \<le> UEVENT_BUF \<Longrightarrow> recv_buf (Some m) = (m @ replicate (UEVENT_BUF - length m) NUL, int (length m))"
  by (simp add: recv_buf_def)

text \<open>What is received in one turn: the strings of a message, or nothing when \<^verbatim>\<open>recvmsg\<close> fails.\<close>

definition fits :: "string list option \<Rightarrow> bool" where
  "fits f = (case f of None \<Rightarrow> True | Some fields \<Rightarrow> list_all cstring fields \<and> length (uevent_msg fields) \<le> UEVENT_BUF)"

abbreviation received :: "string list option \<Rightarrow> select_result" where
  "received f \<equiv> Ready False (map_option uevent_msg f)"

lemma uevent_loop_received:
  assumes "fits f"
  shows "uevent_loop (received f # evs) =
    (values_of (case f of None \<Rightarrow> [] | Some fields \<Rightarrow> fields) # fst (uevent_loop evs), snd (uevent_loop evs))"
proof (cases f)
  case None
  then show ?thesis by (simp add: recv_buf_def process_error split: prod.splits)
next
  case (Some fields)
  then show ?thesis using assms process_fields [of fields]
    by (simp add: fits_def recv_buf_msg list_all_iff split: prod.splits)
qed

lemma uevent_loop_all:
  "list_all fits fs \<Longrightarrow> uevent_loop (map received fs @ evs) =
     (map (\<lambda>f. values_of (case f of None \<Rightarrow> [] | Some fields \<Rightarrow> fields)) fs @ fst (uevent_loop evs), snd (uevent_loop evs))"
  by (induction fs) (simp_all add: uevent_loop_received del: uevent_loop.simps(3))

text \<open>
  Property C14: the listener prints, for every message of the kernel that fits its buffer, exactly
  the values of the variables it knows (of the last string with the variable's name, nothing for
  an absent one); a failed receive prints all of them absent. It goes on until a signal arrives,
  which ends it with status 0 without looking at the message that came with it.
\<close>

theorem uevent_main_reports:
  assumes "0 < nl_fd" "0 \<le> sigmask_fd" "list_all fits fs"
  shows "uevent_main nl_fd True sigmask_fd (map received fs @ Ready True msg # evs) =
    (map (\<lambda>f. values_of (case f of None \<Rightarrow> [] | Some fields \<Rightarrow> fields)) fs, Exits 0)"
  using assms by (simp add: uevent_main_def uevent_loop_all)

theorem uevent_main_reports_witness:
  "uevent_main 3 True 4
     (map received [Some [''add@/devices/x'', ''ACTION=add'', ''SUBSYSTEM=block'', ''ACTION=change''], None] @ [Ready True None]) =
   (map (\<lambda>f. values_of (case f of None \<Rightarrow> [] | Some fields \<Rightarrow> fields))
      [Some [''add@/devices/x'', ''ACTION=add'', ''SUBSYSTEM=block'', ''ACTION=change''], None], Exits 0)"
  by (rule uevent_main_reports) (simp_all add: fits_def cstring_def UEVENT_BUF_def uevent_msg_def)

text \<open>A message that fills the buffer without a NUL makes the scan run out of the buffer.\<close>

lemma uevent_unterminated:
  assumes "UEVENT_BUF \<le> length m" "NUL \<notin> set (take UEVENT_BUF m)"
  shows "uevent_loop (Ready False (Some m) # evs) = ([], OutOfBounds)"
proof -
  have "strchr_pos s NUL = None" if "NUL \<notin> set s" for s using that by (induction s) auto
  then have "strchr_pos (take UEVENT_BUF m) NUL = None" using assms(2) by blast
  then have "process_uevent_buf (take UEVENT_BUF m) (int UEVENT_BUF) = None"
    unfolding process_uevent_buf_def by (subst uevent_scan.simps) (simp add: UEVENT_BUF_def)
  then show ?thesis using assms(1) by (simp add: recv_buf_def min_absorb2)
qed

end
