(* ===== verification/Cpu_Hogd.thy ===== *)
theory Cpu_Hogd
  imports C_Library "HOL-Library.Monad_Syntax"
begin

unbundle bit_operations_syntax

text \<open>
  The daemon that keeps processors busy on command, \<^verbatim>\<open>src/cpu_hogd.c\<close>, and its first version
  \<^verbatim>\<open>src/cpu_hogd_v0.c\<close>, which also contains the client. A turn of the daemon's loop reads one command
  from its pipe, acts on it and keeps the numbers of the last command. What it does to the
  system is a list of actions: a busy wait of its own, an attempt to bind itself to a processor, or an
  attempt to fork a child. Whether an attempt succeeds is up to the system, a parameter of the turn.
\<close>

section \<open>State and actions\<close>

text \<open>
  \<open>hog_cmd\<close> is the buffer of the command word, which keeps the last one when a command has none;
  \<open>hog_open\<close> counts the descriptors of the pipe that are open, \<open>hog_pipe\<close> says that the pipe exists.
\<close>

record hogd =
  hog_mask :: u32
  hog_secs :: u32
  hog_cmd :: string
  hog_open :: nat
  hog_pipe :: bool

datatype hog_action = Jams u32 | Binds nat bool | Forks u32 bool

text \<open>What \<^verbatim>\<open>sched_setaffinity\<close> and \<^verbatim>\<open>fork\<close> do in a turn, for every processor.\<close>

record hog_sys =
  sys_affinity :: "nat \<Rightarrow> bool"
  sys_fork :: "nat \<Rightarrow> bool"

datatype hogd_next = Goes hogd "hog_action list" | Quits hogd | Overruns

datatype hogd_version = V0 | V1

text \<open>What making the pipe gives, and what a turn of the loop gets from it.\<close>

datatype mknod_result = Made | AlreadyThere | NotMade

datatype pipe_input = OpenFails | ReadFails | Bytes string

definition hogd_init :: "string \<Rightarrow> hogd" where
  "hogd_init junk = \<lparr>hog_mask = 1, hog_secs = 60, hog_cmd = junk, hog_open = 0, hog_pipe = True\<rparr>"

definition hogd_start :: "mknod_result \<Rightarrow> string \<Rightarrow> hogd option" where
  "hogd_start r junk = (case r of NotMade \<Rightarrow> None | _ \<Rightarrow> Some (hogd_init junk))"

section \<open>One command\<close>

text \<open>
  The loop over the bits of the mask, which is an \<^verbatim>\<open>int\<close>: shifted arithmetically and compared as a
  signed number. For every bit the daemon tries to bind itself to the processor and forks a child,
  also when it could not be bound; when the fork fails it goes on as the parent.
\<close>

function hydra_loop :: "hog_sys \<Rightarrow> u32 \<Rightarrow> u32 \<Rightarrow> nat \<Rightarrow> hog_action list \<times> u32" where
  "hydra_loop sys secs msk cpu =
     (if sint msk < 16 \<and> msk \<noteq> 0 \<and> cpu < 4 then
        let last_bit = msk AND 1;
            msk = signed_drop_bit 1 msk;
            (acts, msk') = hydra_loop sys secs msk (cpu + 1)
        in if last_bit = 0 then (acts, msk')
           else (Binds cpu (sys_affinity sys cpu) # Forks secs (sys_fork sys cpu) # acts, msk')
      else ([], msk))"
  by pat_completeness auto
termination by (relation "measure (\<lambda>(sys, secs, msk, cpu). 4 - cpu)") auto

declare hydra_loop.simps [simp del]

text \<open>The pointer behind the first blank.\<close>

fun skip_word :: "string \<Rightarrow> string" where
  "skip_word [] = []"
| "skip_word (c # s) = (if c = CHR '' '' then s else skip_word s)"

text \<open>Leaving the daemon: the second version removes the pipe, the first one exits at once.\<close>

definition hogd_quit :: "hogd_version \<Rightarrow> hogd \<Rightarrow> hogd_next" where
  "hogd_quit v st = Quits (st\<lparr>hog_pipe := (v = V0)\<rparr>)"

definition hogd_jam :: "string \<Rightarrow> hogd \<Rightarrow> hogd_next" where
  "hogd_jam args st =
     (let secs = (case scan_int args of None \<Rightarrow> hog_secs st | Some (n, _) \<Rightarrow> n);
          st = st\<lparr>hog_secs := secs, hog_open := hog_open st - 1\<rparr>
      in if 0 < sint secs \<and> sint secs < 120 then Goes st [Jams secs] else Goes st [])"

definition hogd_hydra :: "hog_sys \<Rightarrow> hogd_version \<Rightarrow> string \<Rightarrow> hogd \<Rightarrow> hogd_next" where
  "hogd_hydra sys v args st =
     (let (msk, secs) =
            (case scan_int args of
               None \<Rightarrow> (hog_mask st, hog_secs st)
             | Some (m, r) \<Rightarrow> (case scan_int r of None \<Rightarrow> (m, hog_secs st) | Some (n, _) \<Rightarrow> (m, n)));
          st = st\<lparr>hog_mask := msk, hog_secs := secs\<rparr>
      in if msk = -1 \<or> secs = -1 then hogd_quit v st
         else if 100 < sint secs then Goes st []
         else let (acts, msk) = hydra_loop sys secs msk 0
              in Goes (st\<lparr>hog_mask := msk, hog_open := hog_open st - 1\<rparr>) acts)"

definition hogd_dispatch :: "hog_sys \<Rightarrow> hogd_version \<Rightarrow> string \<Rightarrow> string \<Rightarrow> hogd \<Rightarrow> hogd_next" where
  "hogd_dispatch sys v cmd args st =
     (if cmd = ''quit'' then hogd_quit v st
      else if cmd = ''jam'' then hogd_jam args st
      else if cmd = ''hydra'' then hogd_hydra sys v args st
      else Goes (st\<lparr>hog_open := hog_open st - 1\<rparr>) [])"

text \<open>
  A turn of the loop for what \<^verbatim>\<open>read\<close> returns: at most 128 bytes, which the code ends with a NUL
  at the place behind them, or a failure to open the pipe (after which the daemon exits at once) or
  to read it (after which it removes the pipe). The command word has a buffer of 32.
\<close>

definition hogd_step :: "hog_sys \<Rightarrow> hogd_version \<Rightarrow> pipe_input \<Rightarrow> hogd \<Rightarrow> hogd_next" where
  "hogd_step sys v input st =
     (case input of
        OpenFails \<Rightarrow> Quits st
      | ReadFails \<Rightarrow> Quits (st\<lparr>hog_pipe := False\<rparr>)
      | Bytes bytes \<Rightarrow>
          if 128 \<le> length bytes then Overruns
          else
            let st = st\<lparr>hog_open := hog_open st + 1\<rparr>;
                buf = takeWhile (\<lambda>c. c \<noteq> NUL) bytes;
                cmd = (case scan_str 128 buf of None \<Rightarrow> hog_cmd st | Some (t, _) \<Rightarrow> t)
            in if 32 \<le> length cmd then Overruns
               else hogd_dispatch sys v cmd (skip_word buf) (st\<lparr>hog_cmd := cmd\<rparr>))"

section \<open>Runs of the daemon\<close>

datatype hogd_end = HogWaiting hogd | HogExit hogd | HogOverrun

text \<open>Every turn has its input and its system.\<close>

fun hogd_run :: "hogd_version \<Rightarrow> (hog_sys \<times> pipe_input) list \<Rightarrow> hogd \<Rightarrow> hog_action list \<times> hogd_end" where
  "hogd_run v [] st = ([], HogWaiting st)"
| "hogd_run v ((sys, x) # xs) st =
     (case hogd_step sys v x st of
        Quits st \<Rightarrow> ([], HogExit st)
      | Overruns \<Rightarrow> ([], HogOverrun)
      | Goes st as \<Rightarrow> let (as', e) = hogd_run v xs st in (as @ as', e))"

text \<open>
  The options of the first version, in the order \<^verbatim>\<open>getopt\<close> gives them, up to the one that makes it a
  daemon; and what its client writes to the pipe.
\<close>

fun v0_options :: "(char \<times> string) list \<Rightarrow> u32 \<times> u32 \<Rightarrow> bool \<times> u32 \<times> u32" where
  "v0_options [] (msk, secs) = (False, msk, secs)"
| "v0_options ((c, optarg) # opts) (msk, secs) =
     (if c = CHR ''d'' then (True, msk, secs)
      else if c = CHR ''c'' then v0_options opts ((case scan_int optarg of None \<Rightarrow> msk | Some (n, _) \<Rightarrow> n), secs)
      else if c = CHR ''s'' then v0_options opts (msk, (case scan_int optarg of None \<Rightarrow> secs | Some (n, _) \<Rightarrow> n))
      else v0_options opts (msk, secs))"

definition v0_client :: "u32 \<Rightarrow> u32 \<Rightarrow> string" where
  "v0_client msk secs = int_string (sint msk) @ '' '' @ int_string (sint secs)"

text \<open>The two programs: the daemon of the second version; the daemon or the client of the first.\<close>

definition cpu_hogd_main ::
  "mknod_result \<Rightarrow> string \<Rightarrow> (hog_sys \<times> pipe_input) list \<Rightarrow> (hog_action list \<times> hogd_end) option" where
  "cpu_hogd_main r junk inputs = map_option (hogd_run V1 inputs) (hogd_start r junk)"

definition v0_daemon ::
  "u32 \<Rightarrow> u32 \<Rightarrow> mknod_result \<Rightarrow> string \<Rightarrow> (hog_sys \<times> pipe_input) list \<Rightarrow> (hog_action list \<times> hogd_end) option" where
  "v0_daemon msk secs r junk inputs =
     map_option (\<lambda>st. hogd_run V0 inputs (st\<lparr>hog_mask := msk, hog_secs := secs\<rparr>)) (hogd_start r junk)"

definition v0_main ::
  "(char \<times> string) list \<Rightarrow> mknod_result \<Rightarrow> string \<Rightarrow> (hog_sys \<times> pipe_input) list \<Rightarrow> (hog_action list \<times> hogd_end) option + string" where
  "v0_main opts r junk inputs =
     (let (daemon, msk, secs) = v0_options opts (1, 60)
      in if daemon then Inl (v0_daemon msk secs r junk inputs) else Inr (v0_client msk secs))"

section \<open>The bits of the mask\<close>

text \<open>The loop picks the processors of the low four bits, also of a negative mask.\<close>

lemma sint_drop_less: "sint msk < 16 \<Longrightarrow> sint (signed_drop_bit 1 msk :: u32) < 16"
proof -
  assume "sint msk < 16"
  moreover have "sint (signed_drop_bit 1 msk) = sint msk div 2"
    by (simp add: sint_signed_drop_bit_eq drop_bit_eq_div)
  ultimately show ?thesis by simp
qed

lemma and_1_bit: "(m AND 1 = 0) \<longleftrightarrow> \<not> bit (m :: u32) 0"
  by (simp add: and_one_eq bit_0 even_iff_mod_2_eq_zero)

abbreviation bit_acts :: "hog_sys \<Rightarrow> u32 \<Rightarrow> nat \<Rightarrow> hog_action list" where
  "bit_acts sys secs i \<equiv> [Binds i (sys_affinity sys i), Forks secs (sys_fork sys i)]"

lemma hydra_loop_bits:
  assumes "sint msk < 16"
  shows "fst (hydra_loop sys secs msk cpu) = concat (map (bit_acts sys secs) (filter (\<lambda>i. bit msk (i - cpu)) [cpu..<4]))"
  using assms
proof (induction sys secs msk cpu rule: hydra_loop.induct)
  case (1 sys secs msk cpu)
  show ?case
  proof (cases "msk \<noteq> 0 \<and> cpu < 4")
    case False
    then show ?thesis by (subst hydra_loop.simps) auto
  next
    case True
    let ?m = "signed_drop_bit 1 msk"
    have g: "sint msk < 16 \<and> msk \<noteq> 0 \<and> cpu < 4" using True "1.prems" by simp
    have "fst (hydra_loop sys secs ?m (cpu + 1)) =
        concat (map (bit_acts sys secs) (filter (\<lambda>i. bit ?m (i - (cpu + 1))) [cpu + 1..<4]))"
      by (rule "1.IH" [OF g refl refl sint_drop_less [OF "1.prems"]])
    also have "filter (\<lambda>i. bit ?m (i - (cpu + 1))) [cpu + 1..<4] = filter (\<lambda>i. bit msk (i - cpu)) [cpu + 1..<4]"
      by (rule filter_cong) (auto simp: bit_signed_drop_bit_iff Suc_diff_Suc)
    finally have ih: "fst (hydra_loop sys secs ?m (cpu + 1)) =
        concat (map (bit_acts sys secs) (filter (\<lambda>i. bit msk (i - cpu)) [cpu + 1..<4]))" .
    have u: "[cpu..<4] = cpu # [cpu + 1..<4]" using True by (simp add: upt_conv_Cons)
    show ?thesis unfolding u using g ih by (subst hydra_loop.simps) (auto simp: Let_def and_1_bit split: prod.splits)
  qed
qed

section \<open>Commands as text\<close>

lemma sint_u32_bounds: "- (2 ^ 31) \<le> sint (w :: u32)" "sint (w :: u32) < 2 ^ 31"
  using sint_greater_eq [of w] sint_less [of w] by simp_all

lemma length_sint_string: "length (int_string (sint (w :: u32))) \<le> 11"
  by (rule length_int_string) (use sint_u32_bounds [of w] in simp_all)

lemma int_string_plain:
  "\<forall>c\<in>set (int_string v). \<not> c_isspace c" "NUL \<notin> set (int_string v)" "CHR '' '' \<notin> set (int_string v)"
proof -
  have "\<not> c_isspace c \<and> c \<noteq> NUL \<and> c \<noteq> CHR '' ''" if "c = CHR ''-'' \<or> digit_in 10 c" for c
    using that by (auto simp: digit_in_def c_isspace_def)
  then have "\<forall>c\<in>set (int_string v). \<not> c_isspace c \<and> c \<noteq> NUL \<and> c \<noteq> CHR '' ''" using int_string_char [of _ v] by auto
  then show "\<forall>c\<in>set (int_string v). \<not> c_isspace c" "NUL \<notin> set (int_string v)" "CHR '' '' \<notin> set (int_string v)"
    by auto
qed

lemma scan_int_sint: "no_digit r \<Longrightarrow> scan_int (int_string (sint w) @ r) = Some (w, r)"
  using scan_int_int_string [of r "sint w"] sint_u32_bounds [of w] by simp

lemma scan_int_blank: "scan_int (CHR '' '' # s) = scan_int s"
  by (simp add: scan_int_def scan_num_def skip_ws_def c_isspace_def)

lemma scan_str_word:
  assumes "w \<noteq> []" "\<forall>c\<in>set w. \<not> c_isspace c" "length w \<le> n"
  shows "scan_str n (w @ CHR '' '' # r) = Some (w, CHR '' '' # r)"
proof -
  obtain c ws where w: "w = c # ws" using assms(1) by (cases w) auto
  have "takeWhile (\<lambda>c. \<not> c_isspace c) (w @ CHR '' '' # r) = w"
    using assms(2) by (subst takeWhile_append2) (auto simp: c_isspace_def)
  moreover have "skip_ws (w @ CHR '' '' # r) = w @ CHR '' '' # r" using assms(2) w by (simp add: skip_ws_def)
  ultimately show ?thesis using assms(1,3) w by (simp add: scan_str_def)
qed

lemma skip_word_word: "CHR '' '' \<notin> set w \<Longrightarrow> skip_word (w @ CHR '' '' # r) = r"
  by (induction w) auto

text \<open>A command of a word and two numbers is within the buffer and is read as written.\<close>

abbreviation two_numbers :: "u32 \<Rightarrow> u32 \<Rightarrow> string" where
  "two_numbers m n \<equiv> int_string (sint m) @ CHR '' '' # int_string (sint n)"

lemma two_numbers_plain: "takeWhile (\<lambda>c. c \<noteq> NUL) (two_numbers m n) = two_numbers m n" "length (two_numbers m n) \<le> 23"
  "NUL \<notin> set (two_numbers m n)"
  using int_string_plain(2) length_sint_string [of m] length_sint_string [of n]
  by (auto simp: takeWhile_eq_all_conv)

lemma scan_two_numbers:
  "scan_int (two_numbers m n) = Some (m, CHR '' '' # int_string (sint n))"
  "scan_int (CHR '' '' # int_string (sint n)) = Some (n, [])"
  using scan_int_sint [of "CHR '' '' # int_string (sint n)" m] scan_int_sint [of "[]" n]
  by (simp_all add: scan_int_blank no_digit_def digit_in_def)

lemma hogd_step_command:
  assumes "NUL \<notin> set s" "length s < 128" "scan_str 128 s = Some (t, r)" "length t < 32"
  shows "hogd_step sys v (Bytes s) st =
    hogd_dispatch sys v t (skip_word s) (st\<lparr>hog_open := hog_open st + 1, hog_cmd := t\<rparr>)"
proof -
  have "takeWhile (\<lambda>c. c \<noteq> NUL) s = s" using assms(1) by (auto simp: takeWhile_eq_all_conv)
  then show ?thesis using assms(2-4) by (simp add: hogd_step_def Let_def del: takeWhile_eq_all_conv)
qed

lemma hogd_step_hydra:
  "hogd_step sys v (Bytes (''hydra '' @ two_numbers m n)) st =
     hogd_hydra sys v (two_numbers m n) (st\<lparr>hog_open := hog_open st + 1, hog_cmd := ''hydra''\<rparr>)"
proof -
  define s where "s = ''hydra'' @ CHR '' '' # two_numbers m n"
  have e: "''hydra '' @ two_numbers m n = s" by (simp add: s_def)
  have n: "NUL \<notin> set s" using two_numbers_plain(3) [of m n] by (simp add: s_def)
  have l: "length s < 128" using two_numbers_plain(2) [of m n] by (simp add: s_def)
  have w: "scan_str 128 s = Some (''hydra'', CHR '' '' # two_numbers m n)"
    unfolding s_def by (rule scan_str_word) (auto simp: c_isspace_def)
  have "skip_word s = two_numbers m n" unfolding s_def by (rule skip_word_word) simp
  then show ?thesis unfolding e using hogd_step_command [OF n l w] by (simp add: hogd_dispatch_def)
qed

section \<open>Properties\<close>

text \<open>The command \<^verbatim>\<open>hydra mask secs\<close>, written out in decimal, as the actions of its turn.\<close>

lemma hogd_step_hydra_acts:
  assumes "msk \<noteq> -1" "secs \<noteq> -1" "sint secs \<le> 100" "sint msk < 16"
  shows "\<exists>st'. hogd_step sys v (Bytes (''hydra '' @ two_numbers msk secs)) st =
      Goes st' (concat (map (bit_acts sys secs) (filter (bit msk) [0..<4]))) \<and> hog_cmd st' = ''hydra'' \<and>
    hog_open st' = hog_open st \<and> hog_pipe st' = hog_pipe st \<and> hog_secs st' = secs"
proof -
  have "fst (hydra_loop sys secs msk 0) = concat (map (bit_acts sys secs) (filter (bit msk) [0..<4]))"
    using hydra_loop_bits [OF assms(4), of sys secs 0] by simp
  then show ?thesis unfolding hogd_step_hydra using assms(1-3)
    by (auto simp: hogd_hydra_def scan_two_numbers split: prod.splits)
qed

lemma v0_client_step:
  "hogd_step sys v (Bytes (v0_client msk secs)) st = Goes (st\<lparr>hog_cmd := int_string (sint msk)\<rparr>) []"
proof -
  let ?s = "two_numbers msk secs"
  have c: "v0_client msk secs = ?s" by (simp add: v0_client_def)
  have w: "scan_str 128 ?s = Some (int_string (sint msk), CHR '' '' # int_string (sint secs))"
    using int_string_plain length_sint_string [of msk] by (intro scan_str_word) auto
  obtain d ds where d: "int_string (sint msk) = d # ds" by (cases "int_string (sint msk)") auto
  then have "d = CHR ''-'' \<or> digit_in 10 d" using int_string_char [of d "sint msk"] by simp
  then have "int_string (sint msk) \<noteq> ''quit''" "int_string (sint msk) \<noteq> ''jam''" "int_string (sint msk) \<noteq> ''hydra''"
    using d by (auto simp: digit_in_def)
  then show ?thesis unfolding c
    using hogd_step_command [OF two_numbers_plain(3) _ w] two_numbers_plain(2) [of msk secs] length_sint_string [of msk]
    by (simp add: hogd_dispatch_def)
qed

lemma hogd_run_clients:
  "fst (hogd_run v (map (\<lambda>(m, n). (sys, Bytes (v0_client m n))) ms) st) = [] \<and>
   (\<exists>cmd. snd (hogd_run v (map (\<lambda>(m, n). (sys, Bytes (v0_client m n))) ms) st) = HogWaiting (st\<lparr>hog_cmd := cmd\<rparr>))"
proof (induction ms arbitrary: st)
  case Nil
  show ?case by (auto intro!: exI [of _ "hog_cmd st"])
next
  case (Cons p ms)
  obtain m n where p: "p = (m, n)" by (cases p)
  then show ?case using Cons [of "st\<lparr>hog_cmd := int_string (sint m)\<rparr>"]
    by (auto simp: v0_client_step split: prod.splits)
qed

text \<open>
  The client and the daemon of the first version do not understand each other. The
  client writes two numbers without a command word; the daemon takes the first number for the
  command: after any number of such messages it has done nothing at all, and no other state
  than the last word read has changed.
\<close>

theorem v0_client_ignored:
  "\<exists>cmd. hogd_run v (map (\<lambda>(msk, secs). (sys, Bytes (v0_client msk secs))) ms) st = ([], HogWaiting (st\<lparr>hog_cmd := cmd\<rparr>))"
  using hogd_run_clients [of v sys ms st] by (metis prod.collapse)

text \<open>What else the commands do: a busy wait is bounded, a long \<^verbatim>\<open>hydra\<close> leaks a descriptor, 128 bytes overrun.\<close>

lemma hogd_jam_bounded: "hogd_jam args st = Goes st' as \<Longrightarrow> as = [] \<or> (\<exists>n. as = [Jams n] \<and> 0 < sint n \<and> sint n < 120)"
  by (auto simp: hogd_jam_def Let_def split: if_splits option.splits)

lemma hydra_leaks:
  "100 < sint secs \<Longrightarrow> msk \<noteq> -1 \<Longrightarrow> hogd_step sys v (Bytes (''hydra '' @ two_numbers msk secs)) st =
     Goes (st\<lparr>hog_open := hog_open st + 1, hog_cmd := ''hydra'', hog_mask := msk, hog_secs := secs\<rparr>) []"
  unfolding hogd_step_hydra by (auto simp: hogd_hydra_def scan_two_numbers Let_def)

lemma hogd_full_read: "128 \<le> length bytes \<Longrightarrow> hogd_step sys v (Bytes bytes) st = Overruns"
  by (simp add: hogd_step_def)

end
