(* ===== verification/Frw.thy ===== *)
theory Frw
  imports C_Library
begin

text \<open>
  The disk exerciser \<^verbatim>\<open>src/frw.c\<close>: it reads or writes pages of a file, in order or at random places,
  and times each round. A file is its bytes with a position. \<open>rnd k\<close> is call number \<open>k\<close> of
  \<^verbatim>\<open>random\<close>, \<open>wret k\<close> what write number \<open>k\<close> returns (the bytes written, or a failure), \<open>rfail k\<close>
  whether read number \<open>k\<close> fails; the error messages printed are counted.
\<close>

section \<open>Files\<close>

definition PG :: nat where
  "PG = 4096"

text \<open>Writing at an offset; a gap behind the end is filled with zeros.\<close>

definition write_at :: "nat \<Rightarrow> string \<Rightarrow> string \<Rightarrow> string" where
  "write_at off bs d =
     (if bs = [] then d
      else let d = d @ replicate (off - length d) NUL in take off d @ bs @ drop (off + length bs) d)"

record frw =
  fr_data :: string
  fr_pos :: nat
  fr_calls :: nat
  fr_ios :: nat
  fr_errs :: nat

definition frw_random :: "(nat \<Rightarrow> nat) \<Rightarrow> frw \<Rightarrow> nat \<times> frw" where
  "frw_random rnd st = (rnd (fr_calls st), st\<lparr>fr_calls := fr_calls st + 1\<rparr>)"

definition perror :: "frw \<Rightarrow> frw" where
  "perror st = st\<lparr>fr_errs := fr_errs st + 1\<rparr>"

text \<open>\<^verbatim>\<open>write\<close> moves the position, \<^verbatim>\<open>pwrite\<close> does not; both say whether they failed.\<close>

definition c_write :: "(nat \<Rightarrow> nat option) \<Rightarrow> string \<Rightarrow> frw \<Rightarrow> bool \<times> frw" where
  "c_write wret bs st =
     (let r = wret (fr_ios st); st = st\<lparr>fr_ios := fr_ios st + 1\<rparr> in
      case r of
        None \<Rightarrow> (True, st)
      | Some k \<Rightarrow> (False, st\<lparr>fr_data := write_at (fr_pos st) (take k bs) (fr_data st), fr_pos := fr_pos st + min k (length bs)\<rparr>))"

definition c_pwrite :: "(nat \<Rightarrow> nat option) \<Rightarrow> string \<Rightarrow> nat \<Rightarrow> frw \<Rightarrow> bool \<times> frw" where
  "c_pwrite wret bs off st =
     (let r = wret (fr_ios st); st = st\<lparr>fr_ios := fr_ios st + 1\<rparr> in
      case r of
        None \<Rightarrow> (True, st)
      | Some k \<Rightarrow> (False, st\<lparr>fr_data := write_at off (take k bs) (fr_data st)\<rparr>))"

definition c_read :: "(nat \<Rightarrow> bool) \<Rightarrow> frw \<Rightarrow> bool \<times> frw" where
  "c_read rfail st =
     (let f = rfail (fr_ios st); st = st\<lparr>fr_ios := fr_ios st + 1\<rparr> in
      if f then (True, st)
      else (False, st\<lparr>fr_pos := fr_pos st + min PG (length (fr_data st) - fr_pos st)\<rparr>))"

definition c_pread :: "(nat \<Rightarrow> bool) \<Rightarrow> nat \<Rightarrow> frw \<Rightarrow> bool \<times> frw" where
  "c_pread rfail off st = (rfail (fr_ios st), st\<lparr>fr_ios := fr_ios st + 1\<rparr>)"

section \<open>Rounds\<close>

text \<open>
  The number of pages \<open>n\<close>; a negative argument is none. The stray semicolon behind the test of
  \<^verbatim>\<open>pwrite\<close> makes its message unconditional.
\<close>

primrec write_pages :: "(nat \<Rightarrow> nat) \<Rightarrow> (nat \<Rightarrow> nat option) \<Rightarrow> char \<Rightarrow> nat \<Rightarrow> bool \<Rightarrow> nat \<Rightarrow> frw \<Rightarrow> frw" where
  "write_pages rnd wret c max_pages rand_flag 0 st = st"
| "write_pages rnd wret c max_pages rand_flag (Suc i) st =
     (let page_buf = replicate PG c in
      if rand_flag then
        let (r, st) = frw_random rnd st;
            (failed, st) = c_pwrite wret page_buf ((r mod max_pages) * PG) st
        in write_pages rnd wret c max_pages rand_flag i (perror st)
      else
        let (failed, st) = c_write wret page_buf st
        in write_pages rnd wret c max_pages rand_flag i (if failed then perror st else st))"

definition write_fd :: "(nat \<Rightarrow> nat) \<Rightarrow> (nat \<Rightarrow> nat option) \<Rightarrow> nat \<Rightarrow> bool \<Rightarrow> frw \<Rightarrow> frw" where
  "write_fd rnd wret max_pages rand_flag st =
     (let (r, st) = frw_random rnd st; c = char_of (r mod 255) in
      write_pages rnd wret c max_pages rand_flag max_pages (st\<lparr>fr_pos := 0\<rparr>))"

primrec read_pages :: "(nat \<Rightarrow> nat) \<Rightarrow> (nat \<Rightarrow> bool) \<Rightarrow> nat \<Rightarrow> bool \<Rightarrow> nat \<Rightarrow> frw \<Rightarrow> frw" where
  "read_pages rnd rfail max_pages rand_flag 0 st = st"
| "read_pages rnd rfail max_pages rand_flag (Suc i) st =
     (if rand_flag then
        let (r, st) = frw_random rnd st;
            (failed, st) = c_pread rfail ((r mod max_pages) * PG) st
        in read_pages rnd rfail max_pages rand_flag i (if failed then perror st else st)
      else
        let (failed, st) = c_read rfail st
        in read_pages rnd rfail max_pages rand_flag i (if failed then perror st else st))"

definition read_fd :: "(nat \<Rightarrow> nat) \<Rightarrow> (nat \<Rightarrow> bool) \<Rightarrow> nat \<Rightarrow> bool \<Rightarrow> frw \<Rightarrow> frw" where
  "read_fd rnd rfail max_pages rand_flag st =
     (let (off, st) = frw_random rnd st; (w, st) = frw_random rnd st;
          st = st\<lparr>fr_pos := (if w mod 2 \<noteq> 0 then off else length (fr_data st) + off)\<rparr>
      in read_pages rnd rfail max_pages rand_flag max_pages st)"

section \<open>Timing\<close>

text \<open>
  \<^verbatim>\<open>timeit\<close> with its static variables: every second call prints the milliseconds since the first.
\<close>

record timespec =
  tv_sec :: int
  tv_nsec :: int

record timer =
  first_in :: bool
  tm_ts1 :: timespec
  tm_ts2 :: timespec

definition delta_msecs :: "timespec \<Rightarrow> timespec \<Rightarrow> int" where
  "delta_msecs ts1 ts2 = (tv_sec ts2 - tv_sec ts1) * 1000 + c_div (tv_nsec ts2 - tv_nsec ts1) 1000000"

definition timeit :: "timespec \<Rightarrow> timer \<Rightarrow> int option \<times> timer" where
  "timeit now t =
     (let t = t\<lparr>first_in := \<not> first_in t\<rparr> in
      if first_in t then (None, t\<lparr>tm_ts1 := now\<rparr>)
      else let t = t\<lparr>tm_ts2 := now\<rparr> in (Some (delta_msecs (tm_ts1 t) (tm_ts2 t)), t))"

section \<open>The program\<close>

text \<open>
  Opening: a file to be written is truncated or created. A round for the operation string \<open>op\<close>, with
  the clock read before and after; the message printed and the time, if any.
\<close>

definition op_at :: "string \<Rightarrow> nat \<Rightarrow> char" where
  "op_at op i = (if i < length op then op ! i else NUL)"

definition frw_open :: "string \<Rightarrow> string option \<Rightarrow> bool \<Rightarrow> frw option" where
  "frw_open op old can_create =
     (if op_at op 0 = CHR ''r'' then map_option (\<lambda>d. \<lparr>fr_data = d, fr_pos = 0, fr_calls = 0, fr_ios = 0, fr_errs = 0\<rparr>) old
      else if old \<noteq> None \<or> can_create then Some \<lparr>fr_data = [], fr_pos = 0, fr_calls = 0, fr_ios = 0, fr_errs = 0\<rparr>
      else None)"

definition frw_round ::
  "(nat \<Rightarrow> nat) \<Rightarrow> (nat \<Rightarrow> nat option) \<Rightarrow> (nat \<Rightarrow> bool) \<Rightarrow> string \<Rightarrow> nat \<Rightarrow> timespec \<Rightarrow> timespec \<Rightarrow>
     frw \<times> timer \<Rightarrow> (frw \<times> timer) \<times> (string \<times> int option)" where
  "frw_round rnd wret rfail op max_pages now1 now2 s =
     (let (st, t) = s;
          (_, t) = timeit now1 t;
          (st, msg) =
            (if op_at op 0 = CHR ''r'' then (read_fd rnd rfail max_pages (op_at op 1 = CHR ''r'') st, ''read'')
             else (write_fd rnd wret max_pages (op_at op 1 = CHR ''r'') st,
                   if op_at op 0 = CHR ''s'' then ''write fsync'' else ''write''));
          (d, t) = timeit now2 t
      in ((st, t), (msg, d)))"

fun frw_rounds ::
  "(nat \<Rightarrow> nat) \<Rightarrow> (nat \<Rightarrow> nat option) \<Rightarrow> (nat \<Rightarrow> bool) \<Rightarrow> string \<Rightarrow> nat \<Rightarrow> (timespec \<times> timespec) list \<Rightarrow>
     frw \<times> timer \<Rightarrow> (frw \<times> timer) \<times> (string \<times> int option) list" where
  "frw_rounds rnd wret rfail op max_pages [] s = (s, [])"
| "frw_rounds rnd wret rfail op max_pages ((now1, now2) # clock) s =
     (let (s, out) = frw_round rnd wret rfail op max_pages now1 now2 s;
          (s, outs) = frw_rounds rnd wret rfail op max_pages clock s
      in (s, out # outs))"

definition frw_main ::
  "(nat \<Rightarrow> nat) \<Rightarrow> (nat \<Rightarrow> nat option) \<Rightarrow> (nat \<Rightarrow> bool) \<Rightarrow> string \<Rightarrow> nat \<Rightarrow> string option \<Rightarrow> bool \<Rightarrow>
     (timespec \<times> timespec) list \<Rightarrow> (frw \<times> (string \<times> int option) list) option" where
  "frw_main rnd wret rfail op max_pages old can_create clock =
     (case frw_open op old can_create of
        None \<Rightarrow> None
      | Some st \<Rightarrow>
          let zero = \<lparr>tv_sec = 0, tv_nsec = 0\<rparr>;
              ((st, t), outs) = frw_rounds rnd wret rfail op max_pages clock
                (st, \<lparr>first_in = False, tm_ts1 = zero, tm_ts2 = zero\<rparr>)
          in Some (st, outs))"

section \<open>What a round leaves in the file\<close>

lemma length_write_at: "length (write_at off bs d) = (if bs = [] then length d else max (length d) (off + length bs))"
  by (auto simp: write_at_def Let_def max_def)

lemma nth_write_at:
  "bs \<noteq> [] \<Longrightarrow> j < max (length d) (off + length bs) \<Longrightarrow> write_at off bs d ! j =
     (if off \<le> j \<and> j < off + length bs then bs ! (j - off) else if j < length d then d ! j else NUL)"
  by (auto simp: write_at_def Let_def nth_append min_def)

lemma write_at_append: "off \<le> length d \<Longrightarrow> write_at (off + length a) b (write_at off a d) = write_at off (a @ b) d"
  by (auto simp: write_at_def Let_def min_def ac_simps)

lemma write_pages_in_order:
  assumes "\<And>k. wret k = Some PG" "fr_pos st \<le> length (fr_data st)"
  shows "write_pages rnd wret c n False i st =
    st\<lparr>fr_data := write_at (fr_pos st) (replicate (i * PG) c) (fr_data st), fr_pos := fr_pos st + i * PG, fr_ios := fr_ios st + i\<rparr>"
  using assms(2)
proof (induction i arbitrary: st)
  case (Suc i)
  let ?st = "st\<lparr>fr_ios := fr_ios st + 1, fr_data := write_at (fr_pos st) (replicate PG c) (fr_data st), fr_pos := fr_pos st + PG\<rparr>"
  have "write_pages rnd wret c n False (Suc i) st = write_pages rnd wret c n False i ?st"
    by (simp add: c_write_def assms(1) Let_def)
  also have "\<dots> = ?st\<lparr>fr_data := write_at (fr_pos ?st) (replicate (i * PG) c) (fr_data ?st),
      fr_pos := fr_pos ?st + i * PG, fr_ios := fr_ios ?st + i\<rparr>"
    by (rule Suc.IH) (use Suc.prems in \<open>simp add: length_write_at\<close>)
  also have "write_at (fr_pos ?st) (replicate (i * PG) c) (fr_data ?st) =
      write_at (fr_pos st) (replicate (Suc i * PG) c) (fr_data st)"
    using write_at_append [OF Suc.prems, of "replicate PG c" "replicate (i * PG) c"] by (simp add: replicate_add)
  finally show ?case by (simp add: algebra_simps)
qed (simp add: write_at_def)

text \<open>A byte after random writes: the byte of the pages, what was there before, or the zero of a gap.\<close>

definition old_or_new :: "char \<Rightarrow> string \<Rightarrow> string \<Rightarrow> bool" where
  "old_or_new c d d' \<longleftrightarrow> (\<forall>j < length d'. d' ! j = c \<or> j < length d \<and> d' ! j = d ! j \<or> length d \<le> j \<and> d' ! j = NUL)"

lemma old_or_new_write:
  assumes "old_or_new c d0 d" "length d0 \<le> length d"
  shows "old_or_new c d0 (write_at off (replicate n c) d)"
  unfolding old_or_new_def
proof (intro allI impI)
  fix j assume j: "j < length (write_at off (replicate n c) d)"
  have d: "k < length d \<Longrightarrow> d ! k = c \<or> k < length d0 \<and> d ! k = d0 ! k \<or> length d0 \<le> k \<and> d ! k = NUL" for k
    using assms(1) by (simp add: old_or_new_def)
  show "write_at off (replicate n c) d ! j = c \<or> j < length d0 \<and> write_at off (replicate n c) d ! j = d0 ! j \<or>
      length d0 \<le> j \<and> write_at off (replicate n c) d ! j = NUL"
  proof (cases "n = 0")
    case True
    then show ?thesis using j d [of j] by (simp add: write_at_def)
  next
    case False
    then have "replicate n c \<noteq> []" by simp
    from nth_write_at [OF this, of j d off] show ?thesis
      using j False d [of j] assms(2) by (auto simp: length_write_at split: if_splits)
  qed
qed

lemma write_pages_random:
  assumes "\<And>k. wret k = Some PG" "old_or_new c d0 (fr_data st)" "length d0 \<le> length (fr_data st)"
    "length (fr_data st) \<le> max (length d0) (n * PG)" "drop (n * PG) (fr_data st) = drop (n * PG) d0" "0 < n"
  shows "fr_errs (write_pages rnd wret c n True i st) = fr_errs st + i \<and>
    old_or_new c d0 (fr_data (write_pages rnd wret c n True i st)) \<and>
    drop (n * PG) (fr_data (write_pages rnd wret c n True i st)) = drop (n * PG) d0"
  using assms(2-5)
proof (induction i arbitrary: st)
  case (Suc i)
  let ?off = "(rnd (fr_calls st) mod n) * PG"
  let ?st = "st\<lparr>fr_calls := fr_calls st + 1, fr_ios := fr_ios st + 1,
    fr_data := write_at ?off (replicate PG c) (fr_data st), fr_errs := fr_errs st + 1\<rparr>"
  have e: "write_pages rnd wret c n True (Suc i) st = write_pages rnd wret c n True i ?st"
    by (simp add: c_pwrite_def frw_random_def perror_def assms(1) Let_def)
  have "rnd (fr_calls st) mod n < n" using assms(6) by simp
  then have off: "?off + PG \<le> n * PG" by (metis Suc_leI add.commute mult_Suc mult_le_mono1)
  have pg: "0 < PG" by (simp add: PG_def)
  have len: "length d0 \<le> length (fr_data ?st)" "length (fr_data ?st) \<le> max (length d0) (n * PG)"
    using Suc.prems(2,3) off by (auto simp: length_write_at)
  have "drop (n * PG) (fr_data ?st) = drop (n * PG) (fr_data st)"
  proof (rule nth_equalityI)
    show l: "length (drop (n * PG) (fr_data ?st)) = length (drop (n * PG) (fr_data st))"
      using Suc.prems off pg by (auto simp: length_write_at)
    fix k assume "k < length (drop (n * PG) (fr_data ?st))"
    then have "n * PG + k < length (fr_data st)" using l by simp
    then show "drop (n * PG) (fr_data ?st) ! k = drop (n * PG) (fr_data st) ! k"
      using off pg by (simp add: nth_write_at length_write_at)
  qed
  then have drop: "drop (n * PG) (fr_data ?st) = drop (n * PG) d0" using Suc.prems(4) by simp
  have oon: "old_or_new c d0 (fr_data ?st)" using old_or_new_write [OF Suc.prems(1,2)] by simp
  show ?case unfolding e using Suc.IH [OF oon len drop] by simp
qed simp

section \<open>Times\<close>

lemma c_div_near: "0 < b \<Longrightarrow> \<bar>c_div a b * b - a\<bar> < b"
proof (cases "0 \<le> a")
  case True
  assume "0 < b"
  then have "c_div a b * b = a - a mod b" using True by (simp add: c_div_pos minus_mod_eq_div_mult)
  then show ?thesis using \<open>0 < b\<close> pos_mod_bound [of b a] pos_mod_sign [of b a] by simp
next
  case False
  assume "0 < b"
  have "c_div a b = - ((- a) div b)" using False \<open>0 < b\<close> by (simp add: c_div_def)
  moreover have "(- a) div b * b = - a - (- a) mod b" by (simp add: minus_mod_eq_div_mult)
  ultimately show ?thesis using \<open>0 < b\<close> pos_mod_bound [of b "- a"] pos_mod_sign [of b "- a"] by simp
qed

definition nsecs :: "timespec \<Rightarrow> int" where
  "nsecs t = tv_sec t * 1000000000 + tv_nsec t"

lemma delta_msecs_near: "\<bar>delta_msecs ts1 ts2 * 1000000 - (nsecs ts2 - nsecs ts1)\<bar> < 1000000"
  using c_div_near [of 1000000 "tv_nsec ts2 - tv_nsec ts1"]
  by (simp add: delta_msecs_def nsecs_def algebra_simps)

lemma frw_round_time:
  assumes "\<not> first_in t" "frw_round rnd wret rfail op n now1 now2 (st, t) = ((st', t'), (msg, d))"
  shows "\<not> first_in t'" "d = Some (delta_msecs now1 now2)"
  using assms by (auto simp: frw_round_def timeit_def Let_def split: if_splits prod.splits)

lemma frw_rounds_times:
  assumes "\<not> first_in t" "frw_rounds rnd wret rfail op n clock (st, t) = (s', outs)"
  shows "list_all2 (\<lambda>out p. snd out = Some (delta_msecs (fst p) (snd p))) outs clock"
  using assms
proof (induction clock arbitrary: st t s' outs)
  case (Cons p clock)
  obtain now1 now2 where p: "p = (now1, now2)" by (cases p)
  obtain st1 t1 msg d where r: "frw_round rnd wret rfail op n now1 now2 (st, t) = ((st1, t1), (msg, d))"
    by (metis prod.exhaust)
  obtain s2 outs2 where rs: "frw_rounds rnd wret rfail op n clock (st1, t1) = (s2, outs2)" by (rule prod.exhaust)
  have "outs = (msg, d) # outs2" using Cons.prems(2) p r rs by simp
  then show ?case using Cons.IH [OF frw_round_time(1) [OF Cons.prems(1) r] rs] frw_round_time(2) [OF Cons.prems(1) r] p by simp
qed simp

text \<open>Reading leaves the file as it is.\<close>

lemma read_pages_data [simp]: "fr_data (read_pages rnd rfail n flag i st) = fr_data st"
  by (induction i arbitrary: st)
    (auto simp: c_read_def c_pread_def frw_random_def perror_def Let_def split: prod.splits if_splits)

lemma read_fd_data: "fr_data (read_fd rnd rfail n flag st) = fr_data st"
  by (simp add: read_fd_def frw_random_def Let_def)

section \<open>Properties\<close>

text \<open>
  A writing round when every write is complete. In order it fills the first \<open>n\<close> pages
  with one byte, keeps the rest of the file and prints no error. At random places every byte is
  the new one, the old one or the zero of a gap, nothing behind the \<open>n\<close> pages changes, and an
  error is printed for every page although none occurred.
\<close>

theorem frw_write_round:
  assumes "\<And>k. wret k = Some PG" "0 < n" "c = char_of (rnd (fr_calls st) mod 255)"
  shows "fr_data (write_fd rnd wret n False st) = replicate (n * PG) c @ drop (n * PG) (fr_data st) \<and>
    fr_errs (write_fd rnd wret n False st) = fr_errs st \<and>
    old_or_new c (fr_data st) (fr_data (write_fd rnd wret n True st)) \<and>
    drop (n * PG) (fr_data (write_fd rnd wret n True st)) = drop (n * PG) (fr_data st) \<and>
    fr_errs (write_fd rnd wret n True st) = fr_errs st + n"
proof -
  let ?st = "st\<lparr>fr_calls := fr_calls st + 1, fr_pos := 0\<rparr>"
  have e: "write_fd rnd wret n flag st = write_pages rnd wret c n flag n ?st" for flag
    by (simp add: write_fd_def frw_random_def assms(3))
  have "old_or_new c (fr_data st) (fr_data ?st)" by (simp add: old_or_new_def)
  moreover have "write_at 0 (replicate (n * PG) c) (fr_data st) = replicate (n * PG) c @ drop (n * PG) (fr_data st)"
    using assms(2) by (simp add: write_at_def PG_def)
  ultimately show ?thesis unfolding e
    using write_pages_in_order [OF assms(1), of ?st] write_pages_random [OF assms(1) _ _ _ _ assms(2), where st = ?st and c = c and ?d0.0 = "fr_data st"]
    by simp
qed

theorem frw_write_round_witness:
  "fr_data (write_fd (\<lambda>_. 97) (\<lambda>_. Some PG) 2 False \<lparr>fr_data = ''xy'', fr_pos = 1, fr_calls = 0, fr_ios = 0, fr_errs = 0\<rparr>) =
     replicate (2 * PG) CHR ''a'' \<and>
   fr_errs (write_fd (\<lambda>_. 97) (\<lambda>_. Some PG) 2 True \<lparr>fr_data = ''xy'', fr_pos = 1, fr_calls = 0, fr_ios = 0, fr_errs = 0\<rparr>) = 2"
  using frw_write_round [of "\<lambda>_. Some PG" 2 "CHR ''a''" "\<lambda>_. 97"
      "\<lparr>fr_data = ''xy'', fr_pos = 1, fr_calls = 0, fr_ios = 0, fr_errs = 0\<rparr>"]
  by (simp add: PG_def char_of_def bit_0)

text \<open>
  The program prints one time per round, taken from the clock before and after that
  round, and the milliseconds printed are within one of the time that passed, also when the
  nanoseconds go down.
\<close>

theorem frw_main_times:
  assumes "frw_main rnd wret rfail op n old can_create clock = Some (st, outs)"
  shows "list_all2 (\<lambda>(msg, d) (now1, now2).
    \<exists>ms. d = Some ms \<and> \<bar>ms * 1000000 - (nsecs now2 - nsecs now1)\<bar> < 1000000) outs clock"
proof -
  have "list_all2 (\<lambda>out p. snd out = Some (delta_msecs (fst p) (snd p))) outs clock"
    using assms frw_rounds_times [of "\<lparr>first_in = False, tm_ts1 = \<lparr>tv_sec = 0, tv_nsec = 0\<rparr>, tm_ts2 = \<lparr>tv_sec = 0, tv_nsec = 0\<rparr>\<rparr>"]
    by (auto simp: frw_main_def Let_def split: option.splits prod.splits)
  then show ?thesis by (rule list_all2_mono) (auto simp: delta_msecs_near)
qed

theorem frw_main_times_witness:
  "list_all2 (\<lambda>(msg, d) (now1, now2). \<exists>ms. d = Some ms \<and> \<bar>ms * 1000000 - (nsecs now2 - nsecs now1)\<bar> < 1000000)
     [(''write'', Some 3)] [(\<lparr>tv_sec = 5, tv_nsec = 999000000\<rparr>, \<lparr>tv_sec = 6, tv_nsec = 1999999\<rparr>)]"
proof (rule frw_main_times)
  show "frw_main (\<lambda>_. 0) (\<lambda>_. None) (\<lambda>_. False) ''w'' 0 None True
      [(\<lparr>tv_sec = 5, tv_nsec = 999000000\<rparr>, \<lparr>tv_sec = 6, tv_nsec = 1999999\<rparr>)] =
    Some (\<lparr>fr_data = [], fr_pos = 0, fr_calls = 1, fr_ios = 0, fr_errs = 0\<rparr>, [(''write'', Some 3)])"
    by (simp add: frw_main_def frw_open_def op_at_def frw_round_def timeit_def write_fd_def frw_random_def delta_msecs_def c_div_def)
qed

section \<open>The command line\<close>

text \<open>
  The program from its arguments (its own name first) to the signal that ends it, for the rounds
  that \<open>clock\<close> gives times to: too few arguments and a file that cannot be opened give -2; otherwise the
  handler of \<^verbatim>\<open>SIGINT\<close> and \<^verbatim>\<open>SIGTERM\<close> closes the file and exits with 0. A page number that is not a
  number leaves \<^verbatim>\<open>max_pages\<close> as it was, \<open>junk\<close>; a negative one makes empty rounds.
\<close>

definition sigterm_hdlr :: "frw \<times> (string \<times> int option) list \<Rightarrow> int \<times> frw \<times> (string \<times> int option) list" where
  "sigterm_hdlr s = (case s of (st, outs) \<Rightarrow> (0, st, outs @ [(''Quitting'', None)]))"

definition frw_program ::
  "(nat \<Rightarrow> nat) \<Rightarrow> (nat \<Rightarrow> nat option) \<Rightarrow> (nat \<Rightarrow> bool) \<Rightarrow> int \<Rightarrow> (string \<Rightarrow> string option) \<Rightarrow> (string \<Rightarrow> bool) \<Rightarrow>
     string list \<Rightarrow> (timespec \<times> timespec) list \<Rightarrow> int + (int \<times> frw \<times> (string \<times> int option) list)" where
  "frw_program rnd wret rfail junk old can_create argv clock =
     (if length argv < 5 then Inl (- 2)
      else let fname = argv ! 1; op = argv ! 2; max_pages = scan_into (argv ! 3) junk
           in case frw_main rnd wret rfail op (nat max_pages) (old fname) (can_create fname) clock of
                None \<Rightarrow> Inl (- 2)
              | Some s \<Rightarrow> Inr (sigterm_hdlr s))"

lemma frw_program_fails:
  "frw_program rnd wret rfail junk old can_create argv clock = Inl rc \<longleftrightarrow>
     rc = - 2 \<and> (length argv < 5 \<or> frw_open (argv ! 2) (old (argv ! 1)) (can_create (argv ! 1)) = None)"
  by (auto simp: frw_program_def frw_main_def Let_def split: option.splits prod.splits)

text \<open>Every round is reported, in order, before the program quits.\<close>

lemma frw_program_rounds:
  assumes "frw_program rnd wret rfail junk old can_create argv clock = Inr (rc, st, outs)"
  shows "rc = 0 \<and> length outs = length clock + 1 \<and> fst (last outs) = ''Quitting''"
proof -
  obtain outs' where o: "outs = outs' @ [(''Quitting'', None)]" "rc = 0"
    and m: "frw_main rnd wret rfail (argv ! 2) (nat (scan_into (argv ! 3) junk)) (old (argv ! 1)) (can_create (argv ! 1)) clock = Some (st, outs')"
    using assms by (auto simp: frw_program_def sigterm_hdlr_def Let_def split: if_splits option.splits)
  from frw_main_times [OF m] have "length outs' = length clock" by (rule list_all2_lengthD)
  then show ?thesis using o by simp
qed

end
