(* ===== verification/Fs_Slammer.thy ===== *)
theory Fs_Slammer
  imports C_Library
begin

text \<open>
  The threads of the file system stress program \<^verbatim>\<open>src/fs_slammer.c\<close>, one at a time: the random file
  names, a pass of the writing thread (create the file, fill it from \<^verbatim>\<open>/dev/zero\<close>, read it back)
  and the reading thread, with the global counters they add to. What the system calls return is
  given: \<open>rd k\<close> and \<open>wr k\<close> are the bytes moved in page number \<open>k\<close>, or a failure.
\<close>

section \<open>File names\<close>

definition valid_chars :: string where
  "valid_chars = ''abcdefghiklmonpqrstuvwxyz0123456789''"

primrec filename_loop :: "(nat \<Rightarrow> nat) \<Rightarrow> nat \<Rightarrow> nat \<Rightarrow> string" where
  "filename_loop rnd i 0 = []"
| "filename_loop rnd i (Suc n) = valid_chars ! (rnd i mod length valid_chars) # filename_loop rnd (Suc i) n"

text \<open>The name, without its NUL, and the length returned.\<close>

definition gen_random_filename :: "(nat \<Rightarrow> nat) \<Rightarrow> nat \<Rightarrow> string \<times> nat" where
  "gen_random_filename rnd len = (let str = filename_loop rnd 0 (len - 1) in (str, length str))"

section \<open>The writing thread\<close>

text \<open>
  The inner loop: \<open>bytes_wrote\<close> is an \<^verbatim>\<open>int\<close>, \<open>sum_w\<close> the 64-bit global counter. \<open>Inl\<close> is the end of the thread
  after a failure.
\<close>

type_synonym slam_state = "string \<times> u64"

fun slam_pages ::
  "(nat \<Rightarrow> nat option) \<Rightarrow> (nat \<Rightarrow> nat option) \<Rightarrow> nat \<Rightarrow> nat \<Rightarrow> u32 \<Rightarrow> slam_state \<Rightarrow> slam_state + slam_state" where
  "slam_pages rd wr k 0 bytes_wrote (data, sum_w) = Inr (data, sum_w)"
| "slam_pages rd wr k (Suc pages) bytes_wrote (data, sum_w) =
     (case rd k of
        None \<Rightarrow> Inl (data, sum_w)
      | Some r \<Rightarrow>
          (case wr k of
             None \<Rightarrow> Inl (data, sum_w)
           | Some w \<Rightarrow>
               let ret = min r w;
                   data = data @ replicate ret NUL;
                   bytes_wrote = bytes_wrote + word_of_nat ret;
                   sum_w = sum_w + scast bytes_wrote
               in slam_pages rd wr (Suc k) pages bytes_wrote (data, sum_w)))"

text \<open>
  Reading back until \<^verbatim>\<open>read\<close> returns 0, with \<open>left\<close> bytes to go. If the file could not be opened again
  the call returns \<open>-1\<close> every time.
\<close>

partial_function (option) read_back :: "bool \<Rightarrow> nat \<Rightarrow> unit option" where
  "read_back fd_ok left =
     (if \<not> fd_ok then read_back fd_ok left
      else if left = 0 then Some () else read_back fd_ok (left - 4096))"

text \<open>
  A pass of the loop of \<^verbatim>\<open>slam_junk\<close>: the three opens succeed or not. \<open>None\<close> is a pass that never ends.
\<close>

definition slam_pass ::
  "bool \<Rightarrow> bool \<Rightarrow> bool \<Rightarrow> (nat \<Rightarrow> nat option) \<Rightarrow> (nat \<Rightarrow> nat option) \<Rightarrow> nat \<Rightarrow> slam_state \<Rightarrow> (slam_state + slam_state) option" where
  "slam_pass open_ok zero_ok reopen_ok rd wr max_pages s =
     (let (data, sum_w) = s in
      if \<not> open_ok then Some (Inl (data, sum_w))
      else if \<not> zero_ok then Some (Inl ([], sum_w))
      else (case slam_pages rd wr 0 max_pages 0 ([], sum_w) of
              Inl s \<Rightarrow> Some (Inl s)
            | Inr (data, sum_w) \<Rightarrow> map_option (\<lambda>_. Inr (data, sum_w)) (read_back reopen_ok (length data))))"

section \<open>The reading thread\<close>

text \<open>
  \<^verbatim>\<open>raw_reader\<close> on the results of its reads: the counter, and whether the thread has ended. The seek
  before each read is to a random place, from the start or the end by the lowest bit.
\<close>

definition reader_seek :: "nat \<Rightarrow> nat \<Rightarrow> nat" where
  "reader_seek size_hd rnd_seek_pos = (if odd rnd_seek_pos then rnd_seek_pos else size_hd + rnd_seek_pos)"

fun raw_reader :: "nat option list \<Rightarrow> u64 \<Rightarrow> u64 \<times> bool" where
  "raw_reader [] sum_w = (sum_w, False)"
| "raw_reader (None # rets) sum_w = (sum_w, True)"
| "raw_reader (Some ret # rets) sum_w = raw_reader rets (sum_w + word_of_nat ret)"

section \<open>Starting the threads\<close>

text \<open>
  \<^verbatim>\<open>main\<close> up to the point where it waits: its arguments without the program's name, the files that
  \<^verbatim>\<open>stat\<close> finds and the directory that \<^verbatim>\<open>chdir\<close> accepts. It starts writers and readers as the sixth
  argument says; the buffers for the device, the path and that argument have 10, 256 and 4 places. The
  seconds are \<open>None\<close> when the fifth argument is no number and \<^verbatim>\<open>slam_time\<close> stays uninitialised.
\<close>

datatype slam_start = Usage | Refused | BufferOverrun | NullArg | Uninitialised | Runs nat nat u32 "int option"

definition slam_main :: "(string \<Rightarrow> bool) \<Rightarrow> (string \<Rightarrow> bool) \<Rightarrow> string list \<Rightarrow> slam_start" where
  "slam_main stat_ok chdir_ok args =
     (if length args + 1 < 6 then Usage
      else if 10 \<le> length (args ! 0) then BufferOverrun
      else if \<not> stat_ok (args ! 0) then Refused
      else if 256 \<le> length (args ! 1) then BufferOverrun
      else if \<not> stat_ok (args ! 1) then Refused
      else if \<not> chdir_ok (args ! 1) then Refused
      else if length args < 6 then NullArg
      else
        let no_threads = (case scan_int (args ! 2) of None \<Rightarrow> 0 | Some (n, _) \<Rightarrow> nat (sint n));
            max_pages = (case scan_int (args ! 3) of None \<Rightarrow> 100 | Some (n, _) \<Rightarrow> n)
        in case scan_str (length (args ! 5)) (args ! 5) of
             None \<Rightarrow> Uninitialised
           | Some (rw, _) \<Rightarrow>
               if 4 \<le> length rw then BufferOverrun
               else Runs (if strchr_pos rw CHR ''w'' \<noteq> None then no_threads else 0)
                      (if strchr_pos rw CHR ''r'' \<noteq> None then no_threads else 0) max_pages
                      (map_option (\<lambda>(n, _). sint n) (scan_int (args ! 4))))"

text \<open>The usage message asks for six arguments and the test for five: with five the sixth is a null pointer.\<close>

lemma slam_main_five_args:
  assumes "length args = 5" "length (args ! 0) < 10" "length (args ! 1) < 256"
  shows "slam_main (\<lambda>_. True) (\<lambda>_. True) args = NullArg"
  using assms by (simp add: slam_main_def)

lemma slam_main_threads:
  "slam_main (\<lambda>_. True) (\<lambda>_. True) [''/dev/sda'', ''/mnt'', ''4'', ''10'', ''60'', ''rw''] = Runs 4 4 10 (Some 60)"
  by (simp add: slam_main_def scan_int_def scan_num_def skip_ws_def c_isspace_def digit_in_def num_of_def scan_str_def)

section \<open>Correctness\<close>

lemma length_filename_loop: "length (filename_loop rnd i n) = n"
  by (induction n arbitrary: i) simp_all

lemma filename_loop_valid: "set (filename_loop rnd i n) \<subseteq> set valid_chars"
proof (induction n arbitrary: i)
  case (Suc n)
  have "valid_chars ! (rnd i mod length valid_chars) \<in> set valid_chars"
    by (intro nth_mem mod_less_divisor) (simp add: valid_chars_def)
  then show ?case using Suc by simp
qed simp

lemma gen_random_filename_ok:
  "gen_random_filename rnd len = (name, i) \<Longrightarrow> i = len - 1 \<and> length name = i \<and> set name \<subseteq> set valid_chars \<and> cstring name"
  using filename_loop_valid [of rnd 0 "len - 1"]
  by (auto simp: gen_random_filename_def Let_def length_filename_loop cstring_def valid_chars_def)

text \<open>The sum that the counter gets: every page adds all the bytes of the pass so far.\<close>

primrec cumulated :: "nat \<Rightarrow> nat \<Rightarrow> nat" where
  "cumulated b 0 = 0"
| "cumulated b (Suc n) = (b + 4096) + cumulated (b + 4096) n"

lemma cumulated_sum: "2 * cumulated b n = 2 * n * b + 4096 * (n * (n + 1))"
proof (induction n arbitrary: b)
  case (Suc n)
  then show ?case using Suc [of "b + 4096"] by (simp add: algebra_simps)
qed simp

lemma scast_small: "n < 2 ^ 31 \<Longrightarrow> (scast (word_of_nat n :: u32) :: u64) = word_of_nat n"
proof -
  assume "n < 2 ^ 31"
  then have "sint (word_of_nat n :: u32) = int n" by (simp add: signed_of_nat signed_take_bit_int_eq_self)
  then show ?thesis by (metis of_int_of_nat_eq of_int_sint)
qed

lemma slam_pages_full:
  assumes "\<And>k. rd k = Some 4096" "\<And>k. wr k = Some 4096" "b + n * 4096 < 2 ^ 31"
  shows "slam_pages rd wr k n (word_of_nat b) (data, sum_w) =
    Inr (data @ replicate (n * 4096) NUL, sum_w + word_of_nat (cumulated b n))"
  using assms(3)
proof (induction n arbitrary: k b data sum_w)
  case (Suc n)
  have s: "(scast (word_of_nat (b + 4096) :: u32) :: u64) = word_of_nat (b + 4096)"
    using Suc.prems by (intro scast_small) simp
  have "slam_pages rd wr k (Suc n) (word_of_nat b) (data, sum_w) =
      slam_pages rd wr (Suc k) n (word_of_nat (b + 4096)) (data @ replicate 4096 NUL, sum_w + word_of_nat (b + 4096))"
    using s by (simp add: assms(1,2) Let_def)
  also have "\<dots> = Inr ((data @ replicate 4096 NUL) @ replicate (n * 4096) NUL,
      sum_w + word_of_nat (b + 4096) + word_of_nat (cumulated (b + 4096) n))"
    by (rule Suc.IH) (use Suc.prems in simp)
  finally show ?case by (simp add: replicate_add algebra_simps)
qed simp

lemma read_back_ends: "read_back True left = Some ()"
proof (induction left rule: less_induct)
  case (less left)
  then show ?case by (subst read_back.simps) simp
qed

lemma read_back_loops: "read_back False left = None"
proof -
  have ok: "fd_ok" if h: "read_back fd_ok left = Some y" for fd_ok left y
  proof (rule read_back.raw_induct [where P = "\<lambda>ok _ _. ok", OF _ h])
    fix rec ok n y
    assume ih: "\<And>a b y. rec a b = Some y \<Longrightarrow> a"
      and r: "(if \<not> ok then rec ok n else if n = 0 then Some () else rec ok (n - 4096)) = Some y"
    show ok
    proof (rule ccontr)
      assume "\<not> ok"
      then show False using r ih [of ok n y] by simp
    qed
  qed
  show ?thesis
  proof (rule ccontr)
    assume "read_back False left \<noteq> None"
    then obtain y where "read_back False left = Some y" by auto
    from ok [OF this] show False .
  qed
qed

section \<open>Properties\<close>

text \<open>
  A pass in which every call moves a whole page. The file then holds \<open>n\<close> pages of
  zeros and the pass ends, unless the file cannot be opened for reading again: then the loop that
  reads it back never ends. The counter of the bytes written grows by the sum of all the
  intermediate counts, \<open>4096 * n * (n + 1) / 2\<close>, not by the \<open>4096 * n\<close> bytes of the file.
\<close>

theorem slam_pass_counts:
  assumes "\<And>k. rd k = Some 4096" "\<And>k. wr k = Some 4096" "n * 4096 < 2 ^ 31"
  shows "slam_pass True True True rd wr n (data, sum_w) =
      Some (Inr (replicate (n * 4096) NUL, sum_w + word_of_nat (4096 * (n * (n + 1) div 2)))) \<and>
    slam_pass True True False rd wr n (data, sum_w) = None"
proof -
  have "2 * (n * (n + 1) div 2) = n * (n + 1)" by (rule dvd_mult_div_cancel) simp
  then have c: "cumulated 0 n = 4096 * (n * (n + 1) div 2)" using cumulated_sum [of 0 n] by (simp del: mult_Suc_right)
  have "slam_pages rd wr 0 n 0 ([], sum_w) = Inr (replicate (n * 4096) NUL, sum_w + word_of_nat (cumulated 0 n))"
    using slam_pages_full [OF assms(1,2), where b = 0 and n = n and k = 0 and data = "[]"] assms(3) by simp
  then show ?thesis by (simp add: slam_pass_def read_back_ends read_back_loops c)
qed

theorem slam_pass_counts_witness:
  "slam_pass True True True (\<lambda>_. Some 4096) (\<lambda>_. Some 4096) 3 ([], 0) =
      Some (Inr (replicate (3 * 4096) NUL, 0 + word_of_nat (4096 * (3 * (3 + 1) div 2)))) \<and>
    slam_pass True True False (\<lambda>_. Some 4096) (\<lambda>_. Some 4096) 3 ([], 0) = None"
  by (rule slam_pass_counts) simp_all

text \<open>A failing call ends the thread; the reader counts what it read before its failure.\<close>

lemma slam_pages_fails: "rd k = None \<or> wr k = None \<Longrightarrow> slam_pages rd wr k (Suc n) b (data, sum_w) = Inl (data, sum_w)"
  by (auto split: option.splits)

lemma raw_reader_sum:
  "raw_reader (map Some rets @ None # rest) sum_w = (sum_w + word_of_nat (sum_list rets), True)"
  by (induction rets arbitrary: sum_w) (simp_all add: algebra_simps)

end
