(* ===== verification/Slam_Threads.thy ===== *)
theory Slam_Threads
  imports Fs_Slammer
begin

text \<open>
  The threads of \<^verbatim>\<open>src/fs_slammer.c\<close> together: writers and readers that interleave, add to the two
  volatile counters by a load and a store, and end by a failure or by the cancellation that the main
  program asks for. \<open>Fs_Slammer\<close> has the arguments of the program and a pass of a writer alone.
\<close>

section \<open>State\<close>

text \<open>
  Where a writer is: \<open>p\<close> the pages still to write and \<open>b\<close> its \<open>bytes_wrote\<close>; \<open>SwStore\<close> carries the value
  of the counter that \<^verbatim>\<open>+=\<close> has loaded. A reader likewise, with the bytes of its last read.
\<close>

datatype sw_pc = SwNew | SwOpen | SwZero | SwFill u32 u32 | SwRead u32 u32 | SwWrite u32 u32 nat
  | SwAdd u32 u32 | SwStore u32 u32 u64 | SwSync | SwReopen | SwBack bool | SwTest | SwEnded

datatype sr_pc = SrOpen | SrSeek | SrAdd nat | SrStore nat u64 | SrTest | SrEnded

record slam_writer =
  sw_name :: string
  sw_cancel :: bool
  sw_pc :: sw_pc

record slam_reader =
  sr_cancel :: bool
  sr_pc :: sr_pc

datatype slam_main_pc = SmWriters | SmReaders | SmWait | SmCancel nat | SmCancelRead nat
  | SmPrint | SmPrintRead | SmExited | SmReturned | SmUndef

text \<open>Nothing happens any more once the main program has returned, or once it has done something undefined.\<close>

abbreviation going :: "slam_main_pc \<Rightarrow> bool" where
  "going m \<equiv> m \<noteq> SmReturned \<and> m \<noteq> SmUndef"

text \<open>
  \<open>slam_files\<close> are the names in the directory. The last two fields only record what the threads have
  added to the counters; the program has nothing like them.
\<close>

record slam =
  total_bytes_written :: u64
  total_bytes_read :: u64
  slam_files :: "string set"
  slam_writers :: "slam_writer list"
  slam_readers :: "slam_reader list"
  slam_main_pc :: slam_main_pc
  slam_out :: string
  added_w :: nat
  added_r :: nat

definition slam_init :: "string set \<Rightarrow> slam" where
  "slam_init dir = \<lparr>total_bytes_written = 0, total_bytes_read = 0, slam_files = dir, slam_writers = [],
     slam_readers = [], slam_main_pc = SmWriters, slam_out = [], added_w = 0, added_r = 0\<rparr>"

section \<open>The writer\<close>

text \<open>
  The steps of \<^verbatim>\<open>slam_junk\<close>, on its name, the directory and the counter. \<^verbatim>\<open>pthread_exit\<close> runs the cleanup
  handler \<^verbatim>\<open>slam_cleanup\<close>, which removes the file.
\<close>

inductive slam_junk :: "u32 \<Rightarrow> string \<times> sw_pc \<times> string set \<times> u64 \<Rightarrow> string \<times> sw_pc \<times> string set \<times> u64 \<Rightarrow> bool"
  for max_pages :: u32 where
  name: "slam_junk max_pages (fname, SwNew, fs, t) (fst (gen_random_filename rnd 100), SwOpen, fs, t)"
| opens: "slam_junk max_pages (fname, SwOpen, fs, t) (fname, SwZero, insert fname fs, t)"
| open_fails: "slam_junk max_pages (fname, SwOpen, fs, t) (fname, SwEnded, fs - {fname}, t)"
| zero: "slam_junk max_pages (fname, SwZero, fs, t) (fname, SwFill max_pages 0, fs, t)"
| zero_fails: "slam_junk max_pages (fname, SwZero, fs, t) (fname, SwEnded, fs - {fname}, t)"
| page: "p \<noteq> 0 \<Longrightarrow> slam_junk max_pages (fname, SwFill p b, fs, t) (fname, SwRead (p - 1) b, fs, t)"
| filled: "slam_junk max_pages (fname, SwFill 0 b, fs, t) (fname, SwSync, fs, t)"
| reads: "n \<le> 4096 \<Longrightarrow> slam_junk max_pages (fname, SwRead p b, fs, t) (fname, SwWrite p b n, fs, t)"
| read_fails: "slam_junk max_pages (fname, SwRead p b, fs, t) (fname, SwEnded, fs - {fname}, t)"
| writes: "m \<le> n \<Longrightarrow> slam_junk max_pages (fname, SwWrite p b n, fs, t) (fname, SwAdd p (b + word_of_nat m), fs, t)"
| write_fails: "slam_junk max_pages (fname, SwWrite p b n, fs, t) (fname, SwEnded, fs - {fname}, t)"
| load: "slam_junk max_pages (fname, SwAdd p b, fs, t) (fname, SwStore p b t, fs, t)"
| store: "slam_junk max_pages (fname, SwStore p b v, fs, t) (fname, SwFill p b, fs, v + scast b)"
| sync: "slam_junk max_pages (fname, SwSync, fs, t) (fname, SwReopen, fs, t)"
| reopen: "fd_ok \<longrightarrow> fname \<in> fs \<Longrightarrow> slam_junk max_pages (fname, SwReopen, fs, t) (fname, SwBack fd_ok, fs, t)"
| read_back: "slam_junk max_pages (fname, SwBack fd_ok, fs, t) (fname, SwBack fd_ok, fs, t)"
| at_end: "slam_junk max_pages (fname, SwBack True, fs, t) (fname, SwTest, fs, t)"
| again: "slam_junk max_pages (fname, SwTest, fs, t) (fname, SwOpen, fs, t)"

text \<open>Where a pending cancellation takes effect: at the calls that are cancellation points.\<close>

fun sw_cancel_point :: "sw_pc \<Rightarrow> bool" where
  "sw_cancel_point SwOpen = True"
| "sw_cancel_point SwZero = True"
| "sw_cancel_point (SwRead p b) = True"
| "sw_cancel_point (SwWrite p b n) = True"
| "sw_cancel_point SwSync = True"
| "sw_cancel_point SwReopen = True"
| "sw_cancel_point (SwBack fd_ok) = True"
| "sw_cancel_point SwTest = True"
| "sw_cancel_point _ = False"

section \<open>The reader\<close>

inductive raw_reader_step :: "sr_pc \<times> u64 \<Rightarrow> sr_pc \<times> u64 \<Rightarrow> bool" where
  opens: "raw_reader_step (SrOpen, t) (SrSeek, t)"
| open_fails: "raw_reader_step (SrOpen, t) (SrEnded, t)"
| reads: "n \<le> 4096 \<Longrightarrow> raw_reader_step (SrSeek, t) (SrAdd n, t)"
| read_fails: "raw_reader_step (SrSeek, t) (SrEnded, t)"
| load: "raw_reader_step (SrAdd n, t) (SrStore n t, t)"
| store: "raw_reader_step (SrStore n v, t) (SrTest, v + word_of_nat n)"
| again: "raw_reader_step (SrTest, t) (SrSeek, t)"

fun sr_cancel_point :: "sr_pc \<Rightarrow> bool" where
  "sr_cancel_point SrOpen = True"
| "sr_cancel_point SrSeek = True"
| "sr_cancel_point SrTest = True"
| "sr_cancel_point _ = False"

section \<open>The program\<close>

text \<open>What a step adds to a counter.\<close>

fun sw_adds :: "sw_pc \<Rightarrow> nat" where
  "sw_adds (SwStore p b v) = unat (scast b :: u64)"
| "sw_adds _ = 0"

fun sr_adds :: "sr_pc \<Rightarrow> nat" where
  "sr_adds (SrStore n v) = n"
| "sr_adds _ = 0"

definition new_writer :: slam_writer where
  "new_writer = \<lparr>sw_name = [], sw_cancel = False, sw_pc = SwNew\<rparr>"

definition new_reader :: slam_reader where
  "new_reader = \<lparr>sr_cancel = False, sr_pc = SrOpen\<rparr>"

definition quiting :: string where
  "quiting = ''Quiting'' @ [CHR 0x0A]"

definition total_line :: "string \<Rightarrow> u64 \<Rightarrow> string" where
  "total_line what v = ''Total bytes '' @ what @ '' = '' @ dec_string (unat v) @ [CHR 0x0A]"

text \<open>One pass of the loop that cancels: it asks, and the thread may go on for a while.\<close>

definition ask :: "('a \<Rightarrow> 'a) \<Rightarrow> nat \<Rightarrow> 'a list \<Rightarrow> 'a list" where
  "ask f i xs = (if i < length xs then xs[i := f (xs ! i)] else xs)"

text \<open>
  With \<open>nw\<close> writers, \<open>nr\<close> readers and a waiting time of \<open>secs\<close> (negative: until a signal). A process
  whose main program has returned is gone; after its \<^verbatim>\<open>pthread_exit\<close> the other threads go on. The
  threads are detached, so \<^verbatim>\<open>pthread_cancel\<close> for one that has ended is undefined.
\<close>

inductive slam_step :: "nat \<Rightarrow> nat \<Rightarrow> u32 \<Rightarrow> int \<Rightarrow> slam \<Rightarrow> slam \<Rightarrow> bool"
  for nw :: nat and nr :: nat and max_pages :: u32 and secs :: int where
  writer: "going (slam_main_pc s) \<Longrightarrow> i < length (slam_writers s) \<Longrightarrow> slam_writers s ! i = w \<Longrightarrow>
    slam_junk max_pages (sw_name w, sw_pc w, slam_files s, total_bytes_written s) (fname, pc, fs, t) \<Longrightarrow>
    slam_step nw nr max_pages secs s (s\<lparr>total_bytes_written := t, slam_files := fs,
      slam_writers := (slam_writers s)[i := w\<lparr>sw_name := fname, sw_pc := pc\<rparr>], added_w := added_w s + sw_adds (sw_pc w)\<rparr>)"
| writer_cancelled: "going (slam_main_pc s) \<Longrightarrow> i < length (slam_writers s) \<Longrightarrow> slam_writers s ! i = w \<Longrightarrow>
    sw_cancel w \<Longrightarrow> sw_cancel_point (sw_pc w) \<Longrightarrow>
    slam_step nw nr max_pages secs s (s\<lparr>slam_files := slam_files s - {sw_name w},
      slam_writers := (slam_writers s)[i := w\<lparr>sw_pc := SwEnded\<rparr>]\<rparr>)"
| reader: "going (slam_main_pc s) \<Longrightarrow> i < length (slam_readers s) \<Longrightarrow> slam_readers s ! i = r \<Longrightarrow>
    raw_reader_step (sr_pc r, total_bytes_read s) (rpc, t) \<Longrightarrow>
    slam_step nw nr max_pages secs s (s\<lparr>total_bytes_read := t,
      slam_readers := (slam_readers s)[i := r\<lparr>sr_pc := rpc\<rparr>], added_r := added_r s + sr_adds (sr_pc r)\<rparr>)"
| reader_cancelled: "going (slam_main_pc s) \<Longrightarrow> i < length (slam_readers s) \<Longrightarrow> slam_readers s ! i = r \<Longrightarrow>
    sr_cancel r \<Longrightarrow> sr_cancel_point (sr_pc r) \<Longrightarrow>
    slam_step nw nr max_pages secs s (s\<lparr>slam_readers := (slam_readers s)[i := r\<lparr>sr_pc := SrEnded\<rparr>]\<rparr>)"
| create_writer: "slam_main_pc s = SmWriters \<Longrightarrow> length (slam_writers s) < nw \<Longrightarrow>
    slam_step nw nr max_pages secs s (s\<lparr>slam_writers := slam_writers s @ [new_writer]\<rparr>)"
| writers_made: "slam_main_pc s = SmWriters \<Longrightarrow> length (slam_writers s) = nw \<Longrightarrow>
    slam_step nw nr max_pages secs s (s\<lparr>slam_main_pc := SmReaders\<rparr>)"
| create_reader: "slam_main_pc s = SmReaders \<Longrightarrow> length (slam_readers s) < nr \<Longrightarrow>
    slam_step nw nr max_pages secs s (s\<lparr>slam_readers := slam_readers s @ [new_reader]\<rparr>)"
| readers_made: "slam_main_pc s = SmReaders \<Longrightarrow> length (slam_readers s) = nr \<Longrightarrow>
    slam_step nw nr max_pages secs s (s\<lparr>slam_main_pc := SmWait\<rparr>)"
| create_fails: "slam_main_pc s = SmWriters \<and> length (slam_writers s) < nw \<or> slam_main_pc s = SmReaders \<and> length (slam_readers s) < nr \<Longrightarrow>
    slam_step nw nr max_pages secs s (s\<lparr>slam_main_pc := SmReturned\<rparr>)"
| slept: "slam_main_pc s = SmWait \<Longrightarrow> 0 \<le> secs \<Longrightarrow>
    slam_step nw nr max_pages secs s (s\<lparr>slam_main_pc := SmCancel 0\<rparr>)"
| interrupted: "slam_main_pc s = SmWait \<Longrightarrow>
    slam_step nw nr max_pages secs s (s\<lparr>slam_main_pc := SmCancel 0, slam_out := slam_out s @ quiting\<rparr>)"
| termination_hdlr: "slam_main_pc s \<in> {SmWait, SmPrint, SmPrintRead, SmExited} \<union> range SmCancel \<union> range SmCancelRead \<Longrightarrow>
    slam_step nw nr max_pages secs s (s\<lparr>slam_out := slam_out s @ quiting\<rparr>)"
| cancels: "slam_main_pc s = SmCancel i \<Longrightarrow> i < max nw nr \<Longrightarrow>
    \<not> (i < length (slam_writers s) \<and> sw_pc (slam_writers s ! i) = SwEnded) \<Longrightarrow>
    slam_step nw nr max_pages secs s (s\<lparr>slam_main_pc := SmCancelRead i,
      slam_writers := ask (sw_cancel_update (\<lambda>_. True)) i (slam_writers s)\<rparr>)"
| cancels_ended: "slam_main_pc s = SmCancel i \<Longrightarrow> i < max nw nr \<Longrightarrow>
    i < length (slam_writers s) \<Longrightarrow> sw_pc (slam_writers s ! i) = SwEnded \<Longrightarrow>
    slam_step nw nr max_pages secs s (s\<lparr>slam_main_pc := SmUndef\<rparr>)"
| cancels_ended_reader: "slam_main_pc s = SmCancelRead i \<Longrightarrow>
    i < length (slam_readers s) \<Longrightarrow> sr_pc (slam_readers s ! i) = SrEnded \<Longrightarrow>
    slam_step nw nr max_pages secs s (s\<lparr>slam_main_pc := SmUndef\<rparr>)"
| cancels_reader: "slam_main_pc s = SmCancelRead i \<Longrightarrow>
    \<not> (i < length (slam_readers s) \<and> sr_pc (slam_readers s ! i) = SrEnded) \<Longrightarrow>
    slam_step nw nr max_pages secs s (s\<lparr>slam_main_pc := SmCancel (Suc i),
      slam_readers := ask (sr_cancel_update (\<lambda>_. True)) i (slam_readers s)\<rparr>)"
| cancelled: "slam_main_pc s = SmCancel i \<Longrightarrow> \<not> i < max nw nr \<Longrightarrow>
    slam_step nw nr max_pages secs s (s\<lparr>slam_main_pc := SmPrint\<rparr>)"
| prints: "slam_main_pc s = SmPrint \<Longrightarrow>
    slam_step nw nr max_pages secs s (s\<lparr>slam_main_pc := SmPrintRead,
      slam_out := slam_out s @ total_line ''written'' (total_bytes_written s)\<rparr>)"
| prints_read: "slam_main_pc s = SmPrintRead \<Longrightarrow>
    slam_step nw nr max_pages secs s (s\<lparr>slam_main_pc := SmExited,
      slam_out := slam_out s @ total_line ''raw read'' (total_bytes_read s)\<rparr>)"

text \<open>
  The steps of the program started with these arguments, and its states, in the directory \<open>dir\<close> it
  changes to.
\<close>

definition slam_goes :: "(string \<Rightarrow> bool) \<Rightarrow> (string \<Rightarrow> bool) \<Rightarrow> string list \<Rightarrow> slam \<Rightarrow> slam \<Rightarrow> bool" where
  "slam_goes stat_ok chdir_ok args s s' =
     (case slam_main stat_ok chdir_ok args of
        Runs nw nr max_pages (Some secs) \<Rightarrow> (slam_step nw nr max_pages secs)\<^sup>*\<^sup>* s s'
      | _ \<Rightarrow> False)"

definition slam_program :: "(string \<Rightarrow> bool) \<Rightarrow> (string \<Rightarrow> bool) \<Rightarrow> string list \<Rightarrow> string set \<Rightarrow> slam \<Rightarrow> bool" where
  "slam_program stat_ok chdir_ok args dir s = slam_goes stat_ok chdir_ok args (slam_init dir) s"

section \<open>The counters and the files\<close>

definition sw_live :: "sw_pc \<Rightarrow> bool" where
  "sw_live pc \<longleftrightarrow> pc \<noteq> SwNew \<and> pc \<noteq> SwEnded"

definition slam_live :: "slam_writer list \<Rightarrow> string set" where
  "slam_live ws = sw_name ` {w \<in> set ws. sw_live (sw_pc w)}"

fun sw_bound :: "nat \<Rightarrow> sw_pc \<Rightarrow> bool" where
  "sw_bound n (SwStore p b v) = (unat v \<le> n)"
| "sw_bound n _ = True"

fun sr_bound :: "nat \<Rightarrow> sr_pc \<Rightarrow> bool" where
  "sr_bound n (SrStore m v) = (unat v \<le> n)"
| "sr_bound n _ = True"

definition writers_ok :: "string set \<Rightarrow> slam \<Rightarrow> bool" where
  "writers_ok dir s \<longleftrightarrow> slam_files s \<subseteq> dir \<union> slam_live (slam_writers s) \<and> unat (total_bytes_written s) \<le> added_w s \<and>
     (\<forall>w \<in> set (slam_writers s). sw_bound (added_w s) (sw_pc w))"

definition readers_ok :: "slam \<Rightarrow> bool" where
  "readers_ok s \<longleftrightarrow> unat (total_bytes_read s) \<le> added_r s \<and> (\<forall>r \<in> set (slam_readers s). sr_bound (added_r s) (sr_pc r))"

lemma unat_plus_le: "unat (a + b :: u64) \<le> unat a + unat b"
  by (simp add: unat_word_ariths)

lemma unat_of_nat_le: "unat (word_of_nat n :: u64) \<le> n"
  by (simp add: unat_of_nat)

lemma sw_bound_mono: "sw_bound n pc \<Longrightarrow> n \<le> m \<Longrightarrow> sw_bound m pc"
  by (cases pc) auto

lemma sr_bound_mono: "sr_bound n pc \<Longrightarrow> n \<le> m \<Longrightarrow> sr_bound m pc"
  by (cases pc) auto

lemma slam_live_update:
  assumes "i < length ws"
  shows "slam_live ws \<subseteq> insert (sw_name (ws ! i)) (slam_live (ws[i := w]))"
    and "sw_live (sw_pc w) \<Longrightarrow> sw_name w \<in> slam_live (ws[i := w])"
proof -
  have "v \<in> set (ws[i := w]) \<or> v = ws ! i" if "v \<in> set ws" for v
    using that assms by (metis in_set_conv_nth length_list_update nth_list_update_neq)
  then show "slam_live ws \<subseteq> insert (sw_name (ws ! i)) (slam_live (ws[i := w]))" by (auto simp: slam_live_def)
  show "sw_name w \<in> slam_live (ws[i := w])" if "sw_live (sw_pc w)"
    using that assms by (auto simp: slam_live_def set_update_memI)
qed

lemma slam_live_new:
  assumes "i < length ws" "\<not> sw_live (sw_pc (ws ! i))"
  shows "slam_live ws \<subseteq> slam_live (ws[i := w])"
proof -
  have "v \<in> set (ws[i := w]) \<or> v = ws ! i" if "v \<in> set ws" for v
    using that assms(1) by (metis in_set_conv_nth length_list_update nth_list_update_neq)
  then show ?thesis using assms(2) by (auto simp: slam_live_def)
qed

text \<open>What a writer's step does to the directory and to the counter.\<close>

lemma slam_junk_files:
  assumes "slam_junk mp (f, pc, fs, t) (f', pc', fs', t')"
  shows "fs' \<subseteq> insert f' fs" and "sw_live pc' \<or> f' \<notin> fs'" and "pc = SwNew \<or> f' = f" and "pc \<noteq> SwEnded"
  using assms by (cases; auto simp: sw_live_def)+

lemma slam_junk_adds:
  assumes "slam_junk mp (f, pc, fs, t) (f', pc', fs', t')" "unat t \<le> n" "sw_bound n pc"
  shows "unat t' \<le> n + sw_adds pc \<and> sw_bound (n + sw_adds pc) pc'"
  using assms(1)
proof cases
  case (store p b v)
  then show ?thesis using assms(2,3) unat_plus_le [of v "scast b"] by auto
qed (use assms(2,3) in auto)

lemma raw_reader_adds:
  assumes "raw_reader_step (pc, t) (pc', t')" "unat t \<le> n" "sr_bound n pc"
  shows "unat t' \<le> n + sr_adds pc \<and> sr_bound (n + sr_adds pc) pc'"
  using assms(1)
proof cases
  case (store m v)
  then show ?thesis using assms(2,3) unat_plus_le [of v "word_of_nat m"] unat_of_nat_le [of m] by auto
qed (use assms(2,3) in auto)

lemma writer_step_files:
  assumes fs: "fs \<subseteq> dir \<union> slam_live ws" and i: "i < length ws" "ws ! i = w"
    and st: "slam_junk mp (sw_name w, sw_pc w, fs, t) (f', pc', fs', t')"
  shows "fs' \<subseteq> dir \<union> slam_live (ws[i := w\<lparr>sw_name := f', sw_pc := pc'\<rparr>])"
proof
  fix x assume x: "x \<in> fs'"
  let ?w = "w\<lparr>sw_name := f', sw_pc := pc'\<rparr>"
  note j = slam_junk_files [OF st]
  show "x \<in> dir \<union> slam_live (ws[i := ?w])"
  proof (cases "x = f'")
    case True
    then show ?thesis using j(2) x slam_live_update(2) [OF i(1), of ?w] by auto
  next
    case False
    then have "x \<in> dir \<union> slam_live ws" using x j(1) fs by auto
    moreover have "x \<in> slam_live (ws[i := ?w])" if "x \<in> slam_live ws"
    proof (cases "sw_pc w = SwNew")
      case True
      then show ?thesis using slam_live_new [OF i(1), of ?w] i(2) that by (auto simp: sw_live_def)
    next
      case old: False
      then show ?thesis using slam_live_update(1) [OF i(1), of ?w] i(2) that j(3) False by auto
    qed
    ultimately show ?thesis by auto
  qed
qed

lemma sw_bounds_update:
  assumes "\<forall>w \<in> set ws. sw_bound n (sw_pc w)" "sw_bound m (sw_pc w')" "n \<le> m"
  shows "\<forall>w \<in> set (ws[i := w']). sw_bound m (sw_pc w)"
  using assms sw_bound_mono set_update_subset_insert [of ws i w'] by blast

lemma sr_bounds_update:
  assumes "\<forall>r \<in> set rs. sr_bound n (sr_pc r)" "sr_bound m (sr_pc r')" "n \<le> m"
  shows "\<forall>r \<in> set (rs[i := r']). sr_bound m (sr_pc r)"
  using assms sr_bound_mono set_update_subset_insert [of rs i r'] by blast

lemma ask_same:
  assumes "\<And>x. g (f x) = g x"
  shows "g ` set (ask f i xs) \<subseteq> g ` set xs"
  using assms set_update_subset_insert [of xs i "f (xs ! i)"] by (auto simp: ask_def split: if_splits)

lemma slam_live_ask: "slam_live (ask (sw_cancel_update f) i ws) = slam_live ws"
proof -
  have "map (\<lambda>w. (sw_name w, sw_pc w)) (ask (sw_cancel_update f) i ws) = map (\<lambda>w. (sw_name w, sw_pc w)) ws"
    by (auto simp: ask_def list_eq_iff_nth_eq nth_list_update)
  then have "(\<lambda>w. (sw_name w, sw_pc w)) ` set (ask (sw_cancel_update f) i ws) = (\<lambda>w. (sw_name w, sw_pc w)) ` set ws"
    by (metis set_map)
  moreover have "slam_live ws = fst ` {x \<in> (\<lambda>w. (sw_name w, sw_pc w)) ` set ws. sw_live (snd x)}" for ws
    by (force simp: slam_live_def)
  ultimately show ?thesis by simp
qed

lemma slam_step_writers:
  assumes "slam_step nw nr mp secs s s'" "writers_ok dir s"
  shows "writers_ok dir s'"
  using assms(1)
proof (cases rule: slam_step.cases)
  case (writer i w f' pc' fs' t')
  have w: "w \<in> set (slam_writers s)" using writer(3,4) by auto
  have "unat t' \<le> added_w s + sw_adds (sw_pc w) \<and> sw_bound (added_w s + sw_adds (sw_pc w)) pc'"
    using slam_junk_adds [OF writer(5)] assms(2) w by (auto simp: writers_ok_def)
  then show ?thesis
    using writer(1) writer_step_files [OF _ writer(3-5)] assms(2)
      sw_bounds_update [of "slam_writers s" "added_w s" "added_w s + sw_adds (sw_pc w)" "w\<lparr>sw_name := f', sw_pc := pc'\<rparr>" i]
    by (simp add: writers_ok_def)
next
  case (writer_cancelled i w)
  have "slam_files s - {sw_name w} \<subseteq> dir \<union> slam_live ((slam_writers s)[i := w\<lparr>sw_pc := SwEnded\<rparr>])"
    using slam_live_update(1) [OF writer_cancelled(3), of "w\<lparr>sw_pc := SwEnded\<rparr>"] writer_cancelled(4) assms(2) by (auto simp: writers_ok_def)
  then show ?thesis
    using writer_cancelled(1) assms(2) sw_bounds_update [of "slam_writers s" "added_w s" "added_w s" "w\<lparr>sw_pc := SwEnded\<rparr>" i]
    by (simp add: writers_ok_def)
next
  case create_writer
  then show ?thesis using assms(2) by (auto simp: writers_ok_def slam_live_def new_writer_def)
next
  case (cancels i)
  then show ?thesis using assms(2) ask_same [of sw_pc "sw_cancel_update (\<lambda>_. True)" i "slam_writers s"]
    by (auto simp: writers_ok_def slam_live_ask)
qed (use assms(2) in \<open>simp_all add: writers_ok_def\<close>)

lemma slam_step_readers:
  assumes "slam_step nw nr mp secs s s'" "readers_ok s"
  shows "readers_ok s'"
  using assms(1)
proof (cases rule: slam_step.cases)
  case (reader i r rpc t)
  have r: "r \<in> set (slam_readers s)" using reader(3,4) by auto
  have "unat t \<le> added_r s + sr_adds (sr_pc r) \<and> sr_bound (added_r s + sr_adds (sr_pc r)) rpc"
    using raw_reader_adds [OF reader(5)] assms(2) r by (auto simp: readers_ok_def)
  then show ?thesis
    using reader(1) assms(2)
      sr_bounds_update [of "slam_readers s" "added_r s" "added_r s + sr_adds (sr_pc r)" "r\<lparr>sr_pc := rpc\<rparr>" i]
    by (simp add: readers_ok_def)
next
  case (reader_cancelled i r)
  then show ?thesis
    using assms(2) sr_bounds_update [of "slam_readers s" "added_r s" "added_r s" "r\<lparr>sr_pc := SrEnded\<rparr>" i]
    by (simp add: readers_ok_def)
next
  case create_reader
  then show ?thesis using assms(2) by (auto simp: readers_ok_def new_reader_def)
next
  case (cancels_reader i)
  then show ?thesis using assms(2) ask_same [of sr_pc "sr_cancel_update (\<lambda>_. True)" i "slam_readers s"]
    by (auto simp: readers_ok_def)
qed (use assms(2) in \<open>simp_all add: readers_ok_def\<close>)

lemma slam_reach_ok:
  "(slam_step nw nr mp secs)\<^sup>*\<^sup>* (slam_init dir) s \<Longrightarrow> writers_ok dir s \<and> readers_ok s"
proof (induction rule: rtranclp_induct)
  case base
  show ?case by (simp add: writers_ok_def readers_ok_def slam_init_def)
qed (use slam_step_writers slam_step_readers in blast)

section \<open>Every thread can end\<close>

text \<open>
  A writer that has been asked to stop reaches a cancellation point on its own, and there it ends
  with its file removed; a reader likewise. So after the main program's last call all threads can end.
\<close>

lemma sw_reaches_point:
  assumes "pc \<noteq> SwEnded"
  shows "\<exists>f' pc' fs' t'. (slam_junk mp)\<^sup>*\<^sup>* (f, pc, fs, t) (f', pc', fs', t') \<and> sw_cancel_point pc'"
proof -
  have fill: "\<exists>f' pc' fs' t'. (slam_junk mp)\<^sup>*\<^sup>* (f, SwFill p b, fs, t) (f', pc', fs', t') \<and> sw_cancel_point pc'" for p b t
  proof (cases "p = 0")
    case True
    then show ?thesis using slam_junk.filled [of mp f b fs t] by (metis r_into_rtranclp sw_cancel_point.simps(5))
  next
    case False
    from slam_junk.page [OF this] show ?thesis by (metis r_into_rtranclp sw_cancel_point.simps(3))
  qed
  have store: "\<exists>f' pc' fs' t'. (slam_junk mp)\<^sup>*\<^sup>* (f, SwStore p b v, fs, t) (f', pc', fs', t') \<and> sw_cancel_point pc'" for p b v t
    using fill [of p b "v + scast b"] slam_junk.store [of mp f p b v fs t] by (meson converse_rtranclp_into_rtranclp)
  have here: ?thesis if "sw_cancel_point pc" using that by blast
  show ?thesis
  proof (cases pc)
    case SwNew
    then show ?thesis using slam_junk.name [of mp f fs t] by (metis r_into_rtranclp sw_cancel_point.simps(1))
  next
    case (SwAdd p b)
    then show ?thesis using store [of p b t t] slam_junk.load [of mp f p b fs t] by (meson converse_rtranclp_into_rtranclp)
  next
    case (SwStore p b v)
    then show ?thesis using store by simp
  next
    case (SwFill p b)
    then show ?thesis using fill by simp
  qed (use assms here in simp_all)
qed

lemma sr_reaches_point:
  assumes "pc \<noteq> SrEnded"
  shows "\<exists>pc' t'. raw_reader_step\<^sup>*\<^sup>* (pc, t) (pc', t') \<and> sr_cancel_point pc'"
proof -
  have store: "raw_reader_step\<^sup>*\<^sup>* (SrStore n v, t) (SrTest, v + word_of_nat n)" for n v t
    using raw_reader_step.store by blast
  have add: "raw_reader_step\<^sup>*\<^sup>* (SrAdd n, t) (SrTest, t + word_of_nat n)" for n
    using store raw_reader_step.load by (meson converse_rtranclp_into_rtranclp)
  have here: ?thesis if "sr_cancel_point pc" using that by blast
  show ?thesis
  proof (cases pc)
    case (SrAdd n)
    then show ?thesis using add sr_cancel_point.simps(3) by blast
  next
    case (SrStore n v)
    then show ?thesis using store sr_cancel_point.simps(3) by blast
  qed (use assms here in simp_all)
qed

text \<open>A thread's own steps are steps of the program.\<close>

lemma writer_runs:
  assumes m: "going (slam_main_pc s)" and i: "i < length (slam_writers s)"
  shows "(slam_junk mp)\<^sup>*\<^sup>* (sw_name (slam_writers s ! i), sw_pc (slam_writers s ! i), slam_files s, total_bytes_written s) c \<Longrightarrow>
    \<exists>a. (slam_step nw nr mp secs)\<^sup>*\<^sup>* s (s\<lparr>total_bytes_written := snd (snd (snd c)), slam_files := fst (snd (snd c)),
      slam_writers := (slam_writers s)[i := (slam_writers s ! i)\<lparr>sw_name := fst c, sw_pc := fst (snd c)\<rparr>], added_w := a\<rparr>)"
proof (induction rule: rtranclp_induct)
  case base
  have "s\<lparr>total_bytes_written := total_bytes_written s, slam_files := slam_files s,
      slam_writers := (slam_writers s)[i := (slam_writers s ! i)\<lparr>sw_name := sw_name (slam_writers s ! i), sw_pc := sw_pc (slam_writers s ! i)\<rparr>],
      added_w := added_w s\<rparr> = s"
    by simp
  then show ?case by (metis fst_conv rtranclp.rtrancl_refl snd_conv)
next
  case (step c d)
  obtain f pc fs t where d: "d = (f, pc, fs, t)" by (cases d) auto
  let ?w = "(slam_writers s ! i)\<lparr>sw_name := fst c, sw_pc := fst (snd c)\<rparr>"
  obtain a where "(slam_step nw nr mp secs)\<^sup>*\<^sup>* s (s\<lparr>total_bytes_written := snd (snd (snd c)), slam_files := fst (snd (snd c)),
      slam_writers := (slam_writers s)[i := ?w], added_w := a\<rparr>)"
    using step.IH by blast
  then have a: "(slam_step nw nr mp secs)\<^sup>*\<^sup>* s (s\<lparr>total_bytes_written := snd (snd (snd c)), slam_files := fst (snd (snd c)),
      slam_writers := (slam_writers s)[i := ?w], added_w := a\<rparr>)" (is "rtranclp _ s ?s") .
  have "slam_step nw nr mp secs ?s (?s\<lparr>total_bytes_written := t, slam_files := fs,
      slam_writers := (slam_writers ?s)[i := ?w\<lparr>sw_name := f, sw_pc := pc\<rparr>], added_w := added_w ?s + sw_adds (sw_pc ?w)\<rparr>)"
    by (rule slam_step.writer) (use m i step.hyps(2) d in simp_all)
  then have "slam_step nw nr mp secs ?s (s\<lparr>total_bytes_written := t, slam_files := fs,
      slam_writers := (slam_writers s)[i := (slam_writers s ! i)\<lparr>sw_name := f, sw_pc := pc\<rparr>], added_w := a + sw_adds (fst (snd c))\<rparr>)"
    by simp
  then show ?case using a unfolding d by (auto intro: rtranclp.rtrancl_into_rtrancl)
qed

lemma reader_runs:
  assumes m: "going (slam_main_pc s)" and i: "i < length (slam_readers s)"
  shows "raw_reader_step\<^sup>*\<^sup>* (sr_pc (slam_readers s ! i), total_bytes_read s) c \<Longrightarrow>
    \<exists>a. (slam_step nw nr mp secs)\<^sup>*\<^sup>* s (s\<lparr>total_bytes_read := snd c,
      slam_readers := (slam_readers s)[i := (slam_readers s ! i)\<lparr>sr_pc := fst c\<rparr>], added_r := a\<rparr>)"
proof (induction rule: rtranclp_induct)
  case base
  have "s\<lparr>total_bytes_read := total_bytes_read s,
      slam_readers := (slam_readers s)[i := (slam_readers s ! i)\<lparr>sr_pc := sr_pc (slam_readers s ! i)\<rparr>], added_r := added_r s\<rparr> = s"
    by simp
  then show ?case by (metis fst_conv rtranclp.rtrancl_refl snd_conv)
next
  case (step c d)
  obtain pc t where d: "d = (pc, t)" by (cases d)
  let ?r = "(slam_readers s ! i)\<lparr>sr_pc := fst c\<rparr>"
  obtain a where "(slam_step nw nr mp secs)\<^sup>*\<^sup>* s (s\<lparr>total_bytes_read := snd c,
      slam_readers := (slam_readers s)[i := ?r], added_r := a\<rparr>)"
    using step.IH by blast
  then have a: "(slam_step nw nr mp secs)\<^sup>*\<^sup>* s (s\<lparr>total_bytes_read := snd c,
      slam_readers := (slam_readers s)[i := ?r], added_r := a\<rparr>)" (is "rtranclp _ s ?s") .
  have "slam_step nw nr mp secs ?s (?s\<lparr>total_bytes_read := t,
      slam_readers := (slam_readers ?s)[i := ?r\<lparr>sr_pc := pc\<rparr>], added_r := added_r ?s + sr_adds (sr_pc ?r)\<rparr>)"
    by (rule slam_step.reader) (use m i step.hyps(2) d in simp_all)
  then have "slam_step nw nr mp secs ?s (s\<lparr>total_bytes_read := t,
      slam_readers := (slam_readers s)[i := (slam_readers s ! i)\<lparr>sr_pc := pc\<rparr>], added_r := a + sr_adds (fst c)\<rparr>)"
    by simp
  then show ?case using a unfolding d by (auto intro: rtranclp.rtrancl_into_rtrancl)
qed

lemma writer_stops:
  assumes m: "going (slam_main_pc s)" and i: "i < length (slam_writers s)" and c: "sw_cancel (slam_writers s ! i)"
  shows "\<exists>s' f. (slam_step nw nr mp secs)\<^sup>*\<^sup>* s s' \<and> slam_main_pc s' = slam_main_pc s \<and> slam_readers s' = slam_readers s \<and>
    slam_writers s' = (slam_writers s)[i := (slam_writers s ! i)\<lparr>sw_name := f, sw_pc := SwEnded\<rparr>]"
proof (cases "sw_pc (slam_writers s ! i) = SwEnded")
  case True
  then have "(slam_writers s)[i := (slam_writers s ! i)\<lparr>sw_name := sw_name (slam_writers s ! i), sw_pc := SwEnded\<rparr>] = slam_writers s"
    using i by (metis (full_types) list_update_id slam_writer.surjective slam_writer.update_convs(1,3) unit.exhaust)
  then show ?thesis by (metis rtranclp.rtrancl_refl)
next
  case False
  let ?w = "slam_writers s ! i"
  obtain f pc fs t where r: "(slam_junk mp)\<^sup>*\<^sup>* (sw_name ?w, sw_pc ?w, slam_files s, total_bytes_written s) (f, pc, fs, t)" "sw_cancel_point pc"
    using sw_reaches_point [OF False] by metis
  obtain a where "(slam_step nw nr mp secs)\<^sup>*\<^sup>* s (s\<lparr>total_bytes_written := t, slam_files := fs,
      slam_writers := (slam_writers s)[i := ?w\<lparr>sw_name := f, sw_pc := pc\<rparr>], added_w := a\<rparr>)"
    using writer_runs [OF m i r(1), of nw nr secs] by auto
  then have s1: "(slam_step nw nr mp secs)\<^sup>*\<^sup>* s (s\<lparr>total_bytes_written := t, slam_files := fs,
      slam_writers := (slam_writers s)[i := ?w\<lparr>sw_name := f, sw_pc := pc\<rparr>], added_w := a\<rparr>)" (is "rtranclp _ s ?s") .
  have "slam_step nw nr mp secs ?s (?s\<lparr>slam_files := slam_files ?s - {f},
      slam_writers := (slam_writers ?s)[i := ?w\<lparr>sw_name := f, sw_pc := pc, sw_pc := SwEnded\<rparr>]\<rparr>)"
    using slam_step.writer_cancelled [of ?s i "?w\<lparr>sw_name := f, sw_pc := pc\<rparr>" nw nr mp secs] m i c r(2) by simp
  with s1 show ?thesis
    by (intro exI [of _ "?s\<lparr>slam_files := slam_files ?s - {f},
      slam_writers := (slam_writers ?s)[i := ?w\<lparr>sw_name := f, sw_pc := pc, sw_pc := SwEnded\<rparr>]\<rparr>"] exI [of _ f])
      (auto intro: rtranclp.rtrancl_into_rtrancl)
qed

lemma reader_stops:
  assumes m: "going (slam_main_pc s)" and i: "i < length (slam_readers s)" and c: "sr_cancel (slam_readers s ! i)"
  shows "\<exists>s'. (slam_step nw nr mp secs)\<^sup>*\<^sup>* s s' \<and> slam_main_pc s' = slam_main_pc s \<and> slam_writers s' = slam_writers s \<and>
    slam_readers s' = (slam_readers s)[i := (slam_readers s ! i)\<lparr>sr_pc := SrEnded\<rparr>]"
proof (cases "sr_pc (slam_readers s ! i) = SrEnded")
  case True
  then have "(slam_readers s)[i := (slam_readers s ! i)\<lparr>sr_pc := SrEnded\<rparr>] = slam_readers s"
    using i by (metis (full_types) list_update_id slam_reader.surjective slam_reader.update_convs(2) unit.exhaust)
  then show ?thesis by (metis rtranclp.rtrancl_refl)
next
  case False
  let ?r = "slam_readers s ! i"
  obtain pc t where r: "raw_reader_step\<^sup>*\<^sup>* (sr_pc ?r, total_bytes_read s) (pc, t)" "sr_cancel_point pc"
    using sr_reaches_point [OF False] by metis
  obtain a where "(slam_step nw nr mp secs)\<^sup>*\<^sup>* s (s\<lparr>total_bytes_read := t,
      slam_readers := (slam_readers s)[i := ?r\<lparr>sr_pc := pc\<rparr>], added_r := a\<rparr>)"
    using reader_runs [OF m i r(1), of nw nr mp secs] by auto
  then have s1: "(slam_step nw nr mp secs)\<^sup>*\<^sup>* s (s\<lparr>total_bytes_read := t,
      slam_readers := (slam_readers s)[i := ?r\<lparr>sr_pc := pc\<rparr>], added_r := a\<rparr>)" (is "rtranclp _ s ?s") .
  have "slam_step nw nr mp secs ?s (?s\<lparr>slam_readers := (slam_readers ?s)[i := ?r\<lparr>sr_pc := pc, sr_pc := SrEnded\<rparr>]\<rparr>)"
    using slam_step.reader_cancelled [of ?s i "?r\<lparr>sr_pc := pc\<rparr>" nw nr mp secs] m i c r(2) by simp
  with s1 show ?thesis
    by (intro exI [of _ "?s\<lparr>slam_readers := (slam_readers ?s)[i := ?r\<lparr>sr_pc := pc, sr_pc := SrEnded\<rparr>]\<rparr>"])
      (auto intro: rtranclp.rtrancl_into_rtrancl)
qed

definition slam_asked :: "slam \<Rightarrow> bool" where
  "slam_asked s \<longleftrightarrow> list_all sw_cancel (slam_writers s) \<and> list_all sr_cancel (slam_readers s)"

definition slam_ended :: "slam \<Rightarrow> bool" where
  "slam_ended s \<longleftrightarrow> list_all (\<lambda>w. sw_pc w = SwEnded) (slam_writers s) \<and> list_all (\<lambda>r. sr_pc r = SrEnded) (slam_readers s)"

lemma writers_stop:
  assumes "going (slam_main_pc s)" "slam_asked s" "k \<le> length (slam_writers s)"
  shows "\<exists>s'. (slam_step nw nr mp secs)\<^sup>*\<^sup>* s s' \<and> slam_main_pc s' = slam_main_pc s \<and> slam_asked s' \<and>
    length (slam_writers s') = length (slam_writers s) \<and> (\<forall>j < k. sw_pc (slam_writers s' ! j) = SwEnded)"
  using assms(3)
proof (induction k)
  case 0
  then show ?case using assms(2) by blast
next
  case (Suc k)
  then obtain s1 where s1: "(slam_step nw nr mp secs)\<^sup>*\<^sup>* s s1" "slam_main_pc s1 = slam_main_pc s" "slam_asked s1"
    "length (slam_writers s1) = length (slam_writers s)" "\<forall>j < k. sw_pc (slam_writers s1 ! j) = SwEnded" by auto
  have k: "k < length (slam_writers s1)" and c: "sw_cancel (slam_writers s1 ! k)" and m: "going (slam_main_pc s1)"
    using Suc.prems s1 assms(1) by (auto simp: slam_asked_def list_all_length)
  obtain s2 f where s2: "(slam_step nw nr mp secs)\<^sup>*\<^sup>* s1 s2" "slam_main_pc s2 = slam_main_pc s1" "slam_readers s2 = slam_readers s1"
    "slam_writers s2 = (slam_writers s1)[k := (slam_writers s1 ! k)\<lparr>sw_name := f, sw_pc := SwEnded\<rparr>]"
    using writer_stops [OF m k c, of nw nr mp secs] by blast
  have "slam_asked s2" using s1(3) s2(3,4) c k by (auto simp: slam_asked_def list_all_length nth_list_update)
  moreover have "\<forall>j < Suc k. sw_pc (slam_writers s2 ! j) = SwEnded"
    using s1(5) s2(4) k by (auto simp: less_Suc_eq nth_list_update)
  ultimately show ?case using s1(1,2,4) s2(1,2,4) by (metis length_list_update rtranclp_trans)
qed

lemma readers_stop:
  assumes "going (slam_main_pc s)" "slam_asked s" "k \<le> length (slam_readers s)"
  shows "\<exists>s'. (slam_step nw nr mp secs)\<^sup>*\<^sup>* s s' \<and> slam_main_pc s' = slam_main_pc s \<and> slam_asked s' \<and> slam_writers s' = slam_writers s \<and>
    length (slam_readers s') = length (slam_readers s) \<and> (\<forall>j < k. sr_pc (slam_readers s' ! j) = SrEnded)"
  using assms(3)
proof (induction k)
  case 0
  then show ?case using assms(2) by blast
next
  case (Suc k)
  then obtain s1 where s1: "(slam_step nw nr mp secs)\<^sup>*\<^sup>* s s1" "slam_main_pc s1 = slam_main_pc s" "slam_asked s1" "slam_writers s1 = slam_writers s"
    "length (slam_readers s1) = length (slam_readers s)" "\<forall>j < k. sr_pc (slam_readers s1 ! j) = SrEnded" by auto
  have k: "k < length (slam_readers s1)" and c: "sr_cancel (slam_readers s1 ! k)" and m: "going (slam_main_pc s1)"
    using Suc.prems s1 assms(1) by (auto simp: slam_asked_def list_all_length)
  obtain s2 where s2: "(slam_step nw nr mp secs)\<^sup>*\<^sup>* s1 s2" "slam_main_pc s2 = slam_main_pc s1" "slam_writers s2 = slam_writers s1"
    "slam_readers s2 = (slam_readers s1)[k := (slam_readers s1 ! k)\<lparr>sr_pc := SrEnded\<rparr>]"
    using reader_stops [OF m k c, of nw nr mp secs] by blast
  have "slam_asked s2" using s1(3) s2(3,4) c k by (auto simp: slam_asked_def list_all_length nth_list_update)
  moreover have "\<forall>j < Suc k. sr_pc (slam_readers s2 ! j) = SrEnded"
    using s1(6) s2(4) k by (auto simp: less_Suc_eq nth_list_update)
  ultimately show ?case using s1(1,2,4,5) s2 by (metis length_list_update rtranclp_trans)
qed

lemma slam_stops:
  assumes "going (slam_main_pc s)" "slam_asked s"
  shows "\<exists>s'. (slam_step nw nr mp secs)\<^sup>*\<^sup>* s s' \<and> slam_main_pc s' = slam_main_pc s \<and> slam_ended s'"
proof -
  obtain s1 where s1: "(slam_step nw nr mp secs)\<^sup>*\<^sup>* s s1" "slam_main_pc s1 = slam_main_pc s" "slam_asked s1"
    "list_all (\<lambda>w. sw_pc w = SwEnded) (slam_writers s1)"
    using writers_stop [OF assms order_refl, of nw nr mp secs] by (auto simp: list_all_length)
  obtain s2 where "(slam_step nw nr mp secs)\<^sup>*\<^sup>* s1 s2" "slam_main_pc s2 = slam_main_pc s1" "slam_writers s2 = slam_writers s1"
    "list_all (\<lambda>r. sr_pc r = SrEnded) (slam_readers s2)"
    using readers_stop [OF _ s1(3) order_refl, of nw nr mp secs] s1(2) assms(1) by (auto simp: list_all_length)
  with s1 show ?thesis by (intro exI [of _ s2]) (auto simp: slam_ended_def intro: rtranclp_trans)
qed

text \<open>
  Which threads have been asked, as the main program goes: the flags of the writers and of the readers.
\<close>

fun slam_flags :: "nat \<Rightarrow> nat \<Rightarrow> slam_main_pc \<Rightarrow> bool list \<Rightarrow> bool list \<Rightarrow> bool" where
  "slam_flags nw nr SmWriters fw fr = (length fw \<le> nw \<and> fr = [])"
| "slam_flags nw nr SmReaders fw fr = (length fw = nw \<and> length fr \<le> nr)"
| "slam_flags nw nr SmWait fw fr = (length fw = nw \<and> length fr = nr)"
| "slam_flags nw nr (SmCancel i) fw fr = (length fw = nw \<and> length fr = nr \<and> list_all id (take i fw) \<and> list_all id (take i fr))"
| "slam_flags nw nr (SmCancelRead i) fw fr =
     (length fw = nw \<and> length fr = nr \<and> list_all id (take (Suc i) fw) \<and> list_all id (take i fr))"
| "slam_flags nw nr SmReturned fw fr = True"
| "slam_flags nw nr SmUndef fw fr = True"
| "slam_flags nw nr _ fw fr = (list_all id fw \<and> list_all id fr)"

lemma map_same: "i < length xs \<Longrightarrow> g x = g (xs ! i) \<Longrightarrow> map g (xs[i := x]) = map g xs"
  by (simp add: map_update list_update_same_conv)

lemma ask_flags:
  assumes "\<And>x. g (f x)" "list_all id (take i (map g xs))"
  shows "list_all id (take (Suc i) (map g (ask f i xs))) \<and> length (map g (ask f i xs)) = length xs"
  using assms by (auto simp: ask_def list_all_length nth_list_update less_Suc_eq)

lemma slam_step_flags:
  assumes "slam_step nw nr mp secs s s'"
    and "slam_flags nw nr (slam_main_pc s) (map sw_cancel (slam_writers s)) (map sr_cancel (slam_readers s))"
  shows "slam_flags nw nr (slam_main_pc s') (map sw_cancel (slam_writers s')) (map sr_cancel (slam_readers s'))"
  using assms(1)
proof (cases rule: slam_step.cases)
  case (cancels i)
  then show ?thesis using assms(2) ask_flags [of sw_cancel "sw_cancel_update (\<lambda>_. True)" i "slam_writers s"] by simp
next
  case (cancels_reader i)
  then show ?thesis using assms(2) ask_flags [of sr_cancel "sr_cancel_update (\<lambda>_. True)" i "slam_readers s"] by simp
next
  case (cancelled i)
  then show ?thesis using assms(2) by auto
qed (use assms(2) in \<open>auto simp: map_same\<close>)

lemma slam_reach_asked:
  assumes "(slam_step nw nr mp secs)\<^sup>*\<^sup>* (slam_init dir) s" "slam_main_pc s \<in> {SmPrint, SmPrintRead, SmExited}"
  shows "slam_asked s"
proof -
  have "slam_flags nw nr (slam_main_pc s) (map sw_cancel (slam_writers s)) (map sr_cancel (slam_readers s))"
    using assms(1)
  proof (induction rule: rtranclp_induct)
    case base
    show ?case by (simp add: slam_init_def)
  qed (rule slam_step_flags)
  then show ?thesis using assms(2) by (auto simp: slam_asked_def list_all_length)
qed

section \<open>Properties\<close>

text \<open>
  Property C22: whatever way the writers, the readers, the failures of their calls and the signals
  interleave, neither counter ever says more than the threads have added to it, and of the files
  that the program makes only those of threads that have not ended exist. From every state in which the
  main program is past its calls of \<^verbatim>\<open>pthread_cancel\<close>, all of them defined, the program can go on so that
  all threads come to their end, and then the directory holds no file that was not there before.
\<close>

theorem slam_cleans_up:
  assumes run: "slam_program stat_ok chdir_ok args dir s"
  shows "unat (total_bytes_written s) \<le> added_w s \<and> unat (total_bytes_read s) \<le> added_r s \<and>
    slam_files s \<subseteq> dir \<union> slam_live (slam_writers s) \<and>
    (slam_main_pc s \<in> {SmPrint, SmPrintRead, SmExited} \<longrightarrow>
      (\<exists>s'. slam_goes stat_ok chdir_ok args s s' \<and> slam_main_pc s' = slam_main_pc s \<and> slam_ended s' \<and> slam_files s' \<subseteq> dir))"
proof -
  obtain nw nr mp secs where m: "slam_main stat_ok chdir_ok args = Runs nw nr mp (Some secs)"
    and r: "(slam_step nw nr mp secs)\<^sup>*\<^sup>* (slam_init dir) s"
    using run by (auto simp: slam_program_def slam_goes_def split: slam_start.splits option.splits)
  have stops: "\<exists>s'. slam_goes stat_ok chdir_ok args s s' \<and> slam_main_pc s' = slam_main_pc s \<and> slam_ended s' \<and> slam_files s' \<subseteq> dir"
    if e: "slam_main_pc s \<in> {SmPrint, SmPrintRead, SmExited}"
  proof -
    have "going (slam_main_pc s)" using e by auto
    then obtain s' where s': "(slam_step nw nr mp secs)\<^sup>*\<^sup>* s s'" "slam_main_pc s' = slam_main_pc s" "slam_ended s'"
      using slam_stops [of s nw nr mp secs] slam_reach_asked [OF r e] by auto
    have r': "(slam_step nw nr mp secs)\<^sup>*\<^sup>* (slam_init dir) s'" using r s'(1) by simp
    have "slam_live (slam_writers s') = {}" using s'(3) by (auto simp: slam_live_def slam_ended_def list_all_iff sw_live_def)
    then have "slam_files s' \<subseteq> dir" using slam_reach_ok [OF r'] by (simp add: writers_ok_def)
    then show ?thesis using m s' by (auto simp: slam_goes_def)
  qed
  then show ?thesis using slam_reach_ok [OF r] by (auto simp: writers_ok_def readers_ok_def)
qed

text \<open>One writer that has made its file when the main program is through.\<close>

definition lone_writer :: "string \<Rightarrow> bool \<Rightarrow> sw_pc \<Rightarrow> string set \<Rightarrow> slam_main_pc \<Rightarrow> string \<Rightarrow> slam" where
  "lone_writer f c pc fs m out = \<lparr>total_bytes_written = 0, total_bytes_read = 0, slam_files = fs,
     slam_writers = [\<lparr>sw_name = f, sw_cancel = c, sw_pc = pc\<rparr>], slam_readers = [], slam_main_pc = m, slam_out = out,
     added_w = 0, added_r = 0\<rparr>"

definition lone_name :: string where
  "lone_name = fst (gen_random_filename (\<lambda>_. 0) 100)"

lemma lone_writer_run:
  "(slam_step 1 0 10 5)\<^sup>*\<^sup>* (slam_init {})
     (lone_writer lone_name True SwZero {lone_name} SmExited (total_line ''written'' 0 @ total_line ''raw read'' 0))"
proof -
  let ?r = "slam_step 1 0 10 5" and ?n = lone_name
  have "?r (slam_init {}) (lone_writer [] False SwNew {} SmWriters [])"
    using slam_step.create_writer [of "slam_init {}" 1 0 10 5] by (simp add: slam_init_def lone_writer_def new_writer_def)
  moreover have "?r (lone_writer [] False SwNew {} SmWriters []) (lone_writer ?n False SwOpen {} SmWriters [])"
    using slam_step.writer [of "lone_writer [] False SwNew {} SmWriters []" 0 "\<lparr>sw_name = [], sw_cancel = False, sw_pc = SwNew\<rparr>"
        10 ?n SwOpen "{}" 0 1 0 5] slam_junk.name [of 10 "[]" "{}" 0 "\<lambda>_. 0"] by (simp add: lone_writer_def lone_name_def)
  moreover have "?r (lone_writer ?n False SwOpen {} SmWriters []) (lone_writer ?n False SwZero {?n} SmWriters [])"
    using slam_step.writer [of "lone_writer ?n False SwOpen {} SmWriters []" 0 "\<lparr>sw_name = ?n, sw_cancel = False, sw_pc = SwOpen\<rparr>"
        10 ?n SwZero "{?n}" 0 1 0 5] slam_junk.opens [of 10 ?n "{}" 0] by (simp add: lone_writer_def)
  moreover have "?r (lone_writer ?n False SwZero {?n} SmWriters []) (lone_writer ?n False SwZero {?n} SmReaders [])"
    using slam_step.writers_made [of "lone_writer ?n False SwZero {?n} SmWriters []" 1 0 10 5] by (simp add: lone_writer_def)
  moreover have "?r (lone_writer ?n False SwZero {?n} SmReaders []) (lone_writer ?n False SwZero {?n} SmWait [])"
    using slam_step.readers_made [of "lone_writer ?n False SwZero {?n} SmReaders []" 0 1 10 5] by (simp add: lone_writer_def)
  moreover have "?r (lone_writer ?n False SwZero {?n} SmWait []) (lone_writer ?n False SwZero {?n} (SmCancel 0) [])"
    using slam_step.slept [of "lone_writer ?n False SwZero {?n} SmWait []" 5 1 0 10] by (simp add: lone_writer_def)
  moreover have "?r (lone_writer ?n False SwZero {?n} (SmCancel 0) []) (lone_writer ?n True SwZero {?n} (SmCancelRead 0) [])"
    using slam_step.cancels [of "lone_writer ?n False SwZero {?n} (SmCancel 0) []" 0 1 0 10 5] by (simp add: lone_writer_def ask_def)
  moreover have "?r (lone_writer ?n True SwZero {?n} (SmCancelRead 0) []) (lone_writer ?n True SwZero {?n} (SmCancel 1) [])"
    using slam_step.cancels_reader [of "lone_writer ?n True SwZero {?n} (SmCancelRead 0) []" 0 1 0 10 5] by (simp add: lone_writer_def ask_def)
  moreover have "?r (lone_writer ?n True SwZero {?n} (SmCancel 1) []) (lone_writer ?n True SwZero {?n} SmPrint [])"
    using slam_step.cancelled [of "lone_writer ?n True SwZero {?n} (SmCancel 1) []" 1 1 0 10 5] by (simp add: lone_writer_def)
  moreover have "?r (lone_writer ?n True SwZero {?n} SmPrint []) (lone_writer ?n True SwZero {?n} SmPrintRead (total_line ''written'' 0))"
    using slam_step.prints [of "lone_writer ?n True SwZero {?n} SmPrint []" 1 0 10 5] by (simp add: lone_writer_def)
  moreover have "?r (lone_writer ?n True SwZero {?n} SmPrintRead (total_line ''written'' 0))
      (lone_writer ?n True SwZero {?n} SmExited (total_line ''written'' 0 @ total_line ''raw read'' 0))"
    using slam_step.prints_read [of "lone_writer ?n True SwZero {?n} SmPrintRead (total_line ''written'' 0)" 1 0 10 5]
    by (simp add: lone_writer_def)
  ultimately show ?thesis by (meson converse_rtranclp_into_rtranclp rtranclp.rtrancl_refl)
qed

theorem slam_cleans_up_witness:
  "\<exists>s s'. slam_program (\<lambda>_. True) (\<lambda>_. True) [''/dev/sda'', ''/mnt'', ''1'', ''10'', ''5'', ''w''] {} s \<and> slam_files s = {lone_name} \<and>
     slam_goes (\<lambda>_. True) (\<lambda>_. True) [''/dev/sda'', ''/mnt'', ''1'', ''10'', ''5'', ''w''] s s' \<and> slam_ended s' \<and> slam_files s' = {}"
proof -
  let ?s = "lone_writer lone_name True SwZero {lone_name} SmExited (total_line ''written'' 0 @ total_line ''raw read'' 0)"
  let ?a = "[''/dev/sda'', ''/mnt'', ''1'', ''10'', ''5'', ''w'']"
  have "slam_main (\<lambda>_. True) (\<lambda>_. True) ?a = Runs 1 0 10 (Some 5)"
    by (simp add: slam_main_def scan_int_def scan_num_def skip_ws_def c_isspace_def digit_in_def num_of_def scan_str_def)
  then have p: "slam_program (\<lambda>_. True) (\<lambda>_. True) ?a {} ?s" using lone_writer_run by (simp add: slam_program_def slam_goes_def)
  have e: "slam_main_pc ?s = SmExited" "slam_files ?s = {lone_name}" by (simp_all add: lone_writer_def)
  then obtain s' where "slam_goes (\<lambda>_. True) (\<lambda>_. True) ?a ?s s'" "slam_ended s'" "slam_files s' = {}"
    using slam_cleans_up [OF p] by auto
  with p e(2) show ?thesis by blast
qed

section \<open>A writer alone\<close>

text \<open>With nobody else about, the pages of a pass go as \<open>slam_pages\<close> of \<open>Fs_Slammer\<close> says.\<close>

lemma slam_junk_page:
  assumes "p \<noteq> 0" "n \<le> 4096" "m \<le> n"
  shows "(slam_junk mp)\<^sup>*\<^sup>* (f, SwFill p b, fs, t) (f, SwFill (p - 1) (b + word_of_nat m), fs, t + scast (b + word_of_nat m))"
  using slam_junk.page [OF assms(1), of mp f b fs t] slam_junk.reads [OF assms(2), of mp f "p - 1" b fs t]
    slam_junk.writes [OF assms(3), of mp f "p - 1" b fs t] slam_junk.load [of mp f "p - 1" "b + word_of_nat m" fs t]
    slam_junk.store [of mp f "p - 1" "b + word_of_nat m" t fs t]
  by (meson converse_rtranclp_into_rtranclp rtranclp.rtrancl_refl)

lemma slam_pages_alone:
  assumes "slam_pages rd wr k n b (data, t) = Inr (data', t')" "n < 2 ^ 32"
    and "\<And>k v. rd k = Some v \<Longrightarrow> v \<le> 4096"
  shows "(slam_junk mp)\<^sup>*\<^sup>* (f, SwFill (word_of_nat n) b, fs, t) (f, SwSync, fs, t')"
  using assms(1,2)
proof (induction n arbitrary: k b data t)
  case 0
  then show ?case using slam_junk.filled [of mp f b fs t] by auto
next
  case (Suc n)
  obtain r w where rw: "rd k = Some r" "wr k = Some w" using Suc.prems(1) by (auto split: option.splits)
  have nz: "word_of_nat (Suc n) \<noteq> (0 :: u32)" using Suc.prems(2) unfolding word_of_nat_eq_0_iff by (auto dest: dvd_imp_le)
  have "word_of_nat (Suc n) - 1 = (word_of_nat n :: u32)" by simp
  then have "(slam_junk mp)\<^sup>*\<^sup>* (f, SwFill (word_of_nat (Suc n)) b, fs, t)
      (f, SwFill (word_of_nat n) (b + word_of_nat (min r w)), fs, t + scast (b + word_of_nat (min r w)))"
    using slam_junk_page [OF nz assms(3) [OF rw(1)], of "min r w" mp f b fs t] by simp
  moreover have "(slam_junk mp)\<^sup>*\<^sup>* (f, SwFill (word_of_nat n) (b + word_of_nat (min r w)), fs, t + scast (b + word_of_nat (min r w)))
      (f, SwSync, fs, t')"
    by (rule Suc.IH [of "Suc k" _ "data @ replicate (min r w) NUL"]) (use Suc.prems rw in \<open>simp_all add: Let_def\<close>)
  ultimately show ?case by simp
qed

section \<open>What the program gets wrong\<close>

text \<open>
  Readers: two of them can load the same total, and then one read is not counted.
\<close>

definition two_readers :: "sr_pc \<Rightarrow> sr_pc \<Rightarrow> u64 \<Rightarrow> slam_main_pc \<Rightarrow> nat \<Rightarrow> slam" where
  "two_readers a b t m n = \<lparr>total_bytes_written = 0, total_bytes_read = t, slam_files = {}, slam_writers = [],
     slam_readers = [\<lparr>sr_cancel = False, sr_pc = a\<rparr>, \<lparr>sr_cancel = False, sr_pc = b\<rparr>], slam_main_pc = m, slam_out = [],
     added_w = 0, added_r = n\<rparr>"

lemma two_readers_step:
  assumes "going m"
  shows "raw_reader_step (a, t) (a', t') \<Longrightarrow> slam_step 0 2 mp secs (two_readers a b t m n) (two_readers a' b t' m (n + sr_adds a))"
    and "raw_reader_step (b, t) (b', t') \<Longrightarrow> slam_step 0 2 mp secs (two_readers a b t m n) (two_readers a b' t' m (n + sr_adds b))"
  using assms slam_step.reader [of "two_readers a b t m n" 0 "\<lparr>sr_cancel = False, sr_pc = a\<rparr>" a' t' 0 2 mp secs]
    slam_step.reader [of "two_readers a b t m n" 1 "\<lparr>sr_cancel = False, sr_pc = b\<rparr>" b' t' 0 2 mp secs]
  by (simp_all add: two_readers_def)

lemma slam_read_lost:
  assumes "going m"
  shows "(slam_step 0 2 mp secs)\<^sup>*\<^sup>* (two_readers SrSeek SrSeek 0 m 0) (two_readers SrTest SrTest 4096 m 8192)"
proof -
  let ?r = "slam_step 0 2 mp secs"
  have "?r (two_readers SrSeek SrSeek 0 m 0) (two_readers (SrAdd 4096) SrSeek 0 m 0)"
    using two_readers_step(1) [OF assms raw_reader_step.reads [of 4096 0]] by simp
  moreover have "?r (two_readers (SrAdd 4096) SrSeek 0 m 0) (two_readers (SrAdd 4096) (SrAdd 4096) 0 m 0)"
    using two_readers_step(2) [OF assms raw_reader_step.reads [of 4096 0], of mp secs "SrAdd 4096" 0] by simp
  moreover have "?r (two_readers (SrAdd 4096) (SrAdd 4096) 0 m 0) (two_readers (SrStore 4096 0) (SrAdd 4096) 0 m 0)"
    using two_readers_step(1) [OF assms raw_reader_step.load [of 4096 0]] by simp
  moreover have "?r (two_readers (SrStore 4096 0) (SrAdd 4096) 0 m 0) (two_readers (SrStore 4096 0) (SrStore 4096 0) 0 m 0)"
    using two_readers_step(2) [OF assms raw_reader_step.load [of 4096 0], of mp secs "SrStore 4096 0" 0] by simp
  moreover have "?r (two_readers (SrStore 4096 0) (SrStore 4096 0) 0 m 0) (two_readers SrTest (SrStore 4096 0) 4096 m 4096)"
    using two_readers_step(1) [OF assms raw_reader_step.store [of 4096 0 0], of mp secs "SrStore 4096 0" 0] by simp
  moreover have "?r (two_readers SrTest (SrStore 4096 0) 4096 m 4096) (two_readers SrTest SrTest 4096 m 8192)"
    using two_readers_step(2) [OF assms raw_reader_step.store [of 4096 0 4096], of mp secs SrTest 4096] by simp
  ultimately show ?thesis by (meson converse_rtranclp_into_rtranclp rtranclp.rtrancl_refl)
qed

text \<open>A writer whose \<^verbatim>\<open>open\<close> has failed is a detached thread that is gone, and the main program still cancels it, which is undefined.\<close>

lemma slam_cancels_ended:
  "\<exists>s. (slam_step 1 0 mp 0)\<^sup>*\<^sup>* (slam_init {}) s \<and> slam_main_pc s = SmUndef \<and> (\<nexists>s'. slam_step 1 0 mp 0 s s')"
proof -
  let ?r = "slam_step 1 0 mp 0" and ?n = lone_name
  have "?r (slam_init {}) (lone_writer [] False SwNew {} SmWriters [])"
    using slam_step.create_writer [of "slam_init {}" 1 0 mp 0] by (simp add: slam_init_def lone_writer_def new_writer_def)
  moreover have "?r (lone_writer [] False SwNew {} SmWriters []) (lone_writer ?n False SwOpen {} SmWriters [])"
    using slam_step.writer [of "lone_writer [] False SwNew {} SmWriters []" 0 "\<lparr>sw_name = [], sw_cancel = False, sw_pc = SwNew\<rparr>"
        mp ?n SwOpen "{}" 0 1 0 0] slam_junk.name [of mp "[]" "{}" 0 "\<lambda>_. 0"] by (simp add: lone_writer_def lone_name_def)
  moreover have "?r (lone_writer ?n False SwOpen {} SmWriters []) (lone_writer ?n False SwEnded {} SmWriters [])"
    using slam_step.writer [of "lone_writer ?n False SwOpen {} SmWriters []" 0 "\<lparr>sw_name = ?n, sw_cancel = False, sw_pc = SwOpen\<rparr>"
        mp ?n SwEnded "{}" 0 1 0 0] slam_junk.open_fails [of mp ?n "{}" 0] by (simp add: lone_writer_def)
  moreover have "?r (lone_writer ?n False SwEnded {} SmWriters []) (lone_writer ?n False SwEnded {} SmReaders [])"
    using slam_step.writers_made [of "lone_writer ?n False SwEnded {} SmWriters []" 1 0 mp 0] by (simp add: lone_writer_def)
  moreover have "?r (lone_writer ?n False SwEnded {} SmReaders []) (lone_writer ?n False SwEnded {} SmWait [])"
    using slam_step.readers_made [of "lone_writer ?n False SwEnded {} SmReaders []" 0 1 mp 0] by (simp add: lone_writer_def)
  moreover have "?r (lone_writer ?n False SwEnded {} SmWait []) (lone_writer ?n False SwEnded {} (SmCancel 0) [])"
    using slam_step.slept [of "lone_writer ?n False SwEnded {} SmWait []" 0 1 0 mp] by (simp add: lone_writer_def)
  moreover have "?r (lone_writer ?n False SwEnded {} (SmCancel 0) []) (lone_writer ?n False SwEnded {} SmUndef [])"
    using slam_step.cancels_ended [of "lone_writer ?n False SwEnded {} (SmCancel 0) []" 0 1 0 mp 0] by (simp add: lone_writer_def)
  ultimately have "?r\<^sup>*\<^sup>* (slam_init {}) (lone_writer ?n False SwEnded {} SmUndef [])"
    by (meson converse_rtranclp_into_rtranclp rtranclp.rtrancl_refl)
  moreover have "\<nexists>s'. ?r (lone_writer ?n False SwEnded {} SmUndef []) s'"
    by (auto elim!: slam_step.cases simp: lone_writer_def)
  ultimately show ?thesis by (intro exI [of _ "lone_writer ?n False SwEnded {} SmUndef []"]) (simp add: lone_writer_def)
qed

end
