(* ===== verification/Producer.thy ===== *)
theory Producer
  imports Prelude
begin

text \<open>
  The two threads of \<^verbatim>\<open>src/producer_test.c\<close> around a ring of numbers: a producer that never looks at
  the consumer, and a consumer that prints at most a hundred numbers in a row. A step is one
  statement that reads or writes a shared variable. The numbers are of type \<^verbatim>\<open>int\<close>, and the producer
  counts on for ever: when it has stored the largest one, \<open>_d_i_producer++\<close> is undefined.
\<close>

section \<open>The threads\<close>

definition DATA_SZ :: nat where
  "DATA_SZ = 204800"

definition CONSUME_RATE :: nat where
  "CONSUME_RATE = 100"

definition INT_MAX_ring :: u32 where
  "INT_MAX_ring = 0x7fffffff"

text \<open>\<open>p_mid\<close> and \<open>c_mid\<close>: a number is stored or printed and the head is not yet moved on; \<open>rg_undef\<close>: the counter has overflowed.\<close>

record ring =
  rg_data :: "u32 list"
  p_head :: nat
  d_i :: u32
  p_mid :: bool
  c_head :: nat
  c_i :: nat
  c_mid :: bool
  rg_out :: "u32 list"
  rg_undef :: bool

definition ring_init :: ring where
  "ring_init = \<lparr>rg_data = replicate DATA_SZ 0, p_head = 0, d_i = 0, p_mid = False, c_head = 0, c_i = 0,
     c_mid = False, rg_out = [], rg_undef = False\<rparr>"

definition p_store :: "ring \<Rightarrow> ring" where
  "p_store s =
     (if d_i s = INT_MAX_ring then s\<lparr>rg_undef := True\<rparr>
      else s\<lparr>rg_data := (rg_data s)[p_head s := d_i s], d_i := d_i s + 1, p_mid := True\<rparr>)"

definition p_advance :: "ring \<Rightarrow> ring" where
  "p_advance s = s\<lparr>p_head := (p_head s + 1) mod DATA_SZ, p_mid := False\<rparr>"

definition c_print :: "ring \<Rightarrow> ring" where
  "c_print s = s\<lparr>rg_out := rg_out s @ [rg_data s ! c_head s], c_mid := True\<rparr>"

definition c_advance :: "ring \<Rightarrow> ring" where
  "c_advance s = s\<lparr>c_head := (c_head s + 1) mod DATA_SZ, c_i := c_i s + 1, c_mid := False\<rparr>"

inductive ring_step :: "ring \<Rightarrow> ring \<Rightarrow> bool" where
  store: "\<not> rg_undef s \<Longrightarrow> \<not> p_mid s \<Longrightarrow> ring_step s (p_store s)"
| advance: "\<not> rg_undef s \<Longrightarrow> p_mid s \<Longrightarrow> ring_step s (p_advance s)"
| print: "\<not> rg_undef s \<Longrightarrow> \<not> c_mid s \<Longrightarrow> c_i s < CONSUME_RATE \<Longrightarrow> c_head s \<noteq> p_head s \<Longrightarrow> ring_step s (c_print s)"
| consume: "\<not> rg_undef s \<Longrightarrow> c_mid s \<Longrightarrow> ring_step s (c_advance s)"
| rest: "\<not> rg_undef s \<Longrightarrow> \<not> c_mid s \<Longrightarrow> \<not> (c_i s < CONSUME_RATE \<and> c_head s \<noteq> p_head s) \<Longrightarrow>
    ring_step s (s\<lparr>c_i := 0\<rparr>)"

inductive_cases ring_stepE: "ring_step s s'"

section \<open>The numbers in the ring\<close>

text \<open>The numbers published by the producer and those the consumer is done with.\<close>

definition published :: "ring \<Rightarrow> nat" where
  "published s = unat (d_i s) - (if p_mid s then 1 else 0)"

definition consumed :: "ring \<Rightarrow> nat" where
  "consumed s = length (rg_out s) - (if c_mid s then 1 else 0)"

text \<open>The contents: every published number that is not printed is at its place.\<close>

definition ring_data_ok :: "u32 list \<Rightarrow> nat \<Rightarrow> nat \<Rightarrow> bool" where
  "ring_data_ok d lo hi \<longleftrightarrow> length d = DATA_SZ \<and> (\<forall>k. lo \<le> k \<and> k < hi \<longrightarrow> d ! (k mod DATA_SZ) = word_of_nat k)"

definition ring_inv :: "ring \<Rightarrow> bool" where
  "ring_inv s \<longleftrightarrow> d_i s \<le> INT_MAX_ring \<and> (rg_undef s \<longrightarrow> d_i s = INT_MAX_ring) \<and> (p_mid s \<longrightarrow> 0 < unat (d_i s)) \<and> (c_mid s \<longrightarrow> 0 < length (rg_out s)) \<and>
     p_head s = published s mod DATA_SZ \<and> c_head s = consumed s mod DATA_SZ \<and>
     length (rg_out s) \<le> published s \<and> published s - consumed s < DATA_SZ \<and>
     rg_out s = map word_of_nat [0..<length (rg_out s)] \<and> ring_data_ok (rg_data s) (length (rg_out s)) (unat (d_i s))"

lemma DATA_SZ_pos [simp]: "0 < DATA_SZ"
  by (simp add: DATA_SZ_def)

lemma mod_eq_near: "a mod n = b mod n \<Longrightarrow> a \<le> b \<Longrightarrow> b - a < n \<Longrightarrow> a = (b :: nat)"
  by (metis diff_is_0_eq le_antisym mod_eq_dvd_iff_nat nat_dvd_not_less not_gr_zero)

lemma unat_Suc_below:
  assumes "(d :: u32) \<le> INT_MAX_ring" "d \<noteq> INT_MAX_ring"
  shows "unat (d + 1) = Suc (unat d)" "d + 1 \<le> INT_MAX_ring"
proof -
  have "d < INT_MAX_ring" using assms by simp
  then have l: "unat d < 0x7fffffff" by (simp add: word_less_nat_alt INT_MAX_ring_def)
  then show u: "unat (d + 1) = Suc (unat d)" by (simp add: unat_word_ariths)
  then show "d + 1 \<le> INT_MAX_ring" using l by (simp add: word_le_nat_alt INT_MAX_ring_def)
qed

lemma ring_data_ok_store:
  assumes "ring_data_ok d lo hi" "hi - lo < DATA_SZ"
  shows "ring_data_ok (d[hi mod DATA_SZ := word_of_nat hi]) lo (Suc hi)"
  unfolding ring_data_ok_def
proof (intro conjI allI impI)
  show "length (d[hi mod DATA_SZ := word_of_nat hi]) = DATA_SZ" using assms(1) by (simp add: ring_data_ok_def)
  fix k assume k: "lo \<le> k \<and> k < Suc hi"
  show "d[hi mod DATA_SZ := word_of_nat hi] ! (k mod DATA_SZ) = word_of_nat k"
  proof (cases "k = hi")
    case True
    then show ?thesis using assms(1) by (simp add: ring_data_ok_def)
  next
    case False
    then have "k \<le> hi" "hi - k < DATA_SZ" using k assms(2) by linarith+
    then have "k mod DATA_SZ \<noteq> hi mod DATA_SZ" using False mod_eq_near [of k DATA_SZ hi] by auto
    then show ?thesis using assms(1) k False by (simp add: ring_data_ok_def)
  qed
qed

lemma ring_inv_init: "ring_inv ring_init"
  by (simp add: ring_inv_def ring_init_def published_def consumed_def ring_data_ok_def)

text \<open>A step that does not let the producer come round to the consumer again.\<close>

definition slow_step :: "ring \<Rightarrow> ring \<Rightarrow> bool" where
  "slow_step s s' \<longleftrightarrow> ring_step s s' \<and> published s' - consumed s' < DATA_SZ"

lemma ring_inv_step:
  assumes "ring_inv s" "slow_step s s'"
  shows "ring_inv s'"
proof -
  have near: "published s' - consumed s' < DATA_SZ" and step: "ring_step s s'" using assms(2) by (auto simp: slow_step_def)
  note I = assms(1) [unfolded ring_inv_def]
  from step show ?thesis
  proof (cases rule: ring_step.cases)
    case store
    show ?thesis
    proof (cases "d_i s = INT_MAX_ring")
      case True
      then show ?thesis using I store near by (simp add: ring_inv_def p_store_def consumed_def published_def)
    next
      case False
      then have u: "d_i s + 1 \<le> INT_MAX_ring" "unat (d_i s + 1) = Suc (unat (d_i s))"
        using I unat_Suc_below [of "d_i s"] by simp_all
      have p: "published s = unat (d_i s)" "published s' = unat (d_i s)"
        using store False u(2) by (simp_all add: published_def p_store_def)
      moreover have "consumed s \<le> length (rg_out s)" by (simp add: consumed_def)
      ultimately have "unat (d_i s) - length (rg_out s) < DATA_SZ" using I by linarith
      then have "ring_data_ok ((rg_data s)[p_head s := d_i s]) (length (rg_out s)) (Suc (unat (d_i s)))"
        using I p(1) ring_data_ok_store [of "rg_data s" "length (rg_out s)" "unat (d_i s)"] by simp
      then show ?thesis using I store p False u
        by (simp add: ring_inv_def p_store_def consumed_def published_def)
    qed
  next
    case advance
    then have "published s' = Suc (published s)" "published s' = unat (d_i s)" using I by (simp_all add: published_def p_advance_def)
    then show ?thesis using I advance near by (simp add: ring_inv_def p_advance_def consumed_def mod_Suc_eq)
  next
    case print
    then have c: "consumed s = length (rg_out s)" by (simp add: consumed_def)
    then have "consumed s \<noteq> published s" using print(5) I by auto
    then have lt: "length (rg_out s) < published s" using I c by simp
    moreover have "published s \<le> unat (d_i s)" by (simp add: published_def)
    ultimately have "rg_data s ! c_head s = word_of_nat (length (rg_out s))"
      using I c by (auto simp: ring_data_ok_def)
    moreover have "ring_data_ok (rg_data s) (Suc (length (rg_out s))) (unat (d_i s))" using I by (simp add: ring_data_ok_def)
    moreover have "published s' = published s" "consumed s' = consumed s"
      using print c by (simp_all add: published_def consumed_def c_print_def)
    ultimately show ?thesis using I print lt near by (simp add: ring_inv_def c_print_def)
  next
    case consume
    then have "consumed s' = Suc (consumed s)" "published s' = published s"
      using I by (simp_all add: consumed_def published_def c_advance_def)
    then show ?thesis using I consume near by (simp add: ring_inv_def c_advance_def mod_Suc_eq)
  next
    case rest
    then show ?thesis using I near by (simp add: ring_inv_def published_def consumed_def)
  qed
qed

section \<open>Properties\<close>

text \<open>
  Property C20: as long as the producer stays less than a ring ahead, the consumer prints the numbers
  from 0 on, each once and in order, whatever the interleaving of the two threads. There are fewer
  than \<open>2 ^ 31\<close> of them: the program leaves the defined behaviour exactly when the producer counts on
  after \<open>2 ^ 31 - 1\<close> numbers.
\<close>

theorem consumer_prints_in_order:
  assumes "slow_step\<^sup>*\<^sup>* ring_init s"
  shows "rg_out s = map word_of_nat [0..<length (rg_out s)] \<and> length (rg_out s) < 2 ^ 31 \<and>
    (rg_undef s \<longrightarrow> unat (d_i s) = 2 ^ 31 - 1)"
proof -
  have i: "ring_inv s" using assms by (induction rule: rtranclp_induct) (auto intro: ring_inv_init ring_inv_step)
  then have "length (rg_out s) \<le> unat (d_i s)" by (auto simp: ring_inv_def published_def)
  moreover have "unat (d_i s) \<le> 2 ^ 31 - 1" using i by (simp add: ring_inv_def word_le_nat_alt INT_MAX_ring_def)
  ultimately show ?thesis using i by (auto simp: ring_inv_def INT_MAX_ring_def)
qed

theorem consumer_prints_in_order_witness:
  "rg_out (c_print (p_advance (p_store ring_init))) =
     map word_of_nat [0..<length (rg_out (c_print (p_advance (p_store ring_init))))]"
proof -
  let ?a = "p_store ring_init" and ?b = "p_advance (p_store ring_init)"
  have d: "2 < DATA_SZ" "Suc 0 mod DATA_SZ = 1" "(0 :: u32) \<noteq> INT_MAX_ring" by (simp_all add: DATA_SZ_def INT_MAX_ring_def)
  have "slow_step ring_init ?a" unfolding slow_step_def
    by (intro conjI ring_step.store) (simp_all add: ring_init_def p_store_def published_def)
  moreover have "slow_step ?a ?b" unfolding slow_step_def using d
    by (intro conjI ring_step.advance) (simp_all add: ring_init_def p_store_def p_advance_def published_def)
  moreover have "slow_step ?b (c_print ?b)" unfolding slow_step_def using d
    by (intro conjI ring_step.print)
      (simp_all add: ring_init_def p_store_def p_advance_def c_print_def published_def CONSUME_RATE_def)
  ultimately have "slow_step\<^sup>*\<^sup>* ring_init (c_print ?b)" by (meson converse_rtranclp_into_rtranclp rtranclp.rtrancl_refl)
  then show ?thesis using consumer_prints_in_order by blast
qed

text \<open>Without that, a full ring looks empty: the consumer finds nothing of what was produced.\<close>

lemma produce_all:
  assumes "n < 2 ^ 31"
  shows "\<exists>s. ring_step\<^sup>*\<^sup>* ring_init s \<and> unat (d_i s) = n \<and> p_head s = n mod DATA_SZ \<and> \<not> p_mid s \<and> \<not> rg_undef s \<and>
    c_head s = 0 \<and> rg_out s = []"
  using assms
proof (induction n)
  case 0
  then show ?case by (intro exI [of _ ring_init]) (simp add: ring_init_def)
next
  case (Suc n)
  then obtain s where s: "ring_step\<^sup>*\<^sup>* ring_init s" "unat (d_i s) = n" "p_head s = n mod DATA_SZ" "\<not> p_mid s" "\<not> rg_undef s"
    "c_head s = 0" "rg_out s = []" by auto
  have d: "d_i s \<noteq> INT_MAX_ring" "d_i s \<le> INT_MAX_ring" using s(2) Suc.prems by (auto simp: INT_MAX_ring_def word_le_nat_alt)
  have "ring_step s (p_store s)" by (rule ring_step.store [OF s(5,4)])
  moreover have "ring_step (p_store s) (p_advance (p_store s))"
    by (rule ring_step.advance) (use d s(5) in \<open>simp_all add: p_store_def\<close>)
  ultimately have "ring_step\<^sup>*\<^sup>* ring_init (p_advance (p_store s))" using s(1) by (meson rtranclp.rtrancl_into_rtrancl)
  then show ?case using s d unat_Suc_below(1) [of "d_i s"]
    by (intro exI [of _ "p_advance (p_store s)"]) (simp add: p_advance_def p_store_def mod_Suc_eq)
qed

lemma full_ring_looks_empty:
  "\<exists>s. ring_step\<^sup>*\<^sup>* ring_init s \<and> unat (d_i s) = DATA_SZ \<and> rg_out s = [] \<and> c_head s = p_head s"
  using produce_all [of DATA_SZ] by (auto simp: DATA_SZ_def)

end
