(* ===== verification/Hist.thy ===== *)
theory Hist
  imports C_Library
begin

text \<open>
  The text histogram of \<^verbatim>\<open>src/hist.c\<close>: a grid of characters, one list per column, with the axes and the
  bars drawn into it and printed row by row. \<open>None\<close> is a store outside the grid.
\<close>

section \<open>The program\<close>

definition NCOLS :: nat where
  "NCOLS = 120"

definition NROWS :: nat where
  "NROWS = 25"

text \<open>The cleared grid with the left and the lower axis.\<close>

definition plot_init :: "string list" where
  "plot_init = map (\<lambda>j. if j = 0 then replicate (NROWS + 1) CHR ''+'' else CHR ''+'' # replicate NROWS CHR '' '') [0..<NCOLS + 1]"

function draw_dots :: "nat \<Rightarrow> int \<Rightarrow> string \<Rightarrow> string option" where
  "draw_dots i nr_dots col =
     (if int i < nr_dots then
        if i < length col then draw_dots (Suc i) nr_dots (col[i := CHR ''*'']) else None
      else Some col)"
  by pat_completeness auto
termination by (relation "measure (\<lambda>(i, nr_dots, col). nat (nr_dots - int i))") auto

declare draw_dots.simps [simp del]

definition nr_dots :: "int \<Rightarrow> int" where
  "nr_dots d = c_div d (c_div 100 (int NROWS))"

text \<open>The loop over the data; a bar without dots touches nothing, whatever its column.\<close>

fun draw_bars :: "int list \<Rightarrow> nat \<Rightarrow> string list \<Rightarrow> string list option" where
  "draw_bars [] k plot = Some plot"
| "draw_bars (d # data) k plot =
     (if nr_dots d \<le> 1 then draw_bars data (Suc k) plot
      else if k + 1 < length plot then
        (case draw_dots 1 (nr_dots d) (plot ! (k + 1)) of
           None \<Rightarrow> None
         | Some col \<Rightarrow> draw_bars data (Suc k) (plot[k + 1 := col]))
      else None)"

definition plot_rows :: "string list \<Rightarrow> string list" where
  "plot_rows plot = map (\<lambda>i. map (\<lambda>j. plot ! j ! (NROWS - i)) [0..<NCOLS + 1]) [0..<NROWS + 1]"

definition print_hist :: "int list \<Rightarrow> string list option" where
  "print_hist data = map_option plot_rows (draw_bars data 0 plot_init)"

definition hist_main :: "(nat \<Rightarrow> nat) \<Rightarrow> string list option" where
  "hist_main rnd = print_hist (map (\<lambda>i. int (rnd i mod 100)) [0..<NCOLS - 2])"

section \<open>What is drawn\<close>

lemma draw_dots_ok:
  assumes "nr \<le> int (length col)"
  shows "draw_dots i nr col = Some (map (\<lambda>y. if i \<le> y \<and> int y < nr then CHR ''*'' else col ! y) [0..<length col])"
  using assms
proof (induction i nr col rule: draw_dots.induct)
  case (1 i nr col)
  show ?case
  proof (cases "int i < nr")
    case True
    then have l: "i < length col" using "1.prems" by simp
    then have "draw_dots i nr col = draw_dots (Suc i) nr (col[i := CHR ''*''])"
      using True by (subst draw_dots.simps) simp
    also have "\<dots> = Some (map (\<lambda>y. if Suc i \<le> y \<and> int y < nr then CHR ''*'' else col[i := CHR ''*''] ! y) [0..<length col])"
      using "1.IH" [OF True l] "1.prems" by simp
    also have "map (\<lambda>y. if Suc i \<le> y \<and> int y < nr then CHR ''*'' else col[i := CHR ''*''] ! y) [0..<length col] =
        map (\<lambda>y. if i \<le> y \<and> int y < nr then CHR ''*'' else col ! y) [0..<length col]"
      using True by (intro map_cong refl) (auto simp: nth_list_update)
    finally show ?thesis .
  next
    case False
    then have "map (\<lambda>y. if i \<le> y \<and> int y < nr then CHR ''*'' else col ! y) [0..<length col] = col"
      by (intro nth_equalityI) auto
    then show ?thesis using False by (subst draw_dots.simps) simp
  qed
qed

text \<open>The character that belongs at column \<open>x\<close> and height \<open>y\<close> when the data are in the columns from 1 on.\<close>

definition hist_char :: "int list \<Rightarrow> nat \<Rightarrow> nat \<Rightarrow> char" where
  "hist_char data x y =
     (if x = 0 \<or> y = 0 then CHR ''+''
      else if x \<le> length data \<and> int y < nr_dots (data ! (x - 1)) then CHR ''*'' else CHR '' '')"

definition grid :: "int list \<Rightarrow> string list" where
  "grid data = map (\<lambda>x. map (hist_char data x) [0..<NROWS + 1]) [0..<NCOLS + 1]"

lemma grid_Nil: "plot_init = grid []"
proof -
  have "CHR ''+'' # replicate NROWS CHR '' '' = map (hist_char [] x) [0..<NROWS + 1]" if "x \<noteq> 0" for x
    using that by (intro nth_equalityI) (auto simp: hist_char_def nth_Cons' simp del: upt_Suc)
  moreover have "replicate (NROWS + 1) CHR ''+'' = map (hist_char [] 0) [0..<NROWS + 1]"
    by (intro nth_equalityI) (auto simp: hist_char_def simp del: upt_Suc replicate_Suc)
  ultimately show ?thesis unfolding plot_init_def grid_def by (intro map_cong refl) auto
qed

text \<open>A value fits when its bar stays in the grid.\<close>

definition fits_rows :: "int \<Rightarrow> bool" where
  "fits_rows d \<longleftrightarrow> nr_dots d \<le> int NROWS + 1"

lemma grid_snoc:
  assumes "k + 1 < NCOLS + 1" "k = length old"
  shows "grid (old @ [d]) = (grid old)[k + 1 := map (hist_char (old @ [d]) (k + 1)) [0..<NROWS + 1]]"
  unfolding grid_def
proof (rule nth_equalityI)
  show "length (map (\<lambda>x. map (hist_char (old @ [d]) x) [0..<NROWS + 1]) [0..<NCOLS + 1]) =
      length ((map (\<lambda>x. map (hist_char old x) [0..<NROWS + 1]) [0..<NCOLS + 1])[k + 1 := map (hist_char (old @ [d]) (k + 1)) [0..<NROWS + 1]])"
    by simp
  fix x assume x: "x < length (map (\<lambda>x. map (hist_char (old @ [d]) x) [0..<NROWS + 1]) [0..<NCOLS + 1])"
  have "hist_char (old @ [d]) x = hist_char old x" if "x \<noteq> k + 1"
    using that assms(2) by (intro ext) (auto simp: hist_char_def nth_append)
  then show "map (\<lambda>x. map (hist_char (old @ [d]) x) [0..<NROWS + 1]) [0..<NCOLS + 1] ! x =
      (map (\<lambda>x. map (hist_char old x) [0..<NROWS + 1]) [0..<NCOLS + 1])[k + 1 := map (hist_char (old @ [d]) (k + 1)) [0..<NROWS + 1]] ! x"
    using x assms(1) by (auto simp: nth_list_update simp del: upt_Suc)
qed

lemma draw_bars_grid:
  assumes "length old + length data \<le> NCOLS" "list_all fits_rows data"
  shows "draw_bars data (length old) (grid old) = Some (grid (old @ data))"
  using assms
proof (induction data arbitrary: old)
  case (Cons d data)
  let ?k = "length old"
  have k: "?k + 1 < NCOLS + 1" using Cons.prems(1) by simp
  have col: "grid old ! (?k + 1) = map (hist_char old (?k + 1)) [0..<NROWS + 1]"
    using k by (simp add: grid_def del: upt_Suc)
  have IH: "draw_bars data (Suc ?k) (grid (old @ [d])) = Some (grid (old @ d # data))"
    using Cons.IH [of "old @ [d]"] Cons.prems by simp
  show ?case
  proof (cases "nr_dots d \<le> 1")
    case True
    then have "hist_char (old @ [d]) (?k + 1) = hist_char old (?k + 1)"
      by (intro ext) (auto simp: hist_char_def)
    then have "grid (old @ [d]) = grid old"
      using grid_snoc [OF k refl, of d] col by (metis list_update_id)
    then show ?thesis using True IH by simp
  next
    case False
    have n: "nr_dots d \<le> int (length (map (hist_char old (?k + 1)) [0..<NROWS + 1]))"
      using Cons.prems(2) by (simp add: fits_rows_def)
    have "map (\<lambda>y. if 1 \<le> y \<and> int y < nr_dots d then CHR ''*'' else map (hist_char old (?k + 1)) [0..<NROWS + 1] ! y) [0..<NROWS + 1] =
        map (hist_char (old @ [d]) (?k + 1)) [0..<NROWS + 1]"
      by (intro map_cong refl) (auto simp: hist_char_def simp del: upt_Suc)
    then have "draw_dots 1 (nr_dots d) (grid old ! (?k + 1)) = Some (map (hist_char (old @ [d]) (?k + 1)) [0..<NROWS + 1])"
      unfolding col using draw_dots_ok [OF n, of 1] by (simp del: upt_Suc)
    moreover have "length (grid old) = NCOLS + 1" by (simp add: grid_def)
    ultimately show ?thesis using False k IH grid_snoc [OF k refl, of d] by simp
  qed
qed simp

lemma nr_dots_100: "0 \<le> d \<Longrightarrow> d < 100 \<Longrightarrow> fits_rows d"
  by (simp add: fits_rows_def nr_dots_def NROWS_def c_div_pos)

section \<open>Properties\<close>

text \<open>
  Property C37: the program always prints a grid of 26 rows of 121 characters, without a store
  outside it, whatever its random data. The character in row \<open>i\<close> and column \<open>j\<close> is an axis, a star
  where the bar of the column's value reaches, or a blank.
\<close>

theorem hist_main_prints:
  "hist_main rnd =
    Some (map (\<lambda>i. map (\<lambda>j. hist_char (map (\<lambda>i. int (rnd i mod 100)) [0..<NCOLS - 2]) j (NROWS - i)) [0..<NCOLS + 1]) [0..<NROWS + 1])"
proof -
  let ?data = "map (\<lambda>i. int (rnd i mod 100)) [0..<NCOLS - 2]"
  have "list_all fits_rows ?data" by (auto simp: list_all_iff intro!: nr_dots_100)
  then have "draw_bars ?data 0 plot_init = Some (grid ?data)"
    using draw_bars_grid [of "[]" ?data] grid_Nil by simp
  moreover have "plot_rows (grid ?data) =
      map (\<lambda>i. map (\<lambda>j. hist_char ?data j (NROWS - i)) [0..<NCOLS + 1]) [0..<NROWS + 1]"
    unfolding plot_rows_def grid_def by (intro map_cong refl) (auto simp del: upt_Suc)
  ultimately show ?thesis by (simp add: hist_main_def print_hist_def)
qed

text \<open>A value of 108 or more would leave the grid.\<close>

lemma print_hist_overflow: "print_hist [108] = None"
proof -
  have "draw_dots (Suc i) 27 col = None" if "length col = 26" "i < 26" for i col
    using that
  proof (induction "25 - i" arbitrary: i col)
    case 0
    then have "i = 25" by simp
    then show ?case using 0 by (subst draw_dots.simps) simp
  next
    case (Suc n)
    then have "draw_dots (Suc i) 27 col = draw_dots (Suc (Suc i)) 27 (col[Suc i := CHR ''*''])"
      by (subst draw_dots.simps) simp
    then show ?case using Suc.hyps(1) [of "Suc i"] Suc.hyps(2) Suc.prems by simp
  qed
  moreover have "length (plot_init ! 1) = 26" by (simp add: plot_init_def NCOLS_def NROWS_def)
  ultimately have "draw_dots 1 27 (plot_init ! 1) = None" using \<open>length (plot_init ! 1) = 26\<close> by (metis One_nat_def zero_less_numeral)
  moreover have "nr_dots 108 = 27" by (simp add: nr_dots_def NROWS_def c_div_pos)
  ultimately show ?thesis by (simp add: print_hist_def plot_init_def NCOLS_def)
qed

end
