(* ===== verification/Pci_Config.thy ===== *)
theory Pci_Config
  imports C_Library
begin

unbundle bit_operations_syntax

text \<open>
  The tool \<^verbatim>\<open>src/pci_config_rw.c\<close>, which reads and writes a register of a device through its
  configuration file: a file of fixed length, where reads and writes stop at the end. A 32-bit
  value is stored with its low byte first. \<open>ok k\<close> says whether read or write number \<open>k\<close> succeeds.
\<close>

section \<open>The file\<close>

record pci =
  cfg :: "u8 list"
  cfg_pos :: nat
  cfg_ios :: nat

definition le_bytes :: "u32 \<Rightarrow> u8 list" where
  "le_bytes w = map (\<lambda>i. ucast (drop_bit (8 * i) w)) [0..<4]"

definition of_le :: "u8 list \<Rightarrow> u32" where
  "of_le bs = (ucast (bs ! 0)) OR (push_bit 8 (ucast (bs ! 1))) OR (push_bit 16 (ucast (bs ! 2))) OR (push_bit 24 (ucast (bs ! 3)))"

text \<open>
  \<^verbatim>\<open>lseek\<close> to a negative offset fails and leaves the position. The offset is the register number
  shifted at the width of \<^verbatim>\<open>int\<close>.
\<close>

definition cfg_seek :: "u32 \<Rightarrow> pci \<Rightarrow> pci" where
  "cfg_seek reg st = (let off = sint (push_bit 2 reg) in if off < 0 then st else st\<lparr>cfg_pos := nat off\<rparr>)"

text \<open>A read stores the bytes it got into the value, from its low byte on.\<close>

definition pci_config_read_dword :: "(nat \<Rightarrow> bool) \<Rightarrow> u32 \<Rightarrow> u32 \<Rightarrow> pci \<Rightarrow> int \<times> u32 \<times> pci" where
  "pci_config_read_dword ok reg val st =
     (let st = cfg_seek reg st; i = cfg_ios st; st = st\<lparr>cfg_ios := i + 1\<rparr> in
      if \<not> ok i then (-1, val, st)
      else let bs = take 4 (drop (cfg_pos st) (cfg st))
           in (int (length bs), of_le (bs @ drop (length bs) (le_bytes val)), st\<lparr>cfg_pos := cfg_pos st + length bs\<rparr>))"

definition pci_config_write_dword :: "(nat \<Rightarrow> bool) \<Rightarrow> u32 \<Rightarrow> u32 \<Rightarrow> pci \<Rightarrow> int \<times> pci" where
  "pci_config_write_dword ok reg val st =
     (let st = cfg_seek reg st; i = cfg_ios st; st = st\<lparr>cfg_ios := i + 1\<rparr> in
      if \<not> ok i then (-1, st)
      else let bs = take (length (cfg st) - cfg_pos st) (le_bytes val)
           in (int (length bs), st\<lparr>cfg := take (cfg_pos st) (cfg st) @ bs @ drop (cfg_pos st + length bs) (cfg st),
                 cfg_pos := cfg_pos st + length bs\<rparr>))"

section \<open>The program\<close>

text \<open>\<^verbatim>\<open>%x\<close>: an optional sign and prefix, then hexadecimal digits, converted like \<^verbatim>\<open>strtoul\<close>.\<close>

definition hex_digit :: "char \<Rightarrow> nat option" where
  "hex_digit c =
     (let n = of_char c in
      if 48 \<le> n \<and> n < 58 then Some (n - 48)
      else if 97 \<le> n \<and> n < 103 then Some (n - 87)
      else if 65 \<le> n \<and> n < 71 then Some (n - 55) else None)"

definition scan_hex :: "string \<Rightarrow> u32 option" where
  "scan_hex s =
     (let s1 = skip_ws s;
          (neg, s2) = (case s1 of c # r \<Rightarrow> if c = CHR ''-'' then (True, r) else if c = CHR ''+'' then (False, r) else (False, s1)
                               | [] \<Rightarrow> (False, []));
          s3 = (case s2 of z # x # r \<Rightarrow> if z = CHR ''0'' \<and> (x = CHR ''x'' \<or> x = CHR ''X'') then r else s2 | _ \<Rightarrow> s2);
          ds = takeWhile (\<lambda>c. hex_digit c \<noteq> None) s3;
          n = foldl (\<lambda>a c. 16 * a + the (hex_digit c)) 0 ds
      in if ds = [] then None
         else Some (if 2 ^ 64 \<le> n then word_of_int (2 ^ 64 - 1) else if neg then - word_of_nat n else word_of_nat n))"

text \<open>
  \<^verbatim>\<open>main\<close>: the return code, the register and value of every line printed, and the file. \<open>opens\<close> says
  whether the file can be opened. The register and the value are uninitialised (\<open>reg0\<close>, \<open>val0\<close>)
  when their arguments cannot be read.
\<close>

definition pci_main ::
  "bool \<Rightarrow> (nat \<Rightarrow> bool) \<Rightarrow> u32 \<Rightarrow> u32 \<Rightarrow> string list \<Rightarrow> pci \<Rightarrow> int \<times> (int \<times> u32) list \<times> pci" where
  "pci_main opens ok reg0 val0 argv st =
     (if length argv < 5 then (0, [], st)
      else if \<not> opens then (1, [], st)
      else
        let read_write = (case argv ! 1 of [] \<Rightarrow> CHR 0x00 | c # _ \<Rightarrow> c);
            reg = (case scan_int (argv ! 3) of None \<Rightarrow> reg0 | Some (r, _) \<Rightarrow> r);
            (r, val, st) = pci_config_read_dword ok reg val0 st in
        if r < 0 then (-1, [], st)
        else
          let out = [(sint reg, val)];
              (r, val, st) =
                (if read_write = CHR ''w'' then
                   let val = (case scan_hex (argv ! 4) of None \<Rightarrow> val | Some v \<Rightarrow> v);
                       (r, st) = pci_config_write_dword ok reg val st
                   in (r, val, st)
                 else (0, val, st))
          in if r < 0 then (-2, out, st)
             else
               let (r, val, st) = pci_config_read_dword ok reg val st
               in if r < 0 then (-1, out, st) else (0, out @ [(sint reg, val)], st))"

section \<open>Bytes of a word\<close>

lemma length_le_bytes [simp]: "length (le_bytes w) = 4"
  by (simp add: le_bytes_def)

lemma of_le_le_bytes [simp]: "of_le (le_bytes w) = w"
proof (rule bit_word_eqI)
  fix n assume "n < LENGTH(32)"
  then have n: "n < 32" by simp
  have nth: "le_bytes w ! i = ucast (drop_bit (8 * i) w)" if "i < 4" for i using that by (simp add: le_bytes_def)
  consider "n < 8" | "8 \<le> n" "n < 16" | "16 \<le> n" "n < 24" | "24 \<le> n" using n by linarith
  then show "bit (of_le (le_bytes w)) n = bit w n"
    by cases (use n in \<open>auto simp: of_le_def nth bit_simps\<close>)
qed

section \<open>A register in the file\<close>

definition reg_bytes :: "nat \<Rightarrow> pci \<Rightarrow> u8 list" where
  "reg_bytes reg st = take 4 (drop (4 * reg) (cfg st))"

lemma cfg_seek_reg: "reg < 2 ^ 29 \<Longrightarrow> cfg_seek (word_of_nat reg) st = st\<lparr>cfg_pos := 4 * reg\<rparr>"
proof -
  assume a: "reg < 2 ^ 29"
  have e: "push_bit 2 (word_of_nat reg) = (word_of_int (int (4 * reg)) :: u32)"
    by (simp add: push_bit_eq_mult mult.commute)
  have "sint (push_bit 2 (word_of_nat reg) :: u32) = int (4 * reg)"
    unfolding e by (rule sint_word_of_int) (use a in simp_all)
  then show ?thesis by (simp add: cfg_seek_def)
qed

lemma read_dword:
  assumes "reg < 2 ^ 29" "4 * reg + 4 \<le> length (cfg st)" "ok (cfg_ios st)"
  shows "pci_config_read_dword ok (word_of_nat reg) val st =
    (4, of_le (reg_bytes reg st), st\<lparr>cfg_pos := 4 * reg + 4, cfg_ios := cfg_ios st + 1\<rparr>)"
  using assms by (simp add: pci_config_read_dword_def cfg_seek_reg reg_bytes_def Let_def)

lemma write_dword:
  assumes "reg < 2 ^ 29" "4 * reg + 4 \<le> length (cfg st)" "ok (cfg_ios st)"
  shows "pci_config_write_dword ok (word_of_nat reg) val st =
    (4, st\<lparr>cfg := take (4 * reg) (cfg st) @ le_bytes val @ drop (4 * reg + 4) (cfg st),
       cfg_pos := 4 * reg + 4, cfg_ios := cfg_ios st + 1\<rparr>)"
  using assms by (simp add: pci_config_write_dword_def cfg_seek_reg Let_def)

text \<open>
  Writing a register that lies in the file, with the register given in decimal. The
  tool prints the old value and then reads back exactly the value given; the four bytes of the
  register hold it, low byte first, and no other byte of the file changes.
\<close>

theorem pci_write_reads_back:
  assumes "reg < 2 ^ 29" "4 * reg + 4 \<le> length (cfg st)" "\<And>k. ok k" "scan_hex val_arg = Some v"
  shows "\<exists>st'. pci_main True ok reg0 val0 [prog, CHR ''w'' # w, path, int_string (int reg), val_arg] st =
      (0, [(int reg, of_le (reg_bytes reg st)), (int reg, v)], st') \<and>
    reg_bytes reg st' = le_bytes v \<and> length (cfg st') = length (cfg st) \<and>
    take (4 * reg) (cfg st') = take (4 * reg) (cfg st) \<and>
    drop (4 * reg + 4) (cfg st') = drop (4 * reg + 4) (cfg st)"
proof -
  let ?o = "4 * reg"
  let ?reg = "word_of_nat reg :: u32"
  let ?st1 = "st\<lparr>cfg_pos := ?o + 4, cfg_ios := cfg_ios st + 1\<rparr>"
  let ?st2 = "?st1\<lparr>cfg := take ?o (cfg st) @ le_bytes v @ drop (?o + 4) (cfg st), cfg_pos := ?o + 4, cfg_ios := cfg_ios ?st1 + 1\<rparr>"
  let ?st3 = "?st2\<lparr>cfg_pos := ?o + 4, cfg_ios := cfg_ios ?st2 + 1\<rparr>"
  have r: "reg_bytes reg ?st2 = le_bytes v" using assms(2) by (simp add: reg_bytes_def)
  have l: "length (cfg ?st2) = length (cfg st)" using assms(2) by simp
  have rd: "pci_config_read_dword ok ?reg val0 st = (4, of_le (reg_bytes reg st), ?st1)"
    using assms(1-3) by (rule read_dword)
  have wr: "pci_config_write_dword ok ?reg v ?st1 = (4, ?st2)"
    using write_dword [where st = ?st1 and val = v and reg = reg and ok = ok] assms(1-3) by simp
  have "pci_config_read_dword ok ?reg v ?st2 = (4, of_le (reg_bytes reg ?st2), ?st3)"
    by (rule read_dword) (use assms(1-3) l in simp_all)
  then have again: "pci_config_read_dword ok ?reg v ?st2 = (4, v, ?st3)" by (simp only: r of_le_le_bytes)
  have si: "sint ?reg = int reg"
    using assms(1) sint_word_of_int [of "int reg"] by simp
  have sc: "scan_int (int_string (int reg)) = Some (?reg, [])"
    using scan_int_int_string [where v = "int reg" and r = "[]"] assms(1) by (simp add: no_digit_def)
  have "pci_main True ok reg0 val0 [prog, CHR ''w'' # w, path, int_string (int reg), val_arg] st =
      (0, [(int reg, of_le (reg_bytes reg st)), (int reg, v)], ?st3)"
    unfolding pci_main_def using again by (simp add: Let_def sc rd wr si assms(4) del: One_nat_def)
  moreover have "reg_bytes reg ?st3 = le_bytes v" using r by (simp add: reg_bytes_def)
  ultimately show ?thesis using l assms(2) by (intro exI [of _ ?st3]) simp
qed

theorem pci_write_reads_back_witness:
  "\<exists>st'. pci_main True (\<lambda>_. True) 9 7 [''pci_config_rw'', CHR ''w'' # [], ''config'', int_string (int 1), ''0xcafe'']
        \<lparr>cfg = replicate 64 0, cfg_pos = 0, cfg_ios = 0\<rparr> =
      (0, [(int 1, of_le (reg_bytes 1 \<lparr>cfg = replicate 64 0, cfg_pos = 0, cfg_ios = 0\<rparr>)), (int 1, 0xcafe)], st') \<and>
    reg_bytes 1 st' = le_bytes 0xcafe \<and> length (cfg st') = length (cfg \<lparr>cfg = replicate 64 0, cfg_pos = 0, cfg_ios = 0\<rparr>) \<and>
    take (4 * 1) (cfg st') = take (4 * 1) (cfg \<lparr>cfg = replicate 64 0, cfg_pos = 0, cfg_ios = 0\<rparr>) \<and>
    drop (4 * 1 + 4) (cfg st') = drop (4 * 1 + 4) (cfg \<lparr>cfg = replicate 64 0, cfg_pos = 0, cfg_ios = 0\<rparr>)"
  by (rule pci_write_reads_back) (simp_all add: scan_hex_def skip_ws_def c_isspace_def hex_digit_def Let_def)

text \<open>A read at the end of the file gets nothing and is not an error: the value printed is the old one.\<close>

lemma read_beyond_end:
  "reg < 2 ^ 29 \<Longrightarrow> length (cfg st) \<le> 4 * reg \<Longrightarrow> ok (cfg_ios st) \<Longrightarrow>
     fst (pci_config_read_dword ok (word_of_nat reg) val st) = 0 \<and>
     fst (snd (pci_config_read_dword ok (word_of_nat reg) val st)) = val"
  by (simp add: pci_config_read_dword_def cfg_seek_reg Let_def)

end
