(* ===== verification/Cpu_Tasks.thy ===== *)
theory Cpu_Tasks
  imports C_Library
begin

text \<open>
  The small programs that bind themselves to processors: \<^verbatim>\<open>src/rt_task.c\<close> (a periodic real-time task),
  \<^verbatim>\<open>src/rt_hydra.c\<close> (one real-time child per processor), \<^verbatim>\<open>src/run_cpu_affine.c\<close> (runs a command on
  a processor), \<^verbatim>\<open>src/x86tscread.c\<close> (reads a processor's cycle counter) and \<^verbatim>\<open>src/ts_task.c\<close> (spins on
  processor 0). Which calls the kernel refuses is a parameter.
\<close>

section \<open>Processor sets and arguments\<close>

type_synonym cpu_set = "nat set"

text \<open>\<^verbatim>\<open>CPU_SET\<close> ignores a number outside the 1024 bits of a \<^verbatim>\<open>cpu_set_t\<close>.\<close>

definition CPU_SET :: "int \<Rightarrow> cpu_set \<Rightarrow> cpu_set" where
  "CPU_SET cpu m = (if 0 \<le> cpu \<and> cpu < 1024 then insert (nat cpu) m else m)"

definition task_secs :: "string list \<Rightarrow> int" where
  "task_secs argv =
     (let secs = (if length argv > 1 then scan_into (argv ! 1) 60 else 60)
      in if secs < 0 \<or> secs > 100 then 60 else secs)"

text \<open>How long \<^verbatim>\<open>alarm(secs); while (do_looping);\<close> spins: no seconds cancel the alarm instead.\<close>

definition spin_secs :: "int \<Rightarrow> int option" where
  "spin_secs secs = (if secs = 0 then None else Some secs)"

section \<open>The real-time task\<close>

function rt_mask :: "nat \<Rightarrow> string list \<Rightarrow> int \<Rightarrow> cpu_set \<Rightarrow> cpu_set" where
  "rt_mask argc argv cpu m =
     (if argc > 2 then
        let cpu = scan_into (argv ! (argc - 1)) cpu
        in rt_mask (argc - 1) argv cpu (CPU_SET cpu m)
      else m)"
  by pat_completeness auto
termination by (relation "measure (\<lambda>(argc, argv, cpu, m). argc)") auto

declare rt_mask.simps [simp del]

text \<open>
  The two \<^verbatim>\<open>timespec\<close> objects of the task are cells of a store, since its pointers can come to
  point to the same one. \<open>naps\<close> counts the calls of \<^verbatim>\<open>nanosleep\<close> and \<open>slept\<close> lists what they were
  asked for.
\<close>

record rt =
  cells :: "nat \<Rightarrow> int \<times> int"
  ts_req :: nat
  ts_rem :: nat
  naps :: nat
  slept :: "(int \<times> int) list"

definition rt_init :: "(nat \<Rightarrow> int \<times> int) \<Rightarrow> rt" where
  "rt_init heap = \<lparr>cells = heap, ts_req = 0, ts_rem = 1, naps = 0, slept = []\<rparr>"

text \<open>
  The loop around \<^verbatim>\<open>nanosleep\<close>. \<open>intr k req\<close> is what call \<open>k\<close> for the time \<open>req\<close> leaves over when it is
  interrupted, and \<open>None\<close> when it sleeps to its end.
\<close>

partial_function (option) rt_nap :: "(nat \<Rightarrow> int \<times> int \<Rightarrow> (int \<times> int) option) \<Rightarrow> rt \<Rightarrow> rt option" where
  "rt_nap intr st =
     (let req = cells st (ts_req st);
          st1 = st\<lparr>naps := naps st + 1, slept := slept st @ [req]\<rparr>
      in case intr (naps st) req of
           None \<Rightarrow> Some st1
         | Some r \<Rightarrow>
             (let st2 = st1\<lparr>cells := (cells st1)(ts_rem st1 := r)\<rparr>
              in if snd r = 0 then Some st2 else rt_nap intr (st2\<lparr>ts_req := ts_rem st2\<rparr>)))"

text \<open>One round: the spin ends with the alarm, then both objects are set and the task sleeps.\<close>

definition rt_round :: "(nat \<Rightarrow> int \<times> int \<Rightarrow> (int \<times> int) option) \<Rightarrow> rt \<Rightarrow> rt option" where
  "rt_round intr st =
     (let m = (cells st)(ts_req st := (3, 1000 * 1000 * 1));
          m = m(ts_rem st := (0, 0))
      in rt_nap intr (st\<lparr>cells := m\<rparr>))"

fun rt_rounds :: "(nat \<Rightarrow> int \<times> int \<Rightarrow> (int \<times> int) option) \<Rightarrow> nat \<Rightarrow> rt \<Rightarrow> rt option" where
  "rt_rounds intr 0 st = Some st"
| "rt_rounds intr (Suc n) st = Option.bind (rt_round intr st) (rt_rounds intr n)"

text \<open>
  The start of \<^verbatim>\<open>main\<close>: the exit code when the kernel refuses the scheduler or the processors, else
  the processors it runs on and the length of every spin.
\<close>

definition rt_task_start :: "bool \<Rightarrow> (cpu_set \<Rightarrow> bool) \<Rightarrow> string list \<Rightarrow> int + cpu_set \<times> int option" where
  "rt_task_start sched aff argv =
     (let secs = task_secs argv; m = rt_mask (length argv) argv 0 {}
      in if \<not> sched then Inl (-1)
         else if \<not> aff m then Inl (-1)
         else Inr (m, spin_secs secs))"

section \<open>One child per processor\<close>

text \<open>
  The fork loop of \<^verbatim>\<open>rt_hydra\<close>: the processor sets of the children, the latest last, and how the
  parent goes on: it exits (\<open>Inl\<close>), or it goes on as a task itself (\<open>Inr\<close>) with no processor set.
  \<open>forks k\<close> says whether the fork at argument \<open>k\<close> succeeds.
\<close>

function hydra_forks ::
  "(cpu_set \<Rightarrow> bool) \<Rightarrow> (nat \<Rightarrow> bool) \<Rightarrow> nat \<Rightarrow> string list \<Rightarrow> int \<Rightarrow> cpu_set list \<Rightarrow> cpu_set list \<times> (int + unit)" where
  "hydra_forks aff forks argc argv cpu kids =
     (if argc > 2 then
        let cpu = scan_into (argv ! (argc - 1)) cpu;
            m = CPU_SET cpu {}
        in if \<not> aff m then (kids, Inl (-1))
           else
             let kids = (if forks (argc - 1) then kids @ [m] else kids)
             in if argc - 1 = 2 then (kids, Inl 0) else hydra_forks aff forks (argc - 1) argv cpu kids
      else (kids, Inr ()))"
  by pat_completeness auto
termination by (relation "measure (\<lambda>(aff, forks, argc, argv, cpu, kids). argc)") auto

declare hydra_forks.simps [simp del]

text \<open>The whole program: every process that spins, with its processors (if set) and its time, and the parent.\<close>

definition rt_hydra_main ::
  "bool \<Rightarrow> (cpu_set \<Rightarrow> bool) \<Rightarrow> (nat \<Rightarrow> bool) \<Rightarrow> string list \<Rightarrow> (cpu_set option \<times> int option) list \<times> int option" where
  "rt_hydra_main sched aff forks argv =
     (let spin = spin_secs (task_secs argv) in
      if \<not> sched then ([], Some (-1))
      else case hydra_forks aff forks (length argv) argv 0 [] of
             (kids, Inl code) \<Rightarrow> (map (\<lambda>m. (Some m, spin)) kids, Some code)
           | (kids, Inr _) \<Rightarrow> (map (\<lambda>m. (Some m, spin)) kids @ [(None, spin)], None))"

section \<open>Running a command and reading the counter\<close>

text \<open>
  \<^verbatim>\<open>run_cpu_affine\<close>: the set asked for, and the command and arguments then executed. \<open>None\<close> is the
  read of a null pointer when there is no argument.
\<close>

definition run_cpu_affine :: "string list \<Rightarrow> (cpu_set \<times> string list) option" where
  "run_cpu_affine argv =
     (if length argv < 2 then None
      else let cpu_id = (case argv ! 1 of [] \<Rightarrow> 0 | c # _ \<Rightarrow> schar (of_char c)) - 48
           in Some (CPU_SET cpu_id {}, drop 2 argv))"

text \<open>\<^verbatim>\<open>x86tscread\<close>: the set asked for and the line printed; the counter is a parameter.\<close>

definition x86tscread :: "u64 \<Rightarrow> string list \<Rightarrow> cpu_set \<times> int \<times> u64" where
  "x86tscread tsc argv =
     (let cpu = (if length argv = 2 then scan_into (argv ! 1) 0 else 0)
      in (CPU_SET cpu {}, cpu, tsc))"

section \<open>Children on one processor\<close>

text \<open>
  \<^verbatim>\<open>ts_task\<close> binds itself to processor 0, whether or not the kernel agrees, and spins: \<open>None\<close>.
\<close>

definition ts_task_mask :: cpu_set where
  "ts_task_mask = CPU_SET 0 {}"

partial_function (option) ts_task_loop :: "unit \<Rightarrow> int option" where
  "ts_task_loop u = ts_task_loop u"

definition ts_task_main :: "cpu_set \<times> int option" where
  "ts_task_main = (ts_task_mask, ts_task_loop ())"

section \<open>Sleeping\<close>

lemma rt_nap_done:
  "intr (naps st) (cells st (ts_req st)) = None \<Longrightarrow>
     rt_nap intr st = Some (st\<lparr>naps := naps st + 1, slept := slept st @ [cells st (ts_req st)]\<rparr>)"
  by (subst rt_nap.simps) simp

lemma rt_nap_cut:
  assumes "intr (naps st) (cells st (ts_req st)) = Some r" "snd r \<noteq> 0"
  shows "rt_nap intr st =
    rt_nap intr (st\<lparr>naps := naps st + 1, slept := slept st @ [cells st (ts_req st)],
      cells := (cells st)(ts_rem st := r), ts_req := ts_rem st\<rparr>)"
  using assms by (subst rt_nap.simps) (simp add: Let_def)

lemma rt_rounds_add: "rt_rounds intr (a + b) st = Option.bind (rt_rounds intr a st) (rt_rounds intr b)"
  by (induction a arbitrary: st) (simp_all split: Option.bind_split)

text \<open>While the pointers differ an uninterrupted round sleeps its time.\<close>

lemma rt_rounds_full:
  assumes "ts_req st \<noteq> ts_rem st" "\<And>k. naps st \<le> k \<Longrightarrow> k < naps st + n \<Longrightarrow> intr k (3, 1000000) = None"
  shows "\<exists>h. rt_rounds intr n st =
    Some (st\<lparr>cells := h, naps := naps st + n, slept := slept st @ replicate n (3, 1000000)\<rparr>)"
  using assms
proof (induction n arbitrary: st)
  case 0
  then show ?case by (intro exI [of _ "cells st"]) simp
next
  case (Suc n)
  let ?h = "(cells st)(ts_req st := (3, 1000000), ts_rem st := (0, 0))"
  let ?st = "st\<lparr>cells := ?h, naps := naps st + 1, slept := slept st @ [(3, 1000000)]\<rparr>"
  have "rt_round intr st = Some ?st"
    using Suc.prems(1) Suc.prems(2) [of "naps st"]
    by (simp add: rt_round_def rt_nap_done)
  moreover obtain h where "rt_rounds intr n ?st =
      Some (?st\<lparr>cells := h, naps := naps ?st + n, slept := slept ?st @ replicate n (3, 1000000)\<rparr>)"
    using Suc.IH [of ?st] Suc.prems by auto
  ultimately show ?case by (intro exI [of _ h]) simp
qed

text \<open>Once they are equal the request is cleared together with the remainder.\<close>

lemma rt_rounds_aliased:
  assumes "ts_req st = ts_rem st" "\<And>k. intr k (0, 0) = None"
  shows "\<exists>h. rt_rounds intr n st =
    Some (st\<lparr>cells := h, naps := naps st + n, slept := slept st @ replicate n (0, 0)\<rparr>)"
  using assms(1)
proof (induction n arbitrary: st)
  case 0
  then show ?case by (intro exI [of _ "cells st"]) simp
next
  case (Suc n)
  let ?h = "(cells st)(ts_req st := (3, 1000000), ts_rem st := (0, 0))"
  let ?st = "st\<lparr>cells := ?h, naps := naps st + 1, slept := slept st @ [(0, 0)]\<rparr>"
  have "rt_round intr st = Some ?st"
    using Suc.prems assms(2) by (simp add: rt_round_def rt_nap_done)
  moreover obtain h where "rt_rounds intr n ?st =
      Some (?st\<lparr>cells := h, naps := naps ?st + n, slept := slept ?st @ replicate n (0, 0)\<rparr>)"
    using Suc.IH [of ?st] Suc.prems by auto
  ultimately show ?case by (intro exI [of _ h]) simp
qed

text \<open>
  How long the real-time task sleeps. Every round asks for 3.001 seconds until the first
  sleep that a signal interrupts: the task then sleeps on for what was left, but from there on its
  two \<^verbatim>\<open>timespec\<close> pointers are the same, and every later round asks for no sleep at all.
\<close>

theorem rt_task_sleeps:
  assumes "\<And>k. intr k (0, 0) = None" "\<And>k. k < m \<Longrightarrow> intr k (3, 1000000) = None"
    "intr m (3, 1000000) = Some r" "snd r \<noteq> 0" "intr (Suc m) r = None"
  shows "\<exists>st'. rt_rounds intr (m + Suc n) (rt_init heap) = Some st' \<and>
    slept st' = replicate (Suc m) (3, 1000000) @ [r] @ replicate n (0, 0)"
proof -
  obtain h where a: "rt_rounds intr m (rt_init heap) =
      Some ((rt_init heap)\<lparr>cells := h, naps := m, slept := replicate m (3, 1000000)\<rparr>)" (is "_ = Some ?st")
    using rt_rounds_full [of "rt_init heap" m intr] assms(2) by (auto simp: rt_init_def)
  let ?st1 = "?st\<lparr>cells := h(0 := (3, 1000000), 1 := (0, 0))\<rparr>"
  let ?st2 = "?st1\<lparr>naps := m + 1, slept := slept ?st1 @ [(3, 1000000)],
      cells := (cells ?st1)(1 := r), ts_req := 1\<rparr>"
  let ?st3 = "?st2\<lparr>naps := m + 2, slept := slept ?st2 @ [r]\<rparr>"
  have cut: "rt_nap intr ?st1 = rt_nap intr ?st2"
    using rt_nap_cut [of intr ?st1 r] assms(3,4) by (simp add: rt_init_def)
  have "rt_nap intr ?st2 = Some ?st3"
    using rt_nap_done [of intr ?st2] assms(5) by (simp add: rt_init_def)
  then have b: "rt_round intr ?st = Some ?st3"
    using cut by (simp add: rt_round_def rt_init_def)
  obtain h' where c: "rt_rounds intr n ?st3 =
      Some (?st3\<lparr>cells := h', naps := naps ?st3 + n, slept := slept ?st3 @ replicate n (0, 0)\<rparr>)"
    using rt_rounds_aliased [of ?st3 intr n] assms(1) by (auto simp: rt_init_def)
  have "rt_rounds intr (m + Suc n) (rt_init heap) = rt_rounds intr n ?st3"
    unfolding rt_rounds_add a using b by simp
  then show ?thesis using c by (simp add: replicate_append_same)
qed


lemma rt_task_always_sleeps:
  "(\<And>k. intr k (3, 1000000) = None) \<Longrightarrow>
     \<exists>st'. rt_rounds intr n (rt_init heap) = Some st' \<and> slept st' = replicate n (3, 1000000)"
  using rt_rounds_full [of "rt_init heap" n intr] by (auto simp: rt_init_def)

theorem rt_task_sleeps_witness:
  "\<exists>st'. rt_rounds (\<lambda>k req. if k = 1 \<and> req = (3, 1000000) then Some (1, 500) else None) (1 + Suc 2)
      (rt_init (\<lambda>_. (0, 0))) = Some st' \<and>
    slept st' = replicate (Suc 1) (3, 1000000) @ [(1, 500)] @ replicate 2 (0, 0)"
  by (rule rt_task_sleeps) simp_all

section \<open>Binding to processors\<close>

definition cpu_ok :: "int \<Rightarrow> bool" where
  "cpu_ok c \<longleftrightarrow> 0 \<le> c \<and> c < 1024"

lemma scan_cpu: "cpu_ok c \<Longrightarrow> scan_into (int_string c) x = c"
  by (intro scan_into_int_string) (simp_all add: cpu_ok_def)

lemma CPU_SET_ok: "cpu_ok c \<Longrightarrow> CPU_SET c m = insert (nat c) m"
  by (simp add: CPU_SET_def cpu_ok_def)

text \<open>The task runs on exactly the processors given.\<close>

lemma rt_mask_args:
  assumes "list_all cpu_ok cs" "i \<le> length cs"
  shows "rt_mask (2 + i) (prog # secs # map int_string cs) cpu m = m \<union> nat ` set (take i cs)"
  using assms(2)
proof (induction i arbitrary: cpu m)
  case 0
  then show ?case by (subst rt_mask.simps) simp
next
  case (Suc i)
  then have c: "cpu_ok (cs ! i)" using assms(1) by (simp add: list_all_length)
  have "rt_mask (2 + Suc i) (prog # secs # map int_string cs) cpu m =
      rt_mask (2 + i) (prog # secs # map int_string cs) (cs ! i) (insert (nat (cs ! i)) m)"
    using Suc.prems by (subst rt_mask.simps) (simp add: Let_def scan_cpu [OF c] CPU_SET_ok [OF c])
  also have "\<dots> = insert (nat (cs ! i)) m \<union> nat ` set (take i cs)" using Suc by simp
  finally show ?case using Suc.prems by (auto simp: take_Suc_conv_app_nth)
qed

lemma rt_task_start_args:
  "list_all cpu_ok cs \<Longrightarrow> aff (nat ` set cs) \<Longrightarrow> 0 < secs \<Longrightarrow> secs \<le> 100 \<Longrightarrow>
     rt_task_start True aff (prog # int_string secs # map int_string cs) = Inr (nat ` set cs, Some secs)"
  using rt_mask_args [of cs "length cs" prog "int_string secs" 0 "{}"]
  by (simp add: rt_task_start_def task_secs_def spin_secs_def scan_into_int_string)

lemma hydra_forks_args:
  assumes "list_all cpu_ok cs" "\<And>c. c \<in> set cs \<Longrightarrow> aff {nat c}" "\<And>k. forks k" "i < length cs"
  shows "hydra_forks aff forks (2 + Suc i) (prog # secs # map int_string cs) cpu kids =
    (kids @ map (\<lambda>c. {nat c}) (rev (take (Suc i) cs)), Inl 0)"
  using assms(4)
proof (induction i arbitrary: cpu kids)
  case 0
  then have c: "cpu_ok (cs ! 0)" "aff {nat (cs ! 0)}" using assms(1,2) by (simp_all add: list_all_length)
  show ?case using 0 c assms(3)
    by (subst hydra_forks.simps) (simp add: scan_cpu CPU_SET_ok take_Suc_conv_app_nth)
next
  case (Suc i)
  then have c: "cpu_ok (cs ! Suc i)" "aff {nat (cs ! Suc i)}" using assms(1,2) by (simp_all add: list_all_length)
  have "hydra_forks aff forks (2 + Suc (Suc i)) (prog # secs # map int_string cs) cpu kids =
      hydra_forks aff forks (2 + Suc i) (prog # secs # map int_string cs) (cs ! Suc i) (kids @ [{nat (cs ! Suc i)}])"
    using Suc.prems c assms(3) by (subst hydra_forks.simps) (simp add: Let_def scan_cpu CPU_SET_ok)
  also have "\<dots> = ((kids @ [{nat (cs ! Suc i)}]) @ map (\<lambda>c. {nat c}) (rev (take (Suc i) cs)), Inl 0)"
    using Suc by simp
  finally show ?case using Suc.prems by (simp add: take_Suc_conv_app_nth [of "Suc i"])
qed

text \<open>
  \<^verbatim>\<open>rt_hydra\<close> with a number of seconds and a list of processors. There is one spinning
  process per processor of the list, bound to that processor alone, the last of the list first, and
  the parent is gone with exit code 0. With no processor the program itself spins, unbound. All of
  them spin for the seconds given, but for ever when these are 0.
\<close>

theorem rt_hydra_one_each:
  assumes "list_all cpu_ok cs" "\<And>c. c \<in> set cs \<Longrightarrow> aff {nat c}" "\<And>k. forks k" "0 \<le> secs" "secs \<le> 100"
  shows "rt_hydra_main True aff forks (prog # int_string secs # map int_string cs) =
    (if cs = [] then ([(None, if secs = 0 then None else Some secs)], None)
     else (map (\<lambda>c. (Some {nat c}, if secs = 0 then None else Some secs)) (rev cs), Some 0))"
proof (cases "cs = []")
  case True
  have "hydra_forks aff forks 2 [prog, int_string secs] 0 [] = ([], Inr ())"
    by (subst hydra_forks.simps) simp
  then show ?thesis
    using True assms(4,5) by (simp add: rt_hydra_main_def task_secs_def spin_secs_def scan_into_int_string numeral_2_eq_2)
next
  case False
  then obtain i where i: "length cs = Suc i" by (cases cs) auto
  have "hydra_forks aff forks (2 + Suc i) (prog # int_string secs # map int_string cs) 0 [] =
      ([] @ map (\<lambda>c. {nat c}) (rev (take (Suc i) cs)), Inl 0)"
    by (rule hydra_forks_args) (use assms(1-3) i in auto)
  then show ?thesis
    using False assms(4,5) i
    by (simp add: rt_hydra_main_def task_secs_def spin_secs_def scan_into_int_string comp_def)
qed

theorem rt_hydra_one_each_witness:
  "rt_hydra_main True (\<lambda>_. True) (\<lambda>_. True) (''rt_hydra'' # int_string 5 # map int_string [0, 3]) =
    (if [0 :: int, 3] = [] then ([(None, if (5 :: int) = 0 then None else Some 5)], None)
     else (map (\<lambda>c. (Some {nat c}, if (5 :: int) = 0 then None else Some 5)) (rev [0, 3]), Some 0))"
  by (rule rt_hydra_one_each) (simp_all add: cpu_ok_def)

text \<open>\<^verbatim>\<open>run_cpu_affine\<close> looks at one digit: it takes processor 12 for processor 1.\<close>

lemma run_cpu_affine_digit:
  "run_cpu_affine (prog # ''3'' # cmd) = Some ({3}, cmd)"
  "run_cpu_affine (prog # ''12'' # cmd) = Some ({1}, cmd)"
  by (simp_all add: run_cpu_affine_def CPU_SET_def schar_def)

lemma ts_task_spins: "ts_task_main = ({0}, None)"
proof -
  have "False" if h: "ts_task_loop u = Some y" for u y
    by (rule ts_task_loop.raw_induct [where P = "\<lambda>_ _. False", OF _ h]) blast
  then have "ts_task_loop () = None" by (cases "ts_task_loop ()") auto
  then show ?thesis by (simp add: ts_task_main_def ts_task_mask_def CPU_SET_def)
qed

end
