(* ===== verification/Wakeup.thy ===== *)
theory Wakeup
  imports C_Library
begin

text \<open>
  The broadcast test \<^verbatim>\<open>src/wakeup_test.c\<close>: threads that wait on a condition variable without a
  predicate and then print for ever, a main thread that starts an alarm, broadcasts, and prints until
  the alarm's handler clears its flag, and the cancelling and joining of the threads at the end. The
  steps of the threads, of \<^verbatim>\<open>main\<close> and of the alarm interleave freely.
\<close>

section \<open>The program\<close>

text \<open>
  The lines of \<^verbatim>\<open>my_thread_routine\<close>: before the lock, before the wait, in it, woken, holding the lock, at the
  test for cancellation, at the \<^verbatim>\<open>printf\<close>, gone. The lines of \<^verbatim>\<open>main\<close>: before \<^verbatim>\<open>alarm\<close>, before the broadcast, before
  the flag is set, at the test of the flag, at the \<^verbatim>\<open>printf\<close>, cancelling, joining, done.
\<close>

datatype wthread = TStart | TLocked | TWait | TWoken | THeld | TLoop | TPrint | TExit

datatype wmain = MStart | MArmed | MSet | MRun | MPrint | MCancel nat | MJoin nat | MDone

text \<open>\<open>w_alarm\<close>: the alarm is still to come; \<open>w_run\<close>: the flag \<^verbatim>\<open>main_can_run\<close>; \<open>w_out\<close>: the numbers printed, the last one first.\<close>

record wk =
  w_threads :: "wthread list"
  w_mutex :: "nat option"
  w_main :: wmain
  w_alarm :: bool
  w_run :: bool
  w_out :: "nat list"

definition wk_init :: "nat \<Rightarrow> wk" where
  "wk_init no_threads = \<lparr>w_threads = replicate no_threads TStart, w_mutex = None, w_main = MStart,
     w_alarm = False, w_run = False, w_out = []\<rparr>"

definition cancelled :: "wk \<Rightarrow> nat \<Rightarrow> bool" where
  "cancelled s i = (case w_main s of MCancel k \<Rightarrow> i < k | MJoin _ \<Rightarrow> True | MDone \<Rightarrow> True | _ \<Rightarrow> False)"

definition thread_to :: "nat \<Rightarrow> wthread \<Rightarrow> nat option \<Rightarrow> wk \<Rightarrow> wk" where
  "thread_to i t m s = s\<lparr>w_threads := (w_threads s)[i := t], w_mutex := m\<rparr>"

definition w_print :: "nat \<Rightarrow> wk \<Rightarrow> wk" where
  "w_print k s = s\<lparr>w_out := k # w_out s\<rparr>"

definition broadcast :: "wthread list \<Rightarrow> wthread list" where
  "broadcast ts = map (\<lambda>t. if t = TWait then TWoken else t) ts"

text \<open>
  A wait releases the mutex, may wake up by itself, and returns with the mutex held. A thread
  cancelled in its wait takes the mutex again before it exits, and no handler releases it. \<^verbatim>\<open>printf\<close> may
  be a cancellation point as well. The alarm of \<open>secs\<close> seconds goes off at most once, at any time after it
  was started, and never when \<open>secs\<close> is 0; its handler clears the flag.
\<close>

inductive wk_step :: "int \<Rightarrow> wk \<Rightarrow> wk \<Rightarrow> bool" for secs :: int where
  thread_lock: "i < length (w_threads s) \<Longrightarrow> w_threads s ! i = TStart \<Longrightarrow> w_mutex s = None \<Longrightarrow>
    wk_step secs s (thread_to i TLocked (Some i) s)"
| thread_wait: "i < length (w_threads s) \<Longrightarrow> w_threads s ! i = TLocked \<Longrightarrow>
    wk_step secs s (thread_to i TWait None s)"
| thread_spurious: "i < length (w_threads s) \<Longrightarrow> w_threads s ! i = TWait \<Longrightarrow>
    wk_step secs s (thread_to i TWoken (w_mutex s) s)"
| thread_woken: "i < length (w_threads s) \<Longrightarrow> w_threads s ! i = TWoken \<Longrightarrow> w_mutex s = None \<Longrightarrow>
    wk_step secs s (thread_to i THeld (Some i) s)"
| thread_unlock: "i < length (w_threads s) \<Longrightarrow> w_threads s ! i = THeld \<Longrightarrow>
    wk_step secs s (thread_to i TLoop None s)"
| thread_goes_on: "i < length (w_threads s) \<Longrightarrow> w_threads s ! i = TLoop \<Longrightarrow> \<not> cancelled s i \<Longrightarrow>
    wk_step secs s (thread_to i TPrint (w_mutex s) s)"
| thread_prints: "i < length (w_threads s) \<Longrightarrow> w_threads s ! i = TPrint \<Longrightarrow>
    wk_step secs s (w_print (Suc i) (thread_to i TLoop (w_mutex s) s))"
| thread_testcancel: "i < length (w_threads s) \<Longrightarrow> w_threads s ! i \<in> {TLoop, TPrint} \<Longrightarrow> cancelled s i \<Longrightarrow>
    wk_step secs s (thread_to i TExit (w_mutex s) s)"
| thread_cancel_wait: "i < length (w_threads s) \<Longrightarrow> w_threads s ! i = TWait \<Longrightarrow> cancelled s i \<Longrightarrow> w_mutex s = None \<Longrightarrow>
    wk_step secs s (thread_to i TExit (Some i) s)"
| main_alarm: "w_main s = MStart \<Longrightarrow> wk_step secs s (s\<lparr>w_main := MArmed, w_alarm := secs \<noteq> 0\<rparr>)"
| sig_alrm_h: "w_alarm s \<Longrightarrow> wk_step secs s (s\<lparr>w_alarm := False, w_run := False\<rparr>)"
| main_broadcast: "w_main s = MArmed \<Longrightarrow>
    wk_step secs s (s\<lparr>w_threads := broadcast (w_threads s), w_main := MSet\<rparr>)"
| main_set: "w_main s = MSet \<Longrightarrow> wk_step secs s (s\<lparr>w_main := MRun, w_run := True\<rparr>)"
| main_goes_on: "w_main s = MRun \<Longrightarrow> w_run s \<Longrightarrow> wk_step secs s (s\<lparr>w_main := MPrint\<rparr>)"
| main_prints: "w_main s = MPrint \<Longrightarrow> wk_step secs s (w_print 0 (s\<lparr>w_main := MRun\<rparr>))"
| main_leaves: "w_main s = MRun \<Longrightarrow> \<not> w_run s \<Longrightarrow> wk_step secs s (s\<lparr>w_main := MCancel 0\<rparr>)"
| main_cancel: "w_main s = MCancel i \<Longrightarrow> i < length (w_threads s) \<Longrightarrow> wk_step secs s (s\<lparr>w_main := MCancel (Suc i)\<rparr>)"
| main_cancelled: "w_main s = MCancel i \<Longrightarrow> i = length (w_threads s) \<Longrightarrow> wk_step secs s (s\<lparr>w_main := MJoin 0\<rparr>)"
| main_join: "w_main s = MJoin i \<Longrightarrow> i < length (w_threads s) \<Longrightarrow> w_threads s ! i = TExit \<Longrightarrow>
    wk_step secs s (s\<lparr>w_main := MJoin (Suc i)\<rparr>)"
| main_joined: "w_main s = MJoin i \<Longrightarrow> i = length (w_threads s) \<Longrightarrow> wk_step secs s (s\<lparr>w_main := MDone\<rparr>)"

text \<open>The time printed, from the clock before and after the broadcast.\<close>

definition broadcast_time :: "int \<times> int \<Rightarrow> int \<times> int \<Rightarrow> int" where
  "broadcast_time ts1 ts2 =
     c_div ((fst ts2 * 1000000000 + snd ts2) - (fst ts1 * 1000000000 + snd ts2)) 1000000"

lemma broadcast_time_seconds: "broadcast_time ts1 ts2 = 1000 * (fst ts2 - fst ts1)"
proof -
  have "fst ts2 * 1000000000 + snd ts2 - (fst ts1 * 1000000000 + snd ts2) = 1000000 * (1000 * (fst ts2 - fst ts1))"
    by simp
  then show ?thesis by (simp only: broadcast_time_def) (rule c_div_mult, simp)
qed

section \<open>What is left to do\<close>

text \<open>Every step but those of the printing loops takes a thread, \<^verbatim>\<open>main\<close> or the alarm forward.\<close>

fun t_left :: "wthread \<Rightarrow> nat" where
  "t_left TStart = 6"
| "t_left TLocked = 5"
| "t_left TWait = 4"
| "t_left TWoken = 3"
| "t_left THeld = 2"
| "t_left TLoop = 1"
| "t_left TPrint = 1"
| "t_left TExit = 0"

definition m_left :: "nat \<Rightarrow> wmain \<Rightarrow> nat" where
  "m_left n m = (case m of MStart \<Rightarrow> 2 * n + 10 | MArmed \<Rightarrow> 2 * n + 7 | MSet \<Rightarrow> 2 * n + 6 | MRun \<Rightarrow> 2 * n + 5 | MPrint \<Rightarrow> 2 * n + 5
     | MCancel k \<Rightarrow> n + (n - k) + 4 | MJoin k \<Rightarrow> n - k + 1 | MDone \<Rightarrow> 0)"

definition wk_left :: "wk \<Rightarrow> nat" where
  "wk_left s = sum_list (map t_left (w_threads s)) + m_left (length (w_threads s)) (w_main s) + of_bool (w_alarm s)"

text \<open>The \<^verbatim>\<open>printf\<close> calls under way.\<close>

definition at_print :: "wthread \<Rightarrow> nat" where
  "at_print t = of_bool (t = TPrint)"

definition n_print :: "wk \<Rightarrow> nat" where
  "n_print s = sum_list (map at_print (w_threads s)) + of_bool (w_main s = MPrint)"


lemma w_print_sel [simp]:
  "w_threads (w_print k s) = w_threads s" "w_mutex (w_print k s) = w_mutex s" "w_main (w_print k s) = w_main s"
  "w_alarm (w_print k s) = w_alarm s" "w_run (w_print k s) = w_run s" "wk_left (w_print k s) = wk_left s" "n_print (w_print k s) = n_print s"
  by (simp_all add: w_print_def wk_left_def n_print_def)

lemma thread_to_sel [simp]:
  "w_threads (thread_to i t m s) = (w_threads s)[i := t]" "w_mutex (thread_to i t m s) = m"
  "w_main (thread_to i t m s) = w_main s" "w_alarm (thread_to i t m s) = w_alarm s" "w_run (thread_to i t m s) = w_run s"
  by (simp_all add: thread_to_def)




lemma length_broadcast [simp]: "length (broadcast ts) = length ts"
  by (simp add: broadcast_def)



section \<open>Threads that waited in time\<close>

text \<open>The mutex belongs to the thread between its lock and its wait, or between its wait and its unlock.\<close>

definition holds_mutex :: "wthread \<Rightarrow> bool" where
  "holds_mutex t \<longleftrightarrow> t = TLocked \<or> t = THeld"

definition holder_ok :: "wk \<Rightarrow> bool" where
  "holder_ok s \<longleftrightarrow> (\<forall>i<length (w_threads s). holds_mutex (w_threads s ! i) = (w_mutex s = Some i)) \<and>
     (\<forall>i. w_mutex s = Some i \<longrightarrow> i < length (w_threads s))"





lemma holder_print [simp]: "holder_ok (w_print k s) = holder_ok s"
  by (simp add: holder_ok_def)

















section \<open>The alarm\<close>

text \<open>The alarm is lost: \<^verbatim>\<open>main\<close> is in its loop with the flag set, and no alarm is to come.\<close>

definition alarm_lost :: "wk \<Rightarrow> bool" where
  "alarm_lost s \<longleftrightarrow> w_main s \<in> {MRun, MPrint} \<and> w_run s \<and> \<not> w_alarm s"






section \<open>The end\<close>







section \<open>Runs without an end\<close>








section \<open>Properties\<close>


definition do_broadcast :: "wk \<Rightarrow> wk" where
  "do_broadcast s = s\<lparr>w_threads := broadcast (w_threads s), w_main := MSet\<rparr>"



text \<open>States of one thread, and a run up to its wait, the broadcast and the flag.\<close>

definition wk1 :: "wthread \<Rightarrow> nat option \<Rightarrow> wmain \<Rightarrow> bool \<Rightarrow> bool \<Rightarrow> wk" where
  "wk1 t m p al run = \<lparr>w_threads = [t], w_mutex = m, w_main = p, w_alarm = al, w_run = run, w_out = []\<rparr>"

lemma wk1_sel [simp]:
  "w_threads (wk1 t m p al run) = [t]" "w_mutex (wk1 t m p al run) = m" "w_main (wk1 t m p al run) = p"
  "w_alarm (wk1 t m p al run) = al" "w_run (wk1 t m p al run) = run"
  by (simp_all add: wk1_def)

lemma wk_run_waits: "(wk_step 5)\<^sup>*\<^sup>* (wk_init 1) (wk1 TWait None MArmed True False)"
proof -
  have "wk_step 5 (wk_init 1) (wk1 TLocked (Some 0) MStart False False)"
    using thread_lock [of 0 "wk_init 1" 5] by (simp add: wk_init_def wk1_def thread_to_def)
  moreover have "wk_step 5 (wk1 TLocked (Some 0) MStart False False) (wk1 TWait None MStart False False)"
    using thread_wait [of 0 "wk1 TLocked (Some 0) MStart False False" 5] by (simp add: wk1_def thread_to_def)
  moreover have "wk_step 5 (wk1 TWait None MStart False False) (wk1 TWait None MArmed True False)"
    using main_alarm [of "wk1 TWait None MStart False False" 5] by (simp add: wk1_def)
  ultimately show ?thesis by (meson converse_rtranclp_into_rtranclp rtranclp.rtrancl_refl)
qed

lemma wk_flag_set:
  "(wk_step secs)\<^sup>*\<^sup>* (do_broadcast (wk1 TWait None MArmed al False)) (wk1 TWoken None MRun al True)"
  using main_set [of "wk1 TWoken None MSet al False" secs] by (simp add: do_broadcast_def broadcast_def wk1_def)


text \<open>The alarm can be lost: it goes off between its start and the assignment of the flag.\<close>

lemma alarm_can_be_lost:
  "\<exists>t. (wk_step 5)\<^sup>*\<^sup>* (wk_init 1) t \<and> alarm_lost t"
proof -
  have "wk_step 5 (wk1 TWait None MArmed True False) (wk1 TWait None MArmed False False)"
    using sig_alrm_h [of "wk1 TWait None MArmed True False" 5] by (simp add: wk1_def)
  moreover have "wk_step 5 (wk1 TWait None MArmed False False) (do_broadcast (wk1 TWait None MArmed False False))"
    using main_broadcast [of "wk1 TWait None MArmed False False" 5] by (simp add: do_broadcast_def)
  ultimately have "(wk_step 5)\<^sup>*\<^sup>* (wk_init 1) (wk1 TWoken None MRun False True)"
    using wk_run_waits wk_flag_set [of 5 False] by (meson rtranclp.rtrancl_into_rtrancl rtranclp_trans)
  then show ?thesis by (intro exI [of _ "wk1 TWoken None MRun False True"]) (simp add: alarm_lost_def)
qed

text \<open>With 0 seconds it always is.\<close>

lemma no_alarm_step:
  "wk_step secs s t \<Longrightarrow> secs = 0 \<Longrightarrow> \<not> w_alarm s \<and> (w_main s \<in> {MStart, MArmed, MSet} \<or> alarm_lost s) \<Longrightarrow>
    \<not> w_alarm t \<and> (w_main t \<in> {MStart, MArmed, MSet} \<or> alarm_lost t)"
  by (induction rule: wk_step.induct) (auto simp: alarm_lost_def)

lemma no_alarm: "(wk_step 0)\<^sup>*\<^sup>* (wk_init n) t \<Longrightarrow> \<not> w_alarm t \<and> (w_main t \<in> {MStart, MArmed, MSet} \<or> alarm_lost t)"
proof (induction rule: rtranclp_induct)
  case (step s t)
  show ?case by (rule no_alarm_step [OF step.hyps(2) refl step.IH])
qed (simp add: wk_init_def)

text \<open>States of two threads, between the flag and the joins.\<close>

definition wk2 :: "wthread \<Rightarrow> wthread \<Rightarrow> nat option \<Rightarrow> wmain \<Rightarrow> wk" where
  "wk2 t u m p = \<lparr>w_threads = [t, u], w_mutex = m, w_main = p, w_alarm = False, w_run = False, w_out = []\<rparr>"

lemma wk2_sel [simp]:
  "w_threads (wk2 t u m p) = [t, u]" "w_mutex (wk2 t u m p) = m" "w_main (wk2 t u m p) = p"
  "w_alarm (wk2 t u m p) = False" "w_run (wk2 t u m p) = False" "(wk2 t u m p)\<lparr>w_main := q\<rparr> = wk2 t u m q"
  "thread_to 0 t' m' (wk2 t u m p) = wk2 t' u m' p" "thread_to (Suc 0) t' m' (wk2 t u m p) = wk2 t t' m' p"
  by (auto simp: wk2_def thread_to_def)

lemma wk_stuck: "\<not> wk_step secs (wk2 TExit TStart (Some 0) (MJoin (Suc 0))) u"
proof
  assume "wk_step secs (wk2 TExit TStart (Some 0) (MJoin (Suc 0))) u"
  then show False by (cases rule: wk_step.cases) (auto simp: less_Suc_eq nth_Cons')
qed

lemma wk2_starts: "(wk_step 5)\<^sup>*\<^sup>* (wk_init 2) (wk2 TStart TStart None MRun)"
proof -
  let ?s = "\<lambda>p al run. \<lparr>w_threads = [TStart, TStart], w_mutex = None, w_main = p, w_alarm = al, w_run = run, w_out = []\<rparr>"
  have "wk_init 2 = ?s MStart False False" by (simp add: wk_init_def numeral_2_eq_2)
  moreover have "wk_step 5 (?s MStart False False) (?s MArmed True False)" "wk_step 5 (?s MArmed True False) (?s MSet True False)"
    "wk_step 5 (?s MSet True False) (?s MRun True True)" "wk_step 5 (?s MRun True True) (wk2 TStart TStart None MRun)"
    using main_alarm [of "?s MStart False False" 5] main_broadcast [of "?s MArmed True False" 5]
      main_set [of "?s MSet True False" 5] sig_alrm_h [of "?s MRun True True" 5] by (simp_all add: broadcast_def wk2_def)
  ultimately show ?thesis by (metis (no_types) converse_rtranclp_into_rtranclp rtranclp.rtrancl_refl)
qed

text \<open>
  Two threads that come to their lock after the broadcast can make the program hang.
  The first waits, is cancelled in its wait and takes the mutex with it; the second never gets the
  mutex, and \<^verbatim>\<open>main\<close> waits for it: a state that is reached, in which \<^verbatim>\<open>main\<close> is not done and no step is left.
\<close>

theorem wakeup_test_hangs:
  "\<exists>s. (wk_step 5)\<^sup>*\<^sup>* (wk_init 2) s \<and> w_main s = MJoin 1 \<and> w_mutex s = Some 0 \<and>
    w_threads s = [TExit, TStart] \<and> \<not> (\<exists>u. wk_step 5 s u)"
proof -
  have m: "wk_step 5 (wk2 TStart TStart None MRun) (wk2 TStart TStart None (MCancel 0))"
    "wk_step 5 (wk2 TStart TStart None (MCancel 0)) (wk2 TStart TStart None (MCancel (Suc 0)))"
    "wk_step 5 (wk2 TStart TStart None (MCancel (Suc 0))) (wk2 TStart TStart None (MCancel 2))"
    "wk_step 5 (wk2 TStart TStart None (MCancel 2)) (wk2 TStart TStart None (MJoin 0))"
    using main_leaves [of "wk2 TStart TStart None MRun" 5]
      main_cancel [of "wk2 TStart TStart None (MCancel 0)" 0 5] main_cancel [of "wk2 TStart TStart None (MCancel (Suc 0))" "Suc 0" 5]
      main_cancelled [of "wk2 TStart TStart None (MCancel 2)" 2 5]
    by (simp_all add: numeral_2_eq_2)
  have t: "wk_step 5 (wk2 TStart TStart None (MJoin 0)) (wk2 TLocked TStart (Some 0) (MJoin 0))"
    "wk_step 5 (wk2 TLocked TStart (Some 0) (MJoin 0)) (wk2 TWait TStart None (MJoin 0))"
    "wk_step 5 (wk2 TWait TStart None (MJoin 0)) (wk2 TExit TStart (Some 0) (MJoin 0))"
    "wk_step 5 (wk2 TExit TStart (Some 0) (MJoin 0)) (wk2 TExit TStart (Some 0) (MJoin (Suc 0)))"
    using thread_lock [of 0 "wk2 TStart TStart None (MJoin 0)" 5] thread_wait [of 0 "wk2 TLocked TStart (Some 0) (MJoin 0)" 5]
      thread_cancel_wait [of 0 "wk2 TWait TStart None (MJoin 0)" 5] main_join [of "wk2 TExit TStart (Some 0) (MJoin 0)" 0 5]
    by (simp_all add: cancelled_def)
  have "(wk_step 5)\<^sup>*\<^sup>* (wk2 TStart TStart None MRun) (wk2 TExit TStart (Some 0) (MJoin (Suc 0)))"
    using m t by (meson converse_rtranclp_into_rtranclp rtranclp.rtrancl_refl)
  then have "(wk_step 5)\<^sup>*\<^sup>* (wk_init 2) (wk2 TExit TStart (Some 0) (MJoin (Suc 0)))"
    using wk2_starts by (meson rtranclp_trans)
  then show ?thesis using wk_stuck by (intro exI [of _ "wk2 TExit TStart (Some 0) (MJoin (Suc 0))"]) simp
qed

section \<open>Arguments\<close>

text \<open>\<^verbatim>\<open>strtoul\<close> stored in an \<^verbatim>\<open>int\<close>: the number of threads and the seconds of the alarm.\<close>

definition strtoul_int :: "string \<Rightarrow> int" where
  "strtoul_int s = (case scan_unsigned 10 s of None \<Rightarrow> 0 | Some (w, _) \<Rightarrow> sint w)"

definition wakeup_args :: "string list \<Rightarrow> (nat \<times> int) option" where
  "wakeup_args argv = (if length argv < 3 then None else Some (nat (strtoul_int (argv ! 1)), strtoul_int (argv ! 2)))"

end
