(* ===== verification/Timers.thy ===== *)
theory Timers
  imports Complex_Main Cpu_Tasks
begin

text \<open>
  The timer test \<^verbatim>\<open>src/timerfd_test.c\<close>, which records how long a periodic timer takes to fire, and the
  stop watch of \<^verbatim>\<open>src/utils.c\<close> and \<^verbatim>\<open>src/utils.h\<close>. The clock and what \<^verbatim>\<open>select\<close> reports are parameters; a
  time is a pair of seconds and nanoseconds.
\<close>

section \<open>The timer test\<close>

text \<open>What \<^verbatim>\<open>select\<close> reports: an error, or which of the signal and the timer descriptor are ready.\<close>

datatype select_result = SelectFails | Ready bool bool

definition tf_delta :: "int \<times> int \<Rightarrow> int \<times> int \<Rightarrow> u64" where
  "tf_delta ts1 ts2 = word_of_int (fst ts2 * 1000000000 + snd ts2 - fst ts1 * 1000000000 - snd ts1)"

text \<open>The loop: the lines printed. \<open>None\<close> is a store outside the allocated array.\<close>

function tf_loop ::
  "int \<Rightarrow> (nat \<Rightarrow> select_result) \<Rightarrow> (nat \<Rightarrow> int \<times> int) \<Rightarrow> (nat \<Rightarrow> int \<times> int) \<Rightarrow> nat \<Rightarrow> u64 list \<Rightarrow> (nat \<times> u64) list \<Rightarrow>
    (nat \<times> u64) list option" where
  "tf_loop iterations sel ts1 ts2 iter ts_delta out =
     (if int iter < iterations then
        (case sel iter of
           SelectFails \<Rightarrow> Some out
         | Ready sig timer \<Rightarrow>
             if sig then Some out
             else if iter < length ts_delta then
               let ts_delta = ts_delta[iter := tf_delta (ts1 iter) (ts2 iter)]
               in tf_loop iterations sel ts1 ts2 (iter + 1) ts_delta (out @ [(iter, ts_delta ! iter)])
             else None)
      else Some out)"
  by pat_completeness auto
termination by (relation "measure (\<lambda>(iterations, sel, ts1, ts2, iter, ts_delta, out). nat (iterations - int iter))") auto

declare tf_loop.simps [simp del]

text \<open>
  \<^verbatim>\<open>main\<close>: the exit code and the lines. \<open>alloc n\<close> is the array \<^verbatim>\<open>malloc\<close> gives for \<open>n\<close> bytes (a null pointer
  is an array without elements); \<open>junk\<close> are the uninitialised numbers.
\<close>

definition timerfd_main ::
  "int \<times> int \<Rightarrow> (nat \<Rightarrow> u64 list) \<Rightarrow> bool \<Rightarrow> bool \<Rightarrow> (nat \<Rightarrow> select_result) \<Rightarrow> (nat \<Rightarrow> int \<times> int) \<Rightarrow> (nat \<Rightarrow> int \<times> int) \<Rightarrow>
    string list \<Rightarrow> (int \<times> (nat \<times> u64) list) option" where
  "timerfd_main junk alloc signalfd timerfd sel ts1 ts2 argv =
     (if length argv < 3 then Some (1, [])
      else
        let timer_expiry_sec = scan_into (argv ! 1) (fst junk);
            iterations = scan_into (argv ! 2) (snd junk);
            ts_delta = alloc (unat (word_of_int (8 * iterations) :: u64))
        in if \<not> signalfd then Some (2, [])
           else if \<not> timerfd then Some (3, [])
           else map_option (\<lambda>out. (0, out)) (tf_loop iterations sel ts1 ts2 0 ts_delta []))"

section \<open>The stop watch\<close>

record watch =
  flag_in :: bool
  w_ts0 :: "int \<times> int"
  w_ts1 :: "int \<times> int"

definition watch_init :: watch where
  "watch_init = \<lparr>flag_in = False, w_ts0 = (0, 0), w_ts1 = (0, 0)\<rparr>"

text \<open>The macro, in milliseconds, without the rounding of \<^verbatim>\<open>double\<close>.\<close>

definition delta_timespec :: "int \<times> int \<Rightarrow> int \<times> int \<Rightarrow> rat" where
  "delta_timespec t1 t2 = (of_int (fst t1 - fst t2) * 1000000000 + of_int (snd t1 - snd t2) + 100) / 1000000"

definition do_time_it :: "int \<times> int \<Rightarrow> watch \<Rightarrow> rat option \<times> watch" where
  "do_time_it now w =
     (let w1 = (if flag_in w then w\<lparr>w_ts1 := now\<rparr> else w\<lparr>w_ts0 := now\<rparr>);
          out = (if flag_in w then Some (delta_timespec (w_ts1 w1) (w_ts0 w1)) else None)
      in (out, w1\<lparr>flag_in := \<not> flag_in w\<rparr>))"

fun time_calls :: "(int \<times> int) list \<Rightarrow> watch \<Rightarrow> rat list" where
  "time_calls [] w = []"
| "time_calls (now # nows) w =
     (let (out, w) = do_time_it now w in (case out of None \<Rightarrow> [] | Some d \<Rightarrow> [d]) @ time_calls nows w)"

section \<open>Properties\<close>

definition goes_on :: "select_result \<Rightarrow> bool" where
  "goes_on r \<longleftrightarrow> (case r of SelectFails \<Rightarrow> False | Ready sig timer \<Rightarrow> \<not> sig)"

lemma tf_loop_prints:
  assumes "j \<le> n" "\<And>k. k < j \<Longrightarrow> goes_on (sel k)" "j = n \<or> \<not> goes_on (sel j)" "n \<le> length ts_delta" "i \<le> j"
  shows "tf_loop (int n) sel ts1 ts2 i ts_delta out = Some (out @ map (\<lambda>k. (k, tf_delta (ts1 k) (ts2 k))) [i..<j])"
  using assms(4,5)
proof (induction "j - i" arbitrary: i ts_delta out)
  case 0
  then have "i = j" by simp
  then show ?case using assms(3) by (subst tf_loop.simps) (auto simp: goes_on_def split: select_result.splits)
next
  case (Suc d)
  then have i: "i < j" by simp
  let ?d = "tf_delta (ts1 i) (ts2 i)"
  obtain timer where r: "sel i = Ready False timer"
    using assms(2) [OF i] by (auto simp: goes_on_def split: select_result.splits)
  have "tf_loop (int n) sel ts1 ts2 i ts_delta out =
      tf_loop (int n) sel ts1 ts2 (i + 1) (ts_delta[i := ?d]) (out @ [(i, ?d)])"
    using i assms(1) Suc.prems r by (subst tf_loop.simps) (simp add: Let_def)
  also have "\<dots> = Some ((out @ [(i, ?d)]) @ map (\<lambda>k. (k, tf_delta (ts1 k) (ts2 k))) [i + 1..<j])"
    using Suc i by simp
  finally show ?case using i by (simp add: upt_conv_Cons)
qed

text \<open>
  The timer test given a number of iterations that the memory has room for. It always
  ends with exit code 0 and prints, for every iteration before a signal or an error of \<^verbatim>\<open>select\<close>, the
  nanoseconds between the two clock readings of that iteration, without a store outside its array.
\<close>

theorem timerfd_prints:
  assumes "n < 2 ^ 31" "length (alloc (8 * n)) = n"
    "j \<le> n" "\<And>k. k < j \<Longrightarrow> goes_on (sel k)" "j = n \<or> \<not> goes_on (sel j)"
  shows "timerfd_main junk alloc True True sel ts1 ts2 [prog, secs, int_string (int n)] =
    Some (0, map (\<lambda>k. (k, tf_delta (ts1 k) (ts2 k))) [0..<j])"
proof -
  have n: "scan_into (int_string (int n)) (snd junk) = int n"
    by (rule scan_into_int_string) (use assms(1) in simp_all)
  have "unat (word_of_int (8 * int n) :: u64) = 8 * n"
    using assms(1) unat_of_nat [of "8 * n", where ?'a = 64] by simp
  then show ?thesis
    using tf_loop_prints [of j n sel "alloc (8 * n)" 0 ts1 ts2 "[]"] assms n
    by (simp add: timerfd_main_def numeral_2_eq_2)
qed

theorem timerfd_prints_witness:
  "timerfd_main (0, 0) (\<lambda>b. replicate (b div 8) 0) True True (\<lambda>k. Ready (k = 2) True) (\<lambda>k. (5, 10)) (\<lambda>k. (6, 15))
      [''timerfd_test'', ''1'', int_string (int 4)] =
    Some (0, map (\<lambda>k. (k, tf_delta ((\<lambda>k. (5, 10)) k) ((\<lambda>k. (6, 15)) k))) [0..<2])"
  by (rule timerfd_prints) (simp_all add: goes_on_def)

text \<open>The calls of the stop watch pair up: every second one prints the time since the one before, and 100 nanoseconds.\<close>

lemma time_calls_pair_up:
  "\<not> flag_in w \<Longrightarrow> time_calls (a # b # nows) w = delta_timespec b a # time_calls nows (w\<lparr>w_ts0 := a, w_ts1 := b, flag_in := False\<rparr>)"
  by (cases w) (simp add: do_time_it_def)

end
