(* ===== verification/Gnu_Tsearch.thy ===== *)
theory Gnu_Tsearch
  imports Prelude "HOL-Library.Tree_Multiset"
begin

unbundle bit_operations_syntax

text \<open>
  The search tree demonstration \<^verbatim>\<open>src/gnu_tsearch.c\<close>. The C library leaves the shape of its trees
  open, so the insertion is a parameter with the documented laws of \<^verbatim>\<open>tsearch\<close>; a pointer is the
  number of its allocation.
\<close>

section \<open>The program\<close>

type_synonym item = "int \<times> nat"

definition compare_item :: "item \<Rightarrow> item \<Rightarrow> int" where
  "compare_item pa pb = (if fst pa < fst pb then -1 else if fst pa > fst pb then 1 else 0)"

datatype VISIT = V_preorder | V_postorder | V_endorder | V_leaf

text \<open>\<^verbatim>\<open>twalk\<close> visits an inner node three times and a leaf once.\<close>

fun twalk :: "item tree \<Rightarrow> (item \<times> VISIT) list" where
  "twalk Leaf = []"
| "twalk (Node l a r) =
     (if l = Leaf \<and> r = Leaf then [(a, V_leaf)]
      else (a, V_preorder) # twalk l @ [(a, V_postorder)] @ twalk r @ [(a, V_endorder)])"

definition action :: "item \<Rightarrow> VISIT \<Rightarrow> int list" where
  "action nodep which = (case which of V_preorder \<Rightarrow> [fst nodep] | V_leaf \<Rightarrow> [fst nodep] | _ \<Rightarrow> [])"

text \<open>The item of the node that \<^verbatim>\<open>tsearch\<close> returns: the one that compares equal.\<close>

definition node_item :: "item tree \<Rightarrow> item \<Rightarrow> item option" where
  "node_item t p = List.find (\<lambda>q. compare_item p q = 0) (inorder t)"

text \<open>
  The loop of \<^verbatim>\<open>main\<close>, as the tree and the pointers freed so far; \<open>None\<close> when \<^verbatim>\<open>malloc\<close> or \<^verbatim>\<open>tsearch\<close> has no
  memory and the program exits with an error.
\<close>

fun tsearch_loop ::
  "(item \<Rightarrow> item tree \<Rightarrow> item tree) \<Rightarrow> (nat \<Rightarrow> bool) \<Rightarrow> (nat \<Rightarrow> nat) \<Rightarrow> nat list \<Rightarrow> item tree \<Rightarrow> nat list \<Rightarrow> (item tree \<times> nat list) option" where
  "tsearch_loop tsearch mem rnd [] root freed = Some (root, freed)"
| "tsearch_loop tsearch mem rnd (i # js) root freed =
     (if \<not> mem (2 * i) then None
      else
        let ptr = (int (rnd i) AND 0xff, i) in
        if \<not> mem (2 * i + 1) then None
        else
          let root = tsearch ptr root
          in tsearch_loop tsearch mem rnd js root
               (if node_item root ptr \<noteq> Some ptr then freed @ [i] else freed))"

text \<open>\<^verbatim>\<open>main\<close>: the exit code, the numbers printed and all pointers freed, \<^verbatim>\<open>tdestroy\<close> included.\<close>

definition tsearch_main ::
  "(item \<Rightarrow> item tree \<Rightarrow> item tree) \<Rightarrow> (nat \<Rightarrow> bool) \<Rightarrow> (nat \<Rightarrow> nat) \<Rightarrow> int \<times> int list \<times> nat list" where
  "tsearch_main tsearch mem rnd =
     (case tsearch_loop tsearch mem rnd [0..<12] Leaf [] of
        None \<Rightarrow> (1, [], [])
      | Some (root, freed) \<Rightarrow>
          (0, concat (map (\<lambda>(a, w). action a w) (twalk root)), freed @ map snd (inorder root)))"

section \<open>The library's insertion\<close>

definition keys_bst :: "item tree \<Rightarrow> bool" where
  "keys_bst t \<longleftrightarrow> bst (map_tree fst t)"

definition tsearch_ok :: "(item \<Rightarrow> item tree \<Rightarrow> item tree) \<Rightarrow> bool" where
  "tsearch_ok ts \<longleftrightarrow> (\<forall>p t. keys_bst t \<longrightarrow>
     keys_bst (ts p t) \<and>
     (fst p \<in> fst ` set_tree t \<longrightarrow> ts p t = t) \<and>
     (fst p \<notin> fst ` set_tree t \<longrightarrow> set_tree (ts p t) = insert p (set_tree t)))"

lemma compare_item_iff [simp]:
  "compare_item p q = 0 \<longleftrightarrow> fst p = fst q" "compare_item p q < 0 \<longleftrightarrow> fst p < fst q" "compare_item p q > 0 \<longleftrightarrow> fst p > fst q"
  by (auto simp: compare_item_def)

text \<open>Plain insertion at a leaf has the laws.\<close>

fun leaf_insert :: "item \<Rightarrow> item tree \<Rightarrow> item tree" where
  "leaf_insert p Leaf = Node Leaf p Leaf"
| "leaf_insert p (Node l a r) =
     (if compare_item p a < 0 then Node (leaf_insert p l) a r
      else if compare_item p a > 0 then Node l a (leaf_insert p r)
      else Node l a r)"

lemma set_leaf_insert: "set_tree (leaf_insert p t) \<subseteq> insert p (set_tree t)"
  by (induction t) auto

lemma keys_bst_Node:
  "keys_bst (Node l a r) \<longleftrightarrow> keys_bst l \<and> keys_bst r \<and> (\<forall>x\<in>set_tree l. fst x < fst a) \<and> (\<forall>x\<in>set_tree r. fst a < fst x)"
  by (auto simp: keys_bst_def tree.set_map)

lemma leaf_insert_bst: "keys_bst t \<Longrightarrow> keys_bst (leaf_insert p t)"
proof (induction t)
  case (Node l a r)
  then show ?case
    using set_leaf_insert [of p l] set_leaf_insert [of p r] by (fastforce simp: keys_bst_Node)
qed (simp add: keys_bst_def)

lemma leaf_insert_old: "keys_bst t \<Longrightarrow> fst p \<in> fst ` set_tree t \<Longrightarrow> leaf_insert p t = t"
proof (induction t)
  case (Node l a r)
  have "fst p = fst a \<or> fst p \<in> fst ` set_tree l \<or> fst p \<in> fst ` set_tree r"
    using Node.prems(2) by (simp add: image_Un)
  moreover have "fst p < fst a" if "fst p \<in> fst ` set_tree l" using that Node.prems(1) by (auto simp: keys_bst_Node)
  moreover have "fst a < fst p" if "fst p \<in> fst ` set_tree r" using that Node.prems(1) by (auto simp: keys_bst_Node)
  ultimately show ?case using Node.IH Node.prems(1) by (auto simp: keys_bst_Node simp del: image_iff)
qed simp

lemma leaf_insert_new: "fst p \<notin> fst ` set_tree t \<Longrightarrow> set_tree (leaf_insert p t) = insert p (set_tree t)"
proof (induction t)
  case (Node l a r)
  have n: "fst p \<noteq> fst a" "fst p \<notin> fst ` set_tree l" "fst p \<notin> fst ` set_tree r"
    using Node.prems by (simp_all add: image_Un)
  show ?case using n(1) Node.IH(1) [OF n(2)] Node.IH(2) [OF n(3)] by (simp add: insert_commute)
qed simp

lemma leaf_insert_ok: "tsearch_ok leaf_insert"
  unfolding tsearch_ok_def by (intro allI impI conjI) (rule leaf_insert_bst leaf_insert_old leaf_insert_new; assumption)+

lemma tsearch_okD:
  assumes "tsearch_ok ts" "keys_bst t"
  shows "keys_bst (ts p t)"
    and "fst p \<in> fst ` set_tree t \<Longrightarrow> ts p t = t"
    and "fst p \<notin> fst ` set_tree t \<Longrightarrow> set_tree (ts p t) = insert p (set_tree t)"
  using assms unfolding tsearch_ok_def by blast+

section \<open>Walking\<close>

lemma action_twalk: "concat (map (\<lambda>(a, w). action a w) (twalk t)) = map fst (preorder t)"
  by (induction t) (auto simp: action_def)

lemma keys_bst_distinct: "keys_bst t \<Longrightarrow> distinct (map fst (inorder t))"
  using bst_iff_sorted_wrt_less [of "map_tree fst t"] strict_sorted_iff [of "map fst (inorder t)"]
  by (simp add: keys_bst_def inorder_map)

lemma node_item_present:
  assumes "keys_bst t" "q \<in> set_tree t" "fst q = fst p"
  shows "node_item t p = Some q"
proof -
  obtain q' where q': "node_item t p = Some q'"
    using assms(2,3) find_None_iff [of "\<lambda>q. compare_item p q = 0" "inorder t"]
    by (cases "node_item t p") (fastforce simp: node_item_def)+
  then have "q' \<in> set (inorder t)" "compare_item p q' = 0"
    unfolding node_item_def find_Some_iff by (metis nth_mem)+
  then have "q' \<in> set (inorder t)" "fst q' = fst p" by simp_all
  moreover have "q \<in> set (inorder t)" using assms(2) by simp
  ultimately have "q' = q"
    using keys_bst_distinct [OF assms(1)] assms(3) by (simp add: distinct_map inj_on_def)
  then show ?thesis using q' by simp
qed

section \<open>The loop\<close>

text \<open>
  The invariant after some allocations \<open>ps\<close>: the tree is ordered and holds exactly the values seen,
  and every pointer is either in the tree or freed, once.
\<close>

definition loop_ok :: "(nat \<Rightarrow> nat) \<Rightarrow> nat list \<Rightarrow> item tree \<Rightarrow> nat list \<Rightarrow> bool" where
  "loop_ok rnd ps t freed \<longleftrightarrow> keys_bst t \<and> fst ` set_tree t = (\<lambda>i. int (rnd i) AND 0xff) ` set ps \<and>
     mset (freed @ map snd (inorder t)) = mset ps"

lemma inorder_insert_mset:
  assumes "tsearch_ok ts" "keys_bst t" "fst p \<notin> fst ` set_tree t"
  shows "mset (inorder (ts p t)) = add_mset p (mset (inorder t))"
proof -
  have "keys_bst (ts p t)" "set_tree (ts p t) = insert p (set_tree t)" using tsearch_okD assms by blast+
  moreover have "p \<notin> set (inorder t)" using assms(3) by auto
  moreover have "distinct (inorder (ts p t))" "distinct (inorder t)"
    using keys_bst_distinct assms(2) calculation(1) by (auto simp: distinct_map)
  ultimately have "mset (inorder (ts p t)) = mset (p # inorder t)"
    by (subst set_eq_iff_mset_eq_distinct [symmetric]) simp_all
  then show ?thesis by simp
qed

lemma loop_ok_step:
  assumes "tsearch_ok ts" "loop_ok rnd ps t freed" "i \<notin> set ps" and p: "p = (int (rnd i) AND 0xff, i)"
  shows "loop_ok rnd (ps @ [i]) (ts p t) (if node_item (ts p t) p \<noteq> Some p then freed @ [i] else freed)"
proof -
  have ok: "keys_bst t" "fst ` set_tree t = (\<lambda>i. int (rnd i) AND 0xff) ` set ps" "mset (freed @ map snd (inorder t)) = mset ps"
    using assms(2) by (auto simp: loop_ok_def)
  note ts = tsearch_okD [OF assms(1) ok(1), of p]
  show ?thesis
  proof (cases "fst p \<in> fst ` set_tree t")
    case True
    then obtain q where q: "q \<in> set_tree t" "fst q = fst p" by auto
    have "snd q \<in> set (map snd (inorder t))" using q(1) by simp
    then have "snd q \<in> set ps" using ok(3) by (metis in_multiset_in_set set_append UnI2)
    then have "q \<noteq> p" using assms(3) p by auto
    moreover have "node_item t p = Some q" by (rule node_item_present [OF ok(1) q])
    moreover have "fst ` set_tree t = (\<lambda>i. int (rnd i) AND 0xff) ` set (ps @ [i])" using True ok(2) p by auto
    ultimately show ?thesis using ts(2) [OF True] ok by (simp add: loop_ok_def)
  next
    case False
    have "node_item (ts p t) p = Some p" using node_item_present [OF ts(1)] ts(3) [OF False] by simp
    moreover have "fst ` set_tree (ts p t) = (\<lambda>i. int (rnd i) AND 0xff) ` set (ps @ [i])"
      using ts(3) [OF False] ok(2) p by auto
    moreover have "mset (freed @ map snd (inorder (ts p t))) = mset (ps @ [i])"
      using inorder_insert_mset [OF assms(1) ok(1) False] ok(3) p by simp
    ultimately show ?thesis using ts(1) by (simp add: loop_ok_def)
  qed
qed

lemma tsearch_loop_ok:
  assumes "tsearch_ok ts" "\<And>k. mem k" "loop_ok rnd ps t freed" "distinct (ps @ js)"
  shows "\<exists>t' freed'. tsearch_loop ts mem rnd js t freed = Some (t', freed') \<and> loop_ok rnd (ps @ js) t' freed'"
  using assms(3,4)
proof (induction js arbitrary: ps t freed)
  case (Cons i js)
  have "i \<notin> set ps" using Cons.prems(2) by simp
  note step = loop_ok_step [OF assms(1) Cons.prems(1) this refl]
  show ?case using Cons.IH [OF step] Cons.prems(2) assms(2) by (simp add: Let_def)
qed simp

text \<open>
  The demonstration with enough memory prints every value it drew once, and frees every
  pointer it allocated exactly once, whatever tree the library builds.
\<close>

theorem tsearch_main_prints:
  assumes "tsearch_ok ts" "\<And>k. mem k"
  shows "\<exists>out freed. tsearch_main ts mem rnd = (0, out, freed) \<and> distinct out \<and>
    set out = (\<lambda>i. int (rnd i) AND 0xff) ` {..<12} \<and> mset freed = mset [0..<12]"
proof -
  obtain t freed where t: "tsearch_loop ts mem rnd [0..<12] Leaf [] = Some (t, freed)" "loop_ok rnd [0..<12] t freed"
    using tsearch_loop_ok [OF assms(1), where mem = mem and ps = "[]" and t = Leaf and freed = "[]" and rnd = rnd and js = "[0..<12]"]
    assms(2) by (auto simp: loop_ok_def keys_bst_def simp del: upt_Suc)
  have "distinct (map fst (preorder t))"
    using keys_bst_distinct [of t] t(2) mset_preorder [of t] mset_inorder [of t]
    by (metis (no_types, lifting) loop_ok_def mset_eq_imp_distinct_iff mset_map)
  then show ?thesis
    using t by (auto simp: tsearch_main_def action_twalk loop_ok_def atLeast0LessThan simp del: upt_Suc)
qed

theorem tsearch_main_prints_witness:
  "\<exists>out freed. tsearch_main leaf_insert (\<lambda>_. True) (\<lambda>i. 7 * i mod 5) = (0, out, freed) \<and> distinct out \<and>
    set out = (\<lambda>i. int ((\<lambda>i. 7 * i mod 5) i) AND 0xff) ` {..<12} \<and> mset freed = mset [0..<12]"
  by (rule tsearch_main_prints [OF leaf_insert_ok]) simp

end
