(* ===== verification/Pipes.thy ===== *)
theory Pipes
  imports C_Library
begin

text \<open>
  The two ends of a named pipe, \<^verbatim>\<open>src/pipe_writer.c\<close> and \<^verbatim>\<open>src/pipe_reader.c\<close>: how the writer makes the pipe,
  what it writes, and both loops on the pipe between them.
\<close>

section \<open>The writer\<close>

text \<open>One character of \<^verbatim>\<open>dump_random_chars\<close>: a random number stored in a signed \<^verbatim>\<open>char\<close>, raised to 65.\<close>

definition random_char :: "nat \<Rightarrow> int" where
  "random_char r = (let c = schar (int (r mod 256)) in if c < 65 then 65 else c)"

fun dump_random_chars :: "(nat \<Rightarrow> nat) \<Rightarrow> nat \<Rightarrow> nat \<Rightarrow> int list \<Rightarrow> int list" where
  "dump_random_chars rnd i 0 str = str"
| "dump_random_chars rnd i (Suc sz) str =
     (dump_random_chars rnd i sz str)[sz := random_char (rnd (i + sz))]"

definition PAGE :: nat where
  "PAGE = 4096"

datatype mknod_result = Made | Exists | OtherError

text \<open>
  \<^verbatim>\<open>main\<close> up to its loop: the exit code, or \<open>None\<close> when it goes on. \<open>m1\<close> and \<open>m2\<close> are the results of the first
  \<^verbatim>\<open>mknod\<close> and of the one after removing an existing file. The second component says whether an
  existing file was removed.
\<close>

definition writer_setup :: "mknod_result \<Rightarrow> mknod_result \<Rightarrow> string list \<Rightarrow> int option \<times> bool" where
  "writer_setup m1 m2 argv =
     (if length argv < 2 then (Some (-1), False)
      else case m1 of
             Made \<Rightarrow> (None, False)
           | Exists \<Rightarrow> (if m2 = Made then None else Some (-1), True)
           | OtherError \<Rightarrow> (Some (-1), False))"

text \<open>
  Opening the pipe. The reader gives up when it cannot; the writer goes on with the descriptor -1,
  for which \<^verbatim>\<open>FD_SET\<close> writes outside its set.
\<close>

datatype pipe_start = PipeExit int | PipeBadSet | PipeLoops

definition pipe_writer_start :: "mknod_result \<Rightarrow> mknod_result \<Rightarrow> bool \<Rightarrow> string list \<Rightarrow> pipe_start" where
  "pipe_writer_start m1 m2 open_ok argv =
     (case writer_setup m1 m2 argv of
        (Some rc, _) \<Rightarrow> PipeExit rc
      | (None, _) \<Rightarrow> if open_ok then PipeLoops else PipeBadSet)"

definition pipe_reader_start :: "(string option \<Rightarrow> bool) \<Rightarrow> string list \<Rightarrow> pipe_start" where
  "pipe_reader_start open_ok argv =
     (if \<not> open_ok (if length argv > 1 then Some (argv ! 1) else None) then PipeExit (-1) else PipeLoops)"

section \<open>The pipe\<close>

text \<open>
  The pipe between the two loops. A page is written as a whole once there is room for it in the
  64 kilobytes of the pipe, since it is not longer than \<^verbatim>\<open>PIPE_BUF\<close>; a read takes what is there, up to
  a page. \<open>p_page\<close> is the writer's buffer, \<open>p_draws\<close> counts the random numbers drawn.
\<close>

record pipe =
  p_buf :: "int list"
  p_page :: "int list"
  p_draws :: nat
  p_written :: "int list list"
  p_read :: "int list"
  p_printed :: "int list"

definition pipe_init :: "int list \<Rightarrow> pipe" where
  "pipe_init junk = \<lparr>p_buf = [], p_page = junk, p_draws = 0, p_written = [], p_read = [], p_printed = []\<rparr>"

definition writer_turn :: "(nat \<Rightarrow> nat) \<Rightarrow> pipe \<Rightarrow> pipe" where
  "writer_turn rnd s =
     (let page = dump_random_chars rnd (p_draws s) PAGE (p_page s)
      in s\<lparr>p_buf := p_buf s @ page, p_page := page, p_draws := p_draws s + PAGE, p_written := p_written s @ [page]\<rparr>)"

definition reader_turn :: "pipe \<Rightarrow> pipe" where
  "reader_turn s =
     (let bytes_read = int (length (take PAGE (p_buf s)))
      in s\<lparr>p_buf := drop PAGE (p_buf s), p_read := p_read s @ take PAGE (p_buf s),
           p_printed := p_printed s @ (if bytes_read > 0 then [bytes_read] else [])\<rparr>)"

inductive pipe_step :: "(nat \<Rightarrow> nat) \<Rightarrow> pipe \<Rightarrow> pipe \<Rightarrow> bool" for rnd where
  pipe_write: "length (p_buf s) + PAGE \<le> 65536 \<Longrightarrow> pipe_step rnd s (writer_turn rnd s)"
| pipe_read: "p_buf s \<noteq> [] \<Longrightarrow> pipe_step rnd s (reader_turn s)"

section \<open>What a page holds\<close>

lemma random_char_range: "65 \<le> random_char r \<and> random_char r < 128"
proof -
  have "schar v < 128" for v
    using sint_lt [of "word_of_int v :: u8"] by (simp add: schar_def)
  then show ?thesis by (simp add: random_char_def Let_def)
qed

lemma dump_random_chars_nth:
  "sz \<le> length str \<Longrightarrow> length (dump_random_chars rnd i sz str) = length str \<and>
     (\<forall>k<length str. dump_random_chars rnd i sz str ! k = (if k < sz then random_char (rnd (i + k)) else str ! k))"
  by (induction sz) (auto simp: nth_list_update less_Suc_eq)

definition page_no :: "(nat \<Rightarrow> nat) \<Rightarrow> nat \<Rightarrow> int list" where
  "page_no rnd n = map (\<lambda>k. random_char (rnd (n * PAGE + k))) [0..<PAGE]"

lemma dump_page: "length str = PAGE \<Longrightarrow> dump_random_chars rnd (n * PAGE) PAGE str = page_no rnd n"
  using dump_random_chars_nth [of PAGE str rnd "n * PAGE"] by (intro nth_equalityI) (simp_all add: page_no_def)

lemma length_page_no [simp]: "length (page_no rnd n) = PAGE"
  by (simp add: page_no_def)

lemma page_no_range: "list_all (\<lambda>c. 65 \<le> c \<and> c < 128) (page_no rnd n)"
  using random_char_range by (auto simp: page_no_def list_all_iff)

section \<open>Properties\<close>

text \<open>After \<open>n\<close> pages written and \<open>m\<close> read, the pipe holds the pages in between.\<close>

definition pages :: "(nat \<Rightarrow> nat) \<Rightarrow> nat \<Rightarrow> nat \<Rightarrow> int list" where
  "pages rnd m n = concat (map (page_no rnd) [m..<n])"

definition pipe_at :: "(nat \<Rightarrow> nat) \<Rightarrow> nat \<Rightarrow> nat \<Rightarrow> pipe \<Rightarrow> bool" where
  "pipe_at rnd m n s \<longleftrightarrow> m \<le> n \<and> n \<le> m + 16 \<and> p_buf s = pages rnd m n \<and> length (p_page s) = PAGE \<and>
     p_draws s = n * PAGE \<and> p_written s = map (page_no rnd) [0..<n] \<and>
     p_read s = pages rnd 0 m \<and> p_printed s = replicate m (int PAGE)"

lemma length_pages: "length (pages rnd m n) = (n - m) * PAGE"
  by (simp add: pages_def length_concat comp_def sum_list_triv)

lemma PAGE_pos [simp]: "0 < PAGE"
  by (simp add: PAGE_def)

lemma pages_Suc: "m \<le> n \<Longrightarrow> pages rnd m (Suc n) = pages rnd m n @ page_no rnd n"
  by (simp add: pages_def)

lemma pages_Cons: "m < n \<Longrightarrow> pages rnd m n = page_no rnd m @ pages rnd (Suc m) n"
  by (simp add: pages_def upt_conv_Cons)

lemma pipe_at_write:
  assumes "pipe_at rnd m n s" "length (p_buf s) + PAGE \<le> 65536"
  shows "pipe_at rnd m (Suc n) (writer_turn rnd s)"
proof -
  have "(n - m) * PAGE + PAGE \<le> 65536" using assms by (simp add: pipe_at_def length_pages)
  then have "n - m < 16" by (simp add: PAGE_def)
  then show ?thesis
    using assms(1) dump_page [of "p_page s" rnd n] by (auto simp: pipe_at_def writer_turn_def Let_def pages_Suc)
qed

lemma pipe_at_read:
  assumes "pipe_at rnd m n s" "p_buf s \<noteq> []"
  shows "pipe_at rnd (Suc m) n (reader_turn s)"
proof -
  have "m < n" using assms by (cases "m < n") (auto simp: pipe_at_def pages_def)
  then show ?thesis
    using assms(1) pages_Cons [of m n rnd] pages_Suc [of 0 m rnd] length_page_no [of rnd m]
    by (auto simp: pipe_at_def reader_turn_def Let_def replicate_append_same)
qed

text \<open>
  Property C39: the writer and the reader at work on the pipe, in any interleaving. The reader gets
  whole pages, in the order written, and prints the length of a page for each; the writer is never
  more than 16 pages ahead; and every character of every page lies between 65 and 127.
\<close>

theorem pipe_pages:
  assumes "(pipe_step rnd)\<^sup>*\<^sup>* (pipe_init junk) s" "length junk = PAGE"
  shows "\<exists>m n. m \<le> n \<and> n \<le> m + 16 \<and> p_written s = map (page_no rnd) [0..<n] \<and>
    p_read s = concat (take m (p_written s)) \<and> p_printed s = replicate m 4096 \<and>
    list_all (list_all (\<lambda>c. 65 \<le> c \<and> c < 128)) (p_written s)"
proof -
  have "\<exists>m n. pipe_at rnd m n s"
    using assms(1)
  proof (induction rule: rtranclp_induct)
    case base
    have "pipe_at rnd 0 0 (pipe_init junk)" using assms(2) by (simp add: pipe_at_def pipe_init_def pages_def)
    then show ?case by blast
  next
    case (step s t)
    from step.hyps(2) step.IH show ?case by cases (blast intro: pipe_at_write pipe_at_read)+
  qed
  then obtain m n where "pipe_at rnd m n s" by blast
  then show ?thesis
    using page_no_range
    by (intro exI [of _ m] exI [of _ n]) (auto simp: pipe_at_def pages_def take_map list_all_iff PAGE_def)
qed

lemma pipe_run:
  "(pipe_step rnd)\<^sup>*\<^sup>* (pipe_init (replicate PAGE 0)) (reader_turn (writer_turn rnd (pipe_init (replicate PAGE 0))))"
proof -
  let ?s = "pipe_init (replicate PAGE 0)"
  have "length (p_buf (writer_turn rnd ?s)) = PAGE"
    using dump_random_chars_nth [of PAGE "replicate PAGE 0"] by (simp add: writer_turn_def pipe_init_def Let_def)
  then have "p_buf (writer_turn rnd ?s) \<noteq> []" by (metis PAGE_pos length_0_conv less_numeral_extra(3))
  then have "pipe_step rnd (writer_turn rnd ?s) (reader_turn (writer_turn rnd ?s))" by (rule pipe_read)
  moreover have "pipe_step rnd ?s (writer_turn rnd ?s)" by (rule pipe_write) (simp add: pipe_init_def PAGE_def)
  ultimately show ?thesis by (meson converse_rtranclp_into_rtranclp rtranclp.rtrancl_refl)
qed

theorem pipe_pages_witness:
  "\<exists>m n. m \<le> n \<and> n \<le> m + 16 \<and>
    p_written (reader_turn (writer_turn (\<lambda>k. k) (pipe_init (replicate PAGE 0)))) = map (page_no (\<lambda>k. k)) [0..<n] \<and>
    p_read (reader_turn (writer_turn (\<lambda>k. k) (pipe_init (replicate PAGE 0)))) =
      concat (take m (p_written (reader_turn (writer_turn (\<lambda>k. k) (pipe_init (replicate PAGE 0)))))) \<and>
    p_printed (reader_turn (writer_turn (\<lambda>k. k) (pipe_init (replicate PAGE 0)))) = replicate m 4096 \<and>
    list_all (list_all (\<lambda>c. 65 \<le> c \<and> c < 128)) (p_written (reader_turn (writer_turn (\<lambda>k. k) (pipe_init (replicate PAGE 0)))))"
  by (rule pipe_pages [OF pipe_run]) simp

text \<open>An existing file in the way is removed and the pipe made in its place.\<close>

lemma writer_setup_replaces: "length argv \<ge> 2 \<Longrightarrow> writer_setup Exists Made argv = (None, True)"
  by (simp add: writer_setup_def)

lemma pipe_writer_ignores_open: "length argv \<ge> 2 \<Longrightarrow> pipe_writer_start Made m2 False argv = PipeBadSet"
  by (simp add: pipe_writer_start_def writer_setup_def)

end
