(* ===== verification/Malloc_Test.thy ===== *)
theory Malloc_Test
  imports Prelude
begin

text \<open>
  The memory filler \<^verbatim>\<open>src/malloc_test.c\<close>, over any allocator: \<open>M h n\<close> says whether \<^verbatim>\<open>malloc\<close> of \<open>n\<close> bytes
  succeeds after the allocations \<open>h\<close>. The signal handlers and the final pause are left out. The
  loops are options, \<open>None\<close> when they do not end.
\<close>

section \<open>The program\<close>

partial_function (option) mt_grow :: "(u64 list \<Rightarrow> u64 \<Rightarrow> bool) \<Rightarrow> u64 \<Rightarrow> u64 list \<Rightarrow> (u64 \<times> u64 list) option" where
  "mt_grow M order h =
     (let order = push_bit 1 order
      in if M h order then mt_grow M order (h @ [order]) else Some (order, h))"

partial_function (option) mt_fill :: "(u64 list \<Rightarrow> u64 \<Rightarrow> bool) \<Rightarrow> u64 \<Rightarrow> u64 list \<Rightarrow> u64 list option" where
  "mt_fill M order h = (if M h order then mt_fill M order (h @ [order]) else Some h)"

partial_function (option) mt_rest :: "(u64 list \<Rightarrow> u64 \<Rightarrow> bool) \<Rightarrow> u64 \<Rightarrow> u64 list \<Rightarrow> u64 list option" where
  "mt_rest M order h =
     (if order = 0 then Some h
      else Option.bind (mt_fill M order h) (\<lambda>h. mt_rest M (push_bit 1 order) h))"

definition malloc_test_main :: "(u64 list \<Rightarrow> u64 \<Rightarrow> bool) \<Rightarrow> u64 list option" where
  "malloc_test_main M = Option.bind (mt_grow M 1 []) (\<lambda>(order, h). mt_rest M (drop_bit 1 order) h)"

section \<open>Properties\<close>

text \<open>An allocator with a limit, below the largest object C allows, that keeps refusing what it refused.\<close>

definition allocator_ok :: "nat \<Rightarrow> (u64 list \<Rightarrow> u64 \<Rightarrow> bool) \<Rightarrow> bool" where
  "allocator_ok cap M \<longleftrightarrow> cap < 2 ^ 63 \<and> (\<forall>h n. M h n \<longrightarrow> sum_list (map unat h) + unat n \<le> cap) \<and>
     (\<forall>h h' n n'. M (h @ h') n' \<longrightarrow> n \<le> n' \<longrightarrow> M h n)"

lemma allocator_okD:
  assumes "allocator_ok cap M"
  shows "M h n \<Longrightarrow> sum_list (map unat h) + unat n \<le> cap" "cap < 2 ^ 63" "M (h @ h') n' \<Longrightarrow> n \<le> n' \<Longrightarrow> M h n"
  using assms unfolding allocator_ok_def by blast+

lemma push_exp: "push_bit 1 (2 ^ j :: u64) = 2 ^ Suc j"
  by (simp add: push_bit_eq_mult)

lemma unat_exp: "j < 64 \<Longrightarrow> unat (2 ^ j :: u64) = 2 ^ j"
proof -
  assume "j < 64"
  then have "(2 :: nat) ^ j < 2 ^ 64" by (rule power_strict_increasing) simp
  then show ?thesis using unat_of_nat [of "2 ^ j", where ?'a = 64] by simp
qed

definition doubled :: "nat \<Rightarrow> u64 list" where
  "doubled k = map (\<lambda>i. 2 ^ i) [1..<Suc k]"

lemma mt_grow_ends:
  assumes "allocator_ok cap M" "j < 63"
  shows "\<exists>k. k < 63 \<and> mt_grow M (2 ^ j) (doubled j) = Some (2 ^ Suc k, doubled k)"
  using assms(2)
proof (induction "63 - j" arbitrary: j rule: less_induct)
  case less
  let ?o = "2 ^ Suc j :: u64"
  show ?case
  proof (cases "M (doubled j) ?o")
    case True
    then have "unat ?o < 2 ^ 63" using allocator_okD(1,2) [OF assms(1)] by (metis add_leD2 le_less_trans)
    then have "2 ^ Suc j < (2 :: nat) ^ 63" using less.prems unat_exp [of "Suc j"] by simp
    then have "Suc j < 63" by (rule power_less_imp_less_exp [rotated]) simp
    moreover have "63 - Suc j < 63 - j" using less.prems by linarith
    ultimately obtain k where "k < 63" "mt_grow M ?o (doubled (Suc j)) = Some (2 ^ Suc k, doubled k)"
      using less.hyps by blast
    moreover have "mt_grow M (2 ^ j) (doubled j) = mt_grow M ?o (doubled (Suc j))"
      unfolding mt_grow.simps [of M "2 ^ j"] push_exp using True by (simp add: Let_def doubled_def del: power_Suc)
    ultimately show ?thesis by auto
  next
    case False
    then have "mt_grow M (2 ^ j) (doubled j) = Some (?o, doubled j)"
      unfolding mt_grow.simps [of M "2 ^ j"] push_exp by (simp del: power_Suc)
    then show ?thesis using less.prems by blast
  qed
qed

lemma mt_fill_ends:
  assumes "allocator_ok cap M" "0 < unat n"
  shows "\<exists>r. mt_fill M n h = Some (h @ replicate r n) \<and> \<not> M (h @ replicate r n) n"
proof (induction "cap - sum_list (map unat h)" arbitrary: h rule: less_induct)
  case less
  show ?case
  proof (cases "M h n")
    case True
    then have "sum_list (map unat h) + unat n \<le> cap" by (rule allocator_okD(1) [OF assms(1)])
    then have "cap - sum_list (map unat (h @ [n])) < cap - sum_list (map unat h)" using assms(2) by simp
    then obtain r where r: "mt_fill M n (h @ [n]) = Some ((h @ [n]) @ replicate r n)" "\<not> M ((h @ [n]) @ replicate r n) n"
      using less.hyps by blast
    have "mt_fill M n h = mt_fill M n (h @ [n])" using True by (subst mt_fill.simps) simp
    then show ?thesis using r by (intro exI [of _ "Suc r"]) simp
  next
    case False
    then show ?thesis by (intro exI [of _ 0]) (subst mt_fill.simps, simp)
  qed
qed

text \<open>The larger orders that follow are refused, until the shift runs out.\<close>

lemma mt_rest_refused:
  assumes "allocator_ok cap M" "\<not> M h (2 ^ k)" "k \<le> j"
  shows "mt_rest M (2 ^ j) h = Some h"
  using assms(3)
proof (induction "64 - j" arbitrary: j rule: less_induct)
  case less
  show ?case
  proof (cases "j < 64")
    case True
    have "2 ^ k \<le> (2 ^ j :: u64)"
      using True less.prems unat_exp [of j] unat_exp [of k] by (simp add: word_le_nat_alt)
    then have "\<not> M h (2 ^ j)" using assms(2) allocator_okD(3) [OF assms(1), of h "[]"] by auto
    then have "mt_fill M (2 ^ j) h = Some h" by (subst mt_fill.simps) simp
    moreover have "(2 ^ j :: u64) \<noteq> 0" using True by (simp add: exp_eq_zero_iff)
    ultimately have "mt_rest M (2 ^ j) h = mt_rest M (2 ^ Suc j) h"
      unfolding mt_rest.simps [of M "2 ^ j"] push_exp by (simp del: power_Suc)
    then show ?thesis using less.hyps [of "Suc j"] less.prems True by simp
  next
    case False
    then have "(2 ^ j :: u64) = 0" by (simp add: exp_eq_zero_iff)
    then show ?thesis by (subst mt_rest.simps) simp
  qed
qed

text \<open>
  On any allocator with a limit the program ends. It has then allocated a doubling
  sequence of blocks and some more blocks of the size of the last one, and no further block of that
  size can be had.
\<close>

theorem malloc_test_ends:
  assumes "allocator_ok cap M"
  shows "\<exists>k r. k < 63 \<and> malloc_test_main M = Some (doubled k @ replicate r (2 ^ k)) \<and>
    \<not> M (doubled k @ replicate r (2 ^ k)) (2 ^ k)"
proof -
  obtain k where k: "k < 63" "mt_grow M 1 [] = Some (2 ^ Suc k, doubled k)"
    using mt_grow_ends [OF assms, of 0] by (auto simp: doubled_def)
  have half: "drop_bit 1 (2 ^ Suc k :: u64) = 2 ^ k"
    using k(1) by (intro bit_word_eqI) (auto simp: bit_drop_bit_eq bit_exp_iff simp del: power_Suc)
  have pos: "0 < unat (2 ^ k :: u64)" using k(1) unat_exp [of k] by simp
  obtain r where r: "mt_fill M (2 ^ k) (doubled k) = Some (doubled k @ replicate r (2 ^ k))"
      "\<not> M (doubled k @ replicate r (2 ^ k)) (2 ^ k)"
    using mt_fill_ends [OF assms pos] by blast
  have "mt_rest M (2 ^ k) (doubled k) = mt_rest M (2 ^ Suc k) (doubled k @ replicate r (2 ^ k))"
    unfolding mt_rest.simps [of M "2 ^ k"] push_exp using r(1) k(1) by (auto simp del: power_Suc)
  then have "malloc_test_main M = Some (doubled k @ replicate r (2 ^ k))"
    using k(2) half mt_rest_refused [OF assms r(2), of "Suc k"] by (simp add: malloc_test_main_def del: power_Suc)
  then show ?thesis using k(1) r(2) by blast
qed

text \<open>A pool of 13 bytes.\<close>

definition pool13 :: "u64 list \<Rightarrow> u64 \<Rightarrow> bool" where
  "pool13 h n \<longleftrightarrow> sum_list (map unat h) + unat n \<le> 13"

lemma pool13_ok: "allocator_ok 13 pool13"
  by (auto simp: allocator_ok_def pool13_def word_le_nat_alt)

theorem malloc_test_ends_witness:
  "\<exists>k r. k < 63 \<and> malloc_test_main pool13 = Some (doubled k @ replicate r (2 ^ k)) \<and>
    \<not> pool13 (doubled k @ replicate r (2 ^ k)) (2 ^ k)"
  by (rule malloc_test_ends [OF pool13_ok])

text \<open>Smaller blocks can still be had when the program says it can allocate no more: the second loop doubles too.\<close>

lemma malloc_test_leaves: "malloc_test_main pool13 = Some [2, 4, 4] \<and> pool13 [2, 4, 4] 2"
proof -
  have g: "mt_grow pool13 1 [] = Some (8, [2, 4])" by (simp add: mt_grow.simps pool13_def)
  have f: "mt_fill pool13 4 [2, 4] = Some [2, 4, 4]" by (simp add: mt_fill.simps pool13_def)
  have "mt_rest pool13 (2 ^ 3) [2, 4, 4] = Some [2, 4, 4]"
    by (rule mt_rest_refused [OF pool13_ok, of _ 2]) (simp_all add: pool13_def)
  then have "mt_rest pool13 4 [2, 4] = Some [2, 4, 4]"
    unfolding mt_rest.simps [of pool13 4] using f by simp
  then show ?thesis using g by (simp add: malloc_test_main_def pool13_def)
qed

end
