(* ===== verification/Brackets.thy ===== *)
theory Brackets
  imports C_Library
begin

text \<open>
  The bracket generator \<^verbatim>\<open>src/test_brackets.c\<close>: a recursion that prints bracket strings and shares one
  buffer between all its calls. A store outside the buffer is \<open>None\<close>.
\<close>

section \<open>The program\<close>

definition put_char :: "string \<Rightarrow> nat \<Rightarrow> char \<Rightarrow> string option" where
  "put_char str i c = (if i < length str then Some (str[i := c]) else None)"

text \<open>\<^verbatim>\<open>while(nr_right--) bracket_str[i++] = ')'; bracket_str[i] = 0;\<close>\<close>

fun close_all :: "string \<Rightarrow> nat \<Rightarrow> nat \<Rightarrow> string option" where
  "close_all str i 0 = put_char str i NUL"
| "close_all str i (Suc nr_right) = Option.bind (put_char str i CHR '')'') (\<lambda>str. close_all str (i + 1) nr_right)"

text \<open>\<^verbatim>\<open>gen_brackets\<close>: the buffer it leaves and the lines it prints.\<close>

function gen_brackets :: "string \<Rightarrow> nat \<Rightarrow> nat \<Rightarrow> nat \<Rightarrow> (string \<times> string list) option" where
  "gen_brackets str i nr_left nr_right =
     (if nr_left \<noteq> 0 then
        (case put_char str i CHR ''('' of
           None \<Rightarrow> None
         | Some str \<Rightarrow>
             case gen_brackets str (i + 1) (nr_left - 1) nr_right of
               None \<Rightarrow> None
             | Some (str, out) \<Rightarrow>
                 if nr_left < nr_right then
                   (case put_char str i CHR '')'' of
                      None \<Rightarrow> None
                    | Some str \<Rightarrow>
                        case gen_brackets str (i + 1) nr_left (nr_right - 1) of
                          None \<Rightarrow> None
                        | Some (str, out') \<Rightarrow> Some (str, out @ out'))
                 else Some (str, out))
      else map_option (\<lambda>str. (str, [takeWhile (\<lambda>c. c \<noteq> NUL) str])) (close_all str i nr_right))"
  by pat_completeness auto
termination by (relation "measure (\<lambda>(str, i, l, r). l + r)") auto

declare gen_brackets.simps [simp del]

text \<open>
  \<^verbatim>\<open>main\<close>, for a number up to \<open>2 ^ 30\<close>, where the size does not overflow. A negative number gives
  a null pointer that is filled at once.
\<close>

definition brackets_main :: "int \<Rightarrow> string list \<Rightarrow> string list option" where
  "brackets_main junk argv =
     (if length argv < 2 then Some []
      else
        let nr_brackets = (case scan_int (argv ! 1) of None \<Rightarrow> junk | Some (w, _) \<Rightarrow> sint w) in
        if nr_brackets < 0 then None
        else map_option snd
               (gen_brackets (replicate (nat (nr_brackets * 2 + 1)) NUL) 0 (nat nr_brackets) (nat nr_brackets)))"

section \<open>The strings to print\<close>

text \<open>A string is valid after \<open>d\<close> open brackets when it closes them and its own in order.\<close>

fun valid :: "nat \<Rightarrow> string \<Rightarrow> bool" where
  "valid d [] \<longleftrightarrow> d = 0"
| "valid d (c # w) \<longleftrightarrow> (if c = CHR ''('' then valid (Suc d) w else c = CHR '')'' \<and> 0 < d \<and> valid (d - 1) w)"

definition opens :: "string \<Rightarrow> nat" where
  "opens w = length (filter (\<lambda>c. c = CHR ''('') w)"

text \<open>The order of the recursion, without the buffer.\<close>

function gens :: "nat \<Rightarrow> nat \<Rightarrow> string list" where
  "gens l r =
     (if l = 0 then [replicate r CHR '')'']
      else map ((#) CHR ''('') (gens (l - 1) r) @ (if l < r then map ((#) CHR '')'') (gens l (r - 1)) else []))"
  by pat_completeness auto
termination by (relation "measure (\<lambda>(l, r). l + r)") auto

declare gens.simps [simp del]

lemma valid_closes: "opens w = 0 \<Longrightarrow> valid d w \<longleftrightarrow> w = replicate d CHR '')''"
proof (induction w arbitrary: d)
  case (Cons c w)
  then have "c \<noteq> CHR ''(''" "opens w = 0" by (auto simp: opens_def split: if_splits)
  then show ?case using Cons.IH [of "d - 1"] by (cases d) auto
qed (auto simp: opens_def)

lemma set_gens: "l \<le> r \<Longrightarrow> set (gens l r) = {w. valid (r - l) w \<and> opens w = l}"
proof (induction l r rule: gens.induct)
  case (1 l r)
  show ?case
  proof (cases "l = 0")
    case True
    have "opens (replicate r CHR '')'') = 0" by (simp add: opens_def)
    then have "w = replicate r CHR '')'' \<longleftrightarrow> valid r w \<and> opens w = 0" for w using valid_closes [of w r] by auto
    then show ?thesis using True by (subst gens.simps) auto
  next
    case False
    have open1: "CHR ''('' # w \<in> {w. valid (r - l) w \<and> opens w = l} \<longleftrightarrow> w \<in> set (gens (l - 1) r)" for w
      using "1.IH"(1) [OF False] "1.prems" False by (auto simp: opens_def Suc_diff_le)
    have close1: "CHR '')'' # w \<in> {w. valid (r - l) w \<and> opens w = l} \<longleftrightarrow> l < r \<and> w \<in> set (gens l (r - 1))" for w
    proof (cases "l < r")
      case True
      then show ?thesis using "1.IH"(2) [OF False True] by (auto simp: opens_def diff_commute)
    qed (use "1.prems" in simp)
    have shape: "\<exists>u. w = CHR ''('' # u \<or> w = CHR '')'' # u" if "w \<in> {w. valid (r - l) w \<and> opens w = l}" for w
      using that False by (cases w) (auto simp: opens_def split: if_splits)
    have "w \<in> set (gens l r) \<longleftrightarrow> w \<in> {w. valid (r - l) w \<and> opens w = l}" for w
    proof
      assume "w \<in> set (gens l r)"
      then have "(\<exists>u. w = CHR ''('' # u \<and> u \<in> set (gens (l - 1) r)) \<or> (\<exists>u. w = CHR '')'' # u \<and> l < r \<and> u \<in> set (gens l (r - 1)))"
        using False by (subst (asm) gens.simps) (auto split: if_splits)
      then show "w \<in> {w. valid (r - l) w \<and> opens w = l}" using open1 close1 by blast
    next
      assume w: "w \<in> {w. valid (r - l) w \<and> opens w = l}"
      then obtain u where "w = CHR ''('' # u \<or> w = CHR '')'' # u" using shape by blast
      then show "w \<in> set (gens l r)"
        using w open1 [of u] close1 [of u] False by (subst gens.simps) auto
    qed
    then show ?thesis by blast
  qed
qed

lemma distinct_gens: "distinct (gens l r)"
proof (induction l r rule: gens.induct)
  case (1 l r)
  then show ?case by (subst gens.simps) (auto simp: distinct_map)
qed

section \<open>The buffer\<close>

lemma close_all_prints:
  assumes "i + r < length str" "NUL \<notin> set (take i str)"
  shows "\<exists>str'. close_all str i r = Some str' \<and> length str' = length str \<and> take i str' = take i str \<and>
    takeWhile (\<lambda>c. c \<noteq> NUL) str' = take i str @ replicate r CHR '')''"
  using assms
proof (induction r arbitrary: str i)
  case 0
  have "str[i := NUL] = take i str @ NUL # drop (Suc i) str" using 0 by (simp add: upd_conv_take_nth_drop)
  moreover have "takeWhile (\<lambda>c. c \<noteq> NUL) (take i str @ NUL # drop (Suc i) str) = take i str"
    using 0(2) by (subst takeWhile_append2) auto
  ultimately show ?case using 0 by (auto simp: put_char_def)
next
  case (Suc r)
  let ?str = "str[i := CHR '')'']"
  have t: "take (Suc i) ?str = take i str @ [CHR '')'']" using Suc.prems(1) by (simp add: take_Suc_conv_app_nth)
  obtain str' where s: "close_all ?str (Suc i) r = Some str'" "length str' = length ?str" "take (Suc i) str' = take (Suc i) ?str"
      "takeWhile (\<lambda>c. c \<noteq> NUL) str' = take (Suc i) ?str @ replicate r CHR '')''"
    using Suc.IH [of "Suc i" ?str] Suc.prems t by auto
  have "take i str' = take i (take (Suc i) str')" by (simp add: min_def)
  then have "take i str' = take i str" using s(3) t Suc.prems(1) by simp
  then show ?case using s t Suc.prems(1) by (simp add: put_char_def)
qed

lemma put_char_take:
  "i < length str \<Longrightarrow> take (Suc i) (str[i := c]) = take i str @ [c]"
  by (simp add: take_Suc_conv_app_nth)

lemma gen_brackets_prints:
  assumes "i + l + r < length str" "NUL \<notin> set (take i str)" "l \<le> r"
  shows "\<exists>str'. gen_brackets str i l r = Some (str', map ((@) (take i str)) (gens l r)) \<and>
    length str' = length str \<and> take i str' = take i str"
  using assms
proof (induction "l + r" arbitrary: str i l r rule: less_induct)
  case less
  show ?case
  proof (cases "l = 0")
    case True
    then obtain str' where "close_all str i r = Some str'" "length str' = length str" "take i str' = take i str"
        "takeWhile (\<lambda>c. c \<noteq> NUL) str' = take i str @ replicate r CHR '')''"
      using close_all_prints [of i r str] less.prems by auto
    then show ?thesis using True by (subst gen_brackets.simps, subst gens.simps) simp
  next
    case False
    let ?s1 = "str[i := CHR ''('']"
    have i: "i < length str" using less.prems(1) by simp
    have lr1: "l - 1 \<le> r" using less.prems(3) by simp
    have t1: "take (Suc i) ?s1 = take i str @ [CHR ''('']" by (rule put_char_take [OF i])
    obtain s2 where s2: "gen_brackets ?s1 (Suc i) (l - 1) r = Some (s2, map ((@) (take (Suc i) ?s1)) (gens (l - 1) r))"
        "length s2 = length str" "take (Suc i) s2 = take (Suc i) ?s1"
      using less.hyps [of "l - 1" r "Suc i" ?s1] less.prems lr1 False t1 by auto
    have "take i s2 = take i (take (Suc i) s2)" by (simp add: min_def)
    then have t2: "take i s2 = take i str" using s2(3) t1 i by simp
    show ?thesis
    proof (cases "l < r")
      case lr: True
      let ?s3 = "s2[i := CHR '')'']"
      have lr2: "l \<le> r - 1" using lr by simp
      have t3: "take (Suc i) ?s3 = take i str @ [CHR '')'']" using put_char_take [of i s2] i s2(2) t2 by simp
      obtain s4 where s4: "gen_brackets ?s3 (Suc i) l (r - 1) = Some (s4, map ((@) (take (Suc i) ?s3)) (gens l (r - 1)))"
          "length s4 = length str" "take (Suc i) s4 = take (Suc i) ?s3"
        using less.hyps [of l "r - 1" "Suc i" ?s3] less.prems s2(2) lr lr2 t3 by auto
      have "take i s4 = take i (take (Suc i) s4)" by (simp add: min_def)
      then have "take i s4 = take i str" using s4(3) t3 i by simp
      then show ?thesis
        using False lr i s2(1,2) s4(1,2) t1 t3
        by (subst gen_brackets.simps, subst gens.simps) (simp add: put_char_def comp_def)
    next
      case lr: False
      then show ?thesis
        using False i s2(1,2) t1 t2 by (subst gen_brackets.simps, subst gens.simps) (simp add: put_char_def comp_def)
    qed
  qed
qed

section \<open>Property\<close>

text \<open>
  Given a number \<open>n\<close>, the program prints every correctly nested string of \<open>n\<close> pairs of
  brackets exactly once and nothing else, and never stores outside its buffer.
\<close>

theorem brackets_main_prints:
  assumes "n < 2 ^ 30"
  shows "\<exists>out. brackets_main junk [prog, int_string (int n)] = Some out \<and> distinct out \<and>
    set out = {w. valid 0 w \<and> opens w = n}"
proof -
  have "scan_int (int_string (int n)) = Some (word_of_int (int n), [])"
    using scan_int_int_string [where v = "int n" and r = "[]"] assms by (simp add: no_digit_def)
  moreover have "sint (word_of_int (int n) :: u32) = int n"
    by (rule sint_word_of_int) (use assms in simp_all)
  moreover have "nat (int n * 2 + 1) = 2 * n + 1" by simp
  moreover obtain str' where "gen_brackets (replicate (2 * n + 1) NUL) 0 n n = Some (str', map ((@) []) (gens n n))"
    using gen_brackets_prints [of 0 n n "replicate (2 * n + 1) NUL"] by auto
  moreover have "map ((@) []) (gens n n) = gens n n" by (rule map_idI) simp
  ultimately have "brackets_main junk [prog, int_string (int n)] = Some (gens n n)"
    by (simp add: brackets_main_def Let_def)
  then show ?thesis using distinct_gens [of n n] set_gens [of n n] by simp
qed

theorem brackets_main_prints_witness:
  "\<exists>out. brackets_main 0 [''test_brackets'', int_string (int 3)] = Some out \<and> distinct out \<and>
    set out = {w. valid 0 w \<and> opens w = 3}"
  by (rule brackets_main_prints) simp

end
