(* ===== verification/Bitarray.thy ===== *)
theory Bitarray
  imports Prelude
begin

unbundle bit_operations_syntax

text \<open>
  The bit array of \<^verbatim>\<open>src/test_bitarray.c\<close> and its test program. An access outside the array is \<open>None\<close>;
  the arithmetic of a byte is done on the bits it keeps. Sizes given to \<open>bitarray_create\<close> are not negative.
\<close>

section \<open>The program\<close>

record bitarray =
  nr_bits :: int
  ba_array :: "u8 list"

definition BIT_IDX :: "int \<Rightarrow> int" where
  "BIT_IDX b = drop_bit 3 b"

definition BIT_POS :: "int \<Rightarrow> nat" where
  "BIT_POS b = nat (b AND 7)"

definition BITMASK :: "nat \<Rightarrow> u8" where
  "BITMASK b = push_bit b 1 - 1"

definition byte_at :: "u8 list \<Rightarrow> int \<Rightarrow> u8 option" where
  "byte_at arr i = (if 0 \<le> i \<and> i < int (length arr) then Some (arr ! nat i) else None)"

definition bitarray_create :: "int \<Rightarrow> bitarray option" where
  "bitarray_create n = (if n AND 0x7 \<noteq> 0 then None else Some \<lparr>nr_bits = n, ba_array = replicate (nat (drop_bit 3 n)) 0\<rparr>)"

definition EINVAL :: int where
  "EINVAL = 22"

definition bitarray_set :: "bitarray \<Rightarrow> int \<Rightarrow> (int \<times> bitarray) option" where
  "bitarray_set ba b =
     (if b > nr_bits ba then Some (- EINVAL, ba)
      else case byte_at (ba_array ba) (BIT_IDX b) of
             None \<Rightarrow> None
           | Some v \<Rightarrow> Some (0, ba\<lparr>ba_array := (ba_array ba)[nat (BIT_IDX b) := v OR push_bit (BIT_POS b) 1]\<rparr>))"

definition bitarray_get :: "bitarray \<Rightarrow> int \<Rightarrow> int option" where
  "bitarray_get ba b =
     (if b > nr_bits ba then Some (- EINVAL)
      else case byte_at (ba_array ba) (BIT_IDX b) of
             None \<Rightarrow> None
           | Some v \<Rightarrow> Some (if v AND push_bit (BIT_POS b) 1 \<noteq> 0 then 1 else 0))"

text \<open>The two loops of \<^verbatim>\<open>bitarray_shift\<close>, from byte \<open>i\<close> on.\<close>

function shr_loop :: "int \<Rightarrow> nat \<Rightarrow> int \<Rightarrow> u8 list \<Rightarrow> u8 list option" where
  "shr_loop width rest i arr =
     (if i < width then
        (case (byte_at arr (i + 1), byte_at arr i) of
           (Some r, Some v) \<Rightarrow>
             let bits_shift = r AND BITMASK rest;
                 v = drop_bit rest v AND BITMASK rest OR push_bit (8 - rest) bits_shift
             in shr_loop width rest (i + 1) (arr[nat i := v])
         | _ \<Rightarrow> None)
      else Some arr)"
  by pat_completeness auto
termination by (relation "measure (\<lambda>(width, rest, i, arr). nat (width - i))") auto

function shl_loop :: "nat \<Rightarrow> int \<Rightarrow> u8 list \<Rightarrow> u8 list option" where
  "shl_loop rest i arr =
     (if i \<ge> 0 then
        (case (byte_at arr (i - 1), byte_at arr i) of
           (Some l, Some v) \<Rightarrow>
             let bitmask = push_bit (8 - rest) (BITMASK rest);
                 bits_shift = l AND bitmask;
                 v = push_bit rest v AND bitmask OR drop_bit (8 - rest) bits_shift
             in shl_loop rest (i - 1) (arr[nat i := v])
         | _ \<Rightarrow> None)
      else Some arr)"
  by pat_completeness auto
termination by (relation "measure (\<lambda>(rest, i, arr). nat (i + 1))") auto

declare shr_loop.simps [simp del] shl_loop.simps [simp del]

definition bitarray_shift :: "bitarray \<Rightarrow> int \<Rightarrow> int \<Rightarrow> (int \<times> bitarray) option" where
  "bitarray_shift ba dir bits =
     (let width = BIT_IDX (nr_bits ba);
          sw = (if BIT_IDX bits > width then width else BIT_IDX bits);
          rest = BIT_POS bits
      in if bits \<ge> width then Some (0, ba\<lparr>ba_array := memset (ba_array ba) 0 0 (nat width)\<rparr>)
         else if dir = 1 then
           (case shr_loop width rest sw (ba_array ba) of
              None \<Rightarrow> None
            | Some arr \<Rightarrow>
                let arr = memmove arr 0 (nat sw) (nat (width - sw));
                    arr = memset arr (nat (width - 1 - sw)) 0 (nat sw)
                in Some (0, ba\<lparr>ba_array := arr\<rparr>))
         else
           (case shl_loop rest (width - sw - 1) (ba_array ba) of
              None \<Rightarrow> None
            | Some arr \<Rightarrow>
                let arr = memmove arr (nat sw) 0 (nat (width - sw));
                    arr = memset arr 0 0 (nat sw)
                in Some (0, ba\<lparr>ba_array := arr\<rparr>)))"

definition BSIZE :: int where
  "BSIZE = 128"

text \<open>The loop of \<^verbatim>\<open>main\<close> over the bits; \<open>Inl\<close> is its return code on a failure.\<close>

fun bits_loop :: "(int \<Rightarrow> nat) \<Rightarrow> int list \<Rightarrow> bitarray \<Rightarrow> (int + bitarray) option" where
  "bits_loop rnd [] ba = Some (Inr ba)"
| "bits_loop rnd (b # bs) ba =
     (case (if odd (rnd b) then bitarray_set ba b else Some (0, ba)) of
        None \<Rightarrow> None
      | Some (rc, ba) \<Rightarrow>
          if rc < 0 then Some (Inl (-1))
          else let bitset = (if odd (rnd b) then 1 else 0) in
            (case bitarray_get ba b of
               None \<Rightarrow> None
             | Some rc \<Rightarrow>
                 if rc < 0 then Some (Inl (-1))
                 else if bitset \<noteq> rc then Some (Inl (-1))
                 else bits_loop rnd bs ba))"

text \<open>\<^verbatim>\<open>main\<close>: the return code and the bytes of the arrays printed, the highest first.\<close>

definition bitarray_main :: "(int \<Rightarrow> nat) \<Rightarrow> (int \<times> u8 list list) option" where
  "bitarray_main rnd =
     (case bitarray_create BSIZE of
        None \<Rightarrow> None
      | Some ba \<Rightarrow>
          (case bits_loop rnd [0..BSIZE - 1] ba of
             None \<Rightarrow> None
           | Some (Inl rc) \<Rightarrow> Some (rc, [])
           | Some (Inr ba) \<Rightarrow>
               (case bitarray_shift ba 0 128 of
                  None \<Rightarrow> None
                | Some (_, ba') \<Rightarrow> Some (0, [rev (ba_array ba), rev (ba_array ba')]))))"

section \<open>Bits\<close>

text \<open>The array as a set of bits.\<close>

definition ba_ok :: "bitarray \<Rightarrow> bool" where
  "ba_ok ba \<longleftrightarrow> 0 \<le> nr_bits ba \<and> nr_bits ba = 8 * int (length (ba_array ba))"

definition ba_bit :: "bitarray \<Rightarrow> int \<Rightarrow> bool" where
  "ba_bit ba b = bit (ba_array ba ! nat (b div 8)) (nat (b mod 8))"

lemma BIT_IDX_div: "BIT_IDX b = b div 8"
  by (simp add: BIT_IDX_def drop_bit_eq_div)

lemma BIT_POS_mod: "BIT_POS b = nat (b mod 8)"
proof -
  have "b AND 7 = take_bit 3 b" by (simp add: take_bit_eq_mask mask_eq_exp_minus_1)
  then show ?thesis by (simp add: BIT_POS_def take_bit_eq_mod)
qed

lemma and_push_1: "(v :: u8) AND push_bit n 1 \<noteq> 0 \<longleftrightarrow> bit v n"
  by (simp add: push_bit_of_1 and_exp_eq_0_iff_not_bit)

lemma byte_at_ok:
  assumes "ba_ok ba" "0 \<le> b" "b < nr_bits ba"
  shows "byte_at (ba_array ba) (BIT_IDX b) = Some (ba_array ba ! nat (b div 8))" "nat (b div 8) < length (ba_array ba)"
proof -
  have "b div 8 < int (length (ba_array ba))" using assms by (simp add: ba_ok_def)
  then show "byte_at (ba_array ba) (BIT_IDX b) = Some (ba_array ba ! nat (b div 8))" "nat (b div 8) < length (ba_array ba)"
    using assms(2) by (simp_all add: byte_at_def BIT_IDX_div nat_less_iff)
qed

lemma bitarray_get_ok:
  "ba_ok ba \<Longrightarrow> 0 \<le> b \<Longrightarrow> b < nr_bits ba \<Longrightarrow> bitarray_get ba b = Some (if ba_bit ba b then 1 else 0)"
  using byte_at_ok [of ba b] and_push_1 [of "ba_array ba ! nat (b div 8)" "nat (b mod 8)"]
  by (simp add: bitarray_get_def BIT_POS_mod ba_bit_def nat_less_iff)

lemma bitarray_set_ok:
  assumes "ba_ok ba" "0 \<le> b" "b < nr_bits ba"
  shows "\<exists>ba'. bitarray_set ba b = Some (0, ba') \<and> ba_ok ba' \<and> nr_bits ba' = nr_bits ba \<and>
    (\<forall>c. 0 \<le> c \<longrightarrow> c < nr_bits ba \<longrightarrow> ba_bit ba' c = (c = b \<or> ba_bit ba c))"
proof -
  note at = byte_at_ok [OF assms]
  let ?i = "nat (b div 8)"
  let ?v = "ba_array ba ! ?i OR push_bit (nat (b mod 8)) 1"
  let ?ba = "ba\<lparr>ba_array := (ba_array ba)[?i := ?v]\<rparr>"
  have "bitarray_set ba b = Some (0, ?ba)"
    using at(1) assms(3) by (simp add: bitarray_set_def BIT_IDX_div BIT_POS_mod)
  moreover have "ba_bit ?ba c = (c = b \<or> ba_bit ba c)" if "0 \<le> c" "c < nr_bits ba" for c
  proof (cases "c div 8 = b div 8")
    case True
    have "nat (c mod 8) < 8" by (simp add: nat_less_iff)
    then have "ba_bit ?ba c = (nat (b mod 8) = nat (c mod 8) \<or> ba_bit ba c)"
      using True at(2) by (auto simp: ba_bit_def bit_simps)
    moreover have "nat (b mod 8) = nat (c mod 8) \<longleftrightarrow> c = b"
      using True by (metis div_mult_mod_eq nat_eq_iff pos_mod_sign zero_less_numeral)
    ultimately show ?thesis by simp
  next
    case False
    then have "nat (c div 8) \<noteq> ?i" using that(1) assms(2) by (simp add: nat_eq_iff pos_imp_zdiv_nonneg_iff)
    then show ?thesis using False by (auto simp: ba_bit_def)
  qed
  ultimately show ?thesis using assms(1) by (intro exI [of _ ?ba]) (simp add: ba_ok_def)
qed

text \<open>Bit \<^verbatim>\<open>nr_bits\<close> itself passes the check and lies outside the array.\<close>

lemma bitarray_off_by_one: "ba_ok ba \<Longrightarrow> bitarray_set ba (nr_bits ba) = None \<and> bitarray_get ba (nr_bits ba) = None"
  by (simp add: bitarray_set_def bitarray_get_def byte_at_def BIT_IDX_div ba_ok_def)

section \<open>Shifting\<close>

lemma shr_loop_leaves:
  "i < width \<Longrightarrow> width = int (length arr) \<Longrightarrow> shr_loop width rest i arr = None"
proof (induction "nat (width - i)" arbitrary: i arr rule: less_induct)
  case less
  have "byte_at arr (i + 1) = None" if "i + 1 = width" using that less.prems by (simp add: byte_at_def)
  moreover have "shr_loop width rest (i + 1) (arr[k := v]) = None" if "i + 1 \<noteq> width" for k v
    using less.hyps [of "i + 1" "arr[k := v]"] less.prems that by simp
  ultimately show ?case using less.prems
    by (cases "i + 1 = width"; subst shr_loop.simps) (simp_all add: Let_def split: option.split)
qed

lemma shl_loop_leaves: "0 \<le> i \<Longrightarrow> shl_loop rest i arr = None"
proof (induction "nat i" arbitrary: i arr rule: less_induct)
  case less
  have "byte_at arr (i - 1) = None" if "i = 0" using that by (simp add: byte_at_def)
  moreover have "shl_loop rest (i - 1) (arr[k := v]) = None" if "i \<noteq> 0" for k v
    using less.hyps [of "i - 1" "arr[k := v]"] less.prems that by simp
  ultimately show ?case using less.prems
    by (cases "i = 0"; subst shl_loop.simps) (simp_all add: Let_def split: option.split)
qed

text \<open>
  A shift by at least the number of bytes clears the array; every shift by less reads a byte
  outside it.
\<close>

lemma bitarray_shift_cases:
  assumes "ba_ok ba" "0 \<le> bits"
  shows "bitarray_shift ba dir bits =
    (if int (length (ba_array ba)) \<le> bits then Some (0, ba\<lparr>ba_array := replicate (length (ba_array ba)) 0\<rparr>) else None)"
proof (cases "int (length (ba_array ba)) \<le> bits")
  case True
  then show ?thesis using assms(1) by (simp add: bitarray_shift_def Let_def BIT_IDX_div ba_ok_def memset_def)
next
  case False
  let ?w = "int (length (ba_array ba))"
  have w: "BIT_IDX (nr_bits ba) = ?w" using assms(1) by (simp add: BIT_IDX_div ba_ok_def)
  have sw: "bits div 8 < ?w" using False assms(2) by linarith
  show ?thesis
  proof (cases "dir = 1")
    case True
    have "shr_loop ?w (BIT_POS bits) (bits div 8) (ba_array ba) = None" using sw by (rule shr_loop_leaves) simp
    then show ?thesis using False True sw w by (simp add: bitarray_shift_def Let_def BIT_IDX_div [of bits])
  next
    case dir: False
    have "shl_loop (BIT_POS bits) (?w - bits div 8 - 1) (ba_array ba) = None" using sw by (intro shl_loop_leaves) simp
    then show ?thesis using False dir sw w by (simp add: bitarray_shift_def Let_def BIT_IDX_div [of bits])
  qed
qed

section \<open>Property\<close>

definition bits_drawn :: "(int \<Rightarrow> nat) \<Rightarrow> int \<Rightarrow> bitarray \<Rightarrow> bool" where
  "bits_drawn rnd k ba \<longleftrightarrow> ba_ok ba \<and> nr_bits ba = 128 \<and>
     (\<forall>c. 0 \<le> c \<longrightarrow> c < 128 \<longrightarrow> ba_bit ba c = (c < k \<and> odd (rnd c)))"

lemma bits_drawn_set:
  assumes "bits_drawn rnd k ba" "0 \<le> k" "k < 128" "odd (rnd k)"
  shows "\<exists>ba'. bitarray_set ba k = Some (0, ba') \<and> bits_drawn rnd (k + 1) ba'"
proof -
  obtain ba' where b: "bitarray_set ba k = Some (0, ba')" "ba_ok ba'" "nr_bits ba' = 128"
      "\<forall>c. 0 \<le> c \<longrightarrow> c < 128 \<longrightarrow> ba_bit ba' c = (c = k \<or> ba_bit ba c)"
    using bitarray_set_ok [of ba k] assms by (auto simp: bits_drawn_def)
  have "c = k \<or> c < k \<and> odd (rnd c) \<longleftrightarrow> c < k + 1 \<and> odd (rnd c)" for c using assms(4) by auto
  then have "bits_drawn rnd (k + 1) ba'" using b(2,3,4) assms(1) by (simp add: bits_drawn_def)
  then show ?thesis using b(1) by blast
qed

lemma bits_drawn_skip:
  assumes "bits_drawn rnd k ba" "even (rnd k)"
  shows "bits_drawn rnd (k + 1) ba"
proof -
  have "c < k \<and> odd (rnd c) \<longleftrightarrow> c < k + 1 \<and> odd (rnd c)" for c
    using assms(2) by (cases "c = k") auto
  then show ?thesis using assms(1) by (simp add: bits_drawn_def)
qed

lemma bits_loop_ok:
  assumes "0 \<le> k" "k \<le> 128" "bits_drawn rnd k ba"
  shows "\<exists>ba'. bits_loop rnd [k..127] ba = Some (Inr ba') \<and> bits_drawn rnd 128 ba'"
  using assms
proof (induction "nat (128 - k)" arbitrary: k ba)
  case 0
  then show ?case by simp
next
  case (Suc n)
  then have k: "k < 128" "[k..127] = k # [k + 1..127]" by (simp_all add: upto.simps [of k])
  obtain ba' where b: "(if odd (rnd k) then bitarray_set ba k else Some (0, ba)) = Some (0, ba')" "bits_drawn rnd (k + 1) ba'"
    using bits_drawn_set [OF Suc.prems(3,1) k(1)] bits_drawn_skip [OF Suc.prems(3)] by (cases "odd (rnd k)") auto
  have "bitarray_get ba' k = Some (if odd (rnd k) then 1 else 0)"
    using bitarray_get_ok [of ba' k] b(2) Suc.prems(1) k(1) by (simp add: bits_drawn_def)
  then have "bits_loop rnd [k..127] ba = bits_loop rnd [k + 1..127] ba'"
    using b(1) by (simp add: k(2))
  then show ?case using Suc.hyps(1) [of "k + 1" ba'] Suc.hyps(2) Suc.prems(1) k(1) b(2) by simp
qed

text \<open>
  The test program of the bit array never fails, whatever its random numbers: it prints
  an array of 16 bytes whose bits are the parities of the numbers drawn, and then, shifted by 128
  bits, an array of zeros.
\<close>

theorem bitarray_main_passes:
  "\<exists>arr. bitarray_main rnd = Some (0, [rev arr, replicate 16 0]) \<and> length arr = 16 \<and>
    map (\<lambda>b. bit (arr ! (b div 8)) (b mod 8)) [0..<128] = map (\<lambda>b. odd (rnd (int b))) [0..<128]"
proof -
  let ?ba = "\<lparr>nr_bits = 128, ba_array = replicate 16 0\<rparr>"
  have c: "bitarray_create BSIZE = Some ?ba" by (simp add: bitarray_create_def BSIZE_def drop_bit_eq_div)
  have "bits_drawn rnd 0 ?ba"
    by (auto simp: bits_drawn_def ba_ok_def ba_bit_def nat_less_iff)
  then obtain ba where ba: "bits_loop rnd [0..127] ?ba = Some (Inr ba)" "bits_drawn rnd 128 ba"
    using bits_loop_ok [of 0 rnd ?ba] by auto
  have l: "length (ba_array ba) = 16" "ba_ok ba" using ba(2) by (auto simp: bits_drawn_def ba_ok_def)
  have "bitarray_shift ba 0 128 = Some (0, ba\<lparr>ba_array := replicate 16 0\<rparr>)"
    using bitarray_shift_cases [of ba 128 0] l by simp
  then have m: "bitarray_main rnd = Some (0, [rev (ba_array ba), replicate 16 0])"
    using c ba(1) by (simp add: bitarray_main_def BSIZE_def)
  have "bit (ba_array ba ! (b div 8)) (b mod 8) = odd (rnd (int b))" if "b < 128" for b
  proof -
    have "ba_bit ba (int b) = odd (rnd (int b))" using ba(2) that by (simp add: bits_drawn_def)
    then show ?thesis by (simp add: ba_bit_def nat_div_distrib nat_mod_distrib)
  qed
  then show ?thesis using m l(1) by (intro exI [of _ "ba_array ba"]) simp
qed

end
