(* ===== verification/Myhash.thy ===== *)
theory Myhash
  imports Prelude
begin

unbundle bit_operations_syntax

text \<open>
  The chained hash table of \<^verbatim>\<open>src/test_myhash.c\<close>. A slot keeps its used hooks and their capacity; a slot
  of freshly allocated memory holds nothing (\<open>None\<close>). \<open>mem n\<close> says whether \<^verbatim>\<open>malloc\<close> of \<open>n\<close> bytes succeeds.
  The result \<open>None\<close> is a read of memory that was never written, an access outside an array, a
  division by zero, an \<^verbatim>\<open>int\<close> that would pass its largest value, or a recursion that does not end.
\<close>

section \<open>The table\<close>

record 'v slot =
  chain_hooks :: "(u32 \<times> 'v) list"
  nr_chain_hooks :: nat

type_synonym 'v hash_table = "'v slot option list"

definition slot_init :: "nat \<Rightarrow> 'v slot" where
  "slot_init nr = \<lparr>chain_hooks = [], nr_chain_hooks = nr\<rparr>"

definition hash_table_create :: "nat \<Rightarrow> nat \<Rightarrow> 'v hash_table" where
  "hash_table_create nr_slots nr_hooks = replicate nr_slots (Some (slot_init nr_hooks))"

text \<open>The largest \<^verbatim>\<open>int\<close>; every counter of the table is one.\<close>

definition INT_MAX_hash :: nat where
  "INT_MAX_hash = 2147483647"

definition slot_usage :: "'v slot option \<Rightarrow> nat option" where
  "slot_usage sl = (case sl of
     None \<Rightarrow> None
   | Some s \<Rightarrow> if nr_chain_hooks s = 0 \<or> length (chain_hooks s) * 100 > INT_MAX_hash then None
       else Some (length (chain_hooks s) * 100 div nr_chain_hooks s))"

fun usage_loop :: "'v hash_table \<Rightarrow> nat \<Rightarrow> nat option" where
  "usage_loop [] usage = Some usage"
| "usage_loop (sl # sls) usage = (case slot_usage sl of
     None \<Rightarrow> None
   | Some u \<Rightarrow> if usage + u > INT_MAX_hash then None else usage_loop sls (usage + u))"

definition hash_table_usage :: "'v hash_table \<Rightarrow> nat option" where
  "hash_table_usage ht = (if ht = [] then None else map_option (\<lambda>u. u div length ht) (usage_loop ht 0))"

definition hash_key :: "u32 \<Rightarrow> nat \<Rightarrow> nat" where
  "hash_key key nr_slots = unat (key AND (word_of_nat nr_slots - 1))"

text \<open>The new table of \<^verbatim>\<open>hash_table_expand\<close>, before the old hooks are put into it again, and those hooks.\<close>

definition expanded :: "'v hash_table \<Rightarrow> 'v hash_table" where
  "expanded ht = replicate (length ht * 2) None"

definition all_hooks :: "'v hash_table \<Rightarrow> (u32 \<times> 'v) list" where
  "all_hooks ht = concat (map (\<lambda>sl. case sl of None \<Rightarrow> [] | Some s \<Rightarrow> chain_hooks s) ht)"

definition slot_chain_hooks_expand :: "'v slot \<Rightarrow> 'v slot option" where
  "slot_chain_hooks_expand s =
     (if nr_chain_hooks s * 2 > INT_MAX_hash then None else Some (s\<lparr>nr_chain_hooks := nr_chain_hooks s * 2\<rparr>))"

text \<open>
  \<^verbatim>\<open>hash_table_insert\<close>, with what is still to be inserted as a list: when the table has to grow, its
  hooks are inserted again, then the pair itself. When memory runs out, the insertion calls itself
  with everything as it was.
\<close>

partial_function (option) hash_inserts ::
  "(nat \<Rightarrow> bool) \<Rightarrow> 'v hash_table \<Rightarrow> (u32 \<times> 'v) list \<Rightarrow> 'v hash_table option" where
  "hash_inserts mem ht todo =
     (case todo of
        [] \<Rightarrow> Some ht
      | (key, data) # rest \<Rightarrow>
          let slot_i = hash_key key (length ht) in
          if length ht \<le> slot_i then None
          else (case ht ! slot_i of
                  None \<Rightarrow> None
                | Some slt \<Rightarrow>
                    if length (chain_hooks slt) = nr_chain_hooks slt then
                      (case hash_table_usage ht of
                         None \<Rightarrow> None
                       | Some usage \<Rightarrow>
                           if usage > 90 then
                             if length ht * 2 > INT_MAX_hash then None
                             else if mem (length ht * 2 * 16) then hash_inserts mem (expanded ht) (all_hooks ht @ todo)
                             else hash_inserts mem ht todo
                           else
                             if mem (16 * nr_chain_hooks slt * 2) then
                               (case slot_chain_hooks_expand slt of
                                  None \<Rightarrow> None
                                | Some slt' \<Rightarrow> hash_inserts mem (ht[slot_i := Some slt']) todo)
                             else hash_inserts mem ht todo)
                    else
                      hash_inserts mem (ht[slot_i := Some (slt\<lparr>chain_hooks := chain_hooks slt @ [(key, data)]\<rparr>)]) rest))"

definition hash_table_insert :: "(nat \<Rightarrow> bool) \<Rightarrow> 'v hash_table \<Rightarrow> u32 \<Rightarrow> 'v \<Rightarrow> 'v hash_table option" where
  "hash_table_insert mem ht key data = hash_inserts mem ht [(key, data)]"

section \<open>The invariant\<close>

definition slot_ok :: "nat \<Rightarrow> nat \<Rightarrow> 'v slot \<Rightarrow> bool" where
  "slot_ok n i s \<longleftrightarrow> 0 < nr_chain_hooks s \<and> nr_chain_hooks s \<le> INT_MAX_hash \<and> length (chain_hooks s) \<le> nr_chain_hooks s \<and>
     list_all (\<lambda>kd. hash_key (fst kd) n = i) (chain_hooks s)"

definition table_ok :: "'v hash_table \<Rightarrow> bool" where
  "table_ok ht \<longleftrightarrow> (\<exists>b<31. length ht = 2 ^ b) \<and> (\<forall>i<length ht. \<exists>s. ht ! i = Some s \<and> slot_ok (length ht) i s)"

text \<open>The pairs in the table.\<close>

definition entries :: "'v hash_table \<Rightarrow> (u32 \<times> 'v) multiset" where
  "entries ht = mset (all_hooks ht)"

lemma hash_key_less: "b < 32 \<Longrightarrow> hash_key key (2 ^ b) < 2 ^ b"
proof -
  assume b: "b < 32"
  have m: "word_of_nat (2 ^ b) - 1 = (mask b :: u32)" by (simp add: mask_eq_exp_minus_1)
  have "unat (key AND mask b) = unat (take_bit b key)" by (simp add: take_bit_eq_mask)
  also have "\<dots> = take_bit b (unat key)" by (simp add: unsigned_take_bit_eq)
  also have "\<dots> < 2 ^ b" by simp
  finally show ?thesis unfolding hash_key_def m .
qed

lemma table_okD:
  assumes "table_ok ht"
  shows "hash_key key (length ht) < length ht" "ht \<noteq> []"
    and "i < length ht \<Longrightarrow> \<exists>s. ht ! i = Some s \<and> slot_ok (length ht) i s"
  using assms hash_key_less by (auto simp: table_ok_def)

lemma table_ok_update:
  assumes "table_ok ht" "slot_ok (length ht) i s"
  shows "table_ok (ht[i := Some s])"
proof -
  have "\<exists>s'. ht[i := Some s] ! k = Some s' \<and> slot_ok (length ht) k s'" if "k < length ht" for k
    using table_okD(3) [OF assms(1) that] assms(2) that by (cases "k = i") auto
  then show ?thesis using assms(1) by (simp add: table_ok_def)
qed

lemma entries_split: "entries (xs @ Some s # ys) = entries xs + mset (chain_hooks s) + entries ys"
  by (simp add: entries_def all_hooks_def)

lemma entries_update:
  assumes "i < length ht" "ht ! i = Some s" "mset (chain_hooks s') = mset (chain_hooks s) + M"
  shows "entries (ht[i := Some s']) = entries ht + M"
proof -
  have "ht = take i ht @ Some s # drop (Suc i) ht" using assms(1,2) by (metis id_take_nth_drop)
  then have "entries ht = entries (take i ht) + mset (chain_hooks s) + entries (drop (Suc i) ht)"
    using entries_split [of "take i ht" s "drop (Suc i) ht"] by simp
  moreover have "ht[i := Some s'] = take i ht @ Some s' # drop (Suc i) ht" using assms(1) by (simp add: upd_conv_take_nth_drop)
  then have "entries (ht[i := Some s']) = entries (take i ht) + mset (chain_hooks s') + entries (drop (Suc i) ht)"
    using entries_split by metis
  ultimately show ?thesis using assms(3) by simp
qed

text \<open>
  The usage of a table in numbers without a bound, and tables on which the \<^verbatim>\<open>int\<close> arithmetic of
  \<^verbatim>\<open>hash_table_usage\<close> stays in range: at most 21474836 slots, and as many pairs in each.
\<close>

definition slot_percent :: "'v slot option \<Rightarrow> nat" where
  "slot_percent sl = length (chain_hooks (the sl)) * 100 div nr_chain_hooks (the sl)"

definition percent_used :: "'v hash_table \<Rightarrow> nat" where
  "percent_used ht = sum_list (map slot_percent ht) div length ht"

definition small_counts :: "'v hash_table \<Rightarrow> bool" where
  "small_counts ht \<longleftrightarrow> length ht * 100 \<le> INT_MAX_hash \<and>
     list_all (\<lambda>sl. length (chain_hooks (the sl)) * 100 \<le> INT_MAX_hash) ht"

lemma slot_percent_le: "slot_ok n i s \<Longrightarrow> slot_percent (Some s) \<le> 100"
proof -
  assume s: "slot_ok n i s"
  have "length (chain_hooks s) * 100 div nr_chain_hooks s \<le> (nr_chain_hooks s * 100) div nr_chain_hooks s"
    by (rule div_le_mono) (use s in \<open>simp add: slot_ok_def\<close>)
  also have "\<dots> = 100" using s by (simp add: slot_ok_def)
  finally show ?thesis by (simp add: slot_percent_def)
qed

lemma usage_loop_sum:
  assumes "\<forall>sl\<in>set sls. slot_usage sl = Some (slot_percent sl) \<and> slot_percent sl \<le> 100"
    and "u + 100 * length sls \<le> INT_MAX_hash"
  shows "usage_loop sls u = Some (u + sum_list (map slot_percent sls))"
  using assms
proof (induction sls arbitrary: u)
  case (Cons sl sls)
  then have "usage_loop sls (u + slot_percent sl) = Some (u + slot_percent sl + sum_list (map slot_percent sls))"
    by (intro Cons.IH) auto
  then show ?case using Cons.prems by auto
qed simp

lemma usage_percent:
  assumes "table_ok ht" "small_counts ht"
  shows "hash_table_usage ht = Some (percent_used ht)"
proof -
  have "slot_usage sl = Some (slot_percent sl) \<and> slot_percent sl \<le> 100" if sl: "sl \<in> set ht" for sl
  proof -
    obtain i where i: "i < length ht" "sl = ht ! i" using sl by (auto simp: in_set_conv_nth)
    then obtain s where s: "sl = Some s" "slot_ok (length ht) i s" using table_okD(3) [OF assms(1)] by auto
    have "length (chain_hooks s) * 100 \<le> INT_MAX_hash" using assms(2) sl s(1) by (auto simp: small_counts_def list_all_iff)
    then show ?thesis
      using s(2) slot_percent_le [OF s(2)] by (simp add: s(1) slot_usage_def slot_percent_def slot_ok_def)
  qed
  moreover have "0 + 100 * length ht \<le> INT_MAX_hash" using assms(2) by (simp add: small_counts_def)
  ultimately have "usage_loop ht 0 = Some (0 + sum_list (map slot_percent ht))" by (intro usage_loop_sum) blast+
  then show ?thesis using table_okD(2) [OF assms(1)] by (simp add: hash_table_usage_def percent_used_def)
qed

section \<open>Insertion\<close>

text \<open>The slot of a key, whether it is full, and whether it then grows, or the table does.\<close>

definition slot_of :: "'v hash_table \<Rightarrow> u32 \<Rightarrow> 'v slot" where
  "slot_of ht key = the (ht ! hash_key key (length ht))"

definition slot_full :: "'v hash_table \<Rightarrow> u32 \<Rightarrow> bool" where
  "slot_full ht key \<longleftrightarrow> length (chain_hooks (slot_of ht key)) = nr_chain_hooks (slot_of ht key)"

definition can_grow :: "(nat \<Rightarrow> bool) \<Rightarrow> 'v hash_table \<Rightarrow> u32 \<Rightarrow> bool" where
  "can_grow mem ht key \<longleftrightarrow> (case hash_table_usage ht of None \<Rightarrow> False | Some u \<Rightarrow> u \<le> 90) \<and>
     mem (16 * nr_chain_hooks (slot_of ht key) * 2) \<and> nr_chain_hooks (slot_of ht key) * 2 \<le> INT_MAX_hash"

lemma slot_of_ok:
  assumes "table_ok ht"
  shows "ht ! hash_key key (length ht) = Some (slot_of ht key)" "slot_ok (length ht) (hash_key key (length ht)) (slot_of ht key)"
  using table_okD(3) [OF assms table_okD(1) [OF assms, of key]] by (auto simp: slot_of_def)

lemma hash_inserts_Nil [simp]: "hash_inserts mem ht [] = Some ht"
  by (subst hash_inserts.simps) simp

text \<open>One turn, on a well-formed table.\<close>

lemma hash_inserts_free:
  assumes "table_ok ht" "\<not> slot_full ht key"
  shows "hash_inserts mem ht ((key, data) # rest) = hash_inserts mem
    (ht[hash_key key (length ht) := Some ((slot_of ht key)\<lparr>chain_hooks := chain_hooks (slot_of ht key) @ [(key, data)]\<rparr>)]) rest"
proof -
  have k: "\<not> length ht \<le> hash_key key (length ht)" using table_okD(1) [OF assms(1), of key] by simp
  show ?thesis using assms(2) unfolding slot_full_def
    by (subst hash_inserts.simps [of mem ht "(key, data) # rest"])
      (simp only: list.case prod.case Let_def k slot_of_ok(1) [OF assms(1)] option.case if_False)
qed

lemma hash_inserts_full:
  assumes "table_ok ht" "slot_full ht key"
  shows "hash_inserts mem ht ((key, data) # rest) =
    (case hash_table_usage ht of
       None \<Rightarrow> None
     | Some usage \<Rightarrow>
         if usage > 90 then
           if length ht * 2 > INT_MAX_hash then None
           else if mem (length ht * 2 * 16) then hash_inserts mem (expanded ht) (all_hooks ht @ (key, data) # rest)
           else hash_inserts mem ht ((key, data) # rest)
         else
           if mem (16 * nr_chain_hooks (slot_of ht key) * 2) then
             (case slot_chain_hooks_expand (slot_of ht key) of
                None \<Rightarrow> None
              | Some slt' \<Rightarrow> hash_inserts mem (ht[hash_key key (length ht) := Some slt']) ((key, data) # rest))
           else hash_inserts mem ht ((key, data) # rest))"
proof -
  have k: "\<not> length ht \<le> hash_key key (length ht)" using table_okD(1) [OF assms(1), of key] by simp
  show ?thesis using assms(2) unfolding slot_full_def
    by (subst hash_inserts.simps [of mem ht "(key, data) # rest"])
      (simp only: list.case prod.case Let_def k slot_of_ok(1) [OF assms(1)] option.case if_False if_True refl)
qed

lemma insert_free:
  assumes "table_ok ht" "\<not> slot_full ht key"
  shows "\<exists>ht'. hash_table_insert mem ht key data = Some ht' \<and> table_ok ht' \<and> length ht' = length ht \<and>
    entries ht' = add_mset (key, data) (entries ht)"
proof -
  let ?i = "hash_key key (length ht)"
  let ?s = "(slot_of ht key)\<lparr>chain_hooks := chain_hooks (slot_of ht key) @ [(key, data)]\<rparr>"
  have "slot_ok (length ht) ?i ?s"
    using slot_of_ok(2) [OF assms(1), of key] assms(2) by (auto simp: slot_ok_def slot_full_def)
  then have "table_ok (ht[?i := Some ?s])" by (rule table_ok_update [OF assms(1)])
  moreover have "entries (ht[?i := Some ?s]) = entries ht + {#(key, data)#}"
    by (rule entries_update [OF table_okD(1) [OF assms(1)] slot_of_ok(1) [OF assms(1)]]) simp
  moreover have "hash_table_insert mem ht key data = Some (ht[?i := Some ?s])"
    using hash_inserts_free [OF assms, of mem data "[]"] by (simp add: hash_table_insert_def)
  ultimately show ?thesis by simp
qed

lemma insert_grows:
  assumes "table_ok ht" "slot_full ht key" "can_grow mem ht key"
  shows "\<exists>ht'. hash_table_insert mem ht key data = Some ht' \<and> table_ok ht' \<and> length ht' = length ht \<and>
    entries ht' = add_mset (key, data) (entries ht)"
proof -
  let ?i = "hash_key key (length ht)"
  obtain slt where slt: "slot_chain_hooks_expand (slot_of ht key) = Some slt" and nr: "nr_chain_hooks slt = nr_chain_hooks (slot_of ht key) * 2"
    and ch: "chain_hooks slt = chain_hooks (slot_of ht key)" and le: "nr_chain_hooks slt \<le> INT_MAX_hash"
  proof -
    have "nr_chain_hooks (slot_of ht key) * 2 \<le> INT_MAX_hash" using assms(3) by (simp add: can_grow_def)
    then show thesis by (intro that [of "(slot_of ht key)\<lparr>nr_chain_hooks := nr_chain_hooks (slot_of ht key) * 2\<rparr>"])
      (simp_all add: slot_chain_hooks_expand_def)
  qed
  let ?ht = "ht[?i := Some slt]"
  have "slot_ok (length ht) ?i slt"
    using slot_of_ok(2) [OF assms(1), of key] nr ch le by (auto simp: slot_ok_def)
  then have t: "table_ok ?ht" by (rule table_ok_update [OF assms(1)])
  have e: "entries ?ht = entries ht + {#}"
    by (rule entries_update [OF table_okD(1) [OF assms(1)] slot_of_ok(1) [OF assms(1)]]) (simp add: ch)
  have "slot_of ?ht key = slt" using table_okD(1) [OF assms(1), of key] by (simp add: slot_of_def)
  moreover have "0 < nr_chain_hooks (slot_of ht key)" using slot_of_ok(2) [OF assms(1), of key] by (simp add: slot_ok_def)
  ultimately have "\<not> slot_full ?ht key" using assms(2) nr ch by (simp add: slot_full_def)
  then obtain ht' where h: "hash_table_insert mem ?ht key data = Some ht'" "table_ok ht'" "length ht' = length ?ht"
      "entries ht' = add_mset (key, data) (entries ?ht)"
    using insert_free [OF t] by blast
  moreover have "hash_table_insert mem ht key data = hash_table_insert mem ?ht key data"
    using hash_inserts_full [OF assms(1,2), of mem data "[]"] assms(3) slt
    by (simp add: hash_table_insert_def can_grow_def split: option.splits)
  ultimately show ?thesis using e by auto
qed

lemma expanded_undefined: "hash_inserts mem (expanded ht) ((key, data) # rest) = None"
  by (subst hash_inserts.simps) (simp add: expanded_def Let_def)

lemma expanded_hooks_undefined: "hash_inserts mem (expanded ht) (hs @ (key, data) # rest) = None"
  by (cases hs) (auto simp: expanded_undefined)

text \<open>
  An insertion that needs memory and gets none calls itself for ever: \<open>needs_bytes\<close> is what it asks
  for when its slot is full.
\<close>

definition needs_bytes :: "'v hash_table \<Rightarrow> u32 \<Rightarrow> nat option" where
  "needs_bytes ht key = map_option (\<lambda>u. if u > 90 then length ht * 2 * 16 else 16 * nr_chain_hooks (slot_of ht key) * 2)
     (hash_table_usage ht)"

lemma insert_stuck:
  assumes "table_ok ht" "slot_full ht key" "needs_bytes ht key = Some n" "\<not> mem n"
  shows "hash_table_insert mem ht key data = None"
proof -
  let ?stuck = "\<lambda>mem (ht :: 'a hash_table) todo. \<exists>key data rest n. todo = (key, data) # rest \<and> table_ok ht \<and> slot_full ht key \<and>
    needs_bytes ht key = Some n \<and> \<not> mem n"
  have "\<not> ?stuck mem ht todo" if h: "hash_inserts mem ht todo = Some y" for mem and ht :: "'a hash_table" and todo y
  proof (rule hash_inserts.raw_induct [where P = "\<lambda>mem ht todo _. \<not> ?stuck mem ht todo", OF _ h])
    fix rec mem and ht :: "'a hash_table" and todo y
    let ?body = "case todo of [] \<Rightarrow> Some ht | (key, data) # rest \<Rightarrow> let slot_i = hash_key key (length ht) in
          if length ht \<le> slot_i then None
          else (case ht ! slot_i of None \<Rightarrow> None
                | Some slt \<Rightarrow>
                    if length (chain_hooks slt) = nr_chain_hooks slt then
                      (case hash_table_usage ht of None \<Rightarrow> None
                       | Some usage \<Rightarrow>
                           if usage > 90 then
                             if length ht * 2 > INT_MAX_hash then None
                             else if mem (length ht * 2 * 16) then rec mem (expanded ht) (all_hooks ht @ todo) else rec mem ht todo
                           else
                             if mem (16 * nr_chain_hooks slt * 2) then
                               (case slot_chain_hooks_expand slt of
                                  None \<Rightarrow> None
                                | Some slt' \<Rightarrow> rec mem (ht[slot_i := Some slt']) todo)
                             else rec mem ht todo)
                    else rec mem (ht[slot_i := Some (slt\<lparr>chain_hooks := chain_hooks slt @ [(key, data)]\<rparr>)]) rest)"
    assume ih: "\<And>mem ht todo y. rec mem ht todo = Some y \<Longrightarrow> \<not> ?stuck mem ht todo" and r: "?body = Some y"
    show "\<not> ?stuck mem ht todo"
    proof
      assume st: "?stuck mem ht todo"
      then obtain key data rest n where t: "todo = (key, data) # rest" "table_ok ht" "slot_full ht key"
        "needs_bytes ht key = Some n" "\<not> mem n" by blast
      obtain u where u: "hash_table_usage ht = Some u" using t(4) by (auto simp: needs_bytes_def)
      have "?body = None \<or> ?body = rec mem ht todo"
        using t(1,3,4,5) u slot_of_ok(1) [OF t(2), of key] table_okD(1) [OF t(2), of key]
        by (simp add: Let_def slot_full_def needs_bytes_def split: if_splits)
      then have "rec mem ht todo = Some y" using r by (metis option.distinct(1))
      then show False using ih st by blast
    qed
  qed
  then show ?thesis
    using assms unfolding hash_table_insert_def by (metis not_Some_eq)
qed

text \<open>A full slot that cannot grow: no usage, a crowded table, no memory, or a capacity that cannot be doubled.\<close>

lemma insert_fails:
  assumes "table_ok ht" "slot_full ht key" "\<not> can_grow mem ht key"
  shows "hash_table_insert mem ht key data = None"
proof (cases "hash_table_usage ht")
  case None
  then show ?thesis using hash_inserts_full [OF assms(1,2), of mem data "[]"] by (simp add: hash_table_insert_def)
next
  case (Some u)
  then obtain n where n: "needs_bytes ht key = Some n" by (simp add: needs_bytes_def)
  show ?thesis
  proof (cases "mem n")
    case True
    then show ?thesis using Some n assms(3) hash_inserts_full [OF assms(1,2), of mem data "[]"]
      by (auto simp: hash_table_insert_def needs_bytes_def can_grow_def slot_chain_hooks_expand_def expanded_hooks_undefined split: if_splits)
  qed (rule insert_stuck [OF assms(1,2) n])
qed

text \<open>
  Property C23: inserting a pair into a well-formed table, whose counters are \<^verbatim>\<open>int\<close>. When its slot has room, or
  the usage is computed and at most 90 percent, the memory for twice the hooks is there and twice
  the hooks is still an \<^verbatim>\<open>int\<close>, then the insertion returns a well-formed table that holds exactly one pair
  more, every pair still in the slot of its key. In every other case it goes wrong: growing the
  table puts the pairs into slots that were never initialised, a failed allocation makes the
  insertion call itself for ever, and the \<^verbatim>\<open>int\<close> arithmetic overflows. The usage is computed, and is the
  average of the percentages of the slots, on every table with at most 21474836 slots and as many
  pairs in each slot.
\<close>

theorem hash_table_insert_adds:
  assumes "table_ok ht"
  shows "(if \<not> slot_full ht key \<or> can_grow mem ht key
      then \<exists>ht'. hash_table_insert mem ht key data = Some ht' \<and> table_ok ht' \<and> length ht' = length ht \<and>
        entries ht' = add_mset (key, data) (entries ht)
      else hash_table_insert mem ht key data = None) \<and>
    (small_counts ht \<longrightarrow> hash_table_usage ht = Some (percent_used ht))"
  using insert_free [OF assms, of key mem data] insert_grows [OF assms, of key mem data]
    insert_fails [OF assms, of key mem data] usage_percent [OF assms] by auto

lemma table_ok_create:
  assumes "b < 31" "0 < h" "h \<le> INT_MAX_hash"
  shows "table_ok (hash_table_create (2 ^ b) h)" "entries (hash_table_create (2 ^ b) h) = {#}"
  using assms by (auto simp: table_ok_def hash_table_create_def slot_ok_def slot_init_def entries_def all_hooks_def)

text \<open>A table of two slots with one hook each; the second insertion for a key finds its slot full and doubles it.\<close>

definition one_pair :: "nat hash_table" where
  "one_pair = [Some (slot_init 1), Some \<lparr>chain_hooks = [(3, 9)], nr_chain_hooks = 1\<rparr>]"

lemma one_pair_ok: "table_ok one_pair" "slot_full one_pair 5" "can_grow (\<lambda>_. True) one_pair 5" "small_counts one_pair"
  "entries one_pair = {#(3, 9)#}" "percent_used one_pair = 50"
proof -
  have k: "hash_key 5 (Suc (Suc 0)) = 1" "hash_key 3 (Suc (Suc 0)) = 1" by (simp_all add: hash_key_def)
  have d: "100 div Suc (Suc 0) = 50" by (simp flip: numeral_2_eq_2)
  show "table_ok one_pair"
    unfolding table_ok_def
    by (intro conjI exI [of _ 1])
      (auto simp: one_pair_def less_Suc_eq slot_ok_def slot_init_def k INT_MAX_hash_def)
  show "slot_full one_pair 5" "can_grow (\<lambda>_. True) one_pair 5" "small_counts one_pair"
    "entries one_pair = {#(3, 9)#}" "percent_used one_pair = 50"
    by (simp_all add: slot_full_def can_grow_def slot_of_def one_pair_def k slot_init_def hash_table_usage_def slot_usage_def
      INT_MAX_hash_def small_counts_def entries_def all_hooks_def percent_used_def slot_percent_def d)
qed

theorem hash_table_insert_adds_witness:
  "slot_full one_pair 5 \<and> hash_table_usage one_pair = Some 50 \<and>
    (\<exists>ht'. hash_table_insert (\<lambda>_. True) one_pair 5 7 = Some ht' \<and> table_ok ht' \<and> entries ht' = {#(5, 7), (3, 9)#})"
  using hash_table_insert_adds [OF one_pair_ok(1), of 5 "\<lambda>_. True" 7] one_pair_ok(2-6) by auto

section \<open>The test program\<close>

definition NR_SLOTS :: nat where
  "NR_SLOTS = 1024"

definition NR_CHAIN_HOOKS :: nat where
  "NR_CHAIN_HOOKS = 64"

fun insert_all :: "(nat \<Rightarrow> bool) \<Rightarrow> (u32 \<times> 'v) list \<Rightarrow> 'v hash_table \<Rightarrow> 'v hash_table option" where
  "insert_all mem [] ht = Some ht"
| "insert_all mem ((key, data) # kds) ht = Option.bind (hash_table_insert mem ht key data) (insert_all mem kds)"

text \<open>\<^verbatim>\<open>main\<close> on the random pairs it draws: the table and the usage it prints.\<close>

definition myhash_main :: "(nat \<Rightarrow> bool) \<Rightarrow> (nat \<Rightarrow> u32 \<times> 'v) \<Rightarrow> ('v hash_table \<times> nat) option" where
  "myhash_main mem rnd =
     Option.bind (insert_all mem (map rnd [0..<NR_SLOTS * NR_CHAIN_HOOKS]) (hash_table_create NR_SLOTS NR_CHAIN_HOOKS))
       (\<lambda>ht. map_option (\<lambda>u. (ht, u)) (hash_table_usage ht))"

lemma insert_all_adds:
  "table_ok ht \<Longrightarrow> insert_all mem kds ht = Some ht' \<Longrightarrow> table_ok ht' \<and> length ht' = length ht \<and> entries ht' = mset kds + entries ht"
proof (induction kds arbitrary: ht)
  case (Cons kd kds)
  obtain key data where kd: "kd = (key, data)" by (cases kd)
  obtain ht1 where h: "hash_table_insert mem ht key data = Some ht1" "insert_all mem kds ht1 = Some ht'"
    using Cons.prems(2) kd by (auto simp: bind_eq_Some_conv)
  have "table_ok ht1 \<and> length ht1 = length ht \<and> entries ht1 = add_mset (key, data) (entries ht)"
    using insert_free [OF Cons.prems(1), of key mem data] insert_grows [OF Cons.prems(1), of key mem data]
      insert_fails [OF Cons.prems(1), of key mem data] h(1)
    by (cases "slot_full ht key"; cases "can_grow mem ht key") auto
  then show ?case using Cons.IH [of ht1] h(2) kd by simp
qed simp

lemma myhash_main_holds:
  assumes "myhash_main mem rnd = Some (ht, u)"
  shows "table_ok ht \<and> length ht = NR_SLOTS \<and> entries ht = mset (map rnd [0..<NR_SLOTS * NR_CHAIN_HOOKS])"
proof -
  have c: "table_ok (hash_table_create NR_SLOTS NR_CHAIN_HOOKS)" "entries (hash_table_create NR_SLOTS NR_CHAIN_HOOKS) = {#}"
    "length (hash_table_create NR_SLOTS NR_CHAIN_HOOKS) = NR_SLOTS"
    using table_ok_create [of 10 NR_CHAIN_HOOKS] by (simp_all add: NR_SLOTS_def NR_CHAIN_HOOKS_def hash_table_create_def INT_MAX_hash_def)
  have "insert_all mem (map rnd [0..<NR_SLOTS * NR_CHAIN_HOOKS]) (hash_table_create NR_SLOTS NR_CHAIN_HOOKS) = Some ht"
    using assms by (auto simp: myhash_main_def bind_eq_Some_conv)
  from insert_all_adds [OF c(1) this] show ?thesis by (simp add: c(2,3))
qed

end
