(* ===== verification/Bsearch.thy ===== *)
theory Bsearch
  imports C_Library
begin

text \<open>
  The bisection of \<^verbatim>\<open>src/test_bsearch.c\<close>, an earlier version of the one in the sparse array. The upper
  bound starts behind the array and then moves to the place before the middle, so the search can
  leave out keys that are there. An access outside the array is \<open>None\<close>.
\<close>

section \<open>The program\<close>

definition arr_at :: "int list \<Rightarrow> int \<Rightarrow> int option" where
  "arr_at arr i = (if 0 \<le> i \<and> i < int (length arr) then Some (arr ! nat i) else None)"

text \<open>The loop: \<open>Inl\<close> is a key found, \<open>Inr\<close> the last middle. Every turn also reads the old middle to print it.\<close>

function bsearch_loop :: "int list \<Rightarrow> int \<Rightarrow> int \<Rightarrow> int \<Rightarrow> int \<Rightarrow> (int + int) option" where
  "bsearch_loop arr data low high mid =
     (if high - low > 1 then
        (case arr_at arr mid of
           None \<Rightarrow> None
         | Some _ \<Rightarrow>
             let mid = low + c_div (high - low) 2 in
             (case arr_at arr mid of
                None \<Rightarrow> None
              | Some v \<Rightarrow>
                  if data = v then Some (Inl mid)
                  else if data < v then bsearch_loop arr data low (mid - 1) mid
                  else bsearch_loop arr data mid high mid))
      else Some (Inr mid))"
  by pat_completeness auto
termination
  by (relation "measure (\<lambda>(arr, data, low, high, mid). nat (high - low))") (auto simp: c_div_pos)

declare bsearch_loop.simps [simp del]

definition bsearch :: "int list \<Rightarrow> int \<Rightarrow> int option" where
  "bsearch arr data =
     (case bsearch_loop arr data 0 (int (length arr)) 0 of
        None \<Rightarrow> None
      | Some (Inl mid) \<Rightarrow> Some mid
      | Some (Inr mid) \<Rightarrow>
          (case arr_at arr mid of
             None \<Rightarrow> None
           | Some v \<Rightarrow> Some (if data > v then bnot (mid + 1) else bnot mid)))"

text \<open>\<^verbatim>\<open>main\<close>: the place found, or the place to insert.\<close>

definition bsearch_main :: "(int + int) option" where
  "bsearch_main = map_option (\<lambda>ret. if ret \<ge> 0 then Inl ret else Inr (bnot ret)) (bsearch [-1] (-2))"

section \<open>What it finds\<close>

lemma bsearch_loop_ok:
  assumes "0 \<le> low" "high \<le> int (length arr)" "0 \<le> mid" "mid < int (length arr)"
  shows "\<exists>r. bsearch_loop arr data low high mid = Some r \<and>
    (case r of Inl i \<Rightarrow> 0 \<le> i \<and> i < int (length arr) \<and> arr ! nat i = data | Inr m \<Rightarrow> 0 \<le> m \<and> m < int (length arr))"
  using assms
proof (induction arr data low high mid rule: bsearch_loop.induct)
  case (1 arr data low high mid)
  show ?case
  proof (cases "high - low > 1")
    case True
    let ?m = "low + c_div (high - low) 2"
    have m: "low < ?m" "?m < high" using True by (simp_all add: c_div_pos)
    have at: "arr_at arr mid = Some (arr ! nat mid)" "arr_at arr ?m = Some (arr ! nat ?m)"
      using "1.prems" m by (auto simp: arr_at_def)
    note unfold = bsearch_loop.simps [of arr data low high mid]
    consider "data = arr ! nat ?m" | "data < arr ! nat ?m" | "data > arr ! nat ?m" by linarith
    then show ?thesis
    proof cases
      case 1
      then have "bsearch_loop arr data low high mid = Some (Inl ?m)" unfolding unfold using True at by (simp add: Let_def)
      then show ?thesis using 1 m "1.prems"(1,2) by auto
    next
      case 2
      then have "bsearch_loop arr data low high mid = bsearch_loop arr data low (?m - 1) ?m" using True at by (simp add: unfold Let_def)
      moreover have "\<exists>r. bsearch_loop arr data low (?m - 1) ?m = Some r \<and>
          (case r of Inl i \<Rightarrow> 0 \<le> i \<and> i < int (length arr) \<and> arr ! nat i = data | Inr m \<Rightarrow> 0 \<le> m \<and> m < int (length arr))"
        by (rule "1.IH"(1) [OF True at(1) refl at(2)]) (use 2 m "1.prems" in auto)
      ultimately show ?thesis by simp
    next
      case 3
      then have "bsearch_loop arr data low high mid = bsearch_loop arr data ?m high ?m" using True at by (simp add: unfold Let_def)
      moreover have "\<exists>r. bsearch_loop arr data ?m high ?m = Some r \<and>
          (case r of Inl i \<Rightarrow> 0 \<le> i \<and> i < int (length arr) \<and> arr ! nat i = data | Inr m \<Rightarrow> 0 \<le> m \<and> m < int (length arr))"
        by (rule "1.IH"(2) [OF True at(1) refl at(2)]) (use 3 m "1.prems" in auto)
      ultimately show ?thesis by simp
    qed
  next
    case False
    then show ?thesis using "1.prems" by (subst bsearch_loop.simps) simp
  qed
qed

text \<open>
  On an array that is not empty the search ends, stays inside the array, and what it finds is the
  key; but it misses keys, and on an empty array it reads outside.
\<close>

lemma bsearch_sound:
  assumes "arr \<noteq> []"
  shows "\<exists>ret. bsearch arr data = Some ret \<and> (ret \<ge> 0 \<longrightarrow> ret < int (length arr) \<and> arr ! nat ret = data)"
proof -
  obtain r where "bsearch_loop arr data 0 (int (length arr)) 0 = Some r"
    "case r of Inl i \<Rightarrow> 0 \<le> i \<and> i < int (length arr) \<and> arr ! nat i = data | Inr m \<Rightarrow> 0 \<le> m \<and> m < int (length arr)"
    using bsearch_loop_ok [of 0 "int (length arr)" arr 0 data] assms by auto
  then show ?thesis by (cases r) (auto simp: bsearch_def arr_at_def bnot_def)
qed

lemma bsearch_misses: "bsearch [3, 4, 8] 3 = Some (bnot 1)"
  by (simp add: bsearch_def bsearch_loop.simps arr_at_def c_div_def bnot_def)

lemma bsearch_empty: "bsearch [] data = None"
  by (simp add: bsearch_def bsearch_loop.simps arr_at_def)

lemma bsearch_main_inserts: "bsearch_main = Some (Inr 0)"
  by (simp add: bsearch_main_def bsearch_def bsearch_loop.simps arr_at_def bnot_def)

end
