(* ===== verification/Int_Update.thy ===== *)
theory Int_Update
  imports Semaphore C_Library
begin

text \<open>
  The program of \<^verbatim>\<open>src/test_int_update.c\<close>: threads that each increment the shared \<open>update_int\<close>
  \<open>max_update_iters\<close> times, by a read and a write, with or without a mutex around them, and the main
  program that starts and joins them and says whether an increment was lost. The mutex is any lock
  of \<open>Lock_Spec\<close>; a build without \<^verbatim>\<open>WITH_LOCK\<close> has calls that do nothing in its place.
\<close>

section \<open>The program\<close>

text \<open>
  Where a thread is: its number \<open>k\<close> is the loop's \<open>i\<close>, and \<open>IuStore\<close> carries the value the increment
  has read. The main program creates, joins, and has returned a status with what it printed.
\<close>

datatype iu_pc = IuBegin | IuTop nat | IuLocking nat | IuRead nat | IuStore nat u32 | IuAdded nat | IuUnlocking nat | IuExited

datatype iu_main_pc = IuCreate | IuJoin nat | IuReturned int string

record 'l int_update =
  update_lock :: 'l
  update_int :: u32
  last_update_int :: u32
  iu_pcs :: "iu_pc list"
  iu_main :: iu_main_pc

definition int_update_init :: "'l \<Rightarrow> 'l int_update" where
  "int_update_init l = \<lparr>update_lock = l, update_int = 0, last_update_int = 0, iu_pcs = [], iu_main = IuCreate\<rparr>"

text \<open>\<^verbatim>\<open>update_int_thread\<close>: the calls of the lock, and the steps between them.\<close>

fun update_int_call :: "int \<Rightarrow> iu_pc \<Rightarrow> (lock_event \<times> iu_pc) option" where
  "update_int_call mx (IuTop k) = (if int k < mx then Some (LockCall, IuLocking k) else None)"
| "update_int_call mx (IuLocking k) = Some (Enter, IuRead k)"
| "update_int_call mx (IuAdded k) = Some (Exit, IuUnlocking k)"
| "update_int_call mx (IuUnlocking k) = Some (Ret, IuTop (Suc k))"
| "update_int_call mx _ = None"

fun update_int_local :: "int \<Rightarrow> nat \<Rightarrow> iu_pc \<Rightarrow> u32 \<Rightarrow> u32 \<Rightarrow> (iu_pc \<times> u32 \<times> u32) option" where
  "update_int_local mx p IuBegin c l = Some (IuTop 0, c, word_of_nat p)"
| "update_int_local mx p (IuTop k) c l = (if int k < mx then None else Some (IuExited, c, l))"
| "update_int_local mx p (IuRead k) c l = Some (IuStore k c, c, l)"
| "update_int_local mx p (IuStore k v) c l = Some (IuAdded k, v + 1, l)"
| "update_int_local mx p _ c l = None"

definition iu_newline :: string where
  "iu_newline = [CHR 0x0A]"

definition iu_report :: "int \<Rightarrow> int \<Rightarrow> u32 \<Rightarrow> u32 \<Rightarrow> string" where
  "iu_report mx nr c l =
     ''last_update_int = '' @ int_string (sint l) @ iu_newline @
     (if c = word_of_int mx * word_of_int nr then ''PASSED'' @ iu_newline
      else ''FAILED update_int = '' @ int_string (sint c) @ '' nr_threads = '' @ int_string nr @
        '' max_iters = '' @ int_string mx @ iu_newline)"

text \<open>
  The program with \<open>nr\<close> threads of \<open>mx\<close> iterations. Threads run until the main program returns;
  \<^verbatim>\<open>pthread_create\<close> may fail.
\<close>

inductive int_update_step :: "(nat \<Rightarrow> lock_event \<Rightarrow> 'l \<Rightarrow> 'l \<Rightarrow> bool) \<Rightarrow> int \<Rightarrow> int \<Rightarrow> 'l int_update \<Rightarrow> 'l int_update \<Rightarrow> bool"
  for lstep :: "nat \<Rightarrow> lock_event \<Rightarrow> 'l \<Rightarrow> 'l \<Rightarrow> bool" and mx :: int and nr :: int where
  call: "iu_main s \<in> {IuCreate} \<union> range IuJoin \<Longrightarrow> p < length (iu_pcs s) \<Longrightarrow>
    update_int_call mx (iu_pcs s ! p) = Some (e, pc) \<Longrightarrow> lstep p e (update_lock s) l \<Longrightarrow>
    int_update_step lstep mx nr s (s\<lparr>update_lock := l, iu_pcs := (iu_pcs s)[p := pc]\<rparr>)"
| lock: "iu_main s \<in> {IuCreate} \<union> range IuJoin \<Longrightarrow> p < length (iu_pcs s) \<Longrightarrow>
    iu_pcs s ! p \<in> range IuLocking \<union> range IuUnlocking \<Longrightarrow> lstep p Tau (update_lock s) l \<Longrightarrow>
    int_update_step lstep mx nr s (s\<lparr>update_lock := l\<rparr>)"
| local: "iu_main s \<in> {IuCreate} \<union> range IuJoin \<Longrightarrow> p < length (iu_pcs s) \<Longrightarrow>
    update_int_local mx p (iu_pcs s ! p) (update_int s) (last_update_int s) = Some (pc, c, l) \<Longrightarrow>
    int_update_step lstep mx nr s (s\<lparr>update_int := c, last_update_int := l, iu_pcs := (iu_pcs s)[p := pc]\<rparr>)"
| create: "iu_main s = IuCreate \<Longrightarrow> int (length (iu_pcs s)) < nr \<Longrightarrow>
    int_update_step lstep mx nr s (s\<lparr>iu_pcs := iu_pcs s @ [IuBegin]\<rparr>)"
| create_fails: "iu_main s = IuCreate \<Longrightarrow> int (length (iu_pcs s)) < nr \<Longrightarrow>
    int_update_step lstep mx nr s (s\<lparr>iu_main := IuReturned (-1) (''pthread_create failed'' @ iu_newline)\<rparr>)"
| created: "iu_main s = IuCreate \<Longrightarrow> \<not> int (length (iu_pcs s)) < nr \<Longrightarrow>
    int_update_step lstep mx nr s (s\<lparr>iu_main := IuJoin 0\<rparr>)"
| join: "iu_main s = IuJoin i \<Longrightarrow> int i < nr \<Longrightarrow> i < length (iu_pcs s) \<Longrightarrow> iu_pcs s ! i = IuExited \<Longrightarrow>
    int_update_step lstep mx nr s (s\<lparr>iu_main := IuJoin (Suc i)\<rparr>)"
| report: "iu_main s = IuJoin i \<Longrightarrow> \<not> int i < nr \<Longrightarrow>
    int_update_step lstep mx nr s (s\<lparr>iu_main := IuReturned 0 (iu_report mx nr (update_int s) (last_update_int s))\<rparr>)"

text \<open>
  The whole \<^verbatim>\<open>main\<close>: the arguments, then a run to its end. \<open>junk\<close> is the uninitialised
  \<^verbatim>\<open>nr_threads\<close> that \<^verbatim>\<open>sscanf\<close> may leave.
\<close>

definition int_update_args :: "int \<Rightarrow> string list \<Rightarrow> (int \<times> int) option" where
  "int_update_args junk argv =
     (if length argv < 3 then None else Some (scan_into (argv ! 1) junk, scan_into (argv ! 2) 0))"

definition int_update_main :: "'l \<Rightarrow> (nat \<Rightarrow> lock_event \<Rightarrow> 'l \<Rightarrow> 'l \<Rightarrow> bool) \<Rightarrow> int \<Rightarrow> string list \<Rightarrow> int \<Rightarrow> string \<Rightarrow> bool" where
  "int_update_main l lstep junk argv rv out =
     (case int_update_args junk argv of
        None \<Rightarrow> rv = 0 \<and> out = ''test_int_update <nr_threads> <max_iters>'' @ iu_newline
      | Some (nr, mx) \<Rightarrow> \<exists>s. (int_update_step lstep mx nr)\<^sup>*\<^sup>* (int_update_init l) s \<and> iu_main s = IuReturned rv out)"

text \<open>The build without \<^verbatim>\<open>WITH_LOCK\<close>: calls that do nothing.\<close>

definition no_lock :: "nat \<Rightarrow> lock_event \<Rightarrow> unit \<Rightarrow> unit \<Rightarrow> bool" where
  "no_lock p e s s' \<longleftrightarrow> e \<noteq> Tau"

section \<open>With a lock no increment is lost\<close>

fun iu_inside :: "iu_pc \<Rightarrow> bool" where
  "iu_inside (IuRead k) = True"
| "iu_inside (IuStore k v) = True"
| "iu_inside (IuAdded k) = True"
| "iu_inside _ = False"

fun iu_done :: "int \<Rightarrow> iu_pc \<Rightarrow> nat" where
  "iu_done mx IuBegin = 0"
| "iu_done mx (IuTop k) = k"
| "iu_done mx (IuLocking k) = k"
| "iu_done mx (IuRead k) = k"
| "iu_done mx (IuStore k v) = k"
| "iu_done mx (IuAdded k) = Suc k"
| "iu_done mx (IuUnlocking k) = Suc k"
| "iu_done mx IuExited = nat mx"

text \<open>A thread between the test of the loop and its end is in an iteration the loop allows.\<close>

fun iu_pc_ok :: "int \<Rightarrow> iu_pc \<Rightarrow> bool" where
  "iu_pc_ok mx IuBegin = True"
| "iu_pc_ok mx (IuTop k) = (k \<le> nat mx)"
| "iu_pc_ok mx (IuLocking k) = (int k < mx)"
| "iu_pc_ok mx (IuRead k) = (int k < mx)"
| "iu_pc_ok mx (IuStore k v) = (int k < mx)"
| "iu_pc_ok mx (IuAdded k) = (int k < mx)"
| "iu_pc_ok mx (IuUnlocking k) = (int k < mx)"
| "iu_pc_ok mx IuExited = True"

definition iu_insides :: "iu_pc list \<Rightarrow> nat set" where
  "iu_insides pcs = {p. p < length pcs \<and> iu_inside (pcs ! p)}"

definition iu_total :: "int \<Rightarrow> iu_pc list \<Rightarrow> nat" where
  "iu_total mx pcs = sum_list (map (iu_done mx) pcs)"

definition iu_threads_ok :: "('l \<Rightarrow> bool) \<Rightarrow> ('l \<Rightarrow> nat set) \<Rightarrow> int \<Rightarrow> 'l int_update \<Rightarrow> bool" where
  "iu_threads_ok good inside mx s \<longleftrightarrow>
     good (update_lock s) \<and> inside (update_lock s) = iu_insides (iu_pcs s) \<and>
     list_all (iu_pc_ok mx) (iu_pcs s) \<and> update_int s = word_of_nat (iu_total mx (iu_pcs s)) \<and>
     (\<forall>p < length (iu_pcs s). \<forall>k v. iu_pcs s ! p = IuStore k v \<longrightarrow> v = update_int s)"

text \<open>What the main program knows: how many threads there are, which have ended, and what it said.\<close>

definition iu_passed :: "int \<Rightarrow> string \<Rightarrow> bool" where
  "iu_passed nr out \<longleftrightarrow> (\<exists>l. 0 \<le> l \<and> (l < nr \<or> l = 0) \<and>
     out = ''last_update_int = '' @ int_string l @ iu_newline @ ''PASSED'' @ iu_newline)"

definition iu_last_ok :: "'l int_update \<Rightarrow> bool" where
  "iu_last_ok s \<longleftrightarrow> (\<exists>p. (p < length (iu_pcs s) \<or> p = 0) \<and> last_update_int s = word_of_nat p)"

definition iu_main_ok :: "int \<Rightarrow> 'l int_update \<Rightarrow> bool" where
  "iu_main_ok nr s \<longleftrightarrow> (case iu_main s of
     IuCreate \<Rightarrow> length (iu_pcs s) \<le> nat nr
   | IuJoin i \<Rightarrow> length (iu_pcs s) = nat nr \<and> i \<le> nat nr \<and> (\<forall>j < i. iu_pcs s ! j = IuExited)
   | IuReturned rv out \<Rightarrow> rv = -1 \<and> out = ''pthread_create failed'' @ iu_newline \<or> rv = 0 \<and> iu_passed nr out)"

lemma iu_threads_ok_main [simp]: "iu_threads_ok good inside mx (s\<lparr>iu_main := m\<rparr>) = iu_threads_ok good inside mx s"
  by (simp add: iu_threads_ok_def)

lemma iu_insides_update:
  "p < length pcs \<Longrightarrow> iu_insides (pcs[p := x]) = (if iu_inside x then insert p (iu_insides pcs) else iu_insides pcs - {p})"
  by (auto simp: iu_insides_def nth_list_update)

lemma iu_total_update:
  "p < length pcs \<Longrightarrow> iu_total mx (pcs[p := x]) + iu_done mx (pcs ! p) = iu_total mx pcs + iu_done mx x"
proof (induction pcs arbitrary: p)
  case (Cons y ys)
  show ?case
  proof (cases p)
    case (Suc q)
    then show ?thesis using Cons.IH [of q] Cons.prems by (simp add: iu_total_def)
  qed (simp add: iu_total_def)
qed simp

lemma iu_pcs_ok_update:
  "list_all (iu_pc_ok mx) pcs \<Longrightarrow> iu_pc_ok mx x \<Longrightarrow> list_all (iu_pc_ok mx) (pcs[p := x])"
  by (auto simp: list_all_iff dest: set_update_subset_insert [THEN subsetD])

context lock_sys
begin

lemma iu_call_ok:
  assumes ok: "iu_threads_ok good inside mx s" and p: "p < length (iu_pcs s)"
    and st: "update_int_call mx (iu_pcs s ! p) = Some (e, pc)" and l: "lstep p e (update_lock s) l"
  shows "iu_threads_ok good inside mx (s\<lparr>update_lock := l, iu_pcs := (iu_pcs s)[p := pc]\<rparr>)"
proof -
  let ?x = "iu_pcs s ! p"
  have g: "good (update_lock s)" "inside (update_lock s) = iu_insides (iu_pcs s)" and pcs: "list_all (iu_pc_ok mx) (iu_pcs s)"
    using ok by (auto simp: iu_threads_ok_def)
  have x: "iu_inside ?x \<longleftrightarrow> p \<in> iu_insides (iu_pcs s)" using p by (simp add: iu_insides_def)
  have "iu_pc_ok mx ?x" using pcs p by (simp add: list_all_length)
  then have "iu_pc_ok mx pc" using st by (cases ?x) (auto split: if_splits)
  note pcs' = iu_pcs_ok_update [OF pcs this, of p]
  have "inside l = iu_insides ((iu_pcs s)[p := pc])"
    unfolding iu_insides_update [OF p] inside_step [OF g(1) l] g(2)
    using st x by (cases ?x) (auto split: if_splits)
  moreover have "iu_total mx ((iu_pcs s)[p := pc]) = iu_total mx (iu_pcs s)"
    using iu_total_update [OF p, of mx pc] st by (cases ?x) (auto split: if_splits)
  moreover have "pc \<noteq> IuStore k v" for k v using st by (cases ?x) (auto split: if_splits)
  ultimately show ?thesis
    using ok good_step [OF g(1) l] p pcs' by (auto simp: iu_threads_ok_def nth_list_update split: if_splits)
qed

lemma iu_local_ok:
  assumes ok: "iu_threads_ok good inside mx s" and p: "p < length (iu_pcs s)"
    and st: "update_int_local mx p (iu_pcs s ! p) (update_int s) (last_update_int s) = Some (pc, c, l)"
  shows "iu_threads_ok good inside mx (s\<lparr>update_int := c, last_update_int := l, iu_pcs := (iu_pcs s)[p := pc]\<rparr>)"
proof -
  let ?x = "iu_pcs s ! p"
  have g: "good (update_lock s)" "inside (update_lock s) = iu_insides (iu_pcs s)" and pcs: "list_all (iu_pc_ok mx) (iu_pcs s)"
    and c0: "update_int s = word_of_nat (iu_total mx (iu_pcs s))"
    and rd: "\<And>q k v. q < length (iu_pcs s) \<Longrightarrow> iu_pcs s ! q = IuStore k v \<Longrightarrow> v = update_int s"
    using ok by (auto simp: iu_threads_ok_def)
  have xok: "iu_pc_ok mx ?x" using pcs p by (simp add: list_all_length)
  then have "iu_pc_ok mx pc" using st by (cases ?x) (auto split: if_splits)
  note pcs' = iu_pcs_ok_update [OF pcs this, of p]
  have same: "iu_inside pc = iu_inside ?x" using st by (cases ?x) (auto split: if_splits)
  have ins: "iu_insides ((iu_pcs s)[p := pc]) = iu_insides (iu_pcs s)"
    using p by (auto simp: iu_insides_def nth_list_update same)
  have n: "iu_total mx ((iu_pcs s)[p := pc]) = (if \<exists>k v. ?x = IuStore k v then Suc (iu_total mx (iu_pcs s)) else iu_total mx (iu_pcs s))"
    using iu_total_update [OF p, of mx pc] st xok by (cases ?x) (auto split: if_splits)
  have c: "c = word_of_nat (iu_total mx ((iu_pcs s)[p := pc]))"
    using st n c0 rd [OF p] by (cases ?x) (auto split: if_splits)
  have others: "v = c" if q: "q < length (iu_pcs s)" "(iu_pcs s)[p := pc] ! q = IuStore k v" for q k v
  proof (cases "q = p")
    case True
    then show ?thesis using q st by (cases ?x) (auto split: if_splits)
  next
    case False
    then have qs: "iu_pcs s ! q = IuStore k v" using q by simp
    then have "\<not> iu_inside ?x" using exclusive [OF g(1), of q p] g(2) p q(1) False by (auto simp: iu_insides_def)
    then have "c = update_int s" using st by (cases ?x) (auto split: if_splits)
    then show ?thesis using rd [OF q(1) qs] by simp
  qed
  show ?thesis using g ins c others pcs' by (auto simp: iu_threads_ok_def)
qed

lemma iu_create_ok:
  assumes "iu_threads_ok good inside mx s"
  shows "iu_threads_ok good inside mx (s\<lparr>iu_pcs := iu_pcs s @ [IuBegin]\<rparr>)"
proof -
  have "iu_insides (iu_pcs s @ [IuBegin]) = iu_insides (iu_pcs s)"
    by (auto simp: iu_insides_def nth_append)
  then show ?thesis using assms by (auto simp: iu_threads_ok_def iu_total_def nth_append split: if_splits)
qed

lemma iu_step_ok:
  assumes "int_update_step lstep mx nr s s'" "iu_threads_ok good inside mx s"
  shows "iu_threads_ok good inside mx s'"
  using assms(1)
proof (cases rule: int_update_step.cases)
  case (lock p l)
  have "good (update_lock s)" using assms(2) by (simp add: iu_threads_ok_def)
  then show ?thesis using lock assms(2) good_step [OF _ lock(5)] inside_step [OF _ lock(5)] by (auto simp: iu_threads_ok_def)
next
  case (call p e pc l)
  then show ?thesis using iu_call_ok [OF assms(2) call(3-5)] by simp
next
  case (local p pc c l)
  then show ?thesis using iu_local_ok [OF assms(2) local(3,4)] by simp
next
  case create
  then show ?thesis using iu_create_ok [OF assms(2)] by simp
qed (use assms(2) in simp_all)

lemma iu_reach_ok:
  "(int_update_step lstep mx nr)\<^sup>*\<^sup>* (int_update_init init) s \<Longrightarrow> iu_threads_ok good inside mx s"
proof (induction rule: rtranclp_induct)
  case base
  then show ?case using good_init inside_init by (simp add: iu_threads_ok_def int_update_init_def iu_insides_def iu_total_def)
qed (use iu_step_ok in blast)

end

text \<open>The last thread to start is one of the threads.\<close>

lemma iu_last_step: "int_update_step lstep mx nr s s' \<Longrightarrow> iu_last_ok s \<Longrightarrow> iu_last_ok s'"
proof (induction rule: int_update_step.induct)
  case (local s p pc c l)
  have "l = last_update_int s \<or> l = word_of_nat p"
    using local(3) by (cases "iu_pcs s ! p") (auto split: if_splits)
  then show ?case using local(2,4) by (auto simp: iu_last_ok_def)
qed (auto simp: iu_last_ok_def intro: less_SucI)

lemma iu_thread_exited:
  "update_int_call mx IuExited = None" "update_int_local mx p IuExited c l = None"
  by simp_all

lemma iu_report_passed:
  assumes ok: "iu_threads_ok good inside mx s" "iu_last_ok s"
    and m: "length (iu_pcs s) = nat nr" "\<forall>j < nat nr. iu_pcs s ! j = IuExited"
    and b: "0 \<le> mx" "0 \<le> nr" "nr < 2 ^ 31"
  shows "iu_passed nr (iu_report mx nr (update_int s) (last_update_int s))"
proof -
  have pcs: "iu_pcs s = replicate (nat nr) IuExited" using m by (simp add: list_eq_iff_nth_eq)
  have "update_int s = word_of_nat (nat nr * nat mx)"
    using ok(1) by (simp add: iu_threads_ok_def iu_total_def pcs sum_list_replicate)
  also have "\<dots> = word_of_int mx * word_of_int nr"
    using b by (simp add: mult.commute)
  finally have c: "update_int s = word_of_int mx * word_of_int nr" .
  obtain p where p: "p < nat nr \<or> p = 0" "last_update_int s = word_of_nat p"
    using ok(2) m(1) by (auto simp: iu_last_ok_def)
  have "sint (last_update_int s) = int p"
    using sint_word_of_int [of "int p"] p b(3) by auto
  then show ?thesis using p(1) b by (intro exI [of _ "int p"] iu_passed_def [THEN iffD2]) (auto simp: iu_report_def c)
qed

lemma iu_exited_stays:
  assumes "iu_pcs s ! j = IuExited"
  shows "update_int_call mx (iu_pcs s ! p) = Some r \<Longrightarrow> (iu_pcs s)[p := pc] ! j = IuExited"
    and "update_int_local mx p (iu_pcs s ! p) c l = Some r' \<Longrightarrow> (iu_pcs s)[p := pc] ! j = IuExited"
  using assms by (cases "p = j"; simp)+

lemma iu_main_step:
  assumes "int_update_step lstep mx nr s s'" "iu_main_ok nr s" "iu_threads_ok good inside mx s" "iu_last_ok s"
    and b: "0 \<le> mx" "0 \<le> nr" "nr < 2 ^ 31"
  shows "iu_main_ok nr s'"
  using assms(1)
proof (cases rule: int_update_step.cases)
  case (call p e pc l)
  then show ?thesis using assms(2) iu_exited_stays(1) [OF _ call(4)] by (auto simp: iu_main_ok_def)
next
  case (local p pc c l)
  then show ?thesis using assms(2) iu_exited_stays(2) [OF _ local(4)] by (auto simp: iu_main_ok_def)
next
  case (join i)
  then show ?thesis using assms(2) by (auto simp: iu_main_ok_def less_Suc_eq)
next
  case (report i)
  have "length (iu_pcs s) = nat nr" "\<forall>j < nat nr. iu_pcs s ! j = IuExited"
    using assms(2) report(2,3) by (auto simp: iu_main_ok_def)
  then show ?thesis using iu_report_passed [OF assms(3,4) _ _ b] report(1) by (simp add: iu_main_ok_def)
qed (use assms(2) in \<open>auto simp: iu_main_ok_def\<close>)

context lock_sys
begin

lemma iu_main_reach:
  assumes b: "0 \<le> mx" "0 \<le> nr" "nr < 2 ^ 31"
    and "(int_update_step lstep mx nr)\<^sup>*\<^sup>* (int_update_init init) s"
  shows "iu_main_ok nr s"
proof -
  have "iu_main_ok nr s \<and> iu_last_ok s" using assms(4)
  proof (induction rule: rtranclp_induct)
    case base
    show ?case by (auto simp: iu_main_ok_def iu_last_ok_def int_update_init_def)
  next
    case (step s s')
    then show ?case using iu_main_step [OF step.hyps(2) _ iu_reach_ok [OF step.hyps(1)] _ b] iu_last_step by blast
  qed
  then show ?thesis by simp
qed

end

section \<open>The program ends\<close>

text \<open>
  How many steps a thread has before it, with a mutex that never spins, and how many the whole
  program has.
\<close>

fun iu_left :: "int \<Rightarrow> iu_pc \<Rightarrow> nat" where
  "iu_left mx IuBegin = 6 * nat mx + 2"
| "iu_left mx (IuTop k) = 6 * (nat mx - k) + 1"
| "iu_left mx (IuLocking k) = 6 * (nat mx - k)"
| "iu_left mx (IuRead k) = 6 * (nat mx - k) - 1"
| "iu_left mx (IuStore k v) = 6 * (nat mx - k) - 2"
| "iu_left mx (IuAdded k) = 6 * (nat mx - k) - 3"
| "iu_left mx (IuUnlocking k) = 6 * (nat mx - k) - 4"
| "iu_left mx IuExited = 0"

definition iu_steps_left :: "int \<Rightarrow> int \<Rightarrow> 'l int_update \<Rightarrow> nat" where
  "iu_steps_left mx nr s = sum_list (map (iu_left mx) (iu_pcs s)) + (case iu_main s of
     IuCreate \<Rightarrow> (nat nr - length (iu_pcs s)) * (6 * nat mx + 3) + nat nr + 2
   | IuJoin i \<Rightarrow> nat nr - i + 1
   | IuReturned rv out \<Rightarrow> 0)"

lemma sum_list_less:
  fixes f :: "'a \<Rightarrow> nat"
  assumes "p < length xs" "f x < f (xs ! p)"
  shows "sum_list (map f (xs[p := x])) < sum_list (map f xs)"
  using assms
proof (induction xs arbitrary: p)
  case (Cons y ys)
  then show ?case by (cases p) simp_all
qed simp

lemma iu_step_less:
  assumes st: "int_update_step mutex_step mx nr s s'" and ok: "list_all (iu_pc_ok mx) (iu_pcs s)"
  shows "iu_steps_left mx nr s' < iu_steps_left mx nr s"
  using st
proof (cases rule: int_update_step.cases)
  case (call p e pc l)
  have "iu_pc_ok mx (iu_pcs s ! p)" using ok call(3) by (simp add: list_all_length)
  then have "iu_left mx pc < iu_left mx (iu_pcs s ! p)" using call(4) by (cases "iu_pcs s ! p") (auto split: if_splits)
  then show ?thesis using sum_list_less [OF call(3), of "iu_left mx" pc] call(1) by (simp add: iu_steps_left_def split: iu_main_pc.split)
next
  case (lock p l)
  then show ?thesis by (auto elim: mutex_step.cases)
next
  case (local p pc c l)
  have "iu_pc_ok mx (iu_pcs s ! p)" using ok local(3) by (simp add: list_all_length)
  then have "iu_left mx pc < iu_left mx (iu_pcs s ! p)" using local(4) by (cases "iu_pcs s ! p") (auto split: if_splits)
  then show ?thesis using sum_list_less [OF local(3), of "iu_left mx" pc] local(1) by (simp add: iu_steps_left_def split: iu_main_pc.split)
next
  case create
  then have n: "nat nr - length (iu_pcs s) = Suc (nat nr - Suc (length (iu_pcs s)))" by linarith
  show ?thesis using create by (simp add: iu_steps_left_def n)
qed (auto simp: iu_steps_left_def)

text \<open>Nor is the program ever stuck: the thread that holds the mutex can go on.\<close>

lemma iu_thread_moves:
  assumes ok: "iu_threads_ok (\<lambda>_. True) (\<lambda>s. {p. s = Some p}) mx s" and p: "p < length (iu_pcs s)"
    and x: "iu_pcs s ! p \<noteq> IuExited" and m: "iu_main s \<in> {IuCreate} \<union> range IuJoin"
  shows "\<exists>s'. int_update_step mutex_step mx nr s s'"
proof -
  have h: "update_lock s = Some q \<longleftrightarrow> q < length (iu_pcs s) \<and> iu_inside (iu_pcs s ! q)" for q
    using ok by (auto simp: iu_threads_ok_def iu_insides_def)
  have loc: "\<exists>s'. int_update_step mutex_step mx nr s s'"
    if "update_int_local mx q (iu_pcs s ! q) (update_int s) (last_update_int s) \<noteq> None" "q < length (iu_pcs s)" for q
    using that int_update_step.local [OF m that(2), of mx _ _ _ mutex_step nr] by (metis not_None_eq prod_cases3)
  have ins: "\<exists>s'. int_update_step mutex_step mx nr s s'" if q: "q < length (iu_pcs s)" "iu_inside (iu_pcs s ! q)" for q
  proof (cases "iu_pcs s ! q")
    case (IuAdded k)
    have "update_lock s = Some q" using h q by blast
    then have "mutex_step q Exit (update_lock s) None" by (simp add: mutex_step.intros(3))
    then show ?thesis using int_update_step.call [OF m q(1), of mx Exit "IuUnlocking k" mutex_step] IuAdded by auto
  qed (use q loc [OF _ q(1)] in simp_all)
  have quiet: "mutex_step p e (update_lock s) (update_lock s)" if "e \<in> {LockCall, Ret}" for e
    using that by (rule mutex_step.intros(1))
  show ?thesis
  proof (cases "iu_pcs s ! p")
    case (IuTop k)
    show ?thesis
    proof (cases "int k < mx")
      case True
      then show ?thesis using int_update_step.call [OF m p, of mx LockCall "IuLocking k" mutex_step] IuTop quiet by auto
    qed (use loc [OF _ p] IuTop in simp)
  next
    case (IuLocking k)
    show ?thesis
    proof (cases "update_lock s")
      case None
      then show ?thesis using int_update_step.call [OF m p, of mx Enter "IuRead k" mutex_step] IuLocking mutex_step.intros(2) by auto
    qed (use h ins in auto)
  next
    case (IuUnlocking k)
    then show ?thesis using int_update_step.call [OF m p, of mx Ret "IuTop (Suc k)" mutex_step] quiet by auto
  qed (use x p ins loc [OF _ p] in simp_all)
qed

lemma iu_moves:
  assumes ok: "iu_threads_ok (\<lambda>_. True) (\<lambda>s. {p. s = Some p}) mx s" "iu_main_ok nr s"
    and m: "iu_main s \<in> {IuCreate} \<union> range IuJoin"
  shows "\<exists>s'. int_update_step mutex_step mx nr s s'"
proof (cases "iu_main s")
  case IuCreate
  then show ?thesis by (cases "int (length (iu_pcs s)) < nr") (auto intro: int_update_step.create int_update_step.created)
next
  case (IuJoin i)
  show ?thesis
  proof (cases "int i < nr")
    case True
    then have i: "i < length (iu_pcs s)" using ok(2) IuJoin by (auto simp: iu_main_ok_def)
    show ?thesis
    proof (cases "iu_pcs s ! i = IuExited")
      case True
      then show ?thesis using int_update_step.join [OF IuJoin \<open>int i < nr\<close> i] by blast
    qed (use iu_thread_moves [OF ok(1) i _ m] in blast)
  qed (use int_update_step.report [OF IuJoin] in blast)
qed (use m in auto)

lemma int_update_returns:
  assumes b: "0 \<le> mx" "0 \<le> nr" "nr < 2 ^ 31"
    and r: "(int_update_step mutex_step mx nr)\<^sup>*\<^sup>* (int_update_init None) s"
  shows "\<exists>s' rv out. (int_update_step mutex_step mx nr)\<^sup>*\<^sup>* s s' \<and> iu_main s' = IuReturned rv out"
  using r
proof (induction "iu_steps_left mx nr s" arbitrary: s rule: less_induct)
  case less
  note ok = pmutex.iu_reach_ok [OF less.prems]
  show ?case
  proof (cases "iu_main s \<in> {IuCreate} \<union> range IuJoin")
    case True
    obtain s1 where s1: "int_update_step mutex_step mx nr s s1"
      using iu_moves [OF ok pmutex.iu_main_reach [OF b less.prems] True] by blast
    have "iu_steps_left mx nr s1 < iu_steps_left mx nr s"
      using iu_step_less [OF s1] ok by (simp add: iu_threads_ok_def)
    then show ?thesis using less.hyps [of s1] less.prems s1
      by (meson converse_rtranclp_into_rtranclp rtranclp.rtrancl_into_rtrancl)
  next
    case False
    then show ?thesis by (cases "iu_main s") auto
  qed
qed

text \<open>
  Property C21: built with the mutex and given sane numbers, the program prints that it passed
  whenever every thread could be created, in every interleaving of its threads.
\<close>

theorem int_update_counts:
  assumes "int_update_main None mutex_step junk [prog, int_string nr, int_string mx] rv out"
    and "0 \<le> nr" "nr < 2 ^ 31" "0 \<le> mx" "mx < 2 ^ 31"
  shows "rv = -1 \<and> out = ''pthread_create failed'' @ iu_newline \<or> rv = 0 \<and> iu_passed nr out"
proof -
  have "int_update_args junk [prog, int_string nr, int_string mx] = Some (nr, mx)"
    using assms(2-5) by (simp add: int_update_args_def scan_into_int_string)
  then obtain s where "(int_update_step mutex_step mx nr)\<^sup>*\<^sup>* (int_update_init None) s" "iu_main s = IuReturned rv out"
    using assms(1) by (auto simp: int_update_main_def)
  then show ?thesis using pmutex.iu_main_reach [OF assms(4,2,3)] by (fastforce simp: iu_main_ok_def)
qed

text \<open>One thread with one increment: the steps that use the mutex.\<close>

lemma iu_lone:
  fixes l :: "nat option"
  defines "u \<equiv> \<lambda>l c pc. \<lparr>update_lock = l, update_int = c, last_update_int = 0, iu_pcs = [pc], iu_main = IuCreate\<rparr>"
  shows "update_int_call 1 pc = Some (e, pc') \<Longrightarrow> mutex_step 0 e l l' \<Longrightarrow> int_update_step mutex_step 1 1 (u l c pc) (u l' c pc')"
    and "update_int_local 1 0 pc c 0 = Some (pc', c', 0) \<Longrightarrow> int_update_step mutex_step 1 1 (u l c pc) (u l c' pc')"
  using int_update_step.call [of "u l c pc" 0 1 e pc' mutex_step l' 1] int_update_step.local [of "u l c pc" 0 1 pc' c' 0 mutex_step 1]
  by (simp_all add: u_def)

lemma iu_lone_run:
  "(int_update_step mutex_step 1 1)\<^sup>*\<^sup>* (int_update_init None)
     \<lparr>update_lock = None, update_int = 1, last_update_int = 0, iu_pcs = [IuExited], iu_main = IuReturned 0 (iu_report 1 1 1 0)\<rparr>"
    (is "?r\<^sup>*\<^sup>* _ _")
proof -
  define u where "u = (\<lambda>l :: nat option. \<lambda>c pc m. \<lparr>update_lock = l, update_int = c, last_update_int = 0, iu_pcs = [pc], iu_main = m\<rparr>)"
  have "?r (int_update_init None) (u None 0 IuBegin IuCreate)"
    using int_update_step.create [of "int_update_init None" 1] by (simp add: int_update_init_def u_def)
  moreover have "?r (u None 0 IuBegin IuCreate) (u None 0 (IuTop 0) IuCreate)" unfolding u_def by (rule iu_lone(2)) simp
  moreover have "?r (u None 0 (IuTop 0) IuCreate) (u None 0 (IuLocking 0) IuCreate)"
    unfolding u_def by (rule iu_lone(1) [of _ LockCall]) (simp_all add: mutex_step.intros(1))
  moreover have "?r (u None 0 (IuLocking 0) IuCreate) (u (Some 0) 0 (IuRead 0) IuCreate)"
    unfolding u_def by (rule iu_lone(1) [of _ Enter]) (simp_all add: mutex_step.intros(2))
  moreover have "?r (u (Some 0) 0 (IuRead 0) IuCreate) (u (Some 0) 0 (IuStore 0 0) IuCreate)" unfolding u_def by (rule iu_lone(2)) simp
  moreover have "?r (u (Some 0) 0 (IuStore 0 0) IuCreate) (u (Some 0) 1 (IuAdded 0) IuCreate)" unfolding u_def by (rule iu_lone(2)) simp
  moreover have "?r (u (Some 0) 1 (IuAdded 0) IuCreate) (u None 1 (IuUnlocking 0) IuCreate)"
    unfolding u_def by (rule iu_lone(1) [of _ Exit]) (simp_all add: mutex_step.intros(3))
  moreover have "?r (u None 1 (IuUnlocking 0) IuCreate) (u None 1 (IuTop 1) IuCreate)"
    unfolding u_def by (rule iu_lone(1) [of _ Ret]) (simp_all add: mutex_step.intros(1))
  moreover have "?r (u None 1 (IuTop 1) IuCreate) (u None 1 IuExited IuCreate)" unfolding u_def by (rule iu_lone(2)) simp
  moreover have "?r (u None 1 IuExited IuCreate) (u None 1 IuExited (IuJoin 0))"
    using int_update_step.created [of "u None 1 IuExited IuCreate" 1] by (simp add: u_def)
  moreover have "?r (u None 1 IuExited (IuJoin 0)) (u None 1 IuExited (IuJoin 1))"
    using int_update_step.join [of "u None 1 IuExited (IuJoin 0)" 0 1] by (simp add: u_def)
  moreover have "?r (u None 1 IuExited (IuJoin 1)) (u None 1 IuExited (IuReturned 0 (iu_report 1 1 1 0)))"
    using int_update_step.report [of "u None 1 IuExited (IuJoin 1)" 1 1] by (simp add: u_def)
  ultimately show ?thesis unfolding u_def by (meson converse_rtranclp_into_rtranclp rtranclp.rtrancl_refl)
qed

theorem int_update_counts_witness:
  "\<exists>out. int_update_main None mutex_step 0 [''a'', int_string 1, int_string 1] 0 out \<and> iu_passed 1 out"
proof -
  have "int_update_main None mutex_step 0 [''a'', int_string 1, int_string 1] 0 (iu_report 1 1 1 0)"
    using iu_lone_run by (fastforce simp: int_update_main_def int_update_args_def scan_into_int_string)
  then show ?thesis using int_update_counts [of 0 "''a''" 1 1 0 "iu_report 1 1 1 0"] by auto
qed

section \<open>Without the mutex\<close>

text \<open>
  In the build without \<^verbatim>\<open>WITH_LOCK\<close> two threads can read the same value, and the program says so.
\<close>

lemma iu_pair:
  defines "u \<equiv> \<lambda>c l pcs m. \<lparr>update_lock = (), update_int = c, last_update_int = l, iu_pcs = pcs, iu_main = m\<rparr>"
  shows "p < length pcs \<Longrightarrow> update_int_call 1 (pcs ! p) = Some (e, pc) \<Longrightarrow> e \<noteq> Tau \<Longrightarrow> pcs' = pcs[p := pc] \<Longrightarrow>
      int_update_step no_lock 1 2 (u c l pcs IuCreate) (u c l pcs' IuCreate)"
    and "p < length pcs \<Longrightarrow> update_int_local 1 p (pcs ! p) c l = Some (pc, c', l') \<Longrightarrow> pcs' = pcs[p := pc] \<Longrightarrow>
      int_update_step no_lock 1 2 (u c l pcs IuCreate) (u c' l' pcs' IuCreate)"
  using int_update_step.call [of "u c l pcs IuCreate" p 1 e pc no_lock "()" 2]
    int_update_step.local [of "u c l pcs IuCreate" p 1 pc c' l' no_lock 2]
  by (simp_all add: u_def no_lock_def)

lemma int_update_loses:
  "int_update_main () no_lock junk [prog, int_string 2, int_string 1] 0 (iu_report 1 2 1 1)"
  "iu_report 1 2 1 1 = ''last_update_int = 1'' @ iu_newline @ ''FAILED update_int = 1 nr_threads = 2 max_iters = 1'' @ iu_newline"
proof -
  define u where "u = (\<lambda>c l pcs m. \<lparr>update_lock = (), update_int = c, last_update_int = l, iu_pcs = pcs, iu_main = m\<rparr>)"
  let ?r = "int_update_step no_lock 1 2"
  have "?r (int_update_init ()) (u 0 0 [IuBegin] IuCreate)"
    using int_update_step.create [of "int_update_init ()" 2] by (simp add: int_update_init_def u_def)
  moreover have "?r (u 0 0 [IuBegin] IuCreate) (u 0 0 [IuBegin, IuBegin] IuCreate)"
    using int_update_step.create [of "u 0 0 [IuBegin] IuCreate" 2] by (simp add: u_def)
  moreover have "?r (u 0 0 [IuBegin, IuBegin] IuCreate) (u 0 0 [IuTop 0, IuBegin] IuCreate)"
    unfolding u_def by (rule iu_pair(2) [of 0]) simp_all
  moreover have "?r (u 0 0 [IuTop 0, IuBegin] IuCreate) (u 0 1 [IuTop 0, IuTop 0] IuCreate)"
    unfolding u_def by (rule iu_pair(2) [of 1]) simp_all
  moreover have "?r (u 0 1 [IuTop 0, IuTop 0] IuCreate) (u 0 1 [IuLocking 0, IuTop 0] IuCreate)"
    unfolding u_def by (rule iu_pair(1) [where p = 0 and e = LockCall]) simp_all
  moreover have "?r (u 0 1 [IuLocking 0, IuTop 0] IuCreate) (u 0 1 [IuLocking 0, IuLocking 0] IuCreate)"
    unfolding u_def by (rule iu_pair(1) [where p = 1 and e = LockCall]) simp_all
  moreover have "?r (u 0 1 [IuLocking 0, IuLocking 0] IuCreate) (u 0 1 [IuRead 0, IuLocking 0] IuCreate)"
    unfolding u_def by (rule iu_pair(1) [where p = 0 and e = Enter]) simp_all
  moreover have "?r (u 0 1 [IuRead 0, IuLocking 0] IuCreate) (u 0 1 [IuRead 0, IuRead 0] IuCreate)"
    unfolding u_def by (rule iu_pair(1) [where p = 1 and e = Enter]) simp_all
  moreover have "?r (u 0 1 [IuRead 0, IuRead 0] IuCreate) (u 0 1 [IuStore 0 0, IuRead 0] IuCreate)"
    unfolding u_def by (rule iu_pair(2) [of 0]) simp_all
  moreover have "?r (u 0 1 [IuStore 0 0, IuRead 0] IuCreate) (u 0 1 [IuStore 0 0, IuStore 0 0] IuCreate)"
    unfolding u_def by (rule iu_pair(2) [of 1]) simp_all
  moreover have "?r (u 0 1 [IuStore 0 0, IuStore 0 0] IuCreate) (u 1 1 [IuAdded 0, IuStore 0 0] IuCreate)"
    unfolding u_def by (rule iu_pair(2) [of 0]) simp_all
  moreover have "?r (u 1 1 [IuAdded 0, IuStore 0 0] IuCreate) (u 1 1 [IuAdded 0, IuAdded 0] IuCreate)"
    unfolding u_def by (rule iu_pair(2) [of 1]) simp_all
  moreover have "?r (u 1 1 [IuAdded 0, IuAdded 0] IuCreate) (u 1 1 [IuUnlocking 0, IuAdded 0] IuCreate)"
    unfolding u_def by (rule iu_pair(1) [where p = 0 and e = Exit]) simp_all
  moreover have "?r (u 1 1 [IuUnlocking 0, IuAdded 0] IuCreate) (u 1 1 [IuUnlocking 0, IuUnlocking 0] IuCreate)"
    unfolding u_def by (rule iu_pair(1) [where p = 1 and e = Exit]) simp_all
  moreover have "?r (u 1 1 [IuUnlocking 0, IuUnlocking 0] IuCreate) (u 1 1 [IuTop 1, IuUnlocking 0] IuCreate)"
    unfolding u_def by (rule iu_pair(1) [where p = 0 and e = Ret]) simp_all
  moreover have "?r (u 1 1 [IuTop 1, IuUnlocking 0] IuCreate) (u 1 1 [IuTop 1, IuTop 1] IuCreate)"
    unfolding u_def by (rule iu_pair(1) [where p = 1 and e = Ret]) simp_all
  moreover have "?r (u 1 1 [IuTop 1, IuTop 1] IuCreate) (u 1 1 [IuExited, IuTop 1] IuCreate)"
    unfolding u_def by (rule iu_pair(2) [of 0]) simp_all
  moreover have "?r (u 1 1 [IuExited, IuTop 1] IuCreate) (u 1 1 [IuExited, IuExited] IuCreate)"
    unfolding u_def by (rule iu_pair(2) [of 1]) simp_all
  moreover have "?r (u 1 1 [IuExited, IuExited] IuCreate) (u 1 1 [IuExited, IuExited] (IuJoin 0))"
    using int_update_step.created [of "u 1 1 [IuExited, IuExited] IuCreate" 2] by (simp add: u_def)
  moreover have "?r (u 1 1 [IuExited, IuExited] (IuJoin 0)) (u 1 1 [IuExited, IuExited] (IuJoin 1))"
    using int_update_step.join [of "u 1 1 [IuExited, IuExited] (IuJoin 0)" 0 2] by (simp add: u_def)
  moreover have "?r (u 1 1 [IuExited, IuExited] (IuJoin 1)) (u 1 1 [IuExited, IuExited] (IuJoin 2))"
    using int_update_step.join [of "u 1 1 [IuExited, IuExited] (IuJoin 1)" 1 2] by (simp add: u_def numeral_2_eq_2)
  moreover have "?r (u 1 1 [IuExited, IuExited] (IuJoin 2)) (u 1 1 [IuExited, IuExited] (IuReturned 0 (iu_report 1 2 1 1)))"
    using int_update_step.report [of "u 1 1 [IuExited, IuExited] (IuJoin 2)" 2 2] by (simp add: u_def)
  ultimately have "?r\<^sup>*\<^sup>* (int_update_init ()) (u 1 1 [IuExited, IuExited] (IuReturned 0 (iu_report 1 2 1 1)))"
    by (meson converse_rtranclp_into_rtranclp rtranclp.rtrancl_refl)
  then show "int_update_main () no_lock junk [prog, int_string 2, int_string 1] 0 (iu_report 1 2 1 1)"
    by (fastforce simp: int_update_main_def int_update_args_def scan_into_int_string u_def)
  show "iu_report 1 2 1 1 = ''last_update_int = 1'' @ iu_newline @ ''FAILED update_int = 1 nr_threads = 2 max_iters = 1'' @ iu_newline"
    by (simp add: iu_report_def int_string_def dec_string.simps char_of_def bit_0)
qed

text \<open>A negative number of threads, where nothing is lost, also reports failure.\<close>

lemma int_update_negative: "iu_report 1 (-1) 0 0 =
    ''last_update_int = 0'' @ iu_newline @ ''FAILED update_int = 0 nr_threads = -1 max_iters = 1'' @ iu_newline"
  by (simp add: iu_report_def int_string_def dec_string.simps char_of_def bit_0)

end
