(* ===== verification/Float32.thy ===== *)
theory Float32
  imports C_Library
begin

text \<open>
  Single precision numbers as the C programs of the repository use them: 24 bits, rounded to nearest,
  halves to even, and their conversion from text.
\<close>

section \<open>Single precision\<close>

text \<open>
  A non-negative number is a fraction \<open>(n, d)\<close>. \<open>f32_scale\<close> finds the powers of two that bring it
  between \<open>2 ^ 23\<close> and \<open>2 ^ 24\<close>; \<open>f32\<close> rounds there. The exponent has no
  bounds: the programs only compare numbers too small for it with a threshold or truncate them to 0,
  and those too large for it are compared or make a conversion that is undefined.
\<close>

function (sequential) f32_scale :: "nat \<Rightarrow> nat \<Rightarrow> nat \<Rightarrow> nat \<Rightarrow> nat \<times> nat" where
  "f32_scale n d j k =
     (if n = 0 \<or> d = 0 then (j, k)
      else if n < 2 ^ 23 * d then f32_scale (2 * n) d (Suc j) k
      else if 2 ^ 24 * d \<le> n then f32_scale n (2 * d) j (Suc k)
      else (j, k))"
  by pat_completeness auto
termination
  by (relation "measures [\<lambda>(n, d, j, k). if n < 2 ^ 23 * d then 1 else 0, \<lambda>(n, d, j, k). if n < 2 ^ 23 * d then 2 ^ 23 * d - n else n - d]")
    auto

declare f32_scale.simps [simp del]

definition round_even :: "nat \<Rightarrow> nat \<Rightarrow> nat" where
  "round_even n d =
     (let q = n div d; r = n mod d
      in if 2 * r < d \<or> 2 * r = d \<and> even q then q else q + 1)"

definition f32 :: "nat \<times> nat \<Rightarrow> nat \<times> nat" where
  "f32 x = (let (n, d) = x; (j, k) = f32_scale n d 0 0
            in (round_even (n * 2 ^ j) (d * 2 ^ k) * 2 ^ k, 2 ^ j))"

text \<open>
  \<^verbatim>\<open>%f\<close>: a sign, digits with at most one point, and an exponent. The spellings of infinity, of no number
  and hexadecimal numbers are left out.
\<close>

definition scan_exp :: "string \<Rightarrow> bool \<times> nat" where
  "scan_exp s = (case s of
     c # r \<Rightarrow> if c = CHR ''e'' \<or> c = CHR ''E''
              then (case r of
                  d # r' \<Rightarrow> if d = CHR ''-'' then (True, num_of 10 (takeWhile (digit_in 10) r'))
                    else if d = CHR ''+'' then (False, num_of 10 (takeWhile (digit_in 10) r'))
                    else (False, num_of 10 (takeWhile (digit_in 10) r))
                | [] \<Rightarrow> (False, 0))
              else (False, 0)
   | [] \<Rightarrow> (False, 0))"

definition scan_float :: "string \<Rightarrow> (bool \<times> nat \<times> nat) option" where
  "scan_float s =
     (let s1 = skip_ws s;
          (neg, s2) = (case s1 of
             c # r \<Rightarrow> if c = CHR ''-'' then (True, r) else if c = CHR ''+'' then (False, r) else (False, s1)
           | [] \<Rightarrow> (False, []));
          whole = takeWhile (digit_in 10) s2; s3 = drop (length whole) s2;
          part = (case s3 of c # r \<Rightarrow> if c = CHR ''.'' then takeWhile (digit_in 10) r else [] | [] \<Rightarrow> []);
          s4 = (case s3 of c # r \<Rightarrow> if c = CHR ''.'' then drop (length part) r else s3 | [] \<Rightarrow> []);
          (eneg, e) = scan_exp s4
      in if whole = [] \<and> part = [] then None
         else let n = num_of 10 (whole @ part); d = 10 ^ length part;
                  x = f32 (if eneg then (n, d * 10 ^ e) else (n * 10 ^ e, d))
              in Some (neg, x))"

section \<open>Rounding\<close>

lemma round_even_near:
  assumes "0 < d"
  shows "2 * d * round_even n d \<le> 2 * n + d" "2 * n \<le> 2 * d * round_even n d + d"
proof -
  have "n = d * (n div d) + n mod d" "n mod d < d" using assms by simp_all
  then have *: "2 * n = 2 * d * (n div d) + 2 * (n mod d)" "n mod d < d" by (metis distrib_left mult.assoc, simp)
  show "2 * d * round_even n d \<le> 2 * n + d" "2 * n \<le> 2 * d * round_even n d + d"
    using * by (auto simp: round_even_def Let_def algebra_simps)
qed

lemma round_even_unique:
  assumes "2 * n < 2 * d * q + d" "2 * d * q < 2 * n + d"
  shows "round_even n d = q"
proof -
  have d: "0 < d" using assms by (cases d) auto
  note r = round_even_near [OF d, of n]
  have "2 * d * round_even n d < 2 * d * (q + 1)" using r(1) assms(1) by (simp add: algebra_simps)
  moreover have "2 * d * q < 2 * d * (round_even n d + 1)" using r(2) assms(2) by (simp add: algebra_simps)
  ultimately show ?thesis by (metis Suc_eq_plus1 less_Suc_eq_le le_antisym mult_less_cancel1)
qed

lemma f32_scale_up:
  assumes "0 < n" "0 < d" "2 ^ 23 * d \<le> n * 2 ^ j" "n * 2 ^ j < 2 ^ 24 * d" "i \<le> j"
  shows "f32_scale (n * 2 ^ i) d i 0 = (j, 0)"
  using assms(5)
proof (induction "j - i" arbitrary: i)
  case 0
  then show ?case using assms(1-4) by (subst f32_scale.simps) simp
next
  case (Suc m)
  have "j = i + Suc m" using Suc.hyps(2) by linarith
  then have i: "(2 :: nat) ^ j = 2 * 2 ^ i * 2 ^ m" by (simp add: power_add)
  have "2 * (n * 2 ^ i) * 1 \<le> 2 * (n * 2 ^ i) * 2 ^ m" by (rule mult_le_mono2) simp
  then have "2 * (n * 2 ^ i) \<le> n * 2 ^ j" using i by (simp add: mult.assoc)
  then have "2 * (n * 2 ^ i) < 2 * (2 ^ 23 * d)" using assms(4) by (rule le_less_trans [THEN less_le_trans]) simp
  then have "n * 2 ^ i < 2 ^ 23 * d" by (simp only: mult_less_cancel1)
  then have "f32_scale (n * 2 ^ i) d i 0 = f32_scale (n * 2 ^ Suc i) d (Suc i) 0"
    using assms(1,2) by (subst f32_scale.simps) (simp add: ac_simps)
  then show ?case using Suc.hyps(1) [of "Suc i"] Suc.hyps(2) by simp
qed

lemma f32_up:
  assumes "0 < d" "2 ^ 23 * d \<le> n * 2 ^ j" "n * 2 ^ j < 2 ^ 24 * d"
  shows "f32 (n, d) = (round_even (n * 2 ^ j) d, 2 ^ j)"
proof -
  have "0 < n" using assms(1,2) by (cases n) auto
  then show ?thesis using f32_scale_up [of n d j 0] assms by (simp add: f32_def)
qed

text \<open>Evaluation: several doublings at once.\<close>

lemma f32_scale_jump:
  assumes "0 < n" "0 < d" "n * 2 ^ i < 2 ^ 24 * d"
  shows "f32_scale n d j k = f32_scale (n * 2 ^ i) d (j + i) k"
  using assms(3)
proof (induction i)
  case (Suc i)
  have "2 * (n * 2 ^ i) < 2 * (2 ^ 23 * d)" using Suc.prems by (simp add: ac_simps)
  then have l: "n * 2 ^ i < 2 ^ 23 * d" by (simp only: mult_less_cancel1)
  have "n * 2 ^ i < 2 ^ 24 * d" using l by simp
  then have "f32_scale n d j k = f32_scale (n * 2 ^ i) d (j + i) k" by (rule Suc.IH)
  also have "\<dots> = f32_scale (2 * (n * 2 ^ i)) d (Suc (j + i)) k"
    using l assms(1,2) by (subst f32_scale.simps) simp
  finally show ?case by (simp add: ac_simps)
qed simp

lemma f32_scale_stop: "2 ^ 23 * d \<le> n \<Longrightarrow> n < 2 ^ 24 * d \<Longrightarrow> f32_scale n d j k = (j, k)"
  by (subst f32_scale.simps) simp

lemmas f32_eval = f32_scale_stop f32_scale_jump [where i = 16] f32_scale_jump [where i = 4] f32_scale_jump [where i = 1]
  f32_def round_even_def

end
