(* ===== verification/Cpu_Khz.thy ===== *)
theory Cpu_Khz
  imports Float32
begin

text \<open>
  The clock rate reader \<^verbatim>\<open>src/cpukhz.c\<close>: it looks for the line of a processor description that starts
  with \<^verbatim>\<open>cpu MHz\<close>, reads the number after the colon as a \<^verbatim>\<open>float\<close>, multiplies it by 1000 and truncates.
\<close>

section \<open>The program\<close>

definition CPU_MHZ_STR :: string where
  "CPU_MHZ_STR = ''cpu MHz''"

definition CPU_INFO_STR_LEN_MAX :: nat where
  "CPU_INFO_STR_LEN_MAX = 100"

text \<open>The buffer after \<^verbatim>\<open>fgets\<close>: the line, its NUL, and what was there before.\<close>

definition into_buf :: "string \<Rightarrow> string \<Rightarrow> string" where
  "into_buf line buf = line @ [NUL] @ drop (length line + 1) buf"

text \<open>The loop over the lines: the buffer with the line that was found.\<close>

function find_mhz :: "string \<Rightarrow> string \<Rightarrow> string option" where
  "find_mhz inp buf =
     (case fgets CPU_INFO_STR_LEN_MAX inp of
        None \<Rightarrow> None
      | Some (line, rest) \<Rightarrow>
          let buf = into_buf line buf
          in if take (length CPU_MHZ_STR) buf = CPU_MHZ_STR then Some buf else find_mhz rest buf)"
  by pat_completeness auto
termination
proof (relation "measure (\<lambda>(inp, buf). length inp)")
  fix inp buf buf' line rest :: string and a
  assume "fgets CPU_INFO_STR_LEN_MAX inp = Some a" "(line, rest) = a"
  then have "inp = line @ rest" "line \<noteq> []" using fgets_split by metis+
  then show "((rest, buf'), (inp, buf)) \<in> measure (\<lambda>(inp, buf). length inp)" by simp
qed simp

declare find_mhz.simps [simp del]

text \<open>
  The loop over the characters: what follows the first colon of the 100, up to its NUL. \<^verbatim>\<open>cpukhz\<close> is 0 and
  \<open>rc\<close> is not set when there is none. \<open>mhz0\<close> is what \<^verbatim>\<open>mhz\<close> holds when there is no number there.
\<close>

definition c_str :: "string \<Rightarrow> string" where
  "c_str s = takeWhile (\<lambda>c. c \<noteq> NUL) s"

definition to_ulong :: "bool \<times> nat \<times> nat \<Rightarrow> nat option" where
  "to_ulong x = (let (neg, n, d) = x; v = n div d in if v \<ge> 2 ^ 64 \<or> neg \<and> 0 < v then None else Some v)"

definition read_khz :: "bool \<times> nat \<times> nat \<Rightarrow> string \<Rightarrow> (nat \<times> bool) option" where
  "read_khz mhz0 buf =
     (case strchr_pos (take CPU_INFO_STR_LEN_MAX buf) CHR '':'' of
        None \<Rightarrow> Some (0, False)
      | Some i \<Rightarrow>
          let (neg, mhz) = (case scan_float (c_str (drop (Suc i) buf)) of None \<Rightarrow> mhz0 | Some x \<Rightarrow> x);
              prod = f32 (1000 * fst mhz, snd mhz)
          in map_option (\<lambda>cpukhz. (cpukhz, True)) (to_ulong (neg, prod)))"

text \<open>
  \<^verbatim>\<open>main\<close>: the file or \<open>None\<close> when it cannot be opened. The status is \<open>rc0\<close>, whatever the uninitialised
  \<^verbatim>\<open>rc\<close> holds, where the code does not set it. \<open>None\<close> is the undefined conversion of a number that
  is no \<^verbatim>\<open>unsigned long\<close>.
\<close>

definition cpukhz_main :: "int \<Rightarrow> bool \<times> nat \<times> nat \<Rightarrow> string \<Rightarrow> string option \<Rightarrow> (int \<times> string) option" where
  "cpukhz_main rc0 mhz0 buf0 info =
     (case info of
        None \<Rightarrow> Some (rc0, [])
      | Some inp \<Rightarrow>
          (case find_mhz inp buf0 of
             None \<Rightarrow> Some (rc0, [])
           | Some buf \<Rightarrow>
               map_option (\<lambda>(cpukhz, ok). (if ok then 0 else rc0, ''cpukhz = '' @ dec_string cpukhz @ [CHR 0x0A]))
                 (read_khz mhz0 buf)))"

lemma length_mhz [simp]: "length CPU_MHZ_STR = 7"
  by (simp add: CPU_MHZ_STR_def)

section \<open>The arithmetic\<close>

text \<open>
  Why the rounding does no harm: the \<^verbatim>\<open>float\<close> is off by at most half a unit, a thousand times that is still
  less than half a unit of the product, and the product of the exact value is a \<^verbatim>\<open>float\<close>.
\<close>

lemma f32_khz:
  assumes "2 ^ 23 < K * 2 ^ j" "K * 2 ^ j < 1000 * 2 ^ 14"
  shows "\<exists>m d. f32 (K, 1000) = (m, d) \<and> f32 (1000 * m, d) = (K * 2 ^ j, 2 ^ j)"
proof -
  define B M where "B = (2 :: nat) ^ j" and "M = round_even (K * 2 ^ (j + 10)) 1000"
  have p: "(2 :: nat) ^ (j + 10) = 1024 * B" by (simp add: B_def power_add)
  have b: "8388608 < K * B" "K * B < 16384000" using assms by (simp_all add: B_def)
  have x: "f32 (K, 1000) = (M, 2 ^ (j + 10))" unfolding M_def
    by (rule f32_up) (use b in \<open>simp_all add: p mult.commute [of B K]\<close>)
  have m: "1000 * M \<le> 1024 * (K * B) + 500" "1024 * (K * B) \<le> 1000 * M + 500"
    using round_even_near [of 1000 "K * 2 ^ (j + 10)"] by (simp_all add: M_def p)
  have "round_even (1000 * M * 2 ^ j) (2 ^ (j + 10)) = K * B"
  proof (rule round_even_unique)
    have B: "0 < B" by (simp add: B_def)
    have "2 * (1000 * M) < 2 * (1024 * (K * B)) + 1024" "2 * (1024 * (K * B)) < 2 * (1000 * M) + 1024" using m by linarith+
    then have "2 * (1000 * M) * B < 2 * (1024 * (K * B)) * B + 1024 * B" "2 * (1024 * (K * B)) * B < 2 * (1000 * M) * B + 1024 * B"
      using B by (metis distrib_right mult_less_mono1)+
    then show "2 * (1000 * M * 2 ^ j) < 2 * 2 ^ (j + 10) * (K * B) + 2 ^ (j + 10)"
      "2 * 2 ^ (j + 10) * (K * B) < 2 * (1000 * M * 2 ^ j) + 2 ^ (j + 10)"
      by (simp_all only: p B_def [symmetric]) (simp_all only: ac_simps)
  qed
  moreover have "f32 (1000 * M, 2 ^ (j + 10)) = (round_even (1000 * M * 2 ^ j) (2 ^ (j + 10)), 2 ^ j)"
  proof (rule f32_up)
    have "2 ^ 33 \<le> 1000 * M" "1000 * M < 2 ^ 34" using m b by simp_all
    then have "2 ^ 33 * B \<le> 1000 * M * B" "1000 * M * B < 2 ^ 34 * B" by (simp_all add: B_def)
    then show "2 ^ 23 * 2 ^ (j + 10) \<le> 1000 * M * 2 ^ j" "1000 * M * 2 ^ j < 2 ^ 24 * 2 ^ (j + 10)"
      by (simp_all add: p flip: B_def)
  qed simp
  ultimately show ?thesis using x by (simp add: B_def)
qed

section \<open>The line\<close>

text \<open>What the kernel prints for a rate: the whole part, a point and three digits.\<close>

definition three_digits :: "nat \<Rightarrow> string" where
  "three_digits r = [char_of (48 + r div 100), char_of (48 + r div 10 mod 10), char_of (48 + r mod 10)]"

definition mhz_text :: "nat \<Rightarrow> string" where
  "mhz_text K = dec_string (K div 1000) @ CHR ''.'' # three_digits (K mod 1000)"

lemma three_digits_ok:
  assumes "r < 1000"
  shows "list_all (digit_in 10) (three_digits r) \<and> length (three_digits r) = 3 \<and>
    num_of 10 (ds @ three_digits r) = 1000 * num_of 10 ds + r"
proof -
  have h: "r div 100 < 10" "r div 10 mod 10 < 10" "r mod 10 < 10" using assms by simp_all
  have split: "ds @ three_digits r = ((ds @ [char_of (48 + r div 100)]) @ [char_of (48 + r div 10 mod 10)]) @ [char_of (48 + r mod 10)]"
    by (simp add: three_digits_def)
  have "r = 10 * (r div 10) + r mod 10" "r div 10 = 10 * (r div 100) + r div 10 mod 10"
    using mult_div_mod_eq [of 10 "r div 10"] by (simp_all flip: div_mult2_eq)
  then have "r = 100 * (r div 100) + 10 * (r div 10 mod 10) + r mod 10" by linarith
  then have "num_of 10 (ds @ three_digits r) = 1000 * num_of 10 ds + r"
    unfolding split num_of_snoc using h by simp
  then show ?thesis using h by (simp add: three_digits_def digit_in_def)
qed

lemma digit_facts: "digit_in 10 c \<Longrightarrow> c \<noteq> NUL \<and> c \<noteq> CHR 0x0A \<and> c \<noteq> CHR '':'' \<and> \<not> c_isspace c \<and> c \<noteq> CHR ''-'' \<and> c \<noteq> CHR ''+'' \<and> c \<noteq> CHR ''.''"
  by (auto simp: digit_in_def c_isspace_def)

lemma takeWhile_digits: "list_all P ds \<Longrightarrow> \<not> P c \<Longrightarrow> takeWhile P (ds @ c # r) = ds"
  by (induction ds) auto

lemma scan_float_mhz:
  "scan_float (CHR '' '' # mhz_text K @ [CHR 0x0A]) = Some (False, f32 (K, 1000))"
proof -
  let ?w = "dec_string (K div 1000)" and ?p = "three_digits (K mod 1000)"
  have w: "list_all (digit_in 10) ?w" "?w \<noteq> []" "num_of 10 ?w = K div 1000" using dec_string_ok by auto
  have p: "list_all (digit_in 10) ?p" "length ?p = 3" "num_of 10 (?w @ ?p) = K"
    using three_digits_ok [of "K mod 1000" ?w] w(3) by simp_all
  obtain c r where c: "?w = c # r" "digit_in 10 c" using w by (cases ?w) auto
  have ws: "skip_ws (CHR '' '' # mhz_text K @ [CHR 0x0A]) = ?w @ CHR ''.'' # ?p @ [CHR 0x0A]"
    using c digit_facts [of c] by (simp add: skip_ws_def c_isspace_def mhz_text_def)
  have tw: "takeWhile (digit_in 10) (?w @ CHR ''.'' # ?p @ [CHR 0x0A]) = ?w"
    by (rule takeWhile_digits [OF w(1)]) (simp add: digit_in_def)
  have tp: "takeWhile (digit_in 10) (?p @ [CHR 0x0A]) = ?p"
    by (rule takeWhile_digits [OF p(1)]) (simp add: digit_in_def)
  have sgn: "(case ?w @ CHR ''.'' # ?p @ [CHR 0x0A] of c # r \<Rightarrow> if c = CHR ''-'' then (True, r) else if c = CHR ''+'' then (False, r)
      else (False, ?w @ CHR ''.'' # ?p @ [CHR 0x0A]) | [] \<Rightarrow> (False, [])) = (False, ?w @ CHR ''.'' # ?p @ [CHR 0x0A])"
    using c digit_facts [of c] by simp
  show ?thesis using p w(2)
    by (simp add: scan_float_def ws sgn tw tp Let_def scan_exp_def)
qed

definition mhz_line :: "string \<Rightarrow> nat \<Rightarrow> string" where
  "mhz_line gap K = CPU_MHZ_STR @ gap @ '': '' @ mhz_text K"

definition plain_line :: "string \<Rightarrow> bool" where
  "plain_line l \<longleftrightarrow> CHR 0x0A \<notin> set l \<and> length l < 98 \<and> take 7 l \<noteq> CPU_MHZ_STR"

lemma not_mhz:
  assumes "plain_line l"
  shows "take 7 (into_buf (l @ [CHR 0x0A]) buf) \<noteq> CPU_MHZ_STR"
proof
  assume a: "take 7 (into_buf (l @ [CHR 0x0A]) buf) = CPU_MHZ_STR"
  show False
  proof (cases "7 \<le> length l")
    case True
    then show False using a assms by (simp add: into_buf_def plain_line_def)
  next
    case False
    then have "take 7 (into_buf (l @ [CHR 0x0A]) buf) ! length l = CHR 0x0A"
      by (simp add: into_buf_def nth_append)
    moreover have "CHR 0x0A \<notin> set CPU_MHZ_STR" by (simp add: CPU_MHZ_STR_def)
    moreover have "length l < length CPU_MHZ_STR" using False by (simp add: CPU_MHZ_STR_def)
    ultimately show False using a by (metis nth_mem)
  qed
qed

lemma find_mhz_skips:
  assumes "list_all plain_line ls" "CHR 0x0A \<notin> set l" "length l < 98" "take 7 l = CPU_MHZ_STR"
  shows "\<exists>buf'. find_mhz (concat (map (\<lambda>l. l @ [CHR 0x0A]) ls) @ l @ CHR 0x0A # rest) buf = Some (into_buf (l @ [CHR 0x0A]) buf')"
  using assms(1)
proof (induction ls arbitrary: buf)
  case Nil
  have "fgets 100 (l @ CHR 0x0A # rest) = Some (l @ [CHR 0x0A], rest)" by (rule fgets_whole_line) (use assms in simp_all)
  moreover have "length (take 7 l) = 7" using assms(4) by (simp add: CPU_MHZ_STR_def)
  then have "7 \<le> length l" by simp
  ultimately show ?case using assms(4) by (subst find_mhz.simps) (auto simp: CPU_INFO_STR_LEN_MAX_def Let_def into_buf_def)
next
  case (Cons m ls)
  have m: "plain_line m" using Cons.prems by simp
  have "fgets 100 (m @ CHR 0x0A # concat (map (\<lambda>l. l @ [CHR 0x0A]) ls) @ l @ CHR 0x0A # rest) =
      Some (m @ [CHR 0x0A], concat (map (\<lambda>l. l @ [CHR 0x0A]) ls) @ l @ CHR 0x0A # rest)"
    by (rule fgets_whole_line) (use m in \<open>simp_all add: plain_line_def\<close>)
  then show ?case using Cons.IH [of "into_buf (m @ [CHR 0x0A]) buf"] Cons.prems not_mhz [OF m, of buf]
    by (subst find_mhz.simps) (simp add: CPU_INFO_STR_LEN_MAX_def Let_def)
qed

text \<open>The program on a description with such a line: what is left is the arithmetic.\<close>

lemma cpukhz_line:
  assumes "list_all plain_line ls" "set gap \<subseteq> {CHR '' '', CHR 0x09}" "length gap + length (mhz_text K) < 89"
  shows "cpukhz_main rc0 mhz0 buf0 (Some (concat (map (\<lambda>l. l @ [CHR 0x0A]) ls) @ mhz_line gap K @ CHR 0x0A # rest)) =
    map_option (\<lambda>cpukhz. (0, ''cpukhz = '' @ dec_string cpukhz @ [CHR 0x0A]))
      (to_ulong (False, f32 (1000 * fst (f32 (K, 1000)), snd (f32 (K, 1000)))))"
proof -
  let ?l = "mhz_line gap K"
  have digits: "set (mhz_text K) \<subseteq> insert CHR ''.'' {c. digit_in 10 c}"
    using dec_string_ok [of "K div 1000"] three_digits_ok [of "K mod 1000" "[]"] by (auto simp: mhz_text_def list_all_iff)
  have t: "CHR 0x0A \<notin> set (mhz_text K)" "NUL \<notin> set (mhz_text K)" using digits digit_facts by blast+
  have "CHR 0x0A \<notin> set ?l" "length ?l < 98" "take 7 ?l = CPU_MHZ_STR"
    using t assms(2,3) by (auto simp: mhz_line_def CPU_MHZ_STR_def)
  then obtain b where b: "find_mhz (concat (map (\<lambda>l. l @ [CHR 0x0A]) ls) @ ?l @ CHR 0x0A # rest) buf0 = Some (into_buf (?l @ [CHR 0x0A]) b)"
    using find_mhz_skips [OF assms(1)] by blast
  let ?h = "CPU_MHZ_STR @ gap" and ?r = "CHR '' '' # mhz_text K @ [CHR 0x0A]"
  have split: "into_buf (?l @ [CHR 0x0A]) b = ?h @ CHR '':'' # ?r @ NUL # drop (length ?l + 2) b"
    by (simp add: into_buf_def mhz_line_def)
  have colon: "CHR '':'' \<notin> set ?h" using assms(2) by (auto simp: CPU_MHZ_STR_def)
  have "length ?h < 100" using assms(3) by simp
  then have tk: "take 100 (?h @ CHR '':'' # ?r @ NUL # drop (length ?l + 2) b) =
      ?h @ CHR '':'' # take (99 - length ?h) (?r @ NUL # drop (length ?l + 2) b)"
    by (simp add: take_Cons' )
  have pos: "strchr_pos (take 100 (?h @ CHR '':'' # ?r @ NUL # drop (length ?l + 2) b)) CHR '':'' = Some (length ?h)"
    unfolding tk by (rule strchr_pos_append [OF colon])
  have dr: "drop (Suc (length ?h)) (?h @ CHR '':'' # ?r @ NUL # drop (length ?l + 2) b) = ?r @ NUL # drop (length ?l + 2) b"
    by simp
  have cs: "c_str (?r @ NUL # drop (length ?l + 2) b) = ?r" unfolding c_str_def
    by (rule takeWhile_digits) (use t in \<open>auto simp: list_all_iff\<close>)
  have "read_khz mhz0 (into_buf (?l @ [CHR 0x0A]) b) =
      map_option (\<lambda>cpukhz. (cpukhz, True)) (to_ulong (False, f32 (1000 * fst (f32 (K, 1000)), snd (f32 (K, 1000)))))"
    unfolding read_khz_def split CPU_INFO_STR_LEN_MAX_def pos option.case(2) dr cs scan_float_mhz by simp
  then show ?thesis by (simp add: cpukhz_main_def b option.map_comp comp_def)
qed

section \<open>Properties\<close>

text \<open>
  Property C24: for a rate of \<open>K\<close> kHz that the description gives in MHz with three digits after the
  point, whatever lines come before it and after it, the program prints exactly \<open>K\<close> and returns 0, as
  long as the rate in MHz is in the part of its binade above 1.024 times the power of two: the
  rounding to single precision, twice, does no harm there.
\<close>

theorem cpukhz_exact:
  assumes "list_all plain_line ls" "set gap \<subseteq> {CHR '' '', CHR 0x09}" "length gap + length (mhz_text K) < 89"
    and "2 ^ 23 < K * 2 ^ j" "K * 2 ^ j < 1000 * 2 ^ 14"
  shows "cpukhz_main rc0 mhz0 buf0 (Some (concat (map (\<lambda>l. l @ [CHR 0x0A]) ls) @ mhz_line gap K @ CHR 0x0A # rest)) =
    Some (0, ''cpukhz = '' @ dec_string K @ [CHR 0x0A])"
proof -
  obtain m d where f: "f32 (K, 1000) = (m, d)" "f32 (1000 * m, d) = (K * 2 ^ j, 2 ^ j)" using f32_khz [OF assms(4,5)] by blast
  have "K \<le> K * 2 ^ j" by simp
  then have "K < 1000 * 2 ^ 14" using assms(5) by (rule le_less_trans)
  then show ?thesis unfolding cpukhz_line [OF assms(1-3)] by (simp add: f to_ulong_def)
qed

theorem cpukhz_exact_witness:
  "cpukhz_main 7 (True, 1, 1) [] (Some (concat (map (\<lambda>l. l @ [CHR 0x0A]) [''processor: 0'']) @ mhz_line [CHR 0x09, CHR 0x09] 2394123 @ CHR 0x0A # ''cpu MHz: 1'')) =
    Some (0, ''cpukhz = '' @ dec_string 2394123 @ [CHR 0x0A])"
  by (rule cpukhz_exact [where j = 2])
    (simp_all add: plain_line_def CPU_MHZ_STR_def mhz_text_def three_digits_def dec_string.simps)

text \<open>Below that part the program can be one too low: 2048.003 MHz are printed as 2048002 kHz.\<close>

lemma cpukhz_low:
  "cpukhz_main rc0 mhz0 buf0 (Some (mhz_line [CHR 0x09, CHR 0x09] 2048003 @ CHR 0x0A # rest)) =
    Some (0, ''cpukhz = '' @ dec_string 2048002 @ [CHR 0x0A])"
proof -
  have "f32 (2048003, 1000) = (8388620, 4096)"
    using f32_up [of 1000 2048003 12] by (simp add: round_even_def)
  moreover have "f32 (8388620000, 4096) = (16384023, 8)"
    using f32_up [of 4096 8388620000 3] by (simp add: round_even_def)
  moreover have "length [CHR 0x09, CHR 0x09] + length (mhz_text 2048003) < 89"
    by (simp add: mhz_text_def three_digits_def dec_string.simps)
  ultimately show ?thesis
    using cpukhz_line [of "[]" "[CHR 0x09, CHR 0x09]" 2048003 rc0 mhz0 buf0 rest] by (simp add: to_ulong_def)
qed

text \<open>Without a file or a line the status is whatever \<^verbatim>\<open>rc\<close> held.\<close>

lemma cpukhz_no_file: "cpukhz_main rc0 mhz0 buf0 None = Some (rc0, [])"
  by (simp add: cpukhz_main_def)

end
