(* ===== verification/Arp_Add.thy ===== *)
theory Arp_Add
  imports Prelude
begin

text \<open>
  The address resolution tool \<^verbatim>\<open>src/arp_add.c\<close>: it fills an \<^verbatim>\<open>arpreq\<close> from an address, a hardware
  address and a device name, and hands it to the kernel. The two conversions of the C library's
  network part and the kernel's answer are parameters.
\<close>

section \<open>The request\<close>

definition AF_INET :: nat where
  "AF_INET = 2"

definition ATF_PERM :: nat where
  "ATF_PERM = 4"

text \<open>\<open>sa_data\<close> and \<open>arp_dev\<close> are arrays of 14 bytes and 16 characters.\<close>

record sockaddr_in =
  sin_family :: nat
  sin_addr :: u32

record arpreq =
  arp_pa :: sockaddr_in
  arp_ha_family :: nat
  arp_ha_data :: "u8 list"
  arp_flags :: nat
  arp_dev :: string

definition zero_req :: arpreq where
  "zero_req = \<lparr>arp_pa = \<lparr>sin_family = 0, sin_addr = 0\<rparr>, arp_ha_family = 0, arp_ha_data = replicate 14 0,
     arp_flags = 0, arp_dev = replicate 16 NUL\<rparr>"

text \<open>Copying to the start of an array.\<close>

definition copy_in :: "'a list \<Rightarrow> 'a list \<Rightarrow> 'a list" where
  "copy_in xs a = xs @ drop (length xs) a"

section \<open>The program\<close>

datatype arp_end = ArpUsage | ArpNoSocket | ArpBadMac | ArpOverrun | ArpSent arpreq bool

text \<open>
  \<open>inet_addr\<close> gives the address in network order, or all ones for a text that is none; \<open>ether_aton\<close>
  gives six bytes. \<open>siocsarp\<close> says whether the kernel takes the request.
\<close>

definition arp_add_main ::
  "bool \<Rightarrow> (string \<Rightarrow> u32) \<Rightarrow> (string \<Rightarrow> u8 list option) \<Rightarrow> (arpreq \<Rightarrow> bool) \<Rightarrow> string list \<Rightarrow> arp_end" where
  "arp_add_main socket_ok inet_addr ether_aton siocsarp argv =
     (if length argv < 3 then ArpUsage
      else
        let ip = argv ! 1; eaddr = argv ! 2; eth_dev = (if length argv > 3 then argv ! 3 else []);
            req = zero_req
        in if \<not> socket_ok then ArpNoSocket
           else
             let req = req\<lparr>arp_pa := \<lparr>sin_family = AF_INET, sin_addr = inet_addr ip\<rparr>\<rparr>
             in case ether_aton eaddr of
                  None \<Rightarrow> ArpBadMac
                | Some eth_addr \<Rightarrow>
                    let req = req\<lparr>arp_ha_data := copy_in eth_addr (arp_ha_data req), arp_flags := ATF_PERM\<rparr>
                    in if length eth_dev + 1 > length (arp_dev req) then ArpOverrun
                       else let req = req\<lparr>arp_dev := copy_in (eth_dev @ [NUL]) (arp_dev req)\<rparr>
                            in ArpSent req (siocsarp req))"

section \<open>What is sent\<close>

lemma length_copy_in [simp]: "length xs \<le> length a \<Longrightarrow> length (copy_in xs a) = length a"
  by (simp add: copy_in_def)

text \<open>
  The request holds what the arguments say, and its arrays keep their lengths; the name of the device
  is a C string of the request again.
\<close>

lemma arp_add_request:
  assumes "arp_add_main True inet_addr ether_aton siocsarp (prog # ip # eaddr # dev) = ArpSent req ok"
    and mac: "ether_aton eaddr = Some m" "length m = 6" and d: "cstring (if dev = [] then [] else hd dev)"
  shows "sin_family (arp_pa req) = AF_INET" "sin_addr (arp_pa req) = inet_addr ip"
    "take 6 (arp_ha_data req) = m" "length (arp_ha_data req) = 14" "arp_flags req = ATF_PERM" "ok = siocsarp req"
    "takeWhile (\<lambda>c. c \<noteq> NUL) (arp_dev req) = (if dev = [] then [] else hd dev)" "length (arp_dev req) = 16"
proof -
  let ?d = "if dev = [] then [] else hd dev"
  have e: "(if length (prog # ip # eaddr # dev) > 3 then (prog # ip # eaddr # dev) ! 3 else []) = ?d"
    by (cases dev) (simp_all add: numeral_3_eq_3)
  have l: "length ?d + 1 \<le> 16"
    using assms(1) mac(1) unfolding arp_add_main_def e by (simp add: zero_req_def Let_def split: if_splits)
  have r: "req = zero_req\<lparr>arp_pa := \<lparr>sin_family = AF_INET, sin_addr = inet_addr ip\<rparr>, arp_ha_data := copy_in m (replicate 14 0),
      arp_flags := ATF_PERM, arp_dev := copy_in (?d @ [NUL]) (replicate 16 NUL)\<rparr>" "ok = siocsarp req"
    using assms(1) mac(1) l unfolding arp_add_main_def e by (auto simp: zero_req_def Let_def)
  have "takeWhile (\<lambda>c. c \<noteq> NUL) (?d @ NUL # xs) = ?d" for xs
    using d by (intro takeWhile_tail [THEN trans]) (auto simp: cstring_def takeWhile_eq_all_conv)
  then show "takeWhile (\<lambda>c. c \<noteq> NUL) (arp_dev req) = ?d" by (simp add: r(1) copy_in_def)
  show "sin_family (arp_pa req) = AF_INET" "sin_addr (arp_pa req) = inet_addr ip" "take 6 (arp_ha_data req) = m"
    "length (arp_ha_data req) = 14" "arp_flags req = ATF_PERM" "ok = siocsarp req" "length (arp_dev req) = 16"
    using r mac(2) l by (simp_all add: zero_req_def copy_in_def)
qed

text \<open>
  An address that is none is not noticed: the request then asks for the broadcast address. The
  hardware type stays 0, and a device name of 16 characters or more is written past its array.
\<close>

lemma arp_add_bad_ip:
  assumes "ether_aton eaddr = Some m" "inet_addr ip = - 1"
  shows "\<exists>req. arp_add_main True inet_addr ether_aton siocsarp [prog, ip, eaddr] = ArpSent req (siocsarp req) \<and>
    sin_addr (arp_pa req) = - 1 \<and> arp_ha_family req = 0"
  using assms by (simp add: arp_add_main_def zero_req_def Let_def)

lemma arp_add_long_device:
  assumes "ether_aton eaddr = Some m" "16 \<le> length dev"
  shows "arp_add_main True inet_addr ether_aton siocsarp [prog, ip, eaddr, dev] = ArpOverrun"
  using assms by (simp add: arp_add_main_def zero_req_def Let_def numeral_3_eq_3)

end
