(* ===== verification/Sched_Test.thy ===== *)
theory Sched_Test
  imports Cpu_Tasks
begin

text \<open>
  The scheduler test \<^verbatim>\<open>src/sched_test.c\<close>: a parent that forks three children on one processor, has an alarm
  interrupt them and waits for them, and the children, which spin and print. The processes are a
  step relation; which forks fail and when the alarm goes off is open.
\<close>

section \<open>State\<close>

definition MAX_PIDS :: nat where
  "MAX_PIDS = 3"

datatype kid_pc = KStart | KSleep | KSpin | KExited | KReaped

text \<open>\<open>kid_int\<close>: a \<^verbatim>\<open>SIGINT\<close> is on its way to the child.\<close>

record kid =
  kid_pid :: int
  child_id :: nat
  kid_pc :: kid_pc
  kid_int :: bool

text \<open>The parent: in its fork loop, with a number that fork has returned, waiting, returned, or ended by its handler.\<close>

datatype par_pc = PFork nat | PStore nat int | PWait nat | PDone | PQuit

record sched =
  pids :: "int list"
  kids :: "kid list"
  par :: par_pc
  par_int :: bool
  alarmed :: bool
  sched_out :: string

text \<open>The parent up to its loop: it ends when it cannot bind itself to processor 0.\<close>

definition sched_start :: "(cpu_set \<Rightarrow> bool) \<Rightarrow> sched option" where
  "sched_start affinity_ok =
     (if affinity_ok (CPU_SET 0 {})
      then Some \<lparr>pids = replicate MAX_PIDS 0, kids = [], par = PFork 0, par_int = False, alarmed = False, sched_out = []\<rparr>
      else None)"

section \<open>Signals\<close>

definition kid_gone :: "kid \<Rightarrow> bool" where
  "kid_gone k \<longleftrightarrow> kid_pc k = KExited \<or> kid_pc k = KReaped"

text \<open>
  \<^verbatim>\<open>kill(p, SIGINT)\<close> from the parent: to a child, to its own group (which is the parent and its children),
  or, for -1, to all it may signal but itself.
\<close>

definition kill_int :: "int \<Rightarrow> sched \<Rightarrow> sched" where
  "kill_int p s = s\<lparr>kids := map (\<lambda>k. if p \<le> 0 \<or> p = kid_pid k then k\<lparr>kid_int := True\<rparr> else k) (kids s),
     par_int := par_int s \<or> p = 0\<rparr>"

text \<open>\<^verbatim>\<open>alrm_hdlr\<close>: every number in the array, also those that no child has filled.\<close>

definition alrm_hdlr :: "sched \<Rightarrow> sched" where
  "alrm_hdlr s = foldl (\<lambda>s i. kill_int (pids s ! i) s) s [0..<MAX_PIDS]"

section \<open>Steps\<close>

definition sched_line :: "string \<Rightarrow> string" where
  "sched_line s = s @ [CHR 0x0A]"

definition new_kid :: "int \<Rightarrow> nat \<Rightarrow> kid" where
  "new_kid pid i = \<lparr>kid_pid = pid, child_id = i + 1, kid_pc = KStart, kid_int = False\<rparr>"

text \<open>A child: it says who it is, all but the first sleep a minute, and then it spins and prints the time.\<close>

fun kid_step :: "nat \<Rightarrow> kid \<Rightarrow> (kid \<times> string) option" where
  "kid_step t k = (case kid_pc k of
     KStart \<Rightarrow> Some (k\<lparr>kid_pc := if child_id k > 1 then KSleep else KSpin\<rparr>, sched_line (''child_id value = '' @ dec_string (child_id k)))
   | KSleep \<Rightarrow> Some (k\<lparr>kid_pc := KSpin\<rparr>, sched_line (''child'' @ dec_string (child_id k) @ '' done sleeping''))
   | KSpin \<Rightarrow> Some (k, sched_line (dec_string t @ '':'' @ dec_string (child_id k)))
   | _ \<Rightarrow> None)"

text \<open>
  \<^verbatim>\<open>waitpid(p, ...)\<close>: a child that has exited is reaped; without such a child the call fails at once.
\<close>

definition waits_for :: "int \<Rightarrow> kid \<Rightarrow> bool" where
  "waits_for p k \<longleftrightarrow> (p \<le> 0 \<or> p = kid_pid k) \<and> kid_pc k \<noteq> KReaped"

inductive sched_step :: "sched \<Rightarrow> sched \<Rightarrow> bool" where
  fork: "par s = PFork i \<Longrightarrow> i < MAX_PIDS \<Longrightarrow> 0 < pid \<Longrightarrow> pid \<notin> kid_pid ` set (kids s) \<Longrightarrow>
    sched_step s (s\<lparr>par := PStore i pid, kids := kids s @ [new_kid pid i]\<rparr>)"
| fork_fails: "par s = PFork i \<Longrightarrow> i < MAX_PIDS \<Longrightarrow> sched_step s (s\<lparr>par := PStore i (-1)\<rparr>)"
| stored: "par s = PStore i pid \<Longrightarrow>
    sched_step s (s\<lparr>par := PFork (i + 1), pids := (pids s)[i := pid],
      sched_out := sched_out s @ sched_line (''child'' @ dec_string (i + 1) @ '' pid='' @ int_string pid @ '' created'')\<rparr>)"
| forked: "par s = PFork i \<Longrightarrow> \<not> i < MAX_PIDS \<Longrightarrow> sched_step s (s\<lparr>par := PWait 0\<rparr>)"
| reaps: "par s = PWait i \<Longrightarrow> i < MAX_PIDS \<Longrightarrow> j < length (kids s) \<Longrightarrow> waits_for (pids s ! i) (kids s ! j) \<Longrightarrow>
    kid_pc (kids s ! j) = KExited \<Longrightarrow>
    sched_step s (s\<lparr>kids := (kids s)[j := (kids s ! j)\<lparr>kid_pc := KReaped\<rparr>], par := PWait (i + 1)\<rparr>)"
| no_child: "par s = PWait i \<Longrightarrow> i < MAX_PIDS \<Longrightarrow> \<not> list_ex (waits_for (pids s ! i)) (kids s) \<Longrightarrow>
    sched_step s (s\<lparr>par := PWait (i + 1)\<rparr>)"
| returns: "par s = PWait i \<Longrightarrow> \<not> i < MAX_PIDS \<Longrightarrow> sched_step s (s\<lparr>par := PDone\<rparr>)"
| alarm: "par s \<noteq> PDone \<Longrightarrow> par s \<noteq> PQuit \<Longrightarrow> \<not> alarmed s \<Longrightarrow> sched_step s ((alrm_hdlr s)\<lparr>alarmed := True\<rparr>)"
| term_hdlr: "par s \<noteq> PDone \<Longrightarrow> par s \<noteq> PQuit \<Longrightarrow> par_int s \<Longrightarrow>
    sched_step s (s\<lparr>par := PQuit, sched_out := sched_out s @ sched_line ''Quiting''\<rparr>)"
| kid: "j < length (kids s) \<Longrightarrow> kid_step t (kids s ! j) = Some (k, out) \<Longrightarrow>
    sched_step s (s\<lparr>kids := (kids s)[j := k], sched_out := sched_out s @ out\<rparr>)"
| kid_term: "j < length (kids s) \<Longrightarrow> kid_int (kids s ! j) \<Longrightarrow> \<not> kid_gone (kids s ! j) \<Longrightarrow>
    sched_step s (s\<lparr>kids := (kids s)[j := (kids s ! j)\<lparr>kid_pc := KExited\<rparr>], sched_out := sched_out s @ sched_line ''Quiting''\<rparr>)"

section \<open>Every child is reaped\<close>

text \<open>
  The children have numbers of their own, each in the array or about to be stored; the children the
  parent has waited for are reaped; an alarm that found the array full has reached all of them.
\<close>

definition kid_known :: "sched \<Rightarrow> nat \<Rightarrow> kid \<Rightarrow> bool" where
  "kid_known s i k \<longleftrightarrow> (\<exists>j < i. j < MAX_PIDS \<and> pids s ! j = kid_pid k)"

definition kids_known :: "sched \<Rightarrow> bool" where
  "kids_known s \<longleftrightarrow> (case par s of
     PFork i \<Rightarrow> i \<le> MAX_PIDS \<and> (\<forall>k \<in> set (kids s). kid_known s i k)
   | PStore i pid \<Rightarrow> i < MAX_PIDS \<and> (\<forall>k \<in> set (kids s). kid_pid k = pid \<or> kid_known s i k)
   | PQuit \<Rightarrow> True
   | _ \<Rightarrow> (\<forall>k \<in> set (kids s). kid_known s MAX_PIDS k))"

definition kids_waited :: "sched \<Rightarrow> bool" where
  "kids_waited s \<longleftrightarrow> (case par s of
     PWait i \<Rightarrow> (\<forall>k \<in> set (kids s). kid_known s i k \<longrightarrow> kid_pc k = KReaped)
   | PDone \<Rightarrow> (\<forall>k \<in> set (kids s). kid_pc k = KReaped)
   | _ \<Rightarrow> True)"

definition sched_ok :: "sched \<Rightarrow> bool" where
  "sched_ok s \<longleftrightarrow> length (pids s) = MAX_PIDS \<and> distinct (map kid_pid (kids s)) \<and> (\<forall>k \<in> set (kids s). 0 < kid_pid k) \<and>
     kids_known s \<and> kids_waited s"

text \<open>Updates of the children that keep their numbers and leave the reaped alone.\<close>

definition kids_follow :: "kid list \<Rightarrow> kid list \<Rightarrow> bool" where
  "kids_follow ks ks' \<longleftrightarrow> map kid_pid ks' = map kid_pid ks \<and> (\<forall>j < length ks. kid_pc (ks ! j) = KReaped \<longrightarrow> kid_pc (ks' ! j) = KReaped)"

lemma kids_follow_update:
  "kid_pid k = kid_pid (ks ! j) \<Longrightarrow> kid_pc (ks ! j) \<noteq> KReaped \<or> kid_pc k = KReaped \<Longrightarrow> j < length ks \<Longrightarrow> kids_follow ks (ks[j := k])"
  by (auto simp: kids_follow_def map_update list_update_same_conv nth_list_update)

lemma kids_follow_map: "(\<And>k. kid_pid (f k) = kid_pid k \<and> kid_pc (f k) = kid_pc k) \<Longrightarrow> kids_follow ks (map f ks)"
  by (simp add: kids_follow_def)

lemma kids_follow_in:
  assumes f: "kids_follow ks ks'" and k: "k' \<in> set ks'"
  shows "\<exists>k \<in> set ks. kid_pid k = kid_pid k' \<and> (kid_pc k = KReaped \<longrightarrow> kid_pc k' = KReaped)"
proof -
  have m: "map kid_pid ks' = map kid_pid ks" using f by (simp add: kids_follow_def)
  then have l: "length ks' = length ks" by (metis length_map)
  obtain j where j: "j < length ks'" "k' = ks' ! j" using k by (metis in_set_conv_nth)
  then have "kid_pid (ks ! j) = kid_pid k'" using m l by (metis nth_map)
  moreover have "kid_pc (ks ! j) = KReaped \<longrightarrow> kid_pc k' = KReaped" using f j l by (simp add: kids_follow_def)
  ultimately show ?thesis using j l by (metis nth_mem)
qed

lemma sched_ok_follow:
  assumes ok: "sched_ok s" and f: "kids_follow (kids s) (kids s')"
    and same: "pids s' = pids s" "par s' = par s"
  shows "sched_ok s'"
proof -
  note m = kids_follow_in [OF f]
  have dist: "distinct (map kid_pid (kids s'))" using ok f by (simp add: sched_ok_def kids_follow_def)
  have pos: "\<forall>k \<in> set (kids s'). 0 < kid_pid k" using ok m by (fastforce simp: sched_ok_def)
  have kn: "kid_known s' i k = kid_known s i k'" if "kid_pid k = kid_pid k'" for i k k'
    using that same(1) by (simp add: kid_known_def)
  have a: "\<forall>k \<in> set (kids s'). kid_known s' i k" if "\<forall>k \<in> set (kids s). kid_known s i k" for i
    using that m kn by metis
  have b: "\<forall>k \<in> set (kids s'). kid_pid k = pid \<or> kid_known s' i k" if "\<forall>k \<in> set (kids s). kid_pid k = pid \<or> kid_known s i k" for i pid
    using that m kn by metis
  have c: "\<forall>k \<in> set (kids s'). kid_known s' i k \<longrightarrow> kid_pc k = KReaped" if "\<forall>k \<in> set (kids s). kid_known s i k \<longrightarrow> kid_pc k = KReaped" for i
    using that m kn by metis
  have d: "\<forall>k \<in> set (kids s'). kid_pc k = KReaped" if "\<forall>k \<in> set (kids s). kid_pc k = KReaped"
    using that m by metis
  have k: "kids_known s" "kids_waited s" using ok by (simp_all add: sched_ok_def)
  have "kids_known s'" using k(1) a b by (cases "par s") (simp_all add: kids_known_def same(2))
  moreover have "kids_waited s'" using k(2) c d by (cases "par s") (simp_all add: kids_waited_def same(2))
  ultimately show ?thesis using ok dist pos same(1) by (simp add: sched_ok_def)
qed

lemma alrm_hdlr_effect:
  "kids (alrm_hdlr s) = map (\<lambda>k. if \<exists>i < MAX_PIDS. pids s ! i \<le> 0 \<or> pids s ! i = kid_pid k then k\<lparr>kid_int := True\<rparr> else k) (kids s)"
  "pids (alrm_hdlr s) = pids s" "par (alrm_hdlr s) = par s" "par_int (alrm_hdlr s) \<longleftrightarrow> par_int s \<or> (\<exists>i < MAX_PIDS. pids s ! i = 0)"
  by (auto simp: alrm_hdlr_def kill_int_def MAX_PIDS_def eval_nat_numeral upt_rec less_Suc_eq)

lemma kid_step_keeps:
  "kid_step t k = Some (k', out) \<Longrightarrow> kid_pid k' = kid_pid k \<and> kid_pc k \<noteq> KReaped \<and> kid_int k' = kid_int k"
  by (cases "kid_pc k") auto

lemma waited_next:
  assumes ok: "sched_ok s" and p: "par s = PWait i" "i < MAX_PIDS"
    and r: "\<forall>k \<in> set (kids s). kid_pid k = pids s ! i \<longrightarrow> kid_pc k = KReaped"
  shows "sched_ok (s\<lparr>par := PWait (i + 1)\<rparr>)"
proof -
  have "kid_pc k = KReaped" if "k \<in> set (kids s)" "kid_known s (i + 1) k" for k
  proof (cases "kid_known s i k")
    case True
    then show ?thesis using ok p(1) that(1) by (auto simp: sched_ok_def kids_waited_def)
  next
    case False
    then have "pids s ! i = kid_pid k" using that(2) by (auto simp: kid_known_def less_Suc_eq)
    then show ?thesis using r that(1) by simp
  qed
  moreover have "kid_known (s\<lparr>par := PWait (i + 1)\<rparr>) = kid_known s" by (intro ext) (simp add: kid_known_def)
  ultimately show ?thesis using ok p by (auto simp: sched_ok_def kids_known_def kids_waited_def)
qed

lemma sched_step_ok:
  assumes st: "sched_step s s'" and ok: "sched_ok s"
  shows "sched_ok s'"
  using st
proof (cases rule: sched_step.cases)
  case (fork i pid)
  have "kid_known (s\<lparr>par := PStore i pid, kids := kids s @ [new_kid pid i]\<rparr>) = kid_known s" by (intro ext) (simp add: kid_known_def)
  then show ?thesis using fork ok by (auto simp: sched_ok_def kids_known_def kids_waited_def new_kid_def)
next
  case (fork_fails i)
  have "kid_known (s\<lparr>par := PStore i (-1)\<rparr>) = kid_known s" by (intro ext) (simp add: kid_known_def)
  then show ?thesis using fork_fails ok by (auto simp: sched_ok_def kids_known_def kids_waited_def)
next
  case (stored i pid)
  have i: "i < MAX_PIDS" "length (pids s) = MAX_PIDS" using ok stored(2) by (auto simp: sched_ok_def kids_known_def)
  have "kid_known s' (i + 1) k" if "kid_pid k = pid \<or> kid_known s i k" for k
    using that i stored(1) by (auto simp: kid_known_def nth_list_update less_Suc_eq)
  then show ?thesis using stored i ok by (auto simp: sched_ok_def kids_known_def kids_waited_def)
next
  case (forked i)
  then have i: "i = MAX_PIDS" using ok by (auto simp: sched_ok_def kids_known_def)
  have "kid_known (s\<lparr>par := PWait 0\<rparr>) = kid_known s" by (intro ext) (simp add: kid_known_def)
  then show ?thesis using forked i ok by (auto simp: sched_ok_def kids_known_def kids_waited_def) (simp add: kid_known_def)
next
  case (reaps i j)
  let ?k = "(kids s ! j)\<lparr>kid_pc := KReaped\<rparr>" and ?p = "pids s ! i"
  let ?s = "s\<lparr>kids := (kids s)[j := ?k]\<rparr>"
  have "kids_follow (kids s) (kids ?s)" using kids_follow_update [of ?k "kids s" j] reaps(4) by simp
  then have ok1: "sched_ok ?s" by (rule sched_ok_follow [OF ok]) simp_all
  have d: "distinct (map kid_pid (kids s))" "\<forall>k \<in> set (kids s). 0 < kid_pid k" using ok by (auto simp: sched_ok_def)
  have "\<forall>k \<in> set (kids ?s). kid_pid k = ?p \<longrightarrow> kid_pc k = KReaped"
  proof (intro ballI impI)
    fix k assume k: "k \<in> set (kids ?s)" "kid_pid k = ?p"
    then obtain l where l: "l < length (kids s)" "k = kids ?s ! l" by (auto simp: in_set_conv_nth)
    then have "kid_pid (kids s ! l) = ?p" using k(2) by (cases "l = j") (simp_all add: nth_list_update)
    moreover from this have "0 < ?p" using d(2) l(1) by (metis nth_mem)
    then have "kid_pid (kids s ! j) = ?p" using reaps(5) by (simp add: waits_for_def)
    ultimately have "l = j" using d(1) l(1) reaps(4) by (simp add: distinct_conv_nth) (metis nth_map)
    then show "kid_pc k = KReaped" using l reaps(4) by simp
  qed
  then have "sched_ok (?s\<lparr>par := PWait (i + 1)\<rparr>)" using waited_next [OF ok1] reaps(2,3) by simp
  then show ?thesis using reaps(1) by simp
next
  case (no_child i)
  have "\<forall>k \<in> set (kids s). kid_pid k = pids s ! i \<longrightarrow> kid_pc k = KReaped"
    using no_child(4) by (auto simp: list_ex_iff waits_for_def)
  then show ?thesis using waited_next [OF ok no_child(2,3)] no_child(1) by simp
next
  case (returns i)
  have kn: "kid_known (s\<lparr>par := PDone\<rparr>) = kid_known s" by (intro ext) (simp add: kid_known_def)
  have "kid_known s i k" if "kid_known s MAX_PIDS k" for k
    using that returns(3) by (auto simp: kid_known_def) (metis less_le_trans not_less)
  then show ?thesis using returns ok kn by (auto simp: sched_ok_def kids_known_def kids_waited_def)
next
  case alarm
  have "kids_follow (kids s) (kids s')" using alarm(1) by (simp add: alrm_hdlr_effect kids_follow_map)
  then show ?thesis by (rule sched_ok_follow [OF ok]) (simp_all add: alarm(1) alrm_hdlr_effect)
next
  case term_hdlr
  then show ?thesis using ok by (simp add: sched_ok_def kids_known_def kids_waited_def)
next
  case (kid j t k out)
  have "kids_follow (kids s) (kids s')" using kid_step_keeps [OF kid(3)] kid(1,2) kids_follow_update by simp
  then show ?thesis by (rule sched_ok_follow [OF ok]) (simp_all add: kid(1))
next
  case (kid_term j)
  have "kids_follow (kids s) (kids s')" using kid_term by (simp add: kids_follow_update kid_gone_def)
  then show ?thesis by (rule sched_ok_follow [OF ok]) (simp_all add: kid_term(1))
qed

section \<open>The alarm ends the program\<close>

text \<open>
  An alarm that does not reach the parent itself comes when all numbers are stored, and then it
  reaches every child.
\<close>

definition unfilled :: "sched \<Rightarrow> nat \<Rightarrow> bool" where
  "unfilled s i \<longleftrightarrow> (\<forall>j. i \<le> j \<longrightarrow> j < MAX_PIDS \<longrightarrow> pids s ! j = 0)"

definition sched_told :: "sched \<Rightarrow> bool" where
  "sched_told s \<longleftrightarrow> (case par s of PFork i \<Rightarrow> unfilled s i | PStore i pid \<Rightarrow> unfilled s i | _ \<Rightarrow> True) \<and>
     (alarmed s \<longrightarrow> \<not> par_int s \<longrightarrow>
       par s \<in> {PFork MAX_PIDS, PDone} \<union> range PWait \<and> (\<forall>k \<in> set (kids s). kid_int k \<or> kid_gone k))"

lemma sched_told_update:
  assumes "sched_told s" "j < length (kids s)" "kid_int k = kid_int (kids s ! j) \<and> (kid_gone (kids s ! j) \<longrightarrow> kid_gone k) \<or> kid_gone k"
  shows "sched_told (s\<lparr>kids := (kids s)[j := k], sched_out := out\<rparr>)" "sched_told (s\<lparr>kids := (kids s)[j := k]\<rparr>)"
proof -
  have "\<forall>k \<in> set ((kids s)[j := k]). kid_int k \<or> kid_gone k" if "\<forall>k \<in> set (kids s). kid_int k \<or> kid_gone k"
  proof -
    have "kid_int (kids s ! j) \<or> kid_gone (kids s ! j)" using that assms(2) by (metis nth_mem)
    then show ?thesis using that assms(3) set_update_subset_insert [of "kids s" j k] by blast
  qed
  then show "sched_told (s\<lparr>kids := (kids s)[j := k], sched_out := out\<rparr>)" "sched_told (s\<lparr>kids := (kids s)[j := k]\<rparr>)"
    using assms(1) by (auto simp: sched_told_def unfilled_def split: par_pc.splits)
qed

lemma sched_told_alarm:
  assumes ok: "sched_ok s" "sched_told s" and m: "par s \<noteq> PQuit" "par s \<noteq> PDone"
  shows "sched_told ((alrm_hdlr s)\<lparr>alarmed := True\<rparr>)"
proof -
  let ?s = "(alrm_hdlr s)\<lparr>alarmed := True\<rparr>"
  have u: "unfilled ?s = unfilled s" by (intro ext) (simp add: unfilled_def alrm_hdlr_effect)
  have full: "par s \<in> {PFork MAX_PIDS} \<union> range PWait" "\<forall>k \<in> set (kids ?s). kid_int k" if q: "\<not> par_int ?s"
  proof -
    have z: "pids s ! j \<noteq> 0" if "j < MAX_PIDS" for j using q that by (auto simp: alrm_hdlr_effect)
    show p: "par s \<in> {PFork MAX_PIDS} \<union> range PWait"
    proof (cases "par s")
      case (PFork i)
      then have "i \<le> MAX_PIDS" "unfilled s i" using ok by (auto simp: sched_ok_def kids_known_def sched_told_def)
      then show ?thesis using z PFork by (cases "i = MAX_PIDS") (auto simp: unfilled_def)
    next
      case (PStore i pid)
      then have "i < MAX_PIDS" "unfilled s i" using ok by (auto simp: sched_ok_def kids_known_def sched_told_def)
      then show ?thesis using z by (auto simp: unfilled_def)
    qed (use m in auto)
    then have "\<forall>k \<in> set (kids s). kid_known s MAX_PIDS k" using ok(1) by (auto simp: sched_ok_def kids_known_def)
    then show "\<forall>k \<in> set (kids ?s). kid_int k" by (auto simp: alrm_hdlr_effect kid_known_def)
  qed
  have c: "case par s of PFork i \<Rightarrow> unfilled s i | PStore i pid \<Rightarrow> unfilled s i | _ \<Rightarrow> True"
    using ok(2) by (simp add: sched_told_def)
  have e: "par ?s = par s" by (simp add: alrm_hdlr_effect)
  show ?thesis unfolding sched_told_def u e using c full by blast
qed

lemma sched_step_told:
  assumes st: "sched_step s s'" and ok: "sched_ok s" "sched_told s"
  shows "sched_told s'"
  using st
proof (cases rule: sched_step.cases)
  case (stored i pid)
  then have "i < MAX_PIDS" "length (pids s) = MAX_PIDS" using ok by (auto simp: sched_ok_def kids_known_def)
  then show ?thesis using stored ok(2) by (auto simp: sched_told_def unfilled_def nth_list_update)
next
  case (forked i)
  then show ?thesis using ok by (auto simp: sched_told_def)
next
  case (reaps i j)
  then have "sched_told (s\<lparr>kids := (kids s)[j := (kids s ! j)\<lparr>kid_pc := KReaped\<rparr>]\<rparr>)"
    by (intro sched_told_update(2) [OF ok(2)]) (simp_all add: kid_gone_def)
  then show ?thesis using reaps by (simp add: sched_told_def)
next
  case alarm
  then show ?thesis using sched_told_alarm [OF ok] by simp
next
  case (kid j t k out)
  have "kid_int k = kid_int (kids s ! j)" "kid_gone (kids s ! j) \<longrightarrow> kid_gone k"
    using kid(3) by (cases "kid_pc (kids s ! j)"; auto simp: kid_gone_def)+
  then show ?thesis unfolding kid(1) by (intro sched_told_update(1) [OF ok(2) kid(2)]) simp
next
  case (kid_term j)
  show ?thesis unfolding kid_term(1) by (intro sched_told_update(1) [OF ok(2) kid_term(2)]) (simp add: kid_gone_def)
qed (use ok(2) in \<open>auto simp: sched_told_def unfilled_def\<close>)

lemma sched_reach:
  assumes "sched_start affinity_ok = Some s0" "sched_step\<^sup>*\<^sup>* s0 s"
  shows "sched_ok s \<and> sched_told s"
  using assms(2)
proof (induction rule: rtranclp_induct)
  case base
  show ?case using assms(1)
    by (auto simp: sched_start_def sched_ok_def sched_told_def unfilled_def kids_known_def kids_waited_def split: if_splits)
qed (use sched_step_ok sched_step_told in blast)

definition sched_left :: "sched \<Rightarrow> nat" where
  "sched_left s = length (filter (\<lambda>k. \<not> kid_gone k) (kids s)) +
     (case par s of PFork i \<Rightarrow> 2 * MAX_PIDS | PStore i pid \<Rightarrow> 2 * MAX_PIDS | PWait i \<Rightarrow> 1 + (MAX_PIDS - i) | _ \<Rightarrow> 0)"

lemma filter_update_less:
  assumes "j < length xs" "P (xs ! j)" "\<not> P x"
  shows "length (filter P (xs[j := x])) < length (filter P xs)"
  using assms
proof (induction xs arbitrary: j)
  case (Cons y ys)
  then show ?case by (cases j) auto
qed simp

text \<open>After such an alarm there is always a step towards the end.\<close>

lemma sched_progress:
  assumes ok: "sched_ok s" "sched_told s" and a: "alarmed s" "\<not> par_int s" "par s \<noteq> PDone"
  shows "\<exists>s'. sched_step s s' \<and> sched_left s' < sched_left s \<and> alarmed s' \<and> \<not> par_int s'"
proof (cases "\<exists>j < length (kids s). \<not> kid_gone (kids s ! j)")
  case True
  then obtain j where j: "j < length (kids s)" "\<not> kid_gone (kids s ! j)" by blast
  let ?k = "(kids s ! j)\<lparr>kid_pc := KExited\<rparr>"
  let ?s = "s\<lparr>kids := (kids s)[j := ?k], sched_out := sched_out s @ sched_line ''Quiting''\<rparr>"
  have "kid_int (kids s ! j)" using ok(2) a j by (auto simp: sched_told_def)
  then have "sched_step s ?s" using sched_step.kid_term j by blast
  moreover have "length (filter (\<lambda>k. \<not> kid_gone k) ((kids s)[j := ?k])) < length (filter (\<lambda>k. \<not> kid_gone k) (kids s))"
    by (rule filter_update_less) (use j in \<open>simp_all add: kid_gone_def\<close>)
  ultimately show ?thesis using a(1,2) by (intro exI [of _ ?s]) (simp add: sched_left_def)
next
  case False
  then have gone: "kid_gone k" if "k \<in> set (kids s)" for k using that by (metis in_set_conv_nth)
  then have none: "filter (\<lambda>k. \<not> kid_gone k) (kids s) = []" by (simp add: filter_empty_conv)
  have p: "par s \<in> {PFork MAX_PIDS} \<union> range PWait" using ok(2) a by (auto simp: sched_told_def)
  show ?thesis
  proof (cases "par s")
    case (PFork i)
    then have "sched_step s (s\<lparr>par := PWait 0\<rparr>)" using p by (intro sched_step.forked) auto
    then show ?thesis using a PFork by (intro exI [of _ "s\<lparr>par := PWait 0\<rparr>"]) (simp add: sched_left_def MAX_PIDS_def)
  next
    case (PWait i)
    show ?thesis
    proof (cases "i < MAX_PIDS")
      case iM: True
      show ?thesis
      proof (cases "list_ex (waits_for (pids s ! i)) (kids s)")
        case True
        then obtain j where j: "j < length (kids s)" "waits_for (pids s ! i) (kids s ! j)" by (auto simp: list_ex_length)
        have x: "kid_pc (kids s ! j) = KExited" using gone [of "kids s ! j"] j by (auto simp: kid_gone_def waits_for_def)
        let ?s = "s\<lparr>kids := (kids s)[j := (kids s ! j)\<lparr>kid_pc := KReaped\<rparr>], par := PWait (i + 1)\<rparr>"
        have "kid_gone ((kids s ! j)\<lparr>kid_pc := KReaped\<rparr>)" by (simp add: kid_gone_def)
        then have "\<forall>k \<in> set ((kids s)[j := (kids s ! j)\<lparr>kid_pc := KReaped\<rparr>]). kid_gone k"
          using gone set_update_subset_insert [of "kids s" j "(kids s ! j)\<lparr>kid_pc := KReaped\<rparr>"] by blast
        then have "filter (\<lambda>k. \<not> kid_gone k) ((kids s)[j := (kids s ! j)\<lparr>kid_pc := KReaped\<rparr>]) = []"
          by (simp add: filter_empty_conv)
        then have "sched_left ?s < sched_left s" using none PWait iM by (simp add: sched_left_def)
        then show ?thesis using sched_step.reaps [OF PWait iM j x] a by (intro exI [of _ ?s]) simp
      next
        case False
        then show ?thesis using sched_step.no_child [OF PWait iM False] a PWait iM
          by (intro exI [of _ "s\<lparr>par := PWait (i + 1)\<rparr>"]) (simp add: sched_left_def)
      qed
    next
      case False
      then show ?thesis using sched_step.returns [OF PWait False] a PWait
        by (intro exI [of _ "s\<lparr>par := PDone\<rparr>"]) (simp add: sched_left_def)
    qed
  qed (use p in auto)
qed

text \<open>
  Property C25: whichever forks fail and however the processes interleave, a parent that returns has
  reaped every child it made. When the alarm goes off after the last fork, every child is told to
  end and the program can come to that return.
\<close>

theorem sched_test_reaps:
  assumes start: "sched_start affinity_ok = Some s0" and run: "sched_step\<^sup>*\<^sup>* s0 s"
  shows "(par s = PDone \<longrightarrow> list_all (\<lambda>k. kid_pc k = KReaped) (kids s)) \<and>
    (alarmed s \<and> \<not> par_int s \<longrightarrow> (\<exists>s'. sched_step\<^sup>*\<^sup>* s s' \<and> par s' = PDone \<and> list_all (\<lambda>k. kid_pc k = KReaped) (kids s')))"
proof -
  have reaped: "list_all (\<lambda>k. kid_pc k = KReaped) (kids s)" if "sched_step\<^sup>*\<^sup>* s0 s" "par s = PDone" for s
    using sched_reach [OF start that(1)] that(2) by (simp add: sched_ok_def kids_waited_def list_all_iff)
  have "\<exists>s'. sched_step\<^sup>*\<^sup>* s s' \<and> par s' = PDone" if "alarmed s" "\<not> par_int s" using run that
  proof (induction "sched_left s" arbitrary: s rule: less_induct)
    case less
    show ?case
    proof (cases "par s = PDone")
      case False
      then obtain s1 where s1: "sched_step s s1" "sched_left s1 < sched_left s" "alarmed s1" "\<not> par_int s1"
        using sched_progress [of s] sched_reach [OF start less.prems(1)] less.prems(2,3) by blast
      have "sched_step\<^sup>*\<^sup>* s0 s1" using less.prems(1) s1(1) by (rule rtranclp.rtrancl_into_rtrancl)
      then obtain s' where "sched_step\<^sup>*\<^sup>* s1 s'" "par s' = PDone" using less.hyps [OF s1(2) _ s1(3,4)] by blast
      then show ?thesis using s1(1) by (blast intro: converse_rtranclp_into_rtranclp)
    qed blast
  qed
  then show ?thesis using reaped run by (blast intro: rtranclp_trans)
qed

definition three_kids :: "kid list" where
  "three_kids = [new_kid 11 0, new_kid 12 1, new_kid 13 2]"

lemma three_kids_run:
  "\<exists>out. sched_step\<^sup>*\<^sup>* (the (sched_start (\<lambda>_. True)))
     \<lparr>pids = [11, 12, 13], kids = map (kid_int_update (\<lambda>_. True)) three_kids, par = PWait 0, par_int = False, alarmed = True, sched_out = out\<rparr>"
proof -
  define st where "st = (\<lambda>p k m out. \<lparr>pids = p, kids = k, par = m, par_int = False, alarmed = False, sched_out = out\<rparr>)"
  define o1 where "o1 = sched_line (''child'' @ dec_string 1 @ '' pid='' @ int_string 11 @ '' created'')"
  define o2 where "o2 = o1 @ sched_line (''child'' @ dec_string 2 @ '' pid='' @ int_string 12 @ '' created'')"
  define o3 where "o3 = o2 @ sched_line (''child'' @ dec_string 3 @ '' pid='' @ int_string 13 @ '' created'')"
  have i: "the (sched_start (\<lambda>_. True)) = st [0, 0, 0] [] (PFork 0) []"
    by (simp add: sched_start_def st_def MAX_PIDS_def numeral_3_eq_3)
  have f: "sched_step (st p k (PFork i) out) (st p (k @ [new_kid pid i]) (PStore i pid) out)"
    if "i < 3" "0 < pid" "pid \<notin> kid_pid ` set k" for p k i pid out
    using sched_step.fork [of "st p k (PFork i) out" i pid] that by (simp add: st_def MAX_PIDS_def)
  have w: "sched_step (st p k (PStore i pid) out)
      (st (p[i := pid]) k (PFork (i + 1)) (out @ sched_line (''child'' @ dec_string (i + 1) @ '' pid='' @ int_string pid @ '' created'')))" for p k i pid out
    using sched_step.stored [of "st p k (PStore i pid) out" i pid] by (simp add: st_def)
  let ?k1 = "[new_kid 11 0]" and ?k2 = "[new_kid 11 0, new_kid 12 1]"
  have "sched_step (st [0, 0, 0] [] (PFork 0) []) (st [0, 0, 0] ?k1 (PStore 0 11) [])" using f [of 0 11 "[]"] by simp
  moreover have "sched_step (st [0, 0, 0] ?k1 (PStore 0 11) []) (st [11, 0, 0] ?k1 (PFork 1) o1)"
    using w [of "[0, 0, 0]" ?k1 0 11 "[]"] by (simp add: o1_def)
  moreover have "sched_step (st [11, 0, 0] ?k1 (PFork 1) o1) (st [11, 0, 0] ?k2 (PStore 1 12) o1)"
    using f [of 1 12 ?k1] by (simp add: new_kid_def)
  moreover have "sched_step (st [11, 0, 0] ?k2 (PStore 1 12) o1) (st [11, 12, 0] ?k2 (PFork 2) o2)"
    using w [of "[11, 0, 0]" ?k2 1 12 o1] by (simp add: o2_def numeral_2_eq_2)
  moreover have "sched_step (st [11, 12, 0] ?k2 (PFork 2) o2) (st [11, 12, 0] three_kids (PStore 2 13) o2)"
    using f [of 2 13 ?k2] by (simp add: three_kids_def new_kid_def)
  moreover have "sched_step (st [11, 12, 0] three_kids (PStore 2 13) o2) (st [11, 12, 13] three_kids (PFork 3) o3)"
    using w [of "[11, 12, 0]" three_kids 2 13 o2] by (simp add: o3_def)
  moreover have "sched_step (st [11, 12, 13] three_kids (PFork 3) o3) (st [11, 12, 13] three_kids (PWait 0) o3)"
    using sched_step.forked [of "st [11, 12, 13] three_kids (PFork 3) o3" 3] by (simp add: st_def MAX_PIDS_def)
  moreover have "sched_step (st [11, 12, 13] three_kids (PWait 0) o3)
      \<lparr>pids = [11, 12, 13], kids = map (kid_int_update (\<lambda>_. True)) three_kids, par = PWait 0, par_int = False, alarmed = True, sched_out = o3\<rparr>"
    using sched_step.alarm [of "st [11, 12, 13] three_kids (PWait 0) o3"]
    by (simp add: st_def three_kids_def new_kid_def alrm_hdlr_def kill_int_def MAX_PIDS_def numeral_3_eq_3)
  ultimately show ?thesis unfolding i by (meson converse_rtranclp_into_rtranclp rtranclp.rtrancl_refl)
qed

theorem sched_test_reaps_witness:
  "\<exists>s s'. sched_step\<^sup>*\<^sup>* (the (sched_start (\<lambda>_. True))) s \<and> pids s = [11, 12, 13] \<and> par s = PWait 0 \<and>
     sched_step\<^sup>*\<^sup>* s s' \<and> par s' = PDone \<and> list_all (\<lambda>k. kid_pc k = KReaped) (kids s')"
proof -
  obtain out where r: "sched_step\<^sup>*\<^sup>* (the (sched_start (\<lambda>_. True)))
     \<lparr>pids = [11, 12, 13], kids = map (kid_int_update (\<lambda>_. True)) three_kids, par = PWait 0, par_int = False, alarmed = True, sched_out = out\<rparr>"
    using three_kids_run by blast
  have "sched_start (\<lambda>_. True) = Some (the (sched_start (\<lambda>_. True)))" by (simp add: sched_start_def)
  from sched_test_reaps [OF this r] obtain s' where "sched_step\<^sup>*\<^sup>*
     \<lparr>pids = [11, 12, 13], kids = map (kid_int_update (\<lambda>_. True)) three_kids, par = PWait 0, par_int = False, alarmed = True, sched_out = out\<rparr> s'"
     "par s' = PDone" "list_all (\<lambda>k. kid_pc k = KReaped) (kids s')" by auto
  with r show ?thesis by (metis sched.select_convs(1,3))
qed

end
