(* ===== verification/Xlock_Debug.thy ===== *)
theory Xlock_Debug
  imports Xlock
begin

text \<open>
  The lock of \<^verbatim>\<open>src/xlock.c\<close> built with \<^verbatim>\<open>LOCK_DEBUG\<close>: every process has a handle of its own, in which the
  debug routines note who locked and unlocked last, and from which they report a lock that is given
  back by somebody who does not have it.
\<close>

section \<open>The debug routines\<close>

text \<open>The handle's two fields, which \<^verbatim>\<open>malloc\<close> leaves uninitialised, and the lines the routines print.\<close>

record xhandle =
  lock_pid :: int
  unlock_pid :: int

datatype dbg = DPreLock int u32 | DPostLock int u32 | DPreUnlock int u32 | DPostUnlock int u32 | DDump int u32 int int | DUnlocked

definition IS_LOCKED :: "u32 \<Rightarrow> bool" where
  "IS_LOCKED w \<longleftrightarrow> w \<noteq> 0"

definition print_xlock_debug :: "int \<Rightarrow> u32 \<Rightarrow> xhandle \<Rightarrow> dbg list" where
  "print_xlock_debug pid w x = [DDump pid w (lock_pid x) (unlock_pid x)]"

definition pre_lock_debug :: "int \<Rightarrow> u32 \<Rightarrow> xhandle \<Rightarrow> xhandle \<times> dbg list" where
  "pre_lock_debug pid w x =
     (x, DPreLock pid w # (if IS_LOCKED w \<or> lock_pid x \<noteq> unlock_pid x then print_xlock_debug pid w x else []))"

definition post_lock_debug :: "int \<Rightarrow> u32 \<Rightarrow> xhandle \<Rightarrow> xhandle \<times> dbg list" where
  "post_lock_debug pid w x = (x\<lparr>lock_pid := pid\<rparr>, [DPostLock pid w])"

definition pre_unlock_debug :: "int \<Rightarrow> u32 \<Rightarrow> xhandle \<Rightarrow> xhandle \<times> dbg list" where
  "pre_unlock_debug pid w x =
     (x, DPreUnlock pid w # (if \<not> IS_LOCKED w \<or> lock_pid x \<noteq> pid then DUnlocked # print_xlock_debug pid w x else []))"

definition post_unlock_debug :: "int \<Rightarrow> u32 \<Rightarrow> xhandle \<Rightarrow> xhandle \<times> dbg list" where
  "post_unlock_debug pid w x = (x\<lparr>unlock_pid := pid\<rparr>, [DPostUnlock pid w])"

section \<open>The lock with them\<close>

record xdebug =
  xd_lock :: xl
  xd_handles :: "xhandle list"
  xd_out :: "dbg list"

definition xdebug_init :: "nat \<Rightarrow> xhandle list \<Rightarrow> xdebug" where
  "xdebug_init n junk = \<lparr>xd_lock = xl_init n, xd_handles = take n junk, xd_out = []\<rparr>"

text \<open>
  Which routine goes with which step of the lock: the calls before a swap see the word as it is
  there, the calls after it what it has become. An unlock whose swap fails prints the state.
\<close>

fun xdebug_call :: "lock_event \<Rightarrow> xpc \<Rightarrow> int \<Rightarrow> u32 \<Rightarrow> u32 \<Rightarrow> xhandle \<Rightarrow> xhandle \<times> dbg list" where
  "xdebug_call LockCall pc pid w w' x = pre_lock_debug pid w x"
| "xdebug_call Enter pc pid w w' x = post_lock_debug pid w' x"
| "xdebug_call Exit pc pid w w' x = pre_unlock_debug pid w x"
| "xdebug_call Ret pc pid w w' x = post_unlock_debug pid w' x"
| "xdebug_call Tau pc pid w w' x = (x, if pc = AtUnlock \<and> \<not> fst (raw_unlock_it w) then print_xlock_debug pid w x else [])"

inductive xdebug_step :: "(nat \<Rightarrow> int) \<Rightarrow> nat \<Rightarrow> lock_event \<Rightarrow> xdebug \<Rightarrow> xdebug \<Rightarrow> bool" for getpid :: "nat \<Rightarrow> int" where
  "xlock_step p e (xd_lock s) l \<Longrightarrow>
    xdebug_call e (xl_pcs (xd_lock s) ! p) (getpid p) (xl_word (xd_lock s)) (xl_word l) (xd_handles s ! p) = (x, out) \<Longrightarrow>
    xdebug_step getpid p e s (s\<lparr>xd_lock := l, xd_handles := (xd_handles s)[p := x], xd_out := xd_out s @ out\<rparr>)"

section \<open>The checks never fire\<close>

definition xd_good :: "(nat \<Rightarrow> int) \<Rightarrow> xdebug \<Rightarrow> bool" where
  "xd_good getpid s \<longleftrightarrow> xl_good (xd_lock s) \<and> length (xd_handles s) = length (xl_pcs (xd_lock s)) \<and>
     (\<forall>p \<in> xl_inside (xd_lock s). lock_pid (xd_handles s ! p) = getpid p) \<and> DUnlocked \<notin> set (xd_out s)"

lemma xlock_step_length: "xlock_step p e s s' \<Longrightarrow> length (xl_pcs s') = length (xl_pcs s) \<and> p < length (xl_pcs s)"
  by (induction rule: xlock_step.induct) simp_all

lemma xlock_exit_inside:
  assumes "xlock_step p Exit s s'"
  shows "p \<in> xl_inside s"
  using assms
proof (cases rule: xlock_step.cases)
  case (lock pc w)
  then show ?thesis by (cases "xl_pcs s ! p") (auto simp: xlock_defs split: if_splits)
next
  case (unlock pc w)
  then show ?thesis by (cases "xl_pcs s ! p") (auto simp: xlock_defs xl_inside_def split: if_splits)
qed

lemma inside_word:
  assumes "xl_good s" "p \<in> xl_inside s"
  shows "xl_word s = 1"
proof -
  have "0 < cnt owns (xl_pcs s)" using assms(2) by (auto simp: cnt_pos xl_inside_def owns_def)
  then show ?thesis using assms(1) by (auto simp: xl_good_def)
qed

lemma xd_good_step:
  assumes "xdebug_step getpid p e s s'" "xd_good getpid s"
  shows "xd_good getpid s'"
  using assms(1)
proof (cases rule: xdebug_step.cases)
  case (1 l x out)
  note st = 1(2) and good = assms(2) [unfolded xd_good_def]
  have len: "length (xl_pcs l) = length (xl_pcs (xd_lock s))" "p < length (xd_handles s)"
    using xlock_step_length [OF st] good by simp_all
  have "lock_pid x = (if e = Enter then getpid p else lock_pid (xd_handles s ! p))" "DUnlocked \<notin> set out"
  proof -
    show "lock_pid x = (if e = Enter then getpid p else lock_pid (xd_handles s ! p))"
      using 1(3) by (cases e) (auto simp: pre_lock_debug_def post_lock_debug_def pre_unlock_debug_def post_unlock_debug_def)
    show "DUnlocked \<notin> set out"
    proof (cases "e = Exit")
      case True
      then have i: "p \<in> xl_inside (xd_lock s)" using st xlock_exit_inside by simp
      then have "xl_word (xd_lock s) = 1" "lock_pid (xd_handles s ! p) = getpid p" using inside_word good by auto
      then show ?thesis using 1(3) True by (auto simp: pre_unlock_debug_def IS_LOCKED_def)
    next
      case False
      then show ?thesis using 1(3)
        by (cases e) (auto simp: pre_lock_debug_def post_lock_debug_def post_unlock_debug_def print_xlock_debug_def split: if_splits)
    qed
  qed
  moreover have "lock_pid ((xd_handles s)[p := x] ! q) = getpid q" if "q \<in> xl_inside l" for q
    using that good xl_inside_step [OF st] len(2) calculation(1)
    by (cases e) (auto simp: nth_list_update split: if_splits)
  ultimately show ?thesis using 1(1) good xl_good_step [OF _ st] len by (simp add: xd_good_def)
qed

text \<open>The debug build is a lock like the other: the library's clients can be linked with it.\<close>

definition xd_inside :: "xdebug \<Rightarrow> nat set" where
  "xd_inside s = xl_inside (xd_lock s)"

lemma xd_good_init: "length junk = n \<Longrightarrow> xd_good getpid (xdebug_init n junk)"
  by (auto simp: xd_good_def xdebug_init_def xl_good_init xl_inside_def) (auto simp: xl_init_def)

lemma xdebug_lock_sys:
  "lock_sys (xdebug_init n (replicate n x)) (xdebug_step getpid) (xd_good getpid) xd_inside"
proof
  show "xd_good getpid (xdebug_init n (replicate n x))" by (rule xd_good_init) simp
  show "xd_inside (xdebug_init n (replicate n x)) = {}" by (auto simp: xd_inside_def xdebug_init_def xl_inside_def xl_init_def)
  show "xd_good getpid s'" if "xd_good getpid s" "xdebug_step getpid p e s s'" for s s' p e using that xd_good_step by blast
  show "xd_inside s' = (case e of Enter \<Rightarrow> insert p (xd_inside s) | Exit \<Rightarrow> xd_inside s - {p} | _ \<Rightarrow> xd_inside s)"
    if "xdebug_step getpid p e s s'" for s s' p e
    using that by (cases rule: xdebug_step.cases) (use xl_inside_step in \<open>auto simp: xd_inside_def split: lock_event.splits\<close>)
  show "p = q" if "xd_good getpid s" "p \<in> xd_inside s" "q \<in> xd_inside s" for s p q
    using that xl_exclusive by (auto simp: xd_good_def xd_inside_def)
qed

interpretation xdebug: lock_sys "xdebug_init n (replicate n x)" "xdebug_step getpid" "xd_good getpid" xd_inside
  for n :: nat and x :: xhandle and getpid :: "nat \<Rightarrow> int"
  by (rule xdebug_lock_sys)

definition xdebug_next :: "(nat \<Rightarrow> int) \<Rightarrow> xdebug \<Rightarrow> xdebug \<Rightarrow> bool" where
  "xdebug_next getpid s s' \<longleftrightarrow> (\<exists>p e. xdebug_step getpid p e s s')"

text \<open>
  Property C30: in the debug build, whatever the uninitialised fields hold and however the processes
  interleave, the routine before an unlock never reports a lock that is free or held by another
  process, and a process inside finds its own number in its handle.
\<close>

theorem xlock_debug_silent:
  assumes "length junk = n" "(xdebug_next getpid)\<^sup>*\<^sup>* (xdebug_init n junk) s"
  shows "DUnlocked \<notin> set (xd_out s) \<and> list_all (\<lambda>p. p \<notin> xd_inside s \<or> lock_pid (xd_handles s ! p) = getpid p) [0..<n]"
proof -
  have "xd_good getpid s" using assms(2)
  proof (induction rule: rtranclp_induct)
    case base
    show ?case by (rule xd_good_init [OF assms(1)])
  qed (auto simp: xdebug_next_def intro: xd_good_step)
  then show ?thesis by (auto simp: xd_good_def xd_inside_def list_all_iff)
qed

text \<open>One process that locks and calls unlock, with a handle full of junk.\<close>

definition lone_debug :: "u32 \<Rightarrow> xpc \<Rightarrow> int \<Rightarrow> dbg list \<Rightarrow> xdebug" where
  "lone_debug w pc l out = \<lparr>xd_lock = \<lparr>xl_word = w, xl_pcs = [pc]\<rparr>, xd_handles = [\<lparr>lock_pid = l, unlock_pid = 99\<rparr>], xd_out = out\<rparr>"

lemma lone_debug_step:
  assumes "xlock_lock pc w = Some (e, pc', w') \<or> xlock_unlock pc w = Some (e, pc', w')"
    and "xdebug_call e pc (getpid 0) w w' \<lparr>lock_pid = l, unlock_pid = 99\<rparr> = (\<lparr>lock_pid = l', unlock_pid = 99\<rparr>, o1)"
  shows "xdebug_next getpid (lone_debug w pc l out) (lone_debug w' pc' l' (out @ o1))"
proof -
  have "xlock_step 0 e \<lparr>xl_word = w, xl_pcs = [pc]\<rparr> \<lparr>xl_word = w', xl_pcs = [pc']\<rparr>"
    using assms(1) xlock_step.lock [of 0 "\<lparr>xl_word = w, xl_pcs = [pc]\<rparr>" e pc' w'] xlock_step.unlock [of 0 "\<lparr>xl_word = w, xl_pcs = [pc]\<rparr>" e pc' w']
    by auto
  then show ?thesis
    using assms(2) xdebug_step.intros [of 0 e "lone_debug w pc l out" "\<lparr>xl_word = w', xl_pcs = [pc']\<rparr>" getpid] 
    by (auto simp: xdebug_next_def lone_debug_def)
qed

theorem xlock_debug_silent_witness:
  "\<exists>s. (xdebug_next (\<lambda>p. 7))\<^sup>*\<^sup>* (xdebug_init 1 [\<lparr>lock_pid = 3, unlock_pid = 99\<rparr>]) s \<and>
    DPreUnlock 7 1 \<in> set (xd_out s) \<and> DUnlocked \<notin> set (xd_out s)"
proof -
  let ?n = "xdebug_next (\<lambda>p. 7)"
  let ?o1 = "[DPreLock 7 0, DDump 7 0 3 99]" and ?o2 = "[DPreLock 7 0, DDump 7 0 3 99, DPostLock 7 1]"
  have i: "xdebug_init 1 [\<lparr>lock_pid = 3, unlock_pid = 99\<rparr>] = lone_debug 0 Idle 3 []"
    by (simp add: xdebug_init_def lone_debug_def xl_init_def)
  have "?n (lone_debug 0 Idle 3 []) (lone_debug 0 AtCas 3 ([] @ ?o1))"
    by (rule lone_debug_step [of _ _ LockCall]) (simp_all add: pre_lock_debug_def print_xlock_debug_def)
  moreover have "?n (lone_debug 0 AtCas 3 ([] @ ?o1)) (lone_debug 1 Inside 7 (([] @ ?o1) @ [DPostLock 7 1]))"
    by (rule lone_debug_step [of _ _ Enter]) (simp_all add: post_lock_debug_def xlock_defs)
  moreover have "?n (lone_debug 1 Inside 7 (([] @ ?o1) @ [DPostLock 7 1])) (lone_debug 1 AtUnlock 7 ((([] @ ?o1) @ [DPostLock 7 1]) @ [DPreUnlock 7 1]))"
    by (rule lone_debug_step [of _ _ Exit]) (simp_all add: pre_unlock_debug_def IS_LOCKED_def)
  ultimately have r: "?n\<^sup>*\<^sup>* (xdebug_init 1 [\<lparr>lock_pid = 3, unlock_pid = 99\<rparr>])
      (lone_debug 1 AtUnlock 7 ((([] @ ?o1) @ [DPostLock 7 1]) @ [DPreUnlock 7 1]))"
    unfolding i by (meson converse_rtranclp_into_rtranclp rtranclp.rtrancl_refl)
  have l: "length [\<lparr>lock_pid = 3, unlock_pid = 99\<rparr>] = 1" by simp
  show ?thesis using xlock_debug_silent [OF l r] r
    by (intro exI [of _ "lone_debug 1 AtUnlock 7 ((([] @ ?o1) @ [DPostLock 7 1]) @ [DPreUnlock 7 1])"]) (simp add: lone_debug_def)
qed

end
