(* ===== verification/Mask.thy ===== *)
theory Mask
  imports Prelude
begin

unbundle bit_operations_syntax

text \<open>
  The bit masks of \<^verbatim>\<open>src/test_mask.c\<close>: \<open>gen_mask m n\<close> is meant to have the bits from \<open>n\<close> up to \<open>m\<close>.
\<close>

text \<open>The two halves of \<^verbatim>\<open>gen_mask\<close> and their intersection; shifts are by less than 32.\<close>

definition gen_mask :: "nat \<Rightarrow> nat \<Rightarrow> u32" where
  "gen_mask m n =
     (let mask1 = (if m < 31 then push_bit (m + 1) 1 - 1 else 0);
          mask2 = NOT (push_bit n 1 - 1)
      in mask1 AND mask2)"

definition mask_main :: "u32 list" where
  "mask_main = [gen_mask 8 4, gen_mask 31 4]"

lemma push_bit_minus_1: "push_bit k 1 - 1 = (mask k :: u32)"
  by (simp add: mask_eq_exp_minus_1 push_bit_eq_mult)

text \<open>Up to bit 30 the mask has the bits it should have; for bit 31 it is empty.\<close>

lemma gen_mask_bits:
  assumes "m < 31"
  shows "bit (gen_mask m n) k \<longleftrightarrow> n \<le> k \<and> k \<le> m"
  using assms unfolding gen_mask_def Let_def push_bit_minus_1 by (auto simp: bit_and_iff bit_not_iff bit_mask_iff)

lemma gen_mask_31: "gen_mask 31 n = 0"
  by (simp add: gen_mask_def)

lemma mask_main_prints: "mask_main = [0x1F0, 0]"
  by (simp add: mask_main_def gen_mask_31) (simp add: gen_mask_def push_bit_eq_mult)

end
