(* ===== verification/Wakeup_Fork.thy ===== *)
theory Wakeup_Fork
  imports Wakeup
begin

text \<open>
  The broadcast test with processes, \<^verbatim>\<open>src/wakeup_test_fork.c\<close>: children that wait on a futex, a parent that
  wakes them, lets itself run until an alarm and kills them. The file does not compile, since its
  first lines use a descriptor and a name that are declared nowhere; they are taken here as an opened
  shared memory object or a failure, and nothing after them uses it: the futex is an ordinary
  variable, of which every child gets a copy of its own. With no child to fork the code tests a
  \<^verbatim>\<open>pid\<close> that was never set; it is taken as not zero.
\<close>

section \<open>State\<close>

datatype fk_pc = FkStart | FkAsleep | FkAwake | FkDead | FkReaped

text \<open>A child: its number, its copy of \<open>the_futex\<close>, and whether a \<^verbatim>\<open>SIGTERM\<close> is on its way.\<close>

record fk =
  fk_pid :: int
  fk_word :: int
  fk_pc :: fk_pc
  fk_term :: bool

datatype fp_pc = FpFork nat | FpStore | FpWake | FpSet | FpLoop | FpKill nat | FpWait nat | FpDone

record wfork =
  the_futex :: int
  my_children :: "int list"
  fks :: "fk list"
  fp :: fp_pc
  can_run :: int
  fp_alarmed :: bool
  woke_up :: nat

text \<open>The start: the arguments, and the two attempts to open the shared memory (the second is tried when the first succeeds).\<close>

definition wfork_start :: "bool \<Rightarrow> bool \<Rightarrow> int \<Rightarrow> string list \<Rightarrow> int + nat \<times> int \<times> wfork" where
  "wfork_start shm1_ok shm2_ok errno argv =
     (if length argv < 3 then Inl 2
      else if shm1_ok \<and> \<not> shm2_ok then Inl errno
      else Inr (nat (strtoul_int (argv ! 1)), strtoul_int (argv ! 2),
        \<lparr>the_futex = 1, my_children = [], fks = [], fp = FpFork 0, can_run = 0, fp_alarmed = False, woke_up = 0\<rparr>))"

section \<open>Steps\<close>

text \<open>
  The kernel finds the sleepers of a futex in private memory by process and address, so a wake of the
  parent (process 0) finds those that sleep in the parent's memory. A wait that returns without a
  wake is left out.
\<close>

definition futex_owner :: "fk \<Rightarrow> int" where
  "futex_owner k = fk_pid k"

definition futex_woken :: "int \<Rightarrow> fk list \<Rightarrow> nat set" where
  "futex_woken owner ks = {j. j < length ks \<and> fk_pc (ks ! j) = FkAsleep \<and> futex_owner (ks ! j) = owner}"

definition sigterm :: "int \<Rightarrow> fk list \<Rightarrow> fk list" where
  "sigterm p ks = map (\<lambda>k. if p \<le> 0 \<or> fk_pid k = p then k\<lparr>fk_term := True\<rparr> else k) ks"

definition wake_kids :: "nat set \<Rightarrow> fk list \<Rightarrow> fk list" where
  "wake_kids S ks = map (\<lambda>j. if j \<in> S then (ks ! j)\<lparr>fk_pc := FkAwake\<rparr> else ks ! j) [0..<length ks]"

definition child_left :: "int \<Rightarrow> fk \<Rightarrow> bool" where
  "child_left p k \<longleftrightarrow> (p \<le> 0 \<or> fk_pid k = p) \<and> fk_pc k \<noteq> FkReaped"

inductive wfork_step :: "nat \<Rightarrow> wfork \<Rightarrow> wfork \<Rightarrow> bool" for no_threads :: nat where
  fork: "fp s = FpFork i \<Longrightarrow> i < no_threads \<Longrightarrow> 0 < pid \<Longrightarrow> pid \<notin> fk_pid ` set (fks s) \<Longrightarrow>
    wfork_step no_threads s (s\<lparr>fp := FpFork (i + 1), my_children := my_children s @ [pid],
      fks := fks s @ [\<lparr>fk_pid = pid, fk_word = the_futex s, fk_pc = FkStart, fk_term = False\<rparr>]\<rparr>)"
| fork_fails: "fp s = FpFork i \<Longrightarrow> i < no_threads \<Longrightarrow>
    wfork_step no_threads s (s\<lparr>fp := FpFork (i + 1), my_children := my_children s @ [-1]\<rparr>)"
| forked: "fp s = FpFork i \<Longrightarrow> \<not> i < no_threads \<Longrightarrow> wfork_step no_threads s (s\<lparr>fp := FpStore\<rparr>)"
| stores: "fp s = FpStore \<Longrightarrow> wfork_step no_threads s (s\<lparr>fp := FpWake, the_futex := 2\<rparr>)"
| wakes: "fp s = FpWake \<Longrightarrow> S \<subseteq> futex_woken 0 (fks s) \<Longrightarrow> card S = min no_threads (card (futex_woken 0 (fks s))) \<Longrightarrow>
    wfork_step no_threads s (s\<lparr>fp := FpSet, fks := wake_kids S (fks s), woke_up := card S\<rparr>)"
| sets: "fp s = FpSet \<Longrightarrow> wfork_step no_threads s (s\<lparr>fp := FpLoop, can_run := 1\<rparr>)"
| loops: "fp s = FpLoop \<Longrightarrow> can_run s = 0 \<Longrightarrow> wfork_step no_threads s (s\<lparr>fp := FpKill 0\<rparr>)"
| alarm: "fp s \<in> {FpStore, FpWake, FpSet, FpLoop} \<Longrightarrow> \<not> fp_alarmed s \<Longrightarrow>
    wfork_step no_threads s (s\<lparr>fp_alarmed := True, can_run := 0\<rparr>)"
| kills: "fp s = FpKill i \<Longrightarrow> i < no_threads \<Longrightarrow>
    wfork_step no_threads s (s\<lparr>fp := FpWait i, fks := sigterm (my_children s ! i) (fks s)\<rparr>)"
| reaps: "fp s = FpWait i \<Longrightarrow> j < length (fks s) \<Longrightarrow> child_left (my_children s ! i) (fks s ! j) \<Longrightarrow> fk_pc (fks s ! j) = FkDead \<Longrightarrow>
    wfork_step no_threads s (s\<lparr>fp := FpKill (i + 1), fks := (fks s)[j := (fks s ! j)\<lparr>fk_pc := FkReaped\<rparr>]\<rparr>)"
| no_child: "fp s = FpWait i \<Longrightarrow> \<not> list_ex (child_left (my_children s ! i)) (fks s) \<Longrightarrow>
    wfork_step no_threads s (s\<lparr>fp := FpKill (i + 1)\<rparr>)"
| returns: "fp s = FpKill i \<Longrightarrow> \<not> i < no_threads \<Longrightarrow> wfork_step no_threads s (s\<lparr>fp := FpDone\<rparr>)"
| kid_waits: "j < length (fks s) \<Longrightarrow> fk_pc (fks s ! j) = FkStart \<Longrightarrow>
    wfork_step no_threads s (s\<lparr>fks := (fks s)[j := (fks s ! j)\<lparr>fk_pc := if fk_word (fks s ! j) = 1 then FkAsleep else FkAwake\<rparr>]\<rparr>)"
| kid_ends: "j < length (fks s) \<Longrightarrow> fk_term (fks s ! j) \<Longrightarrow> fk_pc (fks s ! j) \<in> {FkStart, FkAsleep, FkAwake} \<Longrightarrow>
    wfork_step no_threads s (s\<lparr>fks := (fks s)[j := (fks s ! j)\<lparr>fk_pc := FkDead\<rparr>]\<rparr>)"

section \<open>Nobody is woken\<close>

definition fk_ok :: "fk \<Rightarrow> bool" where
  "fk_ok k \<longleftrightarrow> 0 < fk_pid k \<and> fk_word k = 1 \<and> fk_pc k \<noteq> FkAwake"

definition wfork_ok :: "wfork \<Rightarrow> bool" where
  "wfork_ok s \<longleftrightarrow> list_all fk_ok (fks s) \<and> woke_up s = 0 \<and> (fp s \<in> range FpFork \<longrightarrow> the_futex s = 1)"

lemma list_all_update: "list_all P xs \<Longrightarrow> P x \<Longrightarrow> list_all P (xs[j := x])"
  by (auto simp: list_all_iff dest: set_update_subset_insert [THEN subsetD])

lemma futex_woken_none:
  assumes "list_all fk_ok ks"
  shows "futex_woken 0 ks = {}"
  using assms by (fastforce simp: futex_woken_def futex_owner_def fk_ok_def list_all_length)

lemma wfork_step_ok:
  assumes st: "wfork_step n s s'" and ok: "wfork_ok s"
  shows "wfork_ok s'"
proof -
  have kid: "fk_ok (fks s ! j)" if "j < length (fks s)" for j using ok that by (simp add: wfork_ok_def list_all_length)
  from st show ?thesis
  proof (cases rule: wfork_step.cases)
    case (wakes S)
    then have "S = {}" using futex_woken_none ok by (auto simp: wfork_ok_def)
    then show ?thesis using wakes ok by (auto simp: wfork_ok_def wake_kids_def map_nth)
  next
    case (kills i)
    then show ?thesis using ok by (auto simp: wfork_ok_def sigterm_def list_all_iff fk_ok_def)
  next
    case (reaps i j)
    then show ?thesis using ok kid [OF reaps(3)] by (auto simp: wfork_ok_def fk_ok_def intro!: list_all_update)
  next
    case (kid_waits j)
    then show ?thesis using ok kid [OF kid_waits(2)] by (auto simp: wfork_ok_def fk_ok_def intro!: list_all_update)
  next
    case (kid_ends j)
    then show ?thesis using ok kid [OF kid_ends(2)] by (auto simp: wfork_ok_def fk_ok_def intro!: list_all_update)
  qed (use ok in \<open>auto simp: wfork_ok_def fk_ok_def\<close>)
qed

text \<open>
  In every run the children sleep on their own copies: none of them ever wakes up, and the call that
  is timed wakes nobody.
\<close>

lemma wfork_never_wakes:
  assumes "wfork_start shm1_ok shm2_ok errno argv = Inr (no_threads, secs, s0)" "(wfork_step no_threads)\<^sup>*\<^sup>* s0 s"
  shows "woke_up s = 0 \<and> list_all (\<lambda>k. fk_pc k \<noteq> FkAwake) (fks s)"
proof -
  have "wfork_ok s" using assms(2)
  proof (induction rule: rtranclp_induct)
    case base
    show ?case using assms(1) by (auto simp: wfork_start_def wfork_ok_def split: if_splits)
  qed (rule wfork_step_ok)
  then show ?thesis by (auto simp: wfork_ok_def list_all_iff fk_ok_def)
qed

text \<open>Opening works the wrong way round: when the first attempt fails nothing else is tried.\<close>

lemma wfork_start_no_shm: "length argv \<ge> 3 \<Longrightarrow> wfork_start False False errno argv \<noteq> Inl r"
  by (simp add: wfork_start_def)

end
