(* ===== verification/Mysqrt.thy ===== *)
theory Mysqrt
  imports Float32
begin

text \<open>
  The square root by bisection of \<^verbatim>\<open>src/test_mysqrt.c\<close>, in single precision. \<^verbatim>\<open>THRESH\<close> is the double nearest
  to a millionth; the comparisons with it are exact.
\<close>

section \<open>Arithmetic\<close>

type_synonym f32num = "nat \<times> nat"

definition fl_mul :: "f32num \<Rightarrow> f32num \<Rightarrow> f32num" where
  "fl_mul x y = f32 (fst x * fst y, snd x * snd y)"

definition fl_add :: "f32num \<Rightarrow> f32num \<Rightarrow> f32num" where
  "fl_add x y = f32 (fst x * snd y + fst y * snd x, snd x * snd y)"

definition fl_half :: "f32num \<Rightarrow> f32num" where
  "fl_half x = f32 (fst x, 2 * snd x)"

definition fl_le :: "f32num \<Rightarrow> f32num \<Rightarrow> bool" where
  "fl_le x y \<longleftrightarrow> fst x * snd y \<le> fst y * snd x"

text \<open>A difference: whether it is negative, and its magnitude.\<close>

definition fl_sub :: "f32num \<Rightarrow> f32num \<Rightarrow> bool \<times> f32num" where
  "fl_sub x y =
     (if fl_le y x then (False, f32 (fst x * snd y - fst y * snd x, snd x * snd y))
      else (True, f32 (fst y * snd x - fst x * snd y, snd x * snd y)))"

definition THRESH :: f32num where
  "THRESH = (4722366482869645, 2 ^ 72)"

definition above :: "f32num \<Rightarrow> bool" where
  "above x \<longleftrightarrow> \<not> fl_le x THRESH"

section \<open>The program\<close>

record sq =
  sq_x :: f32num
  sq_x1 :: f32num
  sq_x2 :: f32num
  sq_y :: f32num

text \<open>
  One turn of the loop on \<open>x1\<close>, \<open>x2\<close> and \<open>y\<close>: \<open>None\<close> where it breaks off, which it does whether or not the
  interval is small. \<open>my_sqrt\<close> is what it prints at its end, \<open>None\<close> when there is no end.
\<close>

definition sqrt_step :: "sq \<Rightarrow> sq option" where
  "sqrt_step s =
     (let y = sq_y s; (neg, diff) = fl_sub (fl_mul y y) (sq_x s)
      in if \<not> neg \<and> above diff then Some (s\<lparr>sq_x2 := y, sq_y := fl_half (fl_add (sq_x1 s) y)\<rparr>)
         else if neg \<and> above diff then Some (s\<lparr>sq_x1 := y, sq_y := fl_half (fl_add y (sq_x2 s))\<rparr>)
         else None)"

partial_function (option) sqrt_loop :: "sq \<Rightarrow> sq option" where
  "sqrt_loop s = (case sqrt_step s of None \<Rightarrow> Some s | Some s \<Rightarrow> sqrt_loop s)"

definition sqrt_start :: "f32num \<Rightarrow> sq" where
  "sqrt_start x =
     (if fl_le (f32 (1, 1)) x then \<lparr>sq_x = x, sq_x1 = f32 (1, 1), sq_x2 = x, sq_y = f32 (1, 1)\<rparr>
      else \<lparr>sq_x = x, sq_x1 = x, sq_x2 = f32 (1, 1), sq_y = x\<rparr>)"

text \<open>A negative number prints nothing; \<open>-0\<close> is not negative.\<close>

definition my_sqrt :: "bool \<times> f32num \<Rightarrow> sq option option" where
  "my_sqrt x = (if fst x \<and> fst (snd x) > 0 then Some None else map_option Some (sqrt_loop (sqrt_start (snd x))))"

definition mysqrt_main :: "bool \<times> f32num \<Rightarrow> string list \<Rightarrow> sq option option" where
  "mysqrt_main junk argv =
     (if length argv < 2 then Some None
      else my_sqrt (case scan_float (argv ! 1) of None \<Rightarrow> junk | Some x \<Rightarrow> x))"

section \<open>What the result is\<close>

text \<open>When the loop ends, the square of what it prints is within the threshold of the argument.\<close>

lemma sqrt_step_x: "sqrt_step s = Some s' \<Longrightarrow> sq_x s' = sq_x s"
  by (auto simp: sqrt_step_def Let_def split: prod.splits if_splits)

lemma sqrt_loop_sound:
  assumes "sqrt_loop s = Some r"
  shows "sq_x r = sq_x s \<and> \<not> above (snd (fl_sub (fl_mul (sq_y r) (sq_y r)) (sq_x s)))"
proof -
  have "sqrt_step r = None \<and> sq_x r = sq_x s"
    by (rule sqrt_loop.raw_induct [where P = "\<lambda>s r. sqrt_step r = None \<and> sq_x r = sq_x s", OF _ assms])
      (auto split: option.splits dest: sqrt_step_x)
  then show ?thesis by (auto simp: sqrt_step_def Let_def split: prod.splits if_splits)
qed

section \<open>Numbers without a root\<close>

primrec sqrt_steps :: "nat \<Rightarrow> sq \<Rightarrow> sq option" where
  "sqrt_steps 0 s = Some s"
| "sqrt_steps (Suc n) s = (case sqrt_step s of None \<Rightarrow> None | Some s \<Rightarrow> sqrt_steps n s)"

lemma sqrt_loop_steps: "sqrt_steps n s = Some s' \<Longrightarrow> sqrt_loop s = sqrt_loop s'"
proof (induction n arbitrary: s)
  case (Suc n)
  then show ?case by (subst sqrt_loop.simps) (auto split: option.splits)
qed simp

lemma sqrt_loop_stuck:
  assumes "sqrt_step s = Some s"
  shows "sqrt_loop s = None"
proof (rule ccontr)
  assume "sqrt_loop s \<noteq> None"
  then obtain r where r: "sqrt_loop s = Some r" by auto
  have "s' \<noteq> s" if "sqrt_loop s' = Some r'" for s' r'
    by (rule sqrt_loop.raw_induct [where P = "\<lambda>s' _. s' \<noteq> s", OF _ that]) (use assms in \<open>fastforce split: option.splits\<close>)
  from this [OF r] show False by simp
qed

lemmas fl_defs = fl_mul_def fl_add_def fl_half_def fl_le_def fl_sub_def above_def THRESH_def f32_eval

lemma sqrt_steps_numeral [simp]:
  "sqrt_steps (numeral k) s = (case sqrt_step s of None \<Rightarrow> None | Some s \<Rightarrow> sqrt_steps (pred_numeral k) s)"
  by (simp add: numeral_eq_Suc)

lemma f32_18: "f32 (18, 1) = (9437184, 524288)"
  using f32_up [of 1 18 19] by (simp add: round_even_def)

definition sq18 :: "f32num \<Rightarrow> f32num \<Rightarrow> f32num \<Rightarrow> sq" where
  "sq18 x1 x2 y = \<lparr>sq_x = (9437184, 524288), sq_x1 = x1, sq_x2 = x2, sq_y = y\<rparr>"

lemma sqrt_steps_add: "sqrt_steps m s = Some s1 \<Longrightarrow> sqrt_steps n s1 = Some s2 \<Longrightarrow> sqrt_steps (m + n) s = Some s2"
  by (induction m arbitrary: s) (auto split: option.splits)

lemmas sqrt_eval = sq18_def sqrt_step_def fl_defs Let_def

lemma sqrt_18_steps: "\<exists>n. sqrt_steps n (sqrt_start (f32 (18, 1))) = Some (sq18 (8897462, 2097152) (8897463, 2097152) (8897462, 2097152))"
proof -
  have a0: "sqrt_steps 0 (sqrt_start (f32 (18, 1))) = Some (sq18 (8388608, 8388608) (9437184, 524288) (8388608, 8388608))"
    by (simp add: f32_18 sqrt_start_def sqrt_eval)
  have a1: "sqrt_steps 3 (sq18 (8388608, 8388608) (9437184, 524288) (8388608, 8388608)) = Some (sq18 (8388608, 8388608) (11010048, 2097152) (13107200, 4194304))"
    by (simp add: sqrt_eval)
  have a2: "sqrt_steps 3 (sq18 (8388608, 8388608) (11010048, 2097152) (13107200, 4194304)) = Some (sq18 (8781824, 2097152) (9895936, 2097152) (9338880, 2097152))"
    by (simp add: sqrt_eval)
  have a3: "sqrt_steps 3 (sq18 (8781824, 2097152) (9895936, 2097152) (9338880, 2097152)) = Some (sq18 (8781824, 2097152) (8921088, 2097152) (8851456, 2097152))"
    by (simp add: sqrt_eval)
  have a4: "sqrt_steps 3 (sq18 (8781824, 2097152) (8921088, 2097152) (8851456, 2097152)) = Some (sq18 (8886272, 2097152) (8903680, 2097152) (8894976, 2097152))"
    by (simp add: sqrt_eval)
  have a5: "sqrt_steps 3 (sq18 (8886272, 2097152) (8903680, 2097152) (8894976, 2097152)) = Some (sq18 (8897152, 2097152) (8899328, 2097152) (8898240, 2097152))"
    by (simp add: sqrt_eval)
  have a6: "sqrt_steps 3 (sq18 (8897152, 2097152) (8899328, 2097152) (8898240, 2097152)) = Some (sq18 (8897424, 2097152) (8897696, 2097152) (8897560, 2097152))"
    by (simp add: sqrt_eval)
  have a7: "sqrt_steps 3 (sq18 (8897424, 2097152) (8897696, 2097152) (8897560, 2097152)) = Some (sq18 (8897458, 2097152) (8897492, 2097152) (8897475, 2097152))"
    by (simp add: sqrt_eval)
  have a8: "sqrt_steps 3 (sq18 (8897458, 2097152) (8897492, 2097152) (8897475, 2097152)) = Some (sq18 (8897462, 2097152) (8897466, 2097152) (8897464, 2097152))"
    by (simp add: sqrt_eval)
  have a9: "sqrt_steps 2 (sq18 (8897462, 2097152) (8897466, 2097152) (8897464, 2097152)) = Some (sq18 (8897462, 2097152) (8897463, 2097152) (8897462, 2097152))"
    by (simp add: sqrt_eval)
  from a0 [THEN sqrt_steps_add, OF a1, THEN sqrt_steps_add, OF a2, THEN sqrt_steps_add, OF a3, THEN sqrt_steps_add, OF a4, THEN sqrt_steps_add, OF a5, THEN sqrt_steps_add, OF a6, THEN sqrt_steps_add, OF a7, THEN sqrt_steps_add, OF a8, THEN sqrt_steps_add, OF a9] show ?thesis by blast
qed

lemma sqrt_18_stuck: "sqrt_step (sq18 (8897462, 2097152) (8897463, 2097152) (8897462, 2097152)) = Some (sq18 (8897462, 2097152) (8897463, 2097152) (8897462, 2097152))"
  by (simp add: sqrt_eval)

text \<open>18 has no root that is near enough: its neighbours in single precision are farther off than the threshold.\<close>

lemma my_sqrt_hangs: "my_sqrt (False, f32 (18, 1)) = None"
proof -
  obtain n where "sqrt_steps n (sqrt_start (f32 (18, 1))) = Some (sq18 (8897462, 2097152) (8897463, 2097152) (8897462, 2097152))" using sqrt_18_steps by blast
  from sqrt_loop_steps [OF this] show ?thesis using sqrt_loop_stuck [OF sqrt_18_stuck] by (simp add: my_sqrt_def)
qed

end
