(* ===== verification/Udp_Echo.thy ===== *)
theory Udp_Echo
  imports C_Library
begin

unbundle bit_operations_syntax

text \<open>
  The datagram test, \<^verbatim>\<open>src/test_udp.c\<close>: a client that sends numbered messages of 4096 bytes to an echo
  server and reads them back, in one loop or in two threads. Sockets belong to the kernel: what
  \<^verbatim>\<open>sendto\<close> and \<^verbatim>\<open>recvfrom\<close> give is an argument of the operations, and in the composed system the
  datagrams under way are two lists out of which a network may take any, lose any or copy any.
  Memory is assumed to be there when \<^verbatim>\<open>malloc\<close> is called (the code does not look), and the sequence
  number, an \<^verbatim>\<open>int\<close>, is taken to wrap around.
\<close>

section \<open>Messages\<close>

text \<open>An \<^verbatim>\<open>int\<close> in memory, low byte first.\<close>

definition int_bytes :: "u32 \<Rightarrow> u8 list" where
  "int_bytes w = map (\<lambda>i. ucast (drop_bit (8 * i) w)) [0..<4]"

definition bytes_int :: "u8 list \<Rightarrow> u32" where
  "bytes_int bs = foldr (\<lambda>i w. push_bit (8 * i) (ucast (bs ! i)) OR w) [0..<4] 0"

record my_msg =
  msg_seq_no :: u32
  msg_size :: u32
  msg_data :: "u8 list"

definition packet_size :: nat where
  "packet_size = 4096"

definition msg_header :: nat where
  "msg_header = 8"

definition msg_bytes :: "my_msg \<Rightarrow> u8 list" where
  "msg_bytes m = int_bytes (msg_seq_no m) @ int_bytes (msg_size m) @ msg_data m"

section \<open>The client's operations\<close>

text \<open>
  What a program prints. An error line stands for the two lines of \<^verbatim>\<open>print_err\<close> with its message;
  the error number in them is left out.
\<close>

datatype udp_line = TxLine u32 | RxLine u32 | BadSeqLine u32 | UdpErr string | EchoerFd

text \<open>The client: its sequence number, the messages it has allocated and not freed, its output.\<close>

record udp_client =
  uc_seq :: u32
  uc_heap :: nat
  uc_log :: "udp_line list"

definition get_my_seq_number :: "udp_client \<Rightarrow> u32 \<times> udp_client" where
  "get_my_seq_number c = (uc_seq c, c\<lparr>uc_seq := uc_seq c + 1\<rparr>)"

definition verify_seq_number :: "u32 \<Rightarrow> udp_client \<Rightarrow> int" where
  "verify_seq_number seq_no c =
     (let rc = (if uc_seq c \<noteq> seq_no then - 1 else 0 :: int);
          seq_no = uc_seq c + 1
      in 0)"

definition udp_print :: "udp_line \<Rightarrow> udp_client \<Rightarrow> udp_client" where
  "udp_print l c = c\<lparr>uc_log := uc_log c @ [l]\<rparr>"

text \<open>
  \<open>sender rc c\<close> for what \<^verbatim>\<open>sendto\<close> returns: the result, the bytes handed to the socket, the client. It
  has two parts, between which another thread may run: up to \<^verbatim>\<open>sendto\<close>, and the line it prints.
\<close>

definition sender_sends :: "udp_client \<Rightarrow> u32 \<times> u8 list \<times> udp_client" where
  "sender_sends c =
     (let c = c\<lparr>uc_heap := uc_heap c + 1\<rparr>;
          (n, c) = get_my_seq_number c;
          msg = \<lparr>msg_seq_no = n, msg_size = of_nat packet_size,
                 msg_data = memset (replicate packet_size 0) 0 (ucast n) packet_size\<rparr>
      in (n, msg_bytes msg, c))"

definition sender :: "int \<Rightarrow> udp_client \<Rightarrow> int \<times> u8 list \<times> udp_client" where
  "sender rc c = (let (n, bytes, c) = sender_sends c in (rc, bytes, udp_print (TxLine n) c))"

text \<open>
  \<^verbatim>\<open>recvfrom\<close> with a buffer of \<open>n\<close> bytes: a failure with its negative result, or a datagram and its
  source, of which the buffer gets the first \<open>n\<close> bytes. The length of the address buffer is read
  before it is written: the code leaves it without a value, \<open>alen\<close>. The kernel refuses a negative
  one, and copies as much of the 16 bytes of the source as it allows over what was there.
\<close>

datatype recv_result = RecvFails int | Datagram "u8 list" "u8 list"

definition recvfrom :: "nat \<Rightarrow> int \<Rightarrow> u8 list \<Rightarrow> recv_result \<Rightarrow> int + (u8 list \<times> u8 list)" where
  "recvfrom n alen addr r =
     (case r of
        RecvFails rc \<Rightarrow> Inl rc
      | Datagram src bytes \<Rightarrow>
          if alen < 0 then Inl (- 1)
          else let k = min 16 (nat alen) in Inr (take n bytes, take k src @ drop k addr))"

definition EMSGSIZE :: int where
  "EMSGSIZE = 90"

text \<open>The receiver allocates its buffer and waits in \<^verbatim>\<open>recvfrom\<close>; the rest is what it does with the result.\<close>

definition recver_rest :: "int + (u8 list \<times> u8 list) \<Rightarrow> udp_client \<Rightarrow> int \<times> udp_client" where
  "recver_rest res c =
     (case res of
        Inl rc \<Rightarrow>
          let c = udp_print (UdpErr ''recver recvfrom failed'') c
          in (rc, c\<lparr>uc_heap := uc_heap c - 1\<rparr>)
      | Inr (buffer, _) \<Rightarrow>
          if length buffer \<noteq> msg_header + packet_size
          then (- EMSGSIZE, udp_print (UdpErr ''Bad msg'') c)
          else
            let seq_no = bytes_int buffer;
                rc = verify_seq_number seq_no c;
                c = (if rc < 0 then udp_print (BadSeqLine seq_no) c else c)
            in (rc, udp_print (RxLine seq_no) c))"

definition recver :: "int \<Rightarrow> recv_result \<Rightarrow> udp_client \<Rightarrow> int \<times> udp_client" where
  "recver alen r c =
     recver_rest (recvfrom (msg_header + packet_size) alen [] r) (c\<lparr>uc_heap := uc_heap c + 1\<rparr>)"

text \<open>
  A turn of either thread of the threaded client, from the return of the socket call on: the sender
  with the result and the number it has sent, the receiver with what it has got.
\<close>

definition sender_thread :: "int \<Rightarrow> u32 \<Rightarrow> udp_client \<Rightarrow> udp_client" where
  "sender_thread rc n c =
     (let c = udp_print (TxLine n) c in if rc < 0 then udp_print (UdpErr ''sender error'') c else c)"

definition recver_thread :: "int + (u8 list \<times> u8 list) \<Rightarrow> udp_client \<Rightarrow> udp_client" where
  "recver_thread res c =
     (let (rc, c) = recver_rest res c in if rc < 0 then udp_print (UdpErr ''sender error'') c else c)"

section \<open>The server's operation\<close>

text \<open>
  \<open>echoer alen addr r snd_rc\<close>: the result, what is sent where, and what is printed, for an address
  buffer with the uninitialised content \<open>addr\<close> and what \<^verbatim>\<open>sendto\<close> returns.
\<close>

definition echoer ::
  "int \<Rightarrow> u8 list \<Rightarrow> recv_result \<Rightarrow> int \<Rightarrow> int \<times> (u8 list \<times> u8 list) option \<times> udp_line list" where
  "echoer alen addr r snd_rc =
     (case recvfrom (msg_header + packet_size) alen addr r of
        Inl rc \<Rightarrow> (rc, None, [EchoerFd, UdpErr ''echoer recvfrom failed''])
      | Inr (buffer, sock_addr) \<Rightarrow>
          (snd_rc, if snd_rc < 0 then None else Some (sock_addr, buffer),
           if snd_rc < 0 then [UdpErr ''echoer sendto failed''] else []))"

section \<open>Main\<close>

text \<open>
  What the arguments select, in the order of the tests: \<open>argv\<close> is the list behind the program's
  name; the socket, \<^verbatim>\<open>inet_aton\<close> and \<^verbatim>\<open>bind\<close> are parameters.
\<close>

datatype udp_start =
    UdpReturns int "udp_line list"
  | UdpHelp
  | UdpBadIp string
  | UdpServer
  | UdpClient bool u32

definition EINVAL_udp :: int where
  "EINVAL_udp = 22"

definition udp_main ::
  "bool \<Rightarrow> (string \<Rightarrow> u32 option) \<Rightarrow> bool \<Rightarrow> string list \<Rightarrow> udp_start" where
  "udp_main sock_ok inet_aton bind_ok argv =
     (case argv of
        [] \<Rightarrow> UdpHelp
      | mode # rest \<Rightarrow>
          if \<not> sock_ok then UdpReturns (- 1) [UdpErr ''sock create failed'']
          else
            let is_mode = (\<lambda>w. strncmp_eq mode w (length w))
            in if is_mode ''echo_server'' then
                 (if bind_ok then UdpServer else UdpReturns (- 1) [UdpErr ''bind failed''])
               else if is_mode ''echo_client'' \<or> is_mode ''echo_thread_client'' then
                 (case rest of
                    [] \<Rightarrow> UdpHelp
                  | ip # _ \<Rightarrow>
                      (case inet_aton ip of
                         None \<Rightarrow> UdpBadIp ip
                       | Some a \<Rightarrow> UdpClient (\<not> is_mode ''echo_client'') a))
               else UdpHelp)"

definition udp_result :: "udp_start \<Rightarrow> int option" where
  "udp_result s =
     (case s of
        UdpReturns rc _ \<Rightarrow> Some rc
      | UdpHelp \<Rightarrow> Some 0
      | UdpBadIp _ \<Rightarrow> Some (- EINVAL_udp)
      | UdpServer \<Rightarrow> None
      | UdpClient _ _ \<Rightarrow> None)"

section \<open>Client, server and network\<close>

text \<open>
  The client is in its loop, before \<^verbatim>\<open>sender\<close> or before \<^verbatim>\<open>recver\<close>; or its main program is on the way
  through the two calls of \<^verbatim>\<open>pthread_create\<close>, with the threads that exist so far; or it has ended. A
  sending thread that is back from \<^verbatim>\<open>sendto\<close> and has not printed yet holds the result and the number
  (\<open>un_tx\<close>); a receiving thread that is back from \<^verbatim>\<open>recvfrom\<close> holds what it got (\<open>un_rx\<close>).
\<close>

datatype client_pc = LoopSend | LoopRecv | Creates bool bool | ClientEnds int

record udp_net =
  un_pc :: client_pc
  un_client :: udp_client
  un_server :: bool
  un_out :: "u8 list list"
  un_in :: "u8 list list"
  un_tx :: "(int \<times> u32) option"
  un_rx :: "(int + (u8 list \<times> u8 list)) option"

definition udp_init :: "bool \<Rightarrow> udp_net" where
  "udp_init thread_mode =
     \<lparr>un_pc = (if thread_mode then Creates False False else LoopSend),
      un_client = \<lparr>uc_seq = 0, uc_heap = 0, uc_log = []\<rparr>, un_server = True, un_out = [], un_in = [],
      un_tx = None, un_rx = None\<rparr>"

text \<open>What may go wrong outside the program: datagrams lost or copied, calls that fail.\<close>

datatype udp_fault = Loses | Copies | SendErrs | RecvErrs

text \<open>
  One step of the whole, for the faults that may happen, the values an uninitialised length may
  have, and the 16 bytes of the client's address. The network delivers in any order.
\<close>

inductive udp_step ::
  "udp_fault set \<Rightarrow> (int \<Rightarrow> bool) \<Rightarrow> u8 list \<Rightarrow> udp_net \<Rightarrow> udp_net \<Rightarrow> bool"
  for flt alen_ok me where
  loop_send: "un_pc s = LoopSend \<Longrightarrow> 0 \<le> rc \<Longrightarrow> sender rc (un_client s) = (rc', bytes, c) \<Longrightarrow>
    udp_step flt alen_ok me s (s\<lparr>un_pc := LoopRecv, un_client := c, un_out := un_out s @ [bytes]\<rparr>)"
| loop_send_fails: "un_pc s = LoopSend \<Longrightarrow> SendErrs \<in> flt \<Longrightarrow> rc < 0 \<Longrightarrow>
    sender rc (un_client s) = (rc', bytes, c) \<Longrightarrow>
    udp_step flt alen_ok me s (s\<lparr>un_pc := ClientEnds rc', un_client := udp_print (UdpErr ''sender failed'') c\<rparr>)"
| loop_recv: "un_pc s = LoopRecv \<Longrightarrow> un_in s = xs @ d # ys \<Longrightarrow> alen_ok alen \<Longrightarrow>
    recver alen (Datagram src d) (un_client s) = (rc, c) \<Longrightarrow>
    udp_step flt alen_ok me s (s\<lparr>un_pc := (if rc < 0 then ClientEnds rc else LoopSend),
      un_client := (if rc < 0 then udp_print (UdpErr ''recver failed'') c else c), un_in := xs @ ys\<rparr>)"
| loop_recv_fails: "un_pc s = LoopRecv \<Longrightarrow> RecvErrs \<in> flt \<Longrightarrow> e < 0 \<Longrightarrow>
    recver alen (RecvFails e) (un_client s) = (rc, c) \<Longrightarrow>
    udp_step flt alen_ok me s (s\<lparr>un_pc := ClientEnds rc, un_client := udp_print (UdpErr ''recver failed'') c\<rparr>)"
| create_sender: "un_pc s = Creates False False \<Longrightarrow>
    udp_step flt alen_ok me s (s\<lparr>un_pc := Creates True False\<rparr>)"
| create_recver: "un_pc s = Creates True False \<Longrightarrow>
    udp_step flt alen_ok me s (s\<lparr>un_pc := Creates True True\<rparr>)"
| create_fails: "un_pc s = Creates snd_up False \<Longrightarrow>
    udp_step flt alen_ok me s (s\<lparr>un_pc := ClientEnds (- 1), un_client := udp_print (UdpErr
      (if snd_up then ''thread create for recver failed'' else ''thread create for sender failed'')) (un_client s)\<rparr>)"
| main_returns: "un_pc s = Creates True True \<Longrightarrow>
    udp_step flt alen_ok me s (s\<lparr>un_pc := ClientEnds 0\<rparr>)"
| thread_sends: "un_pc s = Creates True rcv_up \<Longrightarrow> un_tx s = None \<Longrightarrow> 0 \<le> rc \<Longrightarrow>
    sender_sends (un_client s) = (n, bytes, c) \<Longrightarrow>
    udp_step flt alen_ok me s (s\<lparr>un_client := c, un_out := un_out s @ [bytes], un_tx := Some (rc, n)\<rparr>)"
| thread_send_fails: "un_pc s = Creates True rcv_up \<Longrightarrow> un_tx s = None \<Longrightarrow> SendErrs \<in> flt \<Longrightarrow> rc < 0 \<Longrightarrow>
    sender_sends (un_client s) = (n, bytes, c) \<Longrightarrow>
    udp_step flt alen_ok me s (s\<lparr>un_client := c, un_tx := Some (rc, n)\<rparr>)"
| thread_prints: "un_pc s = Creates True rcv_up \<Longrightarrow> un_tx s = Some (rc, n) \<Longrightarrow>
    udp_step flt alen_ok me s (s\<lparr>un_client := sender_thread rc n (un_client s), un_tx := None\<rparr>)"
| thread_recvs: "un_pc s = Creates True True \<Longrightarrow> un_rx s = None \<Longrightarrow> un_in s = xs @ d # ys \<Longrightarrow> alen_ok alen \<Longrightarrow>
    udp_step flt alen_ok me s (s\<lparr>un_client := (un_client s)\<lparr>uc_heap := uc_heap (un_client s) + 1\<rparr>, un_in := xs @ ys,
      un_rx := Some (recvfrom (msg_header + packet_size) alen [] (Datagram src d))\<rparr>)"
| thread_recv_fails: "un_pc s = Creates True True \<Longrightarrow> un_rx s = None \<Longrightarrow> RecvErrs \<in> flt \<Longrightarrow> e < 0 \<Longrightarrow>
    udp_step flt alen_ok me s (s\<lparr>un_client := (un_client s)\<lparr>uc_heap := uc_heap (un_client s) + 1\<rparr>,
      un_rx := Some (recvfrom (msg_header + packet_size) alen [] (RecvFails e))\<rparr>)"
| thread_handles: "un_pc s = Creates True True \<Longrightarrow> un_rx s = Some res \<Longrightarrow>
    udp_step flt alen_ok me s (s\<lparr>un_client := recver_thread res (un_client s), un_rx := None\<rparr>)"
| echoes: "un_server s \<Longrightarrow> un_out s = xs @ d # ys \<Longrightarrow> alen_ok alen \<Longrightarrow> length addr = 16 \<Longrightarrow>
    snd_rc < 0 \<longrightarrow> SendErrs \<in> flt \<Longrightarrow>
    echoer alen addr (Datagram me d) snd_rc = (rc, reply, lines) \<Longrightarrow>
    udp_step flt alen_ok me s (s\<lparr>un_server := 0 \<le> rc, un_out := xs @ ys,
      un_in := (case reply of Some (dst, b) \<Rightarrow> if dst = me then un_in s @ [b] else un_in s | None \<Rightarrow> un_in s)\<rparr>)"
| echo_recv_fails: "un_server s \<Longrightarrow> RecvErrs \<in> flt \<Longrightarrow> e < 0 \<Longrightarrow>
    echoer alen addr (RecvFails e) snd_rc = (rc, reply, lines) \<Longrightarrow>
    udp_step flt alen_ok me s (s\<lparr>un_server := 0 \<le> rc\<rparr>)"
| loses_out: "Loses \<in> flt \<Longrightarrow> un_out s = xs @ d # ys \<Longrightarrow> udp_step flt alen_ok me s (s\<lparr>un_out := xs @ ys\<rparr>)"
| loses_in: "Loses \<in> flt \<Longrightarrow> un_in s = xs @ d # ys \<Longrightarrow> udp_step flt alen_ok me s (s\<lparr>un_in := xs @ ys\<rparr>)"
| copies_out: "Copies \<in> flt \<Longrightarrow> d \<in> set (un_out s) \<Longrightarrow> udp_step flt alen_ok me s (s\<lparr>un_out := un_out s @ [d]\<rparr>)"
| copies_in: "Copies \<in> flt \<Longrightarrow> d \<in> set (un_in s) \<Longrightarrow> udp_step flt alen_ok me s (s\<lparr>un_in := un_in s @ [d]\<rparr>)"

abbreviation udp_runs :: "udp_fault set \<Rightarrow> (int \<Rightarrow> bool) \<Rightarrow> u8 list \<Rightarrow> udp_net \<Rightarrow> udp_net \<Rightarrow> bool" where
  "udp_runs flt alen_ok me \<equiv> (udp_step flt alen_ok me)\<^sup>*\<^sup>*"

section \<open>What the operations do\<close>

text \<open>The message with number \<open>n\<close>, as the sender writes it and as the receiver reads it.\<close>

definition sent_msg :: "u32 \<Rightarrow> u8 list" where
  "sent_msg n = msg_bytes \<lparr>msg_seq_no = n, msg_size = of_nat packet_size,
     msg_data = memset (replicate packet_size 0) 0 (ucast n) packet_size\<rparr>"

lemma length_int_bytes [simp]: "length (int_bytes w) = 4"
  by (simp add: int_bytes_def)

lemma int_bytes_4: "int_bytes w = [ucast w, ucast (drop_bit 8 w), ucast (drop_bit 16 w), ucast (drop_bit 24 w)]"
  by (simp add: int_bytes_def upt_rec numeral_eq_Suc)

lemma word_byte_split:
  "(ucast (ucast w :: u8) :: u32) OR push_bit 8 (ucast (ucast (drop_bit 8 w) :: u8)) OR
   push_bit 16 (ucast (ucast (drop_bit 16 w) :: u8)) OR push_bit 24 (ucast (ucast (drop_bit 24 w) :: u8)) = (w :: u32)"
proof (rule bit_word_eqI)
  fix n assume "n < LENGTH(32)"
  then consider "n < 8" | "8 \<le> n" "n < 16" | "16 \<le> n" "n < 24" | "24 \<le> n" "n < 32" by fastforce
  then show "bit ((ucast (ucast w :: u8) :: u32) OR push_bit 8 (ucast (ucast (drop_bit 8 w) :: u8)) OR
    push_bit 16 (ucast (ucast (drop_bit 16 w) :: u8)) OR push_bit 24 (ucast (ucast (drop_bit 24 w) :: u8))) n = bit w n"
    by cases (auto simp: bit_simps)
qed

lemma bytes_int_bytes [simp]: "bytes_int (int_bytes w @ r) = w"
  using word_byte_split [of w] by (simp add: bytes_int_def int_bytes_4 upt_rec numeral_eq_Suc ac_simps)

lemma bytes_int_sent [simp]: "bytes_int (sent_msg n) = n"
  by (simp add: sent_msg_def msg_bytes_def)

lemma length_sent [simp]: "length (sent_msg n) = msg_header + packet_size"
  by (simp add: sent_msg_def msg_bytes_def msg_header_def)

lemma sender_sends_eq:
  "sender_sends c = (uc_seq c, sent_msg (uc_seq c), c\<lparr>uc_heap := uc_heap c + 1, uc_seq := uc_seq c + 1\<rparr>)"
  by (simp add: sender_sends_def sent_msg_def get_my_seq_number_def)

lemma sender_eq:
  "sender rc c = (rc, sent_msg (uc_seq c),
     udp_print (TxLine (uc_seq c)) (c\<lparr>uc_heap := uc_heap c + 1, uc_seq := uc_seq c + 1\<rparr>))"
  by (simp add: sender_def sender_sends_eq)

lemma verify_seq_number_0 [simp]: "verify_seq_number n c = 0"
  by (simp add: verify_seq_number_def)

lemma recver_rest_sent:
  "recver_rest (Inl e) c = (e, udp_print (UdpErr ''recver recvfrom failed'') (c\<lparr>uc_heap := uc_heap c - 1\<rparr>))"
  "recver_rest (Inr (sent_msg n, a)) c = (0, udp_print (RxLine n) c)"
  by (simp_all add: recver_rest_def udp_print_def Let_def)

lemma recvfrom_sent:
  "recvfrom (msg_header + packet_size) alen [] (RecvFails e) = Inl e"
  "recvfrom (msg_header + packet_size) alen [] (Datagram src (sent_msg n)) =
    (if alen < 0 then Inl (- 1) else Inr (sent_msg n, take (min 16 (nat alen)) src))"
  by (simp_all add: recvfrom_def Let_def)

lemma recver_sent:
  "recver alen (Datagram src (sent_msg n)) c =
     (if alen < 0 then (- 1, udp_print (UdpErr ''recver recvfrom failed'') c)
      else (0, udp_print (RxLine n) (c\<lparr>uc_heap := uc_heap c + 1\<rparr>)))"
  by (simp add: recver_def recvfrom_sent recver_rest_sent udp_print_def)

lemma recver_fails: "recver alen (RecvFails e) c = (e, udp_print (UdpErr ''recver recvfrom failed'') c)"
  by (simp add: recver_def recvfrom_sent recver_rest_sent udp_print_def)

lemma echoer_reply:
  "echoer alen addr (Datagram src d) snd_rc = (rc, Some (dst, b), lines) \<Longrightarrow> b = take (msg_header + packet_size) d"
  by (auto simp: echoer_def recvfrom_def Let_def split: if_splits)

lemma echoer_to_client:
  "16 \<le> alen \<Longrightarrow> length src = 16 \<Longrightarrow> length addr = 16 \<Longrightarrow> echoer alen addr (Datagram src (sent_msg n)) snd_rc =
     (snd_rc, if snd_rc < 0 then None else Some (src, sent_msg n),
      if snd_rc < 0 then [UdpErr ''echoer sendto failed''] else [])"
  by (simp add: echoer_def recvfrom_def Let_def)

lemmas udp_ops = sender_eq sender_sends_eq recver_sent recver_fails Let_def

lemma udp_print_simps [simp]:
  "uc_log (udp_print l c) = uc_log c @ [l]" "uc_seq (udp_print l c) = uc_seq c" "uc_heap (udp_print l c) = uc_heap c"
  by (simp_all add: udp_print_def)

section \<open>Nothing is received that was not sent\<close>

definition answered :: "udp_line list \<Rightarrow> bool" where
  "answered log \<longleftrightarrow> (\<forall>i<length log. \<forall>n. log ! i = RxLine n \<longrightarrow> TxLine n \<in> set (take i log))"

lemma answered_simps [simp]:
  "answered []"
  "answered (log @ [l]) \<longleftrightarrow> answered log \<and> (\<forall>n. l = RxLine n \<longrightarrow> TxLine n \<in> set log)"
proof -
  show "answered []" by (simp add: answered_def)
  show "answered (log @ [l]) \<longleftrightarrow> answered log \<and> (\<forall>n. l = RxLine n \<longrightarrow> TxLine n \<in> set log)"
    unfolding answered_def by (auto simp: nth_append less_Suc_eq)
qed

text \<open>
  The number that the next \<^verbatim>\<open>Tx\<close> line of an output has. In the threaded client a number may come back
  while the sender has not printed yet that it sent it; then its line is the next \<^verbatim>\<open>Tx\<close> line.
\<close>

fun next_tx :: "udp_line list \<Rightarrow> u32 option" where
  "next_tx [] = None"
| "next_tx (TxLine n # ls) = Some n"
| "next_tx (_ # ls) = next_tx ls"

definition pending_tx :: "udp_net \<Rightarrow> udp_line list" where
  "pending_tx s = (case un_tx s of None \<Rightarrow> [] | Some (rc, n) \<Rightarrow> [TxLine n])"

definition answered_late :: "udp_line list \<Rightarrow> udp_line list \<Rightarrow> bool" where
  "answered_late log pend \<longleftrightarrow> (\<forall>i<length log. \<forall>n. log ! i = RxLine n \<longrightarrow>
     TxLine n \<in> set (take i log) \<or> next_tx (drop i log @ pend) = Some n)"

lemma next_tx_append: "next_tx (xs @ ys) = (case next_tx xs of None \<Rightarrow> next_tx ys | Some n \<Rightarrow> Some n)"
  by (induction xs rule: next_tx.induct) auto

lemma answered_late_Nil [simp]: "answered_late [] pend"
  by (simp add: answered_late_def)

lemma answered_late_snoc:
  "answered_late (log @ [l]) pend \<longleftrightarrow> answered_late log ([l] @ pend) \<and>
     (\<forall>n. l = RxLine n \<longrightarrow> TxLine n \<in> set log \<or> next_tx pend = Some n)"
  unfolding answered_late_def by (auto simp: nth_append less_Suc_eq)

lemma answered_late_skip: "next_tx [l] = None \<Longrightarrow> answered_late log ([l] @ pend) = answered_late log pend"
  unfolding answered_late_def by (simp only: next_tx_append) (simp split: option.split)

lemmas answered_late_line = answered_late_skip [simplified]

lemma answered_late_more: "answered_late log [] \<Longrightarrow> answered_late log pend"
  unfolding answered_late_def by (simp add: next_tx_append) (metis option.simps(5))

text \<open>A number that has been handed to the socket, and a datagram that is a message with such a number.\<close>

definition told :: "udp_net \<Rightarrow> u32 \<Rightarrow> bool" where
  "told s n \<longleftrightarrow> TxLine n \<in> set (uc_log (un_client s)) \<or> next_tx (pending_tx s) = Some n"

definition held :: "udp_net \<Rightarrow> u8 list set" where
  "held s = (case un_rx s of Some (Inr (b, _)) \<Rightarrow> {b} | _ \<Rightarrow> {})"

definition udp_data :: "udp_net \<Rightarrow> bool" where
  "udp_data s \<longleftrightarrow> (\<forall>d \<in> set (un_out s) \<union> set (un_in s) \<union> held s. \<exists>n. told s n \<and> d = sent_msg n)"

definition udp_log :: "udp_net \<Rightarrow> bool" where
  "udp_log s \<longleftrightarrow> answered_late (uc_log (un_client s)) (pending_tx s) \<and> (\<forall>n. BadSeqLine n \<notin> set (uc_log (un_client s)))"

definition mode_ok :: "bool \<Rightarrow> udp_net \<Rightarrow> bool" where
  "mode_ok tm s \<longleftrightarrow>
     (if tm then un_pc s \<noteq> LoopSend \<and> un_pc s \<noteq> LoopRecv
      else un_tx s = None \<and> un_rx s = None \<and> (\<forall>a b. un_pc s \<noteq> Creates a b))"

definition udp_ok :: "bool \<Rightarrow> udp_net \<Rightarrow> bool" where
  "udp_ok tm s \<longleftrightarrow> udp_data s \<and> udp_log s \<and> mode_ok tm s \<and> (tm \<or> answered (uc_log (un_client s)))"

lemma udp_data_change:
  assumes "udp_data s" "\<And>m. told s m \<Longrightarrow> told s' m"
    and "\<And>d. d \<in> set (un_out s') \<union> set (un_in s') \<union> held s' \<Longrightarrow>
      d \<in> set (un_out s) \<union> set (un_in s) \<union> held s \<or> (\<exists>n. told s' n \<and> d = sent_msg n)"
  shows "udp_data s'"
  unfolding udp_data_def
proof
  fix d
  assume "d \<in> set (un_out s') \<union> set (un_in s') \<union> held s'"
  from assms(3) [OF this] show "\<exists>n. told s' n \<and> d = sent_msg n"
  proof
    assume "d \<in> set (un_out s) \<union> set (un_in s) \<union> held s"
    then obtain n where "told s n" "d = sent_msg n" using assms(1) unfolding udp_data_def by blast
    then show ?thesis using assms(2) by blast
  qed
qed

text \<open>Steps that print nothing and send nothing.\<close>

lemma udp_ok_quiet:
  assumes "udp_ok tm s" "uc_log (un_client s') = uc_log (un_client s)" "un_tx s' = un_tx s"
    and "set (un_out s') \<union> set (un_in s') \<union> held s' \<subseteq> set (un_out s) \<union> set (un_in s) \<union> held s"
    and "mode_ok tm s'"
  shows "udp_ok tm s'"
proof -
  have p: "pending_tx s' = pending_tx s" using assms(3) by (simp add: pending_tx_def)
  have t: "told s' n = told s n" for n using assms(2) p by (simp add: told_def)
  have "udp_data s'" using assms(1,4) unfolding udp_ok_def udp_data_def t by blast
  then show ?thesis using assms(1-3,5) p by (auto simp: udp_ok_def udp_log_def)
qed

text \<open>A step that prints a line, which is no \<^verbatim>\<open>Tx\<close> line and if it is an \<^verbatim>\<open>Rx\<close> line has a number that was sent.\<close>

definition line_ok :: "udp_net \<Rightarrow> udp_line \<Rightarrow> bool" where
  "line_ok s l \<longleftrightarrow> (\<exists>m. l = UdpErr m) \<or> (\<exists>n. l = RxLine n \<and> told s n)"

lemma udp_ok_line:
  assumes "udp_ok tm s" "line_ok s l" "uc_log (un_client s') = uc_log (un_client s) @ [l]" "un_tx s' = un_tx s"
    and "set (un_out s') \<union> set (un_in s') \<union> held s' \<subseteq> set (un_out s) \<union> set (un_in s) \<union> held s"
    and "mode_ok tm s'"
  shows "udp_ok tm s'"
proof -
  have p: "pending_tx s' = pending_tx s" using assms(4) by (simp add: pending_tx_def)
  have t: "told s n \<Longrightarrow> told s' n" for n using assms(3) p by (auto simp: told_def)
  have d: "udp_data s'" using assms(1,5) t unfolding udp_ok_def udp_data_def by blast
  have "next_tx [l] = None" using assms(2) by (auto simp: line_ok_def)
  then have "udp_log s'" using assms(1,2) unfolding udp_ok_def udp_log_def assms(3) p answered_late_snoc line_ok_def told_def
    by (auto simp: answered_late_line)
  moreover have "tm \<or> answered (uc_log (un_client s'))" using assms(1-4,6)
    by (auto simp: udp_ok_def mode_ok_def line_ok_def told_def pending_tx_def)
  ultimately show ?thesis using d assms(6) by (simp add: udp_ok_def)
qed

text \<open>The sender hands a message to the socket, or fails to, and later prints its line.\<close>

lemma udp_ok_send:
  assumes "udp_ok True s" "un_tx s = None" "uc_log (un_client s') = uc_log (un_client s)" "un_tx s' = Some (rc, n)"
    and "set (un_out s') \<subseteq> insert (sent_msg n) (set (un_out s))" "un_in s' = un_in s" "un_rx s' = un_rx s" "mode_ok True s'"
  shows "udp_ok True s'"
proof -
  have p: "pending_tx s = []" "pending_tx s' = [TxLine n]" using assms(2,4) by (simp_all add: pending_tx_def)
  have n: "told s' n" and m: "told s m \<Longrightarrow> told s' m" for m using assms(3) p by (auto simp: told_def)
  have h: "held s' = held s" using assms(7) by (simp add: held_def)
  have d: "udp_data s'"
  proof (rule udp_data_change [OF _ m])
    fix d assume "d \<in> set (un_out s') \<union> set (un_in s') \<union> held s'"
    then have "d = sent_msg n \<or> d \<in> set (un_out s) \<union> set (un_in s) \<union> held s" using assms(5,6) h by auto
    then show "d \<in> set (un_out s) \<union> set (un_in s) \<union> held s \<or> (\<exists>n. told s' n \<and> d = sent_msg n)" using n by metis
  qed (use assms(1) in \<open>simp add: udp_ok_def\<close>)
  have "answered_late (uc_log (un_client s)) []" "\<forall>n. BadSeqLine n \<notin> set (uc_log (un_client s))"
    using assms(1) p(1) by (simp_all add: udp_ok_def udp_log_def)
  then show ?thesis using d answered_late_more assms(8) by (simp add: udp_ok_def udp_log_def assms(3) p(2))
qed

lemma udp_ok_tx_line:
  assumes "udp_ok True s" "un_tx s = Some (rc, n)" "uc_log (un_client s') = uc_log (un_client s) @ [TxLine n]" "un_tx s' = None"
    and "un_out s' = un_out s" "un_in s' = un_in s" "un_rx s' = un_rx s" "mode_ok True s'"
  shows "udp_ok True s'"
proof -
  have p: "pending_tx s = [TxLine n]" "pending_tx s' = []" using assms(2,4) by (simp_all add: pending_tx_def)
  have "told s' m = told s m" for m using assms(3) p by (auto simp: told_def)
  moreover have "held s' = held s" using assms(7) by (simp add: held_def)
  ultimately have "udp_data s'" using assms(1,5,6) by (simp add: udp_ok_def udp_data_def)
  then show ?thesis using assms(1,3,8) p by (simp add: udp_ok_def udp_log_def answered_late_snoc)
qed

text \<open>In the loop both happen in one go.\<close>

lemma udp_ok_loop_send:
  assumes "udp_ok tm s" "un_tx s = None" "uc_log (un_client s') = uc_log (un_client s) @ [TxLine n]" "un_tx s' = None"
    and "set (un_out s') \<subseteq> insert (sent_msg n) (set (un_out s))" "un_in s' = un_in s" "un_rx s' = un_rx s"
    and "mode_ok tm s'"
  shows "udp_ok tm s'"
proof -
  have p: "pending_tx s = []" "pending_tx s' = []" using assms(2,4) by (simp_all add: pending_tx_def)
  have n: "told s' n" and m: "told s m \<Longrightarrow> told s' m" for m using assms(3) p by (auto simp: told_def)
  have h: "held s' = held s" using assms(7) by (simp add: held_def)
  have d: "udp_data s'"
  proof (rule udp_data_change [OF _ m])
    fix d assume "d \<in> set (un_out s') \<union> set (un_in s') \<union> held s'"
    then have "d = sent_msg n \<or> d \<in> set (un_out s) \<union> set (un_in s) \<union> held s" using assms(5,6) h by auto
    then show "d \<in> set (un_out s) \<union> set (un_in s) \<union> held s \<or> (\<exists>n. told s' n \<and> d = sent_msg n)" using n by metis
  qed (use assms(1) in \<open>simp add: udp_ok_def\<close>)
  have "answered_late (uc_log (un_client s)) []" "\<forall>n. BadSeqLine n \<notin> set (uc_log (un_client s))"
    using assms(1) p(1) by (simp_all add: udp_ok_def udp_log_def)
  then have "udp_log s'" using answered_late_more by (simp add: udp_log_def assms(3) p(2) answered_late_snoc)
  moreover have "tm \<or> answered (uc_log (un_client s'))" using assms(1,3) by (auto simp: udp_ok_def)
  ultimately show ?thesis using d assms(8) by (simp add: udp_ok_def)
qed

lemma udp_ok_recv:
  assumes "udp_ok tm s" "d \<in> set (un_out s) \<union> set (un_in s) \<union> held s"
  obtains n where "d = sent_msg n" "told s n"
  using assms unfolding udp_ok_def udp_data_def by blast

lemma line_ok_simps [simp]: "line_ok s (UdpErr m)" "line_ok s (RxLine n) \<longleftrightarrow> told s n"
  by (simp_all add: line_ok_def)

lemma udp_ok_mode: "udp_ok tm s \<Longrightarrow> mode_ok tm s"
  by (simp add: udp_ok_def)

lemma udp_ok_loop: "udp_ok tm s \<Longrightarrow> un_pc s = LoopSend \<or> un_pc s = LoopRecv \<Longrightarrow> un_tx s = None \<and> un_rx s = None \<and> \<not> tm"
  using udp_ok_mode [of tm s] by (auto simp: mode_ok_def split: if_splits)

lemma udp_ok_threads: "udp_ok tm s \<Longrightarrow> un_pc s = Creates a b \<Longrightarrow> tm"
  using udp_ok_mode [of tm s] by (auto simp: mode_ok_def split: if_splits)

lemma udp_ok_two_lines:
  assumes "udp_ok tm s" "line_ok s l" "uc_log (un_client s') = uc_log (un_client s) @ [l, UdpErr m]" "un_tx s' = un_tx s"
    and "set (un_out s') \<union> set (un_in s') \<union> held s' \<subseteq> set (un_out s) \<union> set (un_in s) \<union> held s"
    and "mode_ok tm s'"
  shows "udp_ok tm s'"
proof -
  have "udp_ok tm (s'\<lparr>un_client := (un_client s')\<lparr>uc_log := uc_log (un_client s) @ [l]\<rparr>\<rparr>)"
    using assms(4-6) by (intro udp_ok_line [OF assms(1,2)]) (auto simp: held_def mode_ok_def split: if_splits)
  then show ?thesis
    by (rule udp_ok_line [of _ _ "UdpErr m"]) (use assms(3-6) in \<open>simp_all add: held_def\<close>)
qed

lemma udp_ok_thread_handles:
  assumes "udp_ok tm s" "un_pc s = Creates True True" "un_rx s = Some res"
  shows "udp_ok tm (s\<lparr>un_client := recver_thread res (un_client s), un_rx := None\<rparr>)"
proof (cases res)
  case (Inl e)
  let ?s = "s\<lparr>un_client := recver_thread res (un_client s), un_rx := None\<rparr>"
  have m: "mode_ok tm ?s" using udp_ok_mode [OF assms(1)] by (auto simp: mode_ok_def)
  show ?thesis
  proof (cases "e < 0")
    case True
    then show ?thesis using Inl m
      by (intro udp_ok_two_lines [OF assms(1), of "UdpErr ''recver recvfrom failed''" _ "''sender error''"])
        (simp_all add: recver_thread_def recver_rest_sent held_def)
  next
    case False
    then show ?thesis using Inl m
      by (intro udp_ok_line [OF assms(1), of "UdpErr ''recver recvfrom failed''"])
        (simp_all add: recver_thread_def recver_rest_sent held_def)
  qed
next
  case (Inr ba)
  obtain b a where ba: "ba = (b, a)" by (cases ba)
  then have "b \<in> held s" using assms(3) Inr by (simp add: held_def)
  then obtain n where n: "b = sent_msg n" "told s n" using assms(1) by (blast elim: udp_ok_recv)
  have "mode_ok tm (s\<lparr>un_client := recver_thread res (un_client s), un_rx := None\<rparr>)"
    using udp_ok_mode [OF assms(1)] by (auto simp: mode_ok_def)
  then show ?thesis using Inr ba n
    by (intro udp_ok_line [OF assms(1), of "RxLine n"]) (simp_all add: recver_thread_def recver_rest_sent held_def)
qed

lemma udp_ok_thread_prints:
  assumes "udp_ok tm s" "un_pc s = Creates True b" "un_tx s = Some (rc, n)"
  shows "udp_ok tm (s\<lparr>un_client := sender_thread rc n (un_client s), un_tx := None\<rparr>)"
proof -
  have tm: "tm" using udp_ok_mode [OF assms(1)] assms(2) by (auto simp: mode_ok_def split: if_splits)
  let ?s1 = "s\<lparr>un_client := udp_print (TxLine n) (un_client s), un_tx := None\<rparr>"
  have "udp_ok True s" using assms(1) tm by simp
  then have s1: "udp_ok tm ?s1" unfolding eqTrueI [OF tm]
    by (rule udp_ok_tx_line [OF _ assms(3)]) (simp_all add: mode_ok_def assms(2))
  show ?thesis
  proof (cases "rc < 0")
    case True
    then show ?thesis
      by (intro udp_ok_line [OF s1, of "UdpErr ''sender error''"])
        (simp_all add: sender_thread_def Let_def held_def mode_ok_def assms(2) tm)
  next
    case False
    then show ?thesis using s1 by (simp add: sender_thread_def)
  qed
qed

lemma udp_ok_loop_recv:
  assumes "udp_ok tm s" "un_pc s = LoopRecv" "un_in s = xs @ d # ys" "recver alen (Datagram src d) (un_client s) = (rc, c)"
  shows "udp_ok tm (s\<lparr>un_pc := (if rc < 0 then ClientEnds rc else LoopSend),
      un_client := (if rc < 0 then udp_print (UdpErr ''recver failed'') c else c), un_in := xs @ ys\<rparr>)"
    (is "udp_ok tm ?s")
proof -
  have m: "\<not> tm" "mode_ok tm ?s" using udp_ok_mode [OF assms(1)] assms(2) by (auto simp: mode_ok_def split: if_splits)
  obtain n where n: "d = sent_msg n" "told s n"
    using udp_ok_recv [OF assms(1), of d] assms(3) by auto
  show ?thesis
  proof (cases "alen < 0")
    case True
    then show ?thesis using assms(3,4) n(1) m(2)
      by (intro udp_ok_two_lines [OF assms(1), of "UdpErr ''recver recvfrom failed''" _ "''recver failed''"])
        (auto simp: recver_sent held_def)
  next
    case False
    then show ?thesis using assms(3,4) n m(2)
      by (intro udp_ok_line [OF assms(1), of "RxLine n"]) (auto simp: recver_sent held_def)
  qed
qed

lemma udp_ok_thread_recvs:
  assumes "udp_ok tm s" "un_pc s = Creates True True" "un_rx s = None" "un_in s = xs @ d # ys"
  shows "udp_ok tm (s\<lparr>un_client := (un_client s)\<lparr>uc_heap := uc_heap (un_client s) + 1\<rparr>, un_in := xs @ ys,
      un_rx := Some (recvfrom (msg_header + packet_size) alen [] (Datagram src d))\<rparr>)" (is "udp_ok tm ?s")
proof -
  obtain n where n: "d = sent_msg n" using udp_ok_recv [OF assms(1), of d] assms(4) by auto
  have "held ?s \<subseteq> {d}" by (simp add: held_def recvfrom_sent n)
  then have "set (un_out ?s) \<union> set (un_in ?s) \<union> held ?s \<subseteq> set (un_out s) \<union> set (un_in s) \<union> held s"
    using assms(4) by auto
  moreover have "mode_ok tm ?s" using udp_ok_threads [OF assms(1,2)] assms(2) by (simp add: mode_ok_def)
  ultimately show ?thesis by (intro udp_ok_quiet [OF assms(1)]) simp_all
qed

lemma udp_ok_pc:
  "udp_ok tm s \<Longrightarrow> un_pc s = Creates a b \<Longrightarrow> pc \<noteq> LoopSend \<Longrightarrow> pc \<noteq> LoopRecv \<Longrightarrow> udp_ok tm (s\<lparr>un_pc := pc\<rparr>)"
  by (rule udp_ok_quiet [of tm s]) (auto simp: held_def mode_ok_def dest: udp_ok_threads)

lemma udp_ok_net:
  assumes "udp_ok tm s" "un_pc s' = un_pc s" "un_client s' = un_client s" "un_tx s' = un_tx s" "un_rx s' = un_rx s"
    and "set (un_out s') \<union> set (un_in s') \<subseteq> set (un_out s) \<union> set (un_in s)"
  shows "udp_ok tm s'"
  using udp_ok_mode [OF assms(1)] assms(2-6)
  by (intro udp_ok_quiet [OF assms(1)]) (auto simp: held_def mode_ok_def)

lemma udp_ok_step:
  assumes "udp_step flt alen_ok me s s'" "udp_ok tm s"
  shows "udp_ok tm s'"
  using assms
proof (induction rule: udp_step.induct)
  case (loop_send s rc rc' bytes c)
  then have m: "un_tx s = None" "\<not> tm" using udp_ok_loop [of tm s] by simp_all
  have "mode_ok tm (s\<lparr>un_pc := LoopRecv, un_client := c, un_out := un_out s @ [bytes]\<rparr>)"
    using udp_ok_mode [OF loop_send.prems] m by (simp add: mode_ok_def)
  then show ?case using loop_send m
    by (intro udp_ok_loop_send [OF loop_send.prems m(1)]) (auto simp: udp_ops)
next
  case (loop_send_fails s rc rc' bytes c)
  then have m: "un_tx s = None" "\<not> tm" using udp_ok_loop [of tm s] by simp_all
  let ?c = "udp_print (TxLine (uc_seq (un_client s))) ((un_client s)\<lparr>uc_heap := uc_heap (un_client s) + 1, uc_seq := uc_seq (un_client s) + 1\<rparr>)"
  have mo: "mode_ok tm (s\<lparr>un_pc := ClientEnds rc', un_client := x\<rparr>)" for x
    using udp_ok_mode [OF loop_send_fails.prems] m by (simp add: mode_ok_def)
  have s1: "udp_ok tm (s\<lparr>un_pc := ClientEnds rc', un_client := ?c\<rparr>)"
    using mo by (intro udp_ok_loop_send [OF loop_send_fails.prems m(1)]) (use m in auto)
  show ?case
    by (rule udp_ok_line [OF s1, of "UdpErr ''sender failed''"])
      (use loop_send_fails mo in \<open>auto simp: udp_ops held_def\<close>)
next
  case (loop_recv s xs d ys alen src rc c)
  then show ?case by (intro udp_ok_loop_recv)
next
  case (loop_recv_fails s e alen rc c)
  then have "mode_ok tm (s\<lparr>un_pc := ClientEnds rc, un_client := x\<rparr>)" for x
    using udp_ok_mode [OF loop_recv_fails.prems] by (auto simp: mode_ok_def)
  then show ?case using loop_recv_fails
    by (intro udp_ok_two_lines [OF loop_recv_fails.prems, of "UdpErr ''recver recvfrom failed''" _ "''recver failed''"])
      (auto simp: udp_ops held_def)
next
  case (create_fails s snd_up)
  let ?m = "if snd_up then ''thread create for recver failed'' else ''thread create for sender failed''"
  show ?case using udp_ok_mode [OF create_fails.prems] create_fails
    by (intro udp_ok_line [OF create_fails.prems, of "UdpErr ?m"]) (auto simp: mode_ok_def held_def)
next
  case (thread_sends s rcv_up rc n bytes c)
  then have tm: "tm" using udp_ok_threads [of tm s] by blast
  have "udp_ok True (s\<lparr>un_client := c, un_out := un_out s @ [bytes], un_tx := Some (rc, n)\<rparr>)"
    by (rule udp_ok_send [of s]) (use thread_sends tm in \<open>auto simp: sender_sends_eq mode_ok_def\<close>)
  then show ?case using tm by simp
next
  case (thread_send_fails s rcv_up rc n bytes c)
  then have tm: "tm" using udp_ok_threads [of tm s] by blast
  have "udp_ok True (s\<lparr>un_client := c, un_tx := Some (rc, n)\<rparr>)"
    by (rule udp_ok_send [of s]) (use thread_send_fails tm in \<open>auto simp: sender_sends_eq mode_ok_def\<close>)
  then show ?case using tm by simp
next
  case (thread_prints s rcv_up rc n)
  then show ?case by (intro udp_ok_thread_prints)
next
  case (thread_recvs s xs d ys alen src)
  then show ?case by (intro udp_ok_thread_recvs)
next
  case (thread_recv_fails s e alen)
  then show ?case using udp_ok_threads [OF thread_recv_fails.prems]
    by (intro udp_ok_quiet [OF thread_recv_fails.prems]) (auto simp: mode_ok_def held_def recvfrom_sent)
next
  case (thread_handles s res)
  then show ?case by (intro udp_ok_thread_handles)
next
  case (echoes s xs d ys alen addr snd_rc rc reply lines)
  have "b = d" if "reply = Some (dst, b)" for dst b
  proof -
    obtain n where "d = sent_msg n" using udp_ok_recv [OF echoes.prems, of d] echoes.hyps(2) by auto
    then show ?thesis using echoes.hyps(6) that by (auto dest!: echoer_reply)
  qed
  then show ?case using echoes.hyps(2)
    by (intro udp_ok_net [OF echoes.prems]) (auto split: option.splits if_splits)
next
  case (echo_recv_fails s e alen addr snd_rc rc reply lines)
  show ?case by (rule udp_ok_net [OF echo_recv_fails.prems]) simp_all
next
  case (loses_out s xs d ys)
  show ?case by (rule udp_ok_net [OF loses_out.prems]) (use loses_out in auto)
next
  case (loses_in s xs d ys)
  show ?case by (rule udp_ok_net [OF loses_in.prems]) (use loses_in in auto)
next
  case (copies_out d s)
  show ?case by (rule udp_ok_net [OF copies_out.prems]) (use copies_out in auto)
next
  case (copies_in d s)
  show ?case by (rule udp_ok_net [OF copies_in.prems]) (use copies_in in auto)
qed (rule udp_ok_pc, assumption, assumption, simp_all)+

lemma udp_ok_run: "udp_runs flt alen_ok me s s' \<Longrightarrow> udp_ok tm s \<Longrightarrow> udp_ok tm s'"
  by (induction rule: rtranclp_induct) (auto intro: udp_ok_step)

lemma udp_ok_init: "udp_ok tm (udp_init tm)"
  by (simp add: udp_init_def udp_ok_def udp_data_def udp_log_def mode_ok_def held_def)

text \<open>
  Property C17: whatever the network loses, copies or reorders, and whichever calls fail. The client in
  its loop prints that it received a number only after it printed that it sent this number. In the
  threaded client the line of the receiver may come first, but then the next line of the sender, if it
  is not just about to print it, is the one for this number. And neither ever prints that a
  sequence number is bad.
\<close>

theorem echo_answers_what_was_sent:
  assumes "udp_runs flt alen_ok me (udp_init tm) s"
  shows "(\<not> tm \<longrightarrow> answered (uc_log (un_client s))) \<and>
    answered_late (uc_log (un_client s)) (pending_tx s) \<and> (\<forall>n. BadSeqLine n \<notin> set (uc_log (un_client s)))"
  using udp_ok_run [OF assms udp_ok_init] by (auto simp: udp_ok_def udp_log_def)

section \<open>A network without faults\<close>

text \<open>
  The abstract client: after \<open>k\<close> whole rounds it is about to send message \<open>k\<close>, or has message \<open>k\<close>
  on its way out or on its way back. Each round leaves two messages allocated.
\<close>

datatype stage = Sending | Outbound | Inbound

definition rounds :: "nat \<Rightarrow> udp_line list" where
  "rounds k = concat (map (\<lambda>i. [TxLine (of_nat i), RxLine (of_nat i)]) [0..<k])"

definition lock_state :: "nat \<Rightarrow> stage \<Rightarrow> udp_net" where
  "lock_state k g =
     (let n = (of_nat k :: u32)
      in if g = Sending
         then \<lparr>un_pc = LoopSend, un_client = \<lparr>uc_seq = n, uc_heap = 2 * k, uc_log = rounds k\<rparr>,
               un_server = True, un_out = [], un_in = [], un_tx = None, un_rx = None\<rparr>
         else \<lparr>un_pc = LoopRecv, un_client = \<lparr>uc_seq = n + 1, uc_heap = 2 * k + 1, uc_log = rounds k @ [TxLine n]\<rparr>,
               un_server = True, un_out = (if g = Outbound then [sent_msg n] else []),
               un_in = (if g = Inbound then [sent_msg n] else []), un_tx = None, un_rx = None\<rparr>)"

fun lock_next :: "nat \<times> stage \<Rightarrow> nat \<times> stage" where
  "lock_next (k, Sending) = (k, Outbound)"
| "lock_next (k, Outbound) = (k, Inbound)"
| "lock_next (k, Inbound) = (Suc k, Sending)"

lemma rounds_Suc: "rounds (Suc k) = rounds k @ [TxLine (of_nat k), RxLine (of_nat k)]"
  by (simp add: rounds_def)

lemma lock_init: "lock_state 0 Sending = udp_init False"
  by (simp add: lock_state_def udp_init_def rounds_def)

abbreviation full_len :: "int \<Rightarrow> bool" where
  "full_len n \<equiv> 16 \<le> n"

lemma lock_step_next:
  assumes "udp_step {} full_len me (lock_state k g) s" "length me = 16"
  shows "s = (case lock_next (k, g) of (k', g') \<Rightarrow> lock_state k' g')"
  using assms
proof (cases g)
  case Sending
  with assms show ?thesis
    by (cases rule: udp_step.cases) (auto simp: lock_state_def udp_ops udp_print_def Let_def)
next
  case Outbound
  with assms show ?thesis
    by (cases rule: udp_step.cases) (auto simp: lock_state_def echoer_to_client Let_def Cons_eq_append_conv)
next
  case Inbound
  with assms show ?thesis
    by (cases rule: udp_step.cases)
      (auto simp: lock_state_def udp_ops udp_print_def rounds_Suc Cons_eq_append_conv add.commute)
qed

lemma lock_next_step:
  assumes "length me = 16"
  shows "udp_step {} full_len me (lock_state k g) (case lock_next (k, g) of (k', g') \<Rightarrow> lock_state k' g')"
proof (cases g)
  case Sending
  then show ?thesis
    using udp_step.loop_send [of "lock_state k g" 4104 4104 _ _ "{}" full_len me, OF _ _ sender_eq]
    by (simp add: lock_state_def udp_print_def Let_def)
next
  case Outbound
  then show ?thesis
    using udp_step.echoes [of "lock_state k g" "[]" _ "[]" full_len 16 me 4104 "{}" me, OF _ _ _ _ _ echoer_to_client] assms
    by (simp add: lock_state_def Let_def)
next
  case Inbound
  have "recver 16 (Datagram [] (sent_msg n)) c = (0, udp_print (RxLine n) (c\<lparr>uc_heap := uc_heap c + 1\<rparr>))" for n c
    by (simp add: recver_sent)
  from udp_step.loop_recv [of "lock_state k g" "[]" _ "[]" full_len 16, OF _ _ _ this] Inbound show ?thesis
    by (simp add: lock_state_def udp_print_def rounds_Suc Let_def add.commute)
qed

lemma lock_reach:
  assumes "length me = 16"
  shows "udp_runs {} full_len me (udp_init False) (lock_state k g)"
proof -
  have s: "udp_runs {} full_len me (udp_init False) (lock_state k Sending)" for k
  proof (induction k)
    case 0
    show ?case by (simp add: lock_init)
  next
    case (Suc k)
    then show ?case
      using lock_next_step [OF assms, of k Sending] lock_next_step [OF assms, of k Outbound]
        lock_next_step [OF assms, of k Inbound]
      by simp
  qed
  then show ?thesis
    using lock_next_step [OF assms, of k Sending] lock_next_step [OF assms, of k Outbound] s [of k]
    by (cases g) (simp, meson rtranclp.rtrancl_into_rtrancl)+
qed

text \<open>
  Property C16: on a network without faults, and when the address lengths, which the code leaves
  without a value, happen to be at least 16 (\<open>full_len\<close>), the client in its loop and the server together are exactly the abstract client: a state
  is reached if and only if for some \<open>k\<close> the client has printed \<open>k\<close> whole rounds \<^verbatim>\<open>Tx: i\<close>, \<^verbatim>\<open>Rx i\<close> in
  order and is sending message \<open>k\<close>, or waits for it while it is on its way out or back. So every
  number of rounds is reached, and each round leaves two messages that are never freed.
\<close>

theorem echo_lockstep:
  assumes "length me = 16"
  shows "udp_runs {} full_len me (udp_init False) s \<longleftrightarrow> (\<exists>k g. s = lock_state k g)"
proof
  assume "udp_runs {} full_len me (udp_init False) s"
  then show "\<exists>k g. s = lock_state k g"
  proof (induction rule: rtranclp_induct)
    case base
    show ?case by (metis lock_init)
  next
    case (step s s')
    then obtain k g where "s = lock_state k g" by blast
    with step.hyps(2) show ?case using lock_step_next [OF _ assms] by (metis case_prod_unfold)
  qed
qed (auto intro: lock_reach [OF assms])

theorem echo_lockstep_witness:
  "udp_runs {} full_len (replicate 16 0) (udp_init False) (lock_state 2 Inbound) \<and>
   uc_log (un_client (lock_state 2 Inbound)) = [TxLine 0, RxLine 0, TxLine 1, RxLine 1, TxLine 2]"
proof
  show "udp_runs {} full_len (replicate 16 0) (udp_init False) (lock_state 2 Inbound)"
    using echo_lockstep [of "replicate 16 0" "lock_state 2 Inbound"] by auto
  show "uc_log (un_client (lock_state 2 Inbound)) = [TxLine 0, RxLine 0, TxLine 1, RxLine 1, TxLine 2]"
    by (simp add: lock_state_def rounds_def numeral_2_eq_2)
qed

section \<open>Faults\<close>

lemma udp_step_mono: "udp_step flt alen_ok me s s' \<Longrightarrow> flt \<subseteq> flt' \<Longrightarrow> udp_step flt' alen_ok me s s'"
  by (induction rule: udp_step.induct) (blast intro: udp_step.intros)+

lemma udp_runs_mono: "udp_runs flt alen_ok me s s' \<Longrightarrow> flt \<subseteq> flt' \<Longrightarrow> udp_runs flt' alen_ok me s s'"
  by (induction rule: rtranclp_induct) (auto intro: udp_step_mono rtranclp.rtrancl_into_rtrancl)

text \<open>A run of the threaded client in which the answer is printed before the line of the sender.\<close>

definition early_state :: udp_net where
  "early_state = \<lparr>un_pc = Creates True True, un_client = \<lparr>uc_seq = 1, uc_heap = 2, uc_log = [RxLine 0]\<rparr>,
     un_server = True, un_out = [], un_in = [], un_tx = Some (4104, 0), un_rx = None\<rparr>"

lemma early_reach:
  assumes "length me = 16"
  shows "udp_runs {} full_len me (udp_init True) early_state"
proof -
  let ?S = "udp_step {} full_len me"
  define s1 where "s1 = (udp_init True)\<lparr>un_pc := Creates True False\<rparr>"
  define s2 where "s2 = s1\<lparr>un_pc := Creates True True\<rparr>"
  define s3 where "s3 = s2\<lparr>un_client := \<lparr>uc_seq = 1, uc_heap = 1, uc_log = []\<rparr>, un_out := [sent_msg 0], un_tx := Some (4104, 0)\<rparr>"
  define s4 where "s4 = s3\<lparr>un_out := [], un_in := [sent_msg 0]\<rparr>"
  define s5 where "s5 = s4\<lparr>un_client := \<lparr>uc_seq = 1, uc_heap = 2, uc_log = []\<rparr>, un_in := [], un_rx := Some (Inr (sent_msg 0, []))\<rparr>"
  have "?S (udp_init True) s1" using udp_step.create_sender [of "udp_init True"] by (simp add: s1_def udp_init_def)
  moreover have "?S s1 s2" using udp_step.create_recver [of s1] by (simp add: s2_def s1_def)
  moreover have "?S s2 s3"
    using udp_step.thread_sends [of s2 True 4104, OF _ _ _ sender_sends_eq] by (simp add: s3_def s2_def s1_def udp_init_def)
  moreover have "?S s3 s4"
    using udp_step.echoes [of s3 "[]" _ "[]" full_len 16 me 4104 "{}" me, OF _ _ _ _ _ echoer_to_client] assms
    by (simp add: s4_def s3_def s2_def s1_def udp_init_def)
  moreover have "?S s4 s5"
    using udp_step.thread_recvs [of s4 "[]" "sent_msg 0" "[]" full_len 16 "{}" me "[]"]
    by (simp add: s5_def s4_def s3_def s2_def s1_def udp_init_def recvfrom_sent numeral_2_eq_2)
  moreover have "?S s5 early_state"
    using udp_step.thread_handles [of s5 "Inr (sent_msg 0, [])" "{}" full_len me]
    by (simp add: early_state_def s5_def s4_def s3_def s2_def s1_def udp_init_def recver_thread_def recver_rest_sent udp_print_def)
  ultimately show ?thesis by (meson converse_rtranclp_into_rtranclp rtranclp.rtrancl_refl)
qed

theorem echo_answers_what_was_sent_witness:
  "udp_runs {} full_len (replicate 16 0) (udp_init True) early_state \<and>
   answered_late (uc_log (un_client early_state)) (pending_tx early_state) \<and> \<not> answered (uc_log (un_client early_state))"
proof -
  have r: "udp_runs {} full_len (replicate 16 0) (udp_init True) early_state" by (rule early_reach) simp
  from echo_answers_what_was_sent [OF r] r show ?thesis by (simp add: early_state_def answered_def)
qed

text \<open>A client that waits while nothing is under way waits for ever, unless the call itself fails.\<close>

lemma waiting_is_stuck:
  assumes "un_pc s = LoopRecv" "un_out s = []" "un_in s = []" "RecvErrs \<notin> flt"
  shows "\<not> udp_step flt alen_ok me s s'"
  using assms by (auto elim: udp_step.cases)

text \<open>
  Property C40: one lost datagram ends the exchange: after any number of rounds there is a run in
  which the network loses a single datagram and the client waits for it for ever, having printed
  the last \<^verbatim>\<open>Tx\<close> without its \<^verbatim>\<open>Rx\<close>; there is no time limit and no second attempt.
\<close>

theorem lost_datagram_hangs:
  assumes "length me = 16"
  shows "\<exists>s. udp_runs {Loses} full_len me (udp_init False) s \<and>
    uc_log (un_client s) = rounds k @ [TxLine (of_nat k)] \<and> un_pc s = LoopRecv \<and>
    (\<forall>s'. \<not> udp_step {Loses} full_len me s s')"
proof -
  have "udp_runs {Loses} full_len me (udp_init False) (lock_state k Outbound)"
    using udp_runs_mono [OF lock_reach [OF assms]] by simp
  moreover have "udp_step {Loses} full_len me (lock_state k Outbound) ((lock_state k Outbound)\<lparr>un_out := []\<rparr>)"
    using udp_step.loses_out [of "{Loses}" "lock_state k Outbound" "[]" _ "[]" full_len me] by (simp add: lock_state_def Let_def)
  ultimately have "udp_runs {Loses} full_len me (udp_init False) ((lock_state k Outbound)\<lparr>un_out := []\<rparr>)" by simp
  then show ?thesis
    by (intro exI [of _ "(lock_state k Outbound)\<lparr>un_out := []\<rparr>"]) (auto simp: lock_state_def Let_def waiting_is_stuck)
qed

theorem lost_datagram_hangs_witness:
  "\<exists>s. udp_runs {Loses} full_len (replicate 16 0) (udp_init False) s \<and>
    uc_log (un_client s) = [TxLine 0, RxLine 0, TxLine 1] \<and> un_pc s = LoopRecv \<and>
    (\<nexists>s'. udp_step {Loses} full_len (replicate 16 0) s s')"
  using lost_datagram_hangs [of "replicate 16 0" 1] by (auto simp: rounds_def)

text \<open>
  A copied datagram: in the second round the client takes the copy of the first message for the
  answer. Nothing tells: the result of the comparison is not returned.
\<close>

lemma copied_datagram_unnoticed:
  assumes "length me = 16"
  shows "\<exists>s. udp_runs {Copies} full_len me (udp_init False) s \<and>
    uc_log (un_client s) = [TxLine 0, RxLine 0, TxLine 1, RxLine 0]"
proof -
  let ?S = "udp_step {Copies} full_len me"
  define s where "s = lock_state 0 Inbound"
  define c where "c = \<lparr>uc_seq = 1, uc_heap = 2, uc_log = [TxLine (0 :: u32), RxLine 0]\<rparr>"
  define s1 where "s1 = s\<lparr>un_in := [sent_msg 0, sent_msg 0]\<rparr>"
  define s2 where "s2 = s1\<lparr>un_pc := LoopSend, un_client := c, un_in := [sent_msg 0]\<rparr>"
  define s3 where "s3 = s2\<lparr>un_pc := LoopRecv, un_client := \<lparr>uc_seq = 2, uc_heap = 3,
    uc_log = [TxLine 0, RxLine 0, TxLine 1]\<rparr>, un_out := [sent_msg 1]\<rparr>"
  define s4 where "s4 = s3\<lparr>un_pc := LoopSend, un_client := \<lparr>uc_seq = 2, uc_heap = 4,
    uc_log = [TxLine 0, RxLine 0, TxLine 1, RxLine 0]\<rparr>, un_in := []\<rparr>"
  have r: "recver 16 (Datagram [] (sent_msg n)) c = (0, udp_print (RxLine n) (c\<lparr>uc_heap := uc_heap c + 1\<rparr>))" for n c
    by (simp add: recver_sent)
  have "udp_runs {Copies} full_len me (udp_init False) s"
    using udp_runs_mono [OF lock_reach [OF assms]] by (simp add: s_def)
  also have "?S s s1"
    using udp_step.copies_in [of "{Copies}" "sent_msg 0" s full_len me] by (simp add: s_def s1_def lock_state_def)
  also have "?S s1 s2"
    using udp_step.loop_recv [of s1 "[]" _ "[sent_msg 0]" full_len 16, OF _ _ _ r]
    by (simp add: s_def s1_def s2_def c_def lock_state_def rounds_def udp_print_def numeral_2_eq_2)
  also have "?S s2 s3"
    using udp_step.loop_send [of s2 4104 4104 _ _ "{Copies}" full_len me, OF _ _ sender_eq]
    by (simp add: s_def s1_def s2_def s3_def c_def lock_state_def udp_print_def numeral_eq_Suc)
  also have "?S s3 s4"
    using udp_step.loop_recv [of s3 "[]" _ "[]" full_len 16, OF _ _ _ r]
    by (simp add: s_def s1_def s2_def s3_def s4_def c_def lock_state_def udp_print_def numeral_eq_Suc)
  finally have "udp_runs {Copies} full_len me (udp_init False) s4" .
  then show ?thesis by (intro exI [of _ s4]) (simp add: s4_def)
qed

text \<open>
  The threaded client: the main program returns when both threads exist, which ends the process,
  at any moment and possibly before either thread has run.
\<close>

lemma ended_client_silent:
  "udp_step flt alen_ok me s s' \<Longrightarrow> un_pc s = ClientEnds rc \<Longrightarrow> un_pc s' = ClientEnds rc \<and> un_client s' = un_client s"
  by (induction rule: udp_step.induct) auto

lemma threaded_client_silent:
  "udp_runs {} alen_ok me (udp_init True) ((udp_init True)\<lparr>un_pc := ClientEnds 0\<rparr>)"
proof -
  let ?s = "\<lambda>p. (udp_init True)\<lparr>un_pc := p\<rparr>"
  have "udp_step {} alen_ok me (?s (Creates False False)) (?s (Creates True False))"
    using udp_step.create_sender [of "?s (Creates False False)"] by simp
  moreover have "udp_step {} alen_ok me (?s (Creates True False)) (?s (Creates True True))"
    using udp_step.create_recver [of "?s (Creates True False)"] by simp
  moreover have "udp_step {} alen_ok me (?s (Creates True True)) (?s (ClientEnds 0))"
    using udp_step.main_returns [of "?s (Creates True True)"] by simp
  ultimately have "udp_runs {} alen_ok me (?s (Creates False False)) (?s (ClientEnds 0))"
    by (meson converse_rtranclp_into_rtranclp rtranclp.rtrancl_refl)
  then show ?thesis by (simp add: udp_init_def)
qed

text \<open>The length of the address buffer has no value: with a negative one the call fails, with 0 the answer goes astray.\<close>

lemma echoer_uninitialised:
  "alen < 0 \<Longrightarrow> echoer alen addr (Datagram src d) snd_rc = (- 1, None, [EchoerFd, UdpErr ''echoer recvfrom failed''])"
  "0 \<le> snd_rc \<Longrightarrow> echoer 0 addr (Datagram src d) snd_rc = (snd_rc, Some (addr, take (msg_header + packet_size) d), [])"
  by (simp_all add: echoer_def recvfrom_def Let_def)

text \<open>A datagram that is too long passes for a message, one that is too short does not.\<close>

lemma recver_length:
  assumes "0 \<le> alen"
  shows "fst (recver alen (Datagram src d) c) = (if length d < msg_header + packet_size then - EMSGSIZE else 0)"
  using assms by (simp add: recver_def recver_rest_def recvfrom_def Let_def)

text \<open>The mode is recognised by its prefix, and a client needs an address.\<close>

lemma udp_main_modes:
  "udp_main True aton True ((''echo_server'' @ r) # rest) = UdpServer"
  "udp_main True aton b ((''echo_client'' @ r) # ip # rest) = (case aton ip of None \<Rightarrow> UdpBadIp ip | Some a \<Rightarrow> UdpClient False a)"
  "udp_main True aton b ((''echo_thread_client'' @ r) # ip # rest) = (case aton ip of None \<Rightarrow> UdpBadIp ip | Some a \<Rightarrow> UdpClient True a)"
  "udp_result (udp_main True aton b [''echo_client'' @ r]) = Some 0"
  by (simp_all add: udp_main_def Let_def strncmp_eq_prefix udp_result_def split: option.splits)

end
