(* ===== verification/Reaping.thy ===== *)
theory Reaping
  imports Prelude
begin

text \<open>
  Waiting for children without blocking, as the handlers of \<^verbatim>\<open>SIGCHLD\<close> in \<^verbatim>\<open>src/cpu_hogd.c\<close>,
  \<^verbatim>\<open>src/cpu_hogd_v0.c\<close> and \<^verbatim>\<open>src/test_fork.c\<close> do: a call takes one child that has exited away and returns
  its number, or returns 0 or -1; the handler repeats the call while it returns a number. A child
  is any record with a test for having exited.
\<close>

fun waitpid_nohang :: "('k \<Rightarrow> bool) \<Rightarrow> 'k list \<Rightarrow> ('k \<times> 'k list) option" where
  "waitpid_nohang gone [] = None"
| "waitpid_nohang gone (k # ks) =
     (if gone k then Some (k, ks) else map_option (\<lambda>(j, ks'). (j, k # ks')) (waitpid_nohang gone ks))"

lemma waitpid_shrinks: "waitpid_nohang gone ks = Some (k, ks') \<Longrightarrow> length ks' < length ks"
  by (induction ks arbitrary: ks') (auto split: if_splits)

function reap_loop :: "('k \<Rightarrow> bool) \<Rightarrow> 'k list \<Rightarrow> 'k list \<times> 'k list" where
  "reap_loop gone ks =
     (case waitpid_nohang gone ks of
        None \<Rightarrow> ([], ks)
      | Some (k, ks') \<Rightarrow> (let (js, rest) = reap_loop gone ks' in (k # js, rest)))"
  by pat_completeness auto
termination by (relation "measure (\<lambda>(gone, ks). length ks)") (auto dest: waitpid_shrinks)

declare reap_loop.simps [simp del]

lemma waitpid_None: "waitpid_nohang gone ks = None \<Longrightarrow> filter gone ks = [] \<and> filter (\<lambda>k. \<not> gone k) ks = ks"
  by (induction ks) (auto split: if_splits)

lemma waitpid_Some:
  "waitpid_nohang gone ks = Some (k, ks') \<Longrightarrow>
     filter gone ks = k # filter gone ks' \<and> filter (\<lambda>k. \<not> gone k) ks' = filter (\<lambda>k. \<not> gone k) ks"
  by (induction ks arbitrary: ks') (auto split: if_splits)

text \<open>The loop returns every child that has exited, in order, and keeps the others.\<close>

lemma reap_loop_all: "reap_loop gone ks = (filter gone ks, filter (\<lambda>k. \<not> gone k) ks)"
proof (induction gone ks rule: reap_loop.induct)
  case (1 gone ks)
  show ?case
  proof (cases "waitpid_nohang gone ks")
    case None
    then have "reap_loop gone ks = ([], ks)" by (subst reap_loop.simps) simp
    then show ?thesis using waitpid_None [OF None] by simp
  next
    case (Some p)
    obtain k ks' where p: "p = (k, ks')" by (cases p)
    then have "reap_loop gone ks = (k # filter gone ks', filter (\<lambda>k. \<not> gone k) ks')"
      using Some 1 [OF Some [unfolded p] refl] by (subst reap_loop.simps) simp
    then show ?thesis using waitpid_Some [OF Some [unfolded p]] by simp
  qed
qed

text \<open>
  A handler of \<^verbatim>\<open>SIGCHLD\<close> with this loop, on any state that has children and a pending signal. The
  signal is taken when the handler starts; children that exit later announce themselves again.
\<close>

locale reaper =
  fixes kids :: "'s \<Rightarrow> 'k list" and gone :: "'k \<Rightarrow> bool" and pending :: "'s \<Rightarrow> bool" and handler :: "'s \<Rightarrow> 's"
  assumes kids_handler: "kids (handler s) = snd (reap_loop gone (kids s))"
    and pending_handler: "\<not> pending (handler s)"
begin

lemma reaps: "kids (handler s) = filter (\<lambda>k. \<not> gone k) (kids s)"
  by (simp add: kids_handler reap_loop_all)

text \<open>What the handler keeps was there before and has not exited.\<close>

lemma announced_handler: "k \<in> set (kids (handler s)) \<Longrightarrow> k \<in> set (kids s) \<and> \<not> gone k"
  by (simp add: reaps)

lemma handler_twice: "kids (handler (handler s)) = kids (handler s)"
  by (simp add: reaps)

end

end
