(* ===== verification/Hog_Processes.thy ===== *)
theory Hog_Processes
  imports Cpu_Hogd Reaping
begin

text \<open>
  The processes of the hog daemon, \<^verbatim>\<open>src/cpu_hogd.c\<close> and the daemon of \<^verbatim>\<open>src/cpu_hogd_v0.c\<close>: the
  daemon that reads commands or jams, the children it forks, their alarms and the signal handlers,
  over the turns of the loop in \<open>Cpu_Hogd\<close>. Time is counted in seconds; a signal is handled before
  the next second.
\<close>

section \<open>Processes\<close>

text \<open>
  A child: the processor it is bound to, if any, when it was forked and with which \<^verbatim>\<open>secs\<close>, the seconds left to its alarm
  (none when no alarm is set), and whether it has exited and was not waited for.
\<close>

record hogger =
  hg_cpu :: "nat option"
  hg_start :: nat
  hg_secs :: u32
  hg_alarm :: "nat option"
  hg_zombie :: bool

text \<open>\<open>alarm(secs)\<close> takes an unsigned number; 0 sets no alarm.\<close>

definition alarm_arg :: "u32 \<Rightarrow> nat option" where
  "alarm_arg secs = (if secs = 0 then None else Some (unat secs))"

datatype hogd_life = Waits hogd | Spins hogd | Over hogd

text \<open>
  The daemon, the processor it is bound to, its flag and alarm, a pending \<^verbatim>\<open>SIGCHLD\<close>, the children
  and the time.
\<close>

record hogs =
  hs_life :: hogd_life
  hs_cpu :: "nat option"
  hs_stop :: bool
  hs_alarm :: "nat option"
  hs_chld :: bool
  hs_kids :: "hogger list"
  hs_time :: nat

definition hogs_init :: "hogd \<Rightarrow> hogs" where
  "hogs_init st = \<lparr>hs_life = Waits st, hs_cpu = None, hs_stop = False, hs_alarm = None, hs_chld = False,
     hs_kids = [], hs_time = 0\<rparr>"

section \<open>Handlers\<close>

text \<open>The handler of \<^verbatim>\<open>SIGCHLD\<close> waits for every child that has exited.\<close>

definition sig_chld_defunct_reap :: "hogs \<Rightarrow> hogs" where
  "sig_chld_defunct_reap s = s\<lparr>hs_chld := False, hs_kids := snd (reap_loop hg_zombie (hs_kids s))\<rparr>"

interpretation hd: reaper hs_kids hg_zombie hs_chld sig_chld_defunct_reap
  by unfold_locales (simp_all add: sig_chld_defunct_reap_def)

definition sig_alrm_h_cpuhogd :: "hogs \<Rightarrow> hogs" where
  "sig_alrm_h_cpuhogd s = s\<lparr>hs_alarm := None, hs_stop := True\<rparr>"

definition hogd_state :: "hogd_life \<Rightarrow> hogd" where
  "hogd_state l = (case l of Waits st \<Rightarrow> st | Spins st \<Rightarrow> st | Over st \<Rightarrow> st)"

text \<open>The end of the daemon: the system waits for its children from then on. \<^verbatim>\<open>SIGTERM\<close> leaves the pipe.\<close>

definition hogd_exits :: "hogd \<Rightarrow> hogs \<Rightarrow> hogs" where
  "hogd_exits st s = s\<lparr>hs_life := Over st, hs_chld := False, hs_alarm := None,
     hs_kids := filter (\<lambda>k. \<not> hg_zombie k) (hs_kids s)\<rparr>"

definition sig_term_h :: "hogs \<Rightarrow> hogs" where
  "sig_term_h s = hogd_exits (hogd_state (hs_life s)) s"

definition hogd_up :: "hogs \<Rightarrow> bool" where
  "hogd_up s = (case hs_life s of Over _ \<Rightarrow> False | _ \<Rightarrow> True)"

text \<open>
  A child exits, in its handler of \<^verbatim>\<open>SIGALRM\<close> or the one of \<^verbatim>\<open>SIGTERM\<close> it inherits: it stays as an exited
  child of the daemon, which gets \<^verbatim>\<open>SIGCHLD\<close>; without the daemon it is gone at once.
\<close>

definition hogger_exits :: "nat \<Rightarrow> hogs \<Rightarrow> hogs" where
  "hogger_exits i s =
     (if hogd_up s
      then s\<lparr>hs_chld := True, hs_kids := (hs_kids s)[i := (hs_kids s ! i)\<lparr>hg_alarm := None, hg_zombie := True\<rparr>]\<rparr>
      else s\<lparr>hs_kids := take i (hs_kids s) @ drop (Suc i) (hs_kids s)\<rparr>)"

definition sig_alrm_h_cpuhogger :: "nat \<Rightarrow> hogs \<Rightarrow> hogs" where
  "sig_alrm_h_cpuhogger i s = hogger_exits i s"

section \<open>Actions of a command\<close>

text \<open>
  A jam sets its alarm and spins. When \<^verbatim>\<open>sched_setaffinity\<close> succeeds the daemon itself is bound to the
  processor, and it stays where it is otherwise; a child that is forked inherits the processor.
\<close>

fun hog_act :: "hogd \<Rightarrow> hog_action \<Rightarrow> hogs \<Rightarrow> hogs" where
  "hog_act st (Jams secs) s = s\<lparr>hs_life := Spins st, hs_alarm := alarm_arg secs\<rparr>"
| "hog_act st (Binds cpu ok) s = (if ok then s\<lparr>hs_cpu := Some cpu\<rparr> else s)"
| "hog_act st (Forks secs ok) s =
     (if ok then
        s\<lparr>hs_kids := hs_kids s @ [\<lparr>hg_cpu = hs_cpu s, hg_start = hs_time s, hg_secs = secs,
          hg_alarm = alarm_arg secs, hg_zombie = False\<rparr>]\<rparr>
      else s)"

definition hog_turn :: "hog_sys \<Rightarrow> hogd_version \<Rightarrow> pipe_input \<Rightarrow> hogd \<Rightarrow> hogs \<Rightarrow> hogs option" where
  "hog_turn sys v input st s =
     (case hogd_step sys v input st of
        Goes st' acts \<Rightarrow>
          Some (fold (hog_act st') acts
            (s\<lparr>hs_life := Waits st', hs_stop := (if hog_cmd st' = ''jam'' then False else hs_stop s)\<rparr>))
      | Quits st' \<Rightarrow> Some (hogd_exits st' s)
      | Overruns \<Rightarrow> None)"

section \<open>Steps\<close>

definition tick_alarm :: "nat option \<Rightarrow> nat option" where
  "tick_alarm a = map_option (\<lambda>n. n - 1) a"

definition alarms_due :: "hogs \<Rightarrow> bool" where
  "alarms_due s \<longleftrightarrow> hs_alarm s = Some 0 \<or> (\<exists>k\<in>set (hs_kids s). hg_alarm k = Some 0)"

definition hog_tick :: "hogs \<Rightarrow> hogs" where
  "hog_tick s = s\<lparr>hs_time := hs_time s + 1, hs_alarm := tick_alarm (hs_alarm s),
     hs_kids := map (\<lambda>k. k\<lparr>hg_alarm := tick_alarm (hg_alarm k)\<rparr>) (hs_kids s)\<rparr>"

inductive hog_step :: "hogd_version \<Rightarrow> hogs \<Rightarrow> hogs \<Rightarrow> bool" for v where
  command: "hs_life s = Waits st \<Longrightarrow> hog_turn sys v input st s = Some s' \<Longrightarrow> hog_step v s s'"
| spin_ends: "hs_life s = Spins st \<Longrightarrow> hs_stop s \<Longrightarrow> hog_step v s (s\<lparr>hs_life := Waits st\<rparr>)"
| daemon_alarm: "hogd_up s \<Longrightarrow> hs_alarm s = Some 0 \<Longrightarrow> hog_step v s (sig_alrm_h_cpuhogd s)"
| daemon_chld: "hogd_up s \<Longrightarrow> hs_chld s \<Longrightarrow> hog_step v s (sig_chld_defunct_reap s)"
| daemon_term: "hogd_up s \<Longrightarrow> hog_step v s (sig_term_h s)"
| hogger_alarm: "i < length (hs_kids s) \<Longrightarrow> hg_alarm (hs_kids s ! i) = Some 0 \<Longrightarrow>
    hog_step v s (sig_alrm_h_cpuhogger i s)"
| hogger_term: "i < length (hs_kids s) \<Longrightarrow> \<not> hg_zombie (hs_kids s ! i) \<Longrightarrow>
    hog_step v s (hogger_exits i s)"
| second: "\<not> alarms_due s \<Longrightarrow> hog_step v s (hog_tick s)"

abbreviation hog_runs :: "hogd_version \<Rightarrow> hogs \<Rightarrow> hogs \<Rightarrow> bool" where
  "hog_runs v \<equiv> (hog_step v)\<^sup>*\<^sup>*"

section \<open>What a turn starts\<close>

definition hogs_only :: "hog_action list \<Rightarrow> bool" where
  "hogs_only acts \<longleftrightarrow> (\<forall>a\<in>set acts. (\<exists>cpu ok. a = Binds cpu ok) \<or> (\<exists>n ok. a = Forks n ok \<and> sint n \<le> 100 \<and> n \<noteq> -1))"

lemma hogs_only_simps [simp]:
  "hogs_only []" "hogs_only (Binds cpu ok # acts) \<longleftrightarrow> hogs_only acts"
  "hogs_only (Forks n ok # acts) \<longleftrightarrow> sint n \<le> 100 \<and> n \<noteq> -1 \<and> hogs_only acts" "\<not> hogs_only (Jams n # acts)"
  by (auto simp: hogs_only_def)

lemma hydra_loop_only:
  assumes "sint secs \<le> 100" "secs \<noteq> -1"
  shows "hogs_only (fst (hydra_loop sys secs msk cpu))"
  using assms
proof (induction sys secs msk cpu rule: hydra_loop.induct)
  case (1 sys secs msk cpu)
  then show ?case by (subst hydra_loop.simps) (auto simp: Let_def split: prod.splits)
qed

lemma hydra_acts: "hogd_hydra sys v args st = Goes st' acts \<Longrightarrow> hogs_only acts"
proof -
  assume g: "hogd_hydra sys v args st = Goes st' acts"
  have "hogs_only acts" if "hydra_loop sys secs msk 0 = (acts, m)" "sint secs \<le> 100" "secs \<noteq> -1" for secs msk m
    using hydra_loop_only [OF that(2,3), of sys msk 0] that(1) by simp
  then show ?thesis using g
    by (auto simp: hogd_hydra_def hogd_quit_def Let_def not_less split: if_splits prod.splits option.splits)
qed

lemma jam_acts:
  "hogd_jam args st = Goes st' acts \<Longrightarrow> hog_cmd st' = hog_cmd st \<and>
     (acts = [] \<or> (\<exists>n. acts = [Jams n] \<and> 0 < sint n \<and> sint n < 120))"
  by (auto simp: hogd_jam_def Let_def split: if_splits option.splits)

lemma dispatch_acts:
  assumes "hogd_dispatch sys v cmd args st = Goes st' acts"
  shows "hogs_only acts \<or> (\<exists>n. acts = [Jams n] \<and> 0 < sint n \<and> sint n < 120)"
  using assms by (auto simp: hogd_dispatch_def hogd_quit_def dest: hydra_acts jam_acts split: if_splits)

lemma hogd_step_acts:
  assumes "hogd_step sys v x st = Goes st' acts"
  shows "hogs_only acts \<or> (\<exists>n. acts = [Jams n] \<and> 0 < sint n \<and> sint n < 120)"
proof -
  obtain bytes where "x = Bytes bytes" using assms by (cases x) (auto simp: hogd_step_def)
  with assms show ?thesis by (auto simp: hogd_step_def Let_def split: if_splits dest!: dispatch_acts)
qed

section \<open>Invariant\<close>

text \<open>
  A child that runs has an alarm unless its \<^verbatim>\<open>secs\<close> is 0, and the alarm rings \<^verbatim>\<open>secs\<close> seconds (as an
  unsigned number) after the fork.
\<close>

definition hogger_ok :: "nat \<Rightarrow> hogger \<Rightarrow> bool" where
  "hogger_ok t k \<longleftrightarrow> sint (hg_secs k) \<le> 100 \<and> hg_secs k \<noteq> -1 \<and>
     (case hg_alarm k of
        None \<Rightarrow> hg_zombie k \<or> hg_secs k = 0
      | Some a \<Rightarrow> \<not> hg_zombie k \<and> hg_secs k \<noteq> 0 \<and> t + a = hg_start k + unat (hg_secs k))"

definition zombies_seen :: "hogs \<Rightarrow> bool" where
  "zombies_seen s \<longleftrightarrow> (\<forall>k\<in>set (hs_kids s). hg_zombie k \<longrightarrow> hogd_up s \<and> hs_chld s)"

definition spin_ok :: "hogs \<Rightarrow> bool" where
  "spin_ok s \<longleftrightarrow> (\<forall>st. hs_life s = Spins st \<longrightarrow> hs_stop s \<or> (\<exists>a<120. hs_alarm s = Some a))"

definition hogs_ok :: "hogs \<Rightarrow> bool" where
  "hogs_ok s \<longleftrightarrow> (\<forall>k\<in>set (hs_kids s). hogger_ok (hs_time s) k) \<and> zombies_seen s \<and> spin_ok s \<and>
     (hs_alarm s \<noteq> None \<longrightarrow> hogd_up s)"

lemma unat_sint: "0 \<le> sint (n :: u32) \<Longrightarrow> int (unat n) = sint n"
proof -
  assume n: "0 \<le> sint n"
  have "uint n = sint n mod 2 ^ 32" using uint_word_of_int [of "sint n", where 'a = 32] by (simp add: take_bit_eq_mod)
  then show ?thesis using n sint_u32_bounds [of n] by simp
qed

lemma alarm_unat: "0 < sint n \<Longrightarrow> sint n < 120 \<Longrightarrow> \<exists>a<120. alarm_arg n = Some a"
proof -
  assume n: "0 < sint n" "sint n < 120"
  then have "n \<noteq> 0" by auto
  moreover have "unat n < 120" using unat_sint [of n] n by linarith
  ultimately show ?thesis by (simp add: alarm_arg_def)
qed

lemma hogs_ok_bind: "hogs_ok s \<Longrightarrow> hogs_ok (hog_act st' (Binds cpu ok) s)"
  by (cases ok) (simp_all add: hogs_ok_def zombies_seen_def spin_ok_def hogd_up_def)

lemma hogs_ok_fork: "hogs_ok s \<Longrightarrow> sint n \<le> 100 \<Longrightarrow> n \<noteq> -1 \<Longrightarrow> hogs_ok (hog_act st' (Forks n ok) s)"
  by (cases ok) (auto simp: hogs_ok_def zombies_seen_def spin_ok_def hogd_up_def hogger_ok_def alarm_arg_def)

lemma hogs_ok_acts:
  assumes "hogs_only acts" "hogs_ok s" "hs_life s = Waits st"
  shows "hogs_ok (fold (hog_act st') acts s)"
  using assms
proof (induction acts arbitrary: s)
  case (Cons a acts)
  then have a: "(\<exists>cpu ok. a = Binds cpu ok) \<or> (\<exists>n ok. a = Forks n ok \<and> sint n \<le> 100 \<and> n \<noteq> -1)" by (auto simp: hogs_only_def)
  have "hogs_ok (hog_act st' a s)" using a hogs_ok_bind [OF Cons.prems(2)] hogs_ok_fork [OF Cons.prems(2)] by blast
  moreover have "hs_life (hog_act st' a s) = Waits st" using Cons.prems a by auto
  moreover have "hogs_only acts" using Cons.prems a by auto
  ultimately show ?case using Cons.IH by simp
qed simp

lemma hogs_ok_exits: "hogs_ok s \<Longrightarrow> hogs_ok (hogd_exits st s)"
  by (auto simp: hogs_ok_def hogd_exits_def zombies_seen_def spin_ok_def)

lemma hogs_ok_turn:
  assumes "hogs_ok s" "hs_life s = Waits st" "hog_turn sys v x st s = Some s'"
  shows "hogs_ok s'"
proof (cases "hogd_step sys v x st")
  case (Goes st' acts)
  let ?s = "s\<lparr>hs_life := Waits st', hs_stop := (if hog_cmd st' = ''jam'' then False else hs_stop s)\<rparr>"
  have ok: "hogs_ok ?s" "hs_life ?s = Waits st'"
    using assms(1,2) by (auto simp: hogs_ok_def zombies_seen_def spin_ok_def hogd_up_def)
  have s': "s' = fold (hog_act st') acts ?s" using assms(3) Goes by (simp add: hog_turn_def)
  from hogd_step_acts [OF Goes] show ?thesis
  proof
    assume "hogs_only acts"
    then show ?thesis unfolding s' using ok by (rule hogs_ok_acts)
  next
    assume "\<exists>n. acts = [Jams n] \<and> 0 < sint n \<and> sint n < 120"
    then obtain n a where "acts = [Jams n]" "alarm_arg n = Some a" "a < 120" using alarm_unat by blast
    then show ?thesis unfolding s' using ok by (auto simp: hogs_ok_def zombies_seen_def spin_ok_def hogd_up_def)
  qed
next
  case (Quits st')
  then show ?thesis using assms(1,3) by (auto simp: hog_turn_def hogs_ok_exits)
qed (use assms(3) in \<open>simp add: hog_turn_def\<close>)

lemma set_delete_nth: "set (take i xs @ drop (Suc i) xs) \<subseteq> set xs"
  by (auto dest: in_set_takeD in_set_dropD)

lemma hogs_ok_hogger:
  assumes "hogs_ok s" "i < length (hs_kids s)"
  shows "hogs_ok (hogger_exits i s)"
proof (cases "hogd_up s")
  case True
  have m: "hs_kids s ! i \<in> set (hs_kids s)" using assms(2) by simp
  have "hogger_ok (hs_time s) k \<and> (hg_zombie k \<longrightarrow> k = (hs_kids s ! i)\<lparr>hg_alarm := None, hg_zombie := True\<rparr> \<or> k \<in> set (hs_kids s))"
    if "k \<in> set ((hs_kids s)[i := (hs_kids s ! i)\<lparr>hg_alarm := None, hg_zombie := True\<rparr>])" for k
    using that assms(1) m by (auto simp: hogs_ok_def hogger_ok_def dest!: set_update_subset_insert [THEN subsetD])
  then show ?thesis using True assms(1)
    by (auto simp: hogger_exits_def hogs_ok_def zombies_seen_def spin_ok_def hogd_up_def)
next
  case False
  then show ?thesis using assms(1) set_delete_nth [of i "hs_kids s"]
    by (auto simp: hogger_exits_def hogs_ok_def zombies_seen_def spin_ok_def hogd_up_def)
qed

lemma hogger_ok_tick:
  "hogger_ok t k \<Longrightarrow> hg_alarm k \<noteq> Some 0 \<Longrightarrow> hogger_ok (Suc t) (k\<lparr>hg_alarm := tick_alarm (hg_alarm k)\<rparr>)"
  by (auto simp: hogger_ok_def tick_alarm_def split: option.splits)

lemma hogs_ok_tick:
  assumes "hogs_ok s" "\<not> alarms_due s"
  shows "hogs_ok (hog_tick s)"
proof -
  have "hogger_ok (Suc (hs_time s)) (k\<lparr>hg_alarm := tick_alarm (hg_alarm k)\<rparr>)" if "k \<in> set (hs_kids s)" for k
    using that assms by (intro hogger_ok_tick) (auto simp: hogs_ok_def alarms_due_def)
  then show ?thesis using assms
    by (auto simp: hogs_ok_def hog_tick_def zombies_seen_def spin_ok_def hogd_up_def tick_alarm_def)
qed

lemma hogs_ok_step:
  assumes "hog_step v s s'" "hogs_ok s"
  shows "hogs_ok s'"
  using assms
proof (induction rule: hog_step.induct)
  case (spin_ends s st)
  then show ?case by (auto simp: hogs_ok_def zombies_seen_def spin_ok_def hogd_up_def)
next
  case (daemon_alarm s)
  then show ?case by (auto simp: sig_alrm_h_cpuhogd_def hogs_ok_def zombies_seen_def spin_ok_def hogd_up_def)
next
  case (daemon_chld s)
  have "hogger_ok (hs_time s) k \<and> \<not> hg_zombie k" if "k \<in> set (hs_kids (sig_chld_defunct_reap s))" for k
    using hd.announced_handler [OF that] daemon_chld.prems by (simp add: hogs_ok_def)
  then show ?case using daemon_chld.prems by (auto simp: sig_chld_defunct_reap_def hogs_ok_def zombies_seen_def spin_ok_def hogd_up_def)
qed (auto simp: sig_term_h_def sig_alrm_h_cpuhogger_def intro: hogs_ok_turn hogs_ok_exits hogs_ok_hogger hogs_ok_tick)

lemma hogs_ok_init: "hogs_ok (hogs_init st)"
  by (simp add: hogs_init_def hogs_ok_def zombies_seen_def spin_ok_def)

lemma hogs_ok_run: "hog_runs v (hogs_init st) s \<Longrightarrow> hogs_ok s"
  by (induction rule: rtranclp_induct) (auto intro: hogs_ok_step hogs_ok_init)

section \<open>Properties\<close>

text \<open>
  Property C18: no exited child of the daemon is left behind. Whenever there is one, the daemon is
  alive with \<^verbatim>\<open>SIGCHLD\<close> pending, and one run of its handler removes all of them, however many exited
  since the last signal, and keeps the children that run.
\<close>

theorem exited_hoggers_reaped:
  assumes "hog_runs v (hogs_init st) s" "k \<in> set (hs_kids s)" "hg_zombie k"
  shows "hogd_up s \<and> hs_chld s \<and> hog_step v s (sig_chld_defunct_reap s) \<and>
    hs_kids (sig_chld_defunct_reap s) = filter (\<lambda>k. \<not> hg_zombie k) (hs_kids s)"
proof -
  have "hogd_up s" "hs_chld s" using hogs_ok_run [OF assms(1)] assms(2,3) by (auto simp: hogs_ok_def zombies_seen_def)
  moreover from this have "hog_step v s (sig_chld_defunct_reap s)" by (rule hog_step.daemon_chld)
  ultimately show ?thesis using hd.reaps by simp
qed

text \<open>
  Property C35: a child that was started for a positive number of seconds runs no longer than
  that, and at most 100; one that was started with 0 seconds has no alarm at all, so that only
  a signal from outside ends it.
\<close>

theorem hoggers_stop_in_time:
  assumes "hog_runs v (hogs_init st) s" "k \<in> set (hs_kids s)" "\<not> hg_zombie k"
  shows "(0 < sint (hg_secs k) \<longrightarrow>
      hs_time s \<le> hg_start k + nat (sint (hg_secs k)) \<and> hs_time s \<le> hg_start k + 100) \<and>
    (hg_secs k = 0 \<longrightarrow> hg_alarm k = None)"
proof -
  have ok: "hogger_ok (hs_time s) k" using hogs_ok_run [OF assms(1)] assms(2) by (simp add: hogs_ok_def)
  have "hs_time s \<le> hg_start k + nat (sint (hg_secs k)) \<and> hs_time s \<le> hg_start k + 100" if p: "0 < sint (hg_secs k)"
  proof -
    have "hg_secs k \<noteq> 0" using p by auto
    then obtain a where "hs_time s + a = hg_start k + unat (hg_secs k)"
      using ok assms(3) by (auto simp: hogger_ok_def split: option.splits)
    moreover have "int (unat (hg_secs k)) = sint (hg_secs k)" by (rule unat_sint) (use p in simp)
    moreover have "sint (hg_secs k) \<le> 100" using ok by (simp add: hogger_ok_def)
    ultimately show ?thesis by linarith
  qed
  then show ?thesis using ok assms(3) by (auto simp: hogger_ok_def split: option.splits)
qed

section \<open>The jam ends\<close>

abbreviation same_daemon :: "hogs \<Rightarrow> hogs \<Rightarrow> bool" where
  "same_daemon s s' \<equiv> hs_life s' = hs_life s \<and> hs_stop s' = hs_stop s \<and> hs_alarm s' = hs_alarm s \<and> hs_time s' = hs_time s"

lemma hogger_exits_same: "same_daemon s (hogger_exits i s)"
  by (simp add: hogger_exits_def)

definition due :: "hogs \<Rightarrow> nat" where
  "due s = length (filter (\<lambda>k. hg_alarm k = Some 0) (hs_kids s))"

lemma due_exits:
  assumes "i < length (hs_kids s)" "hg_alarm (hs_kids s ! i) = Some 0"
  shows "due (hogger_exits i s) < due s"
proof -
  have k: "hs_kids s = take i (hs_kids s) @ hs_kids s ! i # drop (Suc i) (hs_kids s)" using assms(1) by (rule id_take_nth_drop)
  have u: "(hs_kids s)[i := x] = take i (hs_kids s) @ x # drop (Suc i) (hs_kids s)" for x
    using assms(1) by (rule upd_conv_take_nth_drop)
  have "due s = Suc (length (filter (\<lambda>k. hg_alarm k = Some 0) (take i (hs_kids s) @ drop (Suc i) (hs_kids s))))"
    unfolding due_def by (subst k) (simp add: assms(2))
  then show ?thesis by (simp add: due_def hogger_exits_def u)
qed

lemma settle: "\<exists>s'. hog_runs v s s' \<and> same_daemon s s' \<and> due s' = 0"
proof (induction "due s" arbitrary: s rule: less_induct)
  case less
  show ?case
  proof (cases "due s = 0")
    case False
    then obtain i where i: "i < length (hs_kids s)" "hg_alarm (hs_kids s ! i) = Some 0"
      unfolding due_def by (auto simp: filter_empty_conv in_set_conv_nth)
    from less [OF due_exits [OF i]] obtain s' where
      s': "hog_runs v (hogger_exits i s) s'" "same_daemon (hogger_exits i s) s'" "due s' = 0" by blast
    have "hog_step v s (hogger_exits i s)" using hog_step.hogger_alarm [OF i] by (simp add: sig_alrm_h_cpuhogger_def)
    then have "hog_runs v s s'" using s'(1) by (rule converse_rtranclp_into_rtranclp)
    then show ?thesis using s'(2,3) hogger_exits_same [of i s] by metis
  qed auto
qed

lemma spin_stop:
  assumes "hs_life s = Spins st" "hs_stop s"
  shows "\<exists>s'. hog_runs v s s' \<and> hs_life s' = Waits st \<and> hs_time s' = hs_time s"
  using hog_step.spin_ends [OF assms, of v] by (intro exI [of _ "s\<lparr>hs_life := Waits st\<rparr>"]) auto

lemma spin_alarm:
  assumes "hs_life s = Spins st" "hs_alarm s = Some a"
  shows "\<exists>s'. hog_runs v s s' \<and> hs_life s' = Waits st \<and> hs_time s' = hs_time s + a"
  using assms
proof (induction a arbitrary: s)
  case 0
  have "hog_step v s (sig_alrm_h_cpuhogd s)" using 0 by (intro hog_step.daemon_alarm) (simp_all add: hogd_up_def)
  moreover obtain s' where "hog_runs v (sig_alrm_h_cpuhogd s) s'" "hs_life s' = Waits st" "hs_time s' = hs_time s"
    using spin_stop [of "sig_alrm_h_cpuhogd s"] 0 by (auto simp: sig_alrm_h_cpuhogd_def)
  ultimately show ?case by (metis add_0_right converse_rtranclp_into_rtranclp)
next
  case (Suc a)
  obtain s1 where s1: "hog_runs v s s1" "same_daemon s s1" "due s1 = 0" using settle by blast
  have "\<not> alarms_due s1" using s1(2,3) Suc.prems by (auto simp: alarms_due_def due_def filter_empty_conv)
  then have t: "hog_step v s1 (hog_tick s1)" by (rule hog_step.second)
  obtain s' where s': "hog_runs v (hog_tick s1) s'" "hs_life s' = Waits st" "hs_time s' = hs_time (hog_tick s1) + a"
    using Suc.IH [of "hog_tick s1"] s1(2) Suc.prems by (auto simp: hog_tick_def tick_alarm_def)
  have "hog_runs v s s'" using s1(1) t s'(1) by (meson converse_rtranclp_into_rtranclp rtranclp_trans)
  then show ?case using s1(2) s'(2,3) by (intro exI [of _ s']) (simp add: hog_tick_def)
qed

text \<open>
  Property C36: the daemon comes back from every \<^verbatim>\<open>jam\<close>: from any state in which it spins, there is a
  way to the top of its loop that takes at most 119 seconds, because the flag is cleared before the alarm is set
  and the alarm is still to come whenever the flag is clear.
\<close>

theorem jam_ends:
  assumes "hog_runs v (hogs_init st0) s" "hs_life s = Spins st"
  shows "\<exists>s'. hog_runs v s s' \<and> hs_life s' = Waits st \<and> hs_time s' \<le> hs_time s + 119"
proof -
  have "spin_ok s" using hogs_ok_run [OF assms(1)] by (simp add: hogs_ok_def)
  then consider "hs_stop s" | a where "a < 120" "hs_alarm s = Some a" using assms(2) by (auto simp: spin_ok_def)
  then show ?thesis
  proof cases
    case 1
    then show ?thesis using spin_stop [OF assms(2)] by fastforce
  next
    case 2
    then show ?thesis using spin_alarm [OF assms(2)] by fastforce
  qed
qed

section \<open>What a hydra starts\<close>

text \<open>
  The processor of the child for bit \<open>i\<close>: the last processor up to \<open>i\<close> that the daemon could be bound to in
  this command, and the one it was bound to before when there is none.
\<close>

definition bound_cpu :: "hog_sys \<Rightarrow> u32 \<Rightarrow> nat option \<Rightarrow> nat \<Rightarrow> nat option" where
  "bound_cpu sys msk c i =
     (let js = filter (\<lambda>j. bit msk j \<and> sys_affinity sys j) [0..<Suc i] in if js = [] then c else Some (last js))"

definition new_hogger :: "nat option \<Rightarrow> nat \<Rightarrow> u32 \<Rightarrow> hogger" where
  "new_hogger cpu t secs =
     \<lparr>hg_cpu = cpu, hg_start = t, hg_secs = secs, hg_alarm = alarm_arg secs, hg_zombie = False\<rparr>"

lemma hog_act_hydra:
  fixes secs :: u32 and sys :: hog_sys and st' :: hogd
  defines "run msk n s \<equiv> fold (hog_act st') (concat (map (bit_acts sys secs) (filter (bit (msk :: u32)) [0..<n]))) s"
  shows "hs_kids (run msk n s) = hs_kids s @
      map (\<lambda>i. new_hogger (bound_cpu sys msk (hs_cpu s) i) (hs_time s) secs) (filter (\<lambda>i. bit msk i \<and> sys_fork sys i) [0..<n])"
    and "hs_cpu (run msk n s) =
      (let js = filter (\<lambda>j. bit msk j \<and> sys_affinity sys j) [0..<n] in if js = [] then hs_cpu s else Some (last js))"
    and "hs_life (run msk n s) = hs_life s" "hs_time (run msk n s) = hs_time s"
proof -
  have "hs_kids (run msk n s) = hs_kids s @
      map (\<lambda>i. new_hogger (bound_cpu sys msk (hs_cpu s) i) (hs_time s) secs) (filter (\<lambda>i. bit msk i \<and> sys_fork sys i) [0..<n]) \<and>
    hs_cpu (run msk n s) =
      (let js = filter (\<lambda>j. bit msk j \<and> sys_affinity sys j) [0..<n] in if js = [] then hs_cpu s else Some (last js)) \<and>
    hs_life (run msk n s) = hs_life s \<and> hs_time (run msk n s) = hs_time s"
  proof (induction n)
    case (Suc n)
    have s: "run msk (Suc n) s =
        (if bit msk n then hog_act st' (Forks secs (sys_fork sys n)) (hog_act st' (Binds n (sys_affinity sys n)) (run msk n s))
         else run msk n s)"
      by (simp add: run_def)
    show ?case using Suc unfolding s
      by (auto simp: new_hogger_def bound_cpu_def Let_def)
  qed (simp add: run_def)
  then show "hs_kids (run msk n s) = hs_kids s @
      map (\<lambda>i. new_hogger (bound_cpu sys msk (hs_cpu s) i) (hs_time s) secs) (filter (\<lambda>i. bit msk i \<and> sys_fork sys i) [0..<n])"
    and "hs_cpu (run msk n s) =
      (let js = filter (\<lambda>j. bit msk j \<and> sys_affinity sys j) [0..<n] in if js = [] then hs_cpu s else Some (last js))"
    and "hs_life (run msk n s) = hs_life s" "hs_time (run msk n s) = hs_time s"
    by blast+
qed

lemma bound_cpu_own: "bit msk i \<Longrightarrow> sys_affinity sys i \<Longrightarrow> bound_cpu sys msk c i = Some i"
  by (simp add: bound_cpu_def)

text \<open>
  Property C15: the command \<^verbatim>\<open>hydra mask secs\<close>, written out in decimal, with a mask below 16 (a negative
  one counts by its low bits) and at most 100 seconds. The daemon forks one child, for the given
  seconds, for each of the processors 0 to 3 whose bit is set in the mask and for which the fork
  succeeds. A child is on the last processor up to its own that the daemon could be bound to, so when
  neither \<^verbatim>\<open>sched_setaffinity\<close> nor \<^verbatim>\<open>fork\<close> fails the children are on exactly the processors of the mask.
  The daemon goes on with the pipe in place and no descriptor left open.
\<close>

theorem hydra_starts_children:
  assumes "msk \<noteq> -1" "secs \<noteq> -1" "sint secs \<le> 100" "sint msk < 16"
  shows "\<exists>s' st'. hog_turn sys v (Bytes (''hydra '' @ two_numbers msk secs)) st s = Some s' \<and> hs_life s' = Waits st' \<and>
    hog_open st' = hog_open st \<and> hog_pipe st' = hog_pipe st \<and> hog_secs st' = secs \<and>
    hs_kids s' = hs_kids s @ map (\<lambda>cpu. new_hogger (bound_cpu sys msk (hs_cpu s) cpu) (hs_time s) secs)
      (filter (\<lambda>cpu. bit msk cpu \<and> sys_fork sys cpu) [0..<4]) \<and>
    ((\<forall>cpu < 4. bit msk cpu \<longrightarrow> sys_affinity sys cpu \<and> sys_fork sys cpu) \<longrightarrow>
      map hg_cpu (drop (length (hs_kids s)) (hs_kids s')) = map Some (filter (bit msk) [0..<4]))"
proof -
  obtain st' where st': "hogd_step sys v (Bytes (''hydra '' @ two_numbers msk secs)) st =
      Goes st' (concat (map (bit_acts sys secs) (filter (bit msk) [0..<4])))" "hog_cmd st' = ''hydra''"
      "hog_open st' = hog_open st" "hog_pipe st' = hog_pipe st" "hog_secs st' = secs"
    using hogd_step_hydra_acts [OF assms] by blast
  let ?acts = "concat (map (bit_acts sys secs) (filter (bit msk) [0..<4]))"
  let ?s' = "fold (hog_act st') ?acts (s\<lparr>hs_life := Waits st', hs_stop := hs_stop s\<rparr>)"
  let ?kids = "map (\<lambda>cpu. new_hogger (bound_cpu sys msk (hs_cpu s) cpu) (hs_time s) secs)
      (filter (\<lambda>cpu. bit msk cpu \<and> sys_fork sys cpu) [0..<4])"
  have t: "hog_turn sys v (Bytes (''hydra '' @ two_numbers msk secs)) st s = Some ?s'"
    using st'(1,2) by (simp add: hog_turn_def del: append_Cons append_Nil)
  have k: "hs_kids ?s' = hs_kids s @ ?kids" by (subst hog_act_hydra(1)) simp
  moreover have "hs_life ?s' = Waits st'" by (subst hog_act_hydra(3)) simp
  moreover have "map hg_cpu ?kids = map Some (filter (bit msk) [0..<4])"
    if ok: "\<forall>cpu < 4. bit msk cpu \<longrightarrow> sys_affinity sys cpu \<and> sys_fork sys cpu"
  proof -
    have "filter (\<lambda>cpu. bit msk cpu \<and> sys_fork sys cpu) [0..<4] = filter (bit msk) [0..<4]"
      using ok by (intro filter_cong) auto
    moreover have "hg_cpu (new_hogger (bound_cpu sys msk (hs_cpu s) cpu) (hs_time s) secs) = Some cpu"
      if "cpu \<in> set (filter (bit msk) [0..<4])" for cpu
      using that ok bound_cpu_own by (simp add: new_hogger_def)
    ultimately show ?thesis by simp
  qed
  ultimately show ?thesis using t st'(3-5) by (intro exI [of _ ?s'] exI [of _ st']) simp
qed

definition all_well :: hog_sys where
  "all_well = \<lparr>sys_affinity = (\<lambda>_. True), sys_fork = (\<lambda>_. True)\<rparr>"

theorem hydra_starts_children_witness:
  "\<exists>s'. hog_turn all_well V1 (Bytes (''hydra '' @ two_numbers 10 60)) (hogd_init []) (hogs_init (hogd_init [])) = Some s' \<and>
    map hg_cpu (hs_kids s') = map Some (filter (bit (10 :: u32)) [0..<4])"
  using hydra_starts_children [of 10 60 all_well V1 "hogd_init []" "hogs_init (hogd_init [])"]
  by (auto simp: all_well_def hogs_init_def)

lemma turn_hydra: "hogd_step all_well V1 (Bytes ''hydra 1 1'') (hogd_init []) =
  Goes \<lparr>hog_mask = 0, hog_secs = 1, hog_cmd = ''hydra'', hog_open = 0, hog_pipe = True\<rparr> [Binds 0 True, Forks 1 True]"
  by code_simp

lemma turn_jam: "hogd_step all_well V1 (Bytes ''jam 5'') (hogd_init []) =
  Goes \<lparr>hog_mask = 1, hog_secs = 5, hog_cmd = ''jam'', hog_open = 0, hog_pipe = True\<rparr> [Jams 5]"
  by code_simp

section \<open>Concrete runs\<close>

definition hydra_state :: "nat \<Rightarrow> nat option \<Rightarrow> bool \<Rightarrow> hogs" where
  "hydra_state t a z =
     \<lparr>hs_life = Waits \<lparr>hog_mask = 0, hog_secs = 1, hog_cmd = ''hydra'', hog_open = 0, hog_pipe = True\<rparr>,
      hs_cpu = Some 0, hs_stop = False, hs_alarm = None, hs_chld = z,
      hs_kids = [\<lparr>hg_cpu = Some 0, hg_start = 0, hg_secs = 1, hg_alarm = a, hg_zombie = z\<rparr>], hs_time = t\<rparr>"

definition jam_state :: hogs where
  "jam_state =
     \<lparr>hs_life = Spins \<lparr>hog_mask = 1, hog_secs = 5, hog_cmd = ''jam'', hog_open = 0, hog_pipe = True\<rparr>,
      hs_cpu = None, hs_stop = False, hs_alarm = Some 5, hs_chld = False, hs_kids = [], hs_time = 0\<rparr>"

lemma hydra_run:
  "hog_runs V1 (hogs_init (hogd_init [])) (hydra_state 1 (Some 0) False)"
  "hog_runs V1 (hogs_init (hogd_init [])) (hydra_state 1 None True)"
proof -
  have "hog_step V1 (hogs_init (hogd_init [])) (hydra_state 0 (Some 1) False)"
    by (rule hog_step.command [where sys = all_well and input = "Bytes ''hydra 1 1''" and st = "hogd_init []"])
      (simp_all add: hog_turn_def turn_hydra hogs_init_def hydra_state_def alarm_arg_def)
  moreover have "hog_step V1 (hydra_state 0 (Some 1) False) (hydra_state 1 (Some 0) False)"
    using hog_step.second [of "hydra_state 0 (Some 1) False" V1]
    by (simp add: alarms_due_def hog_tick_def tick_alarm_def hydra_state_def)
  ultimately show r: "hog_runs V1 (hogs_init (hogd_init [])) (hydra_state 1 (Some 0) False)" by simp
  have "hog_step V1 (hydra_state 1 (Some 0) False) (hydra_state 1 None True)"
    using hog_step.hogger_alarm [of 0 "hydra_state 1 (Some 0) False" V1]
    by (simp add: sig_alrm_h_cpuhogger_def hogger_exits_def hydra_state_def hogd_up_def)
  with r show "hog_runs V1 (hogs_init (hogd_init [])) (hydra_state 1 None True)" by simp
qed

lemma jam_run: "hog_runs V1 (hogs_init (hogd_init [])) jam_state"
proof -
  have "hog_step V1 (hogs_init (hogd_init [])) jam_state"
    by (rule hog_step.command [where sys = all_well and input = "Bytes ''jam 5''" and st = "hogd_init []"])
      (simp_all add: hog_turn_def turn_jam hogs_init_def jam_state_def alarm_arg_def)
  then show ?thesis by simp
qed

theorem exited_hoggers_reaped_witness:
  "hs_chld (hydra_state 1 None True) \<and> hs_kids (sig_chld_defunct_reap (hydra_state 1 None True)) = []"
  using exited_hoggers_reaped [OF hydra_run(2), of "hs_kids (hydra_state 1 None True) ! 0"]
  by (simp add: hydra_state_def)

theorem hoggers_stop_in_time_witness:
  "hs_time (hydra_state 1 (Some 0) False) \<le> 0 + nat (sint (1 :: u32))"
  using hoggers_stop_in_time [OF hydra_run(1), of "hs_kids (hydra_state 1 (Some 0) False) ! 0"]
  by (simp add: hydra_state_def)

theorem jam_ends_witness:
  "\<exists>s'. hog_runs V1 jam_state s' \<and> hs_time s' \<le> 119"
  using jam_ends [OF jam_run] by (auto simp: jam_state_def)

section \<open>What else the handlers do\<close>

text \<open>\<^verbatim>\<open>quit\<close> removes the pipe of the second version, \<^verbatim>\<open>SIGTERM\<close> leaves it.\<close>

lemma quit_removes_pipe:
  "hogd_quit V1 st = Quits st' \<Longrightarrow> \<not> hog_pipe (hogd_state (hs_life (hogd_exits st' s)))"
  by (auto simp: hogd_quit_def hogd_exits_def hogd_state_def)

lemma sigterm_leaves_pipe: "hog_pipe (hogd_state (hs_life (sig_term_h s))) = hog_pipe (hogd_state (hs_life s))"
  by (simp add: sig_term_h_def hogd_exits_def hogd_state_def)

text \<open>The daemon is left on the last processor of the mask to which it could be bound.\<close>

lemma daemon_bound:
  "filter (\<lambda>j. bit (msk :: u32) j \<and> sys_affinity sys j) [0..<4] = js \<Longrightarrow> js \<noteq> [] \<Longrightarrow>
    hs_cpu (fold (hog_act st) (concat (map (bit_acts sys secs) (filter (bit msk) [0..<4]))) s) = Some (last js)"
  using hog_act_hydra(2) [of st sys secs msk 4 s] by simp

section \<open>Start of the daemon\<close>

text \<open>
  The program forks and returns 0, also when the fork failed (the result is then -1, not 0). The
  new process reports that it could not get real-time priority and goes on; it makes the pipe,
  named after its own number in the second version, and waits for commands.
\<close>

datatype hog_launch = ParentReturns int | DaemonFails "string list" int | DaemonStarts "string list" hogs

definition hogd_pipe_path :: "hogd_version \<Rightarrow> int \<Rightarrow> string" where
  "hogd_pipe_path v pid = (if v = V0 then ''/tmp/cpuhogd.pipe'' else ''/tmp/cpuhogd.'' @ int_string pid @ ''.pipe'')"

definition hogd_launch :: "int \<Rightarrow> bool \<Rightarrow> mknod_result \<Rightarrow> string \<Rightarrow> hog_launch" where
  "hogd_launch fork_rc sched_ok r junk =
     (if fork_rc \<noteq> 0 then ParentReturns 0
      else
        let out = (if sched_ok then [] else [''sched_setscheduler:'']) @ (if r = Made then [] else [''mknod:''])
        in case hogd_start r junk of
             None \<Rightarrow> DaemonFails out (- 1)
           | Some st \<Rightarrow> DaemonStarts out (hogs_init st))"

lemma hogd_launch_fork_fails: "hogd_launch (- 1) sched_ok r junk = ParentReturns 0"
  by (simp add: hogd_launch_def)

lemma hogd_launch_starts:
  "hogd_launch 0 sched_ok r junk = DaemonStarts out s \<Longrightarrow> s = hogs_init (hogd_init junk) \<and> r \<noteq> NotMade"
  by (auto simp: hogd_launch_def hogd_start_def Let_def split: mknod_result.splits)

text \<open>The path fits its 64 bytes, and daemons of the second version never share a pipe.\<close>

lemma hogd_pipe_path_fits: "0 \<le> pid \<Longrightarrow> pid < 2 ^ 31 \<Longrightarrow> length (hogd_pipe_path v pid) < 64"
  using length_int_string [of pid] by (auto simp: hogd_pipe_path_def)

lemma int_string_inj:
  assumes "int_string a = int_string b" "- (2 ^ 31) \<le> a" "a < 2 ^ 31" "- (2 ^ 31) \<le> b" "b < 2 ^ 31"
  shows "a = b"
proof -
  have "a = scan_into (int_string a) 0" using scan_into_int_string [OF assms(2,3)] by (rule sym)
  also have "\<dots> = scan_into (int_string b) 0" using assms(1) by (rule arg_cong)
  also have "\<dots> = b" using scan_into_int_string [OF assms(4,5)] .
  finally show ?thesis .
qed

lemma hogd_pipe_path_inj:
  assumes "hogd_pipe_path V1 a = hogd_pipe_path V1 b" "0 \<le> a" "a < 2 ^ 31" "0 \<le> b" "b < 2 ^ 31"
  shows "a = b"
proof (rule int_string_inj)
  show "int_string a = int_string b" using assms(1) by (simp add: hogd_pipe_path_def)
qed (use assms in simp_all)

end
