(* ===== verification/Test_Fork.thy ===== *)
theory Test_Fork
  imports C_Library Reaping
begin

unbundle bit_operations_syntax

text \<open>
  The fork test, \<^verbatim>\<open>src/test_fork.c\<close>: a process that fills a table of mapped pages, unmaps half of them
  at random, forks a child that writes to the rest, and does so again and again, while a handler
  counts the children that exit; it returns when it has counted them all. A page is the number of
  the call of \<^verbatim>\<open>mmap\<close> that made it.
\<close>

section \<open>The table of pages\<close>

record alloc_info =
  ai_addr :: "nat option"
  ai_size :: nat

record fork_mem =
  fm_slots :: "alloc_info list"
  fm_pages :: "nat list"
  fm_next :: nat
  fm_rnd :: nat

definition PAGE_SZ_fork :: nat where
  "PAGE_SZ_fork = 4096"

definition fork_random :: "(nat \<Rightarrow> nat) \<Rightarrow> fork_mem \<Rightarrow> nat \<times> fork_mem" where
  "fork_random rnd m = (rnd (fm_rnd m), m\<lparr>fm_rnd := fm_rnd m + 1\<rparr>)"

text \<open>\<open>ok k\<close> says that call number \<open>k\<close> of \<^verbatim>\<open>mmap\<close> succeeds. It maps one page, whatever the size.\<close>

definition xalloc :: "(nat \<Rightarrow> bool) \<Rightarrow> fork_mem \<Rightarrow> nat option \<times> fork_mem" where
  "xalloc ok m =
     (let p = fm_next m; m = m\<lparr>fm_next := p + 1\<rparr>
      in if ok p then (Some p, m\<lparr>fm_pages := p # fm_pages m\<rparr>) else (None, m))"

text \<open>
  \<^verbatim>\<open>munmap\<close> refuses a length of 0 and leaves the page. An address that is not one of the pages comes
  out of memory that was never written, and what unmapping it does is not defined (\<open>None\<close>).
\<close>

definition xfree :: "nat \<Rightarrow> nat \<Rightarrow> fork_mem \<Rightarrow> fork_mem option" where
  "xfree p sz m =
     (if p \<notin> set (fm_pages m) then None
      else if sz = 0 then Some m
      else Some (m\<lparr>fm_pages := removeAll p (fm_pages m)\<rparr>))"

text \<open>Slot \<open>i\<close> is freed if it has a page; to unmap the address 0, as the second loop might, changes nothing.\<close>

definition free_slot :: "nat \<Rightarrow> fork_mem \<Rightarrow> fork_mem option" where
  "free_slot i m =
     (case ai_addr (fm_slots m ! i) of None \<Rightarrow> Some m | Some p \<Rightarrow> xfree p (ai_size (fm_slots m ! i)) m)"

text \<open>A store into a page: inside a page that is mapped, or of no bytes.\<close>

definition memset_page :: "nat \<Rightarrow> nat \<Rightarrow> fork_mem \<Rightarrow> bool" where
  "memset_page p sz m \<longleftrightarrow> sz = 0 \<or> p \<in> set (fm_pages m) \<and> sz \<le> PAGE_SZ_fork"

text \<open>The first loop of \<^verbatim>\<open>do_mallocs\<close>: whether it came to its end, or not because a mapping failed.\<close>

fun fill_loop :: "(nat \<Rightarrow> bool) \<Rightarrow> (nat \<Rightarrow> nat) \<Rightarrow> nat list \<Rightarrow> fork_mem \<Rightarrow> (bool \<times> fork_mem) option" where
  "fill_loop ok rnd [] m = Some (True, m)"
| "fill_loop ok rnd (i # js) m =
     (case free_slot i m of
        None \<Rightarrow> None
      | Some m \<Rightarrow>
          let (r, m) = fork_random rnd m;
              sz = r mod (PAGE_SZ_fork + 1);
              (a, m) = xalloc ok m
          in case a of
               None \<Rightarrow> Some (False, m\<lparr>fm_slots := (fm_slots m)[i := (fm_slots m ! i)\<lparr>ai_addr := None\<rparr>]\<rparr>)
             | Some p \<Rightarrow>
                 let m = m\<lparr>fm_slots := (fm_slots m)[i := \<lparr>ai_addr = Some p, ai_size = sz\<rparr>]\<rparr>
                 in if memset_page p sz m then fill_loop ok rnd js m else None)"

text \<open>The second loop.\<close>

fun drop_loop :: "(nat \<Rightarrow> nat) \<Rightarrow> nat list \<Rightarrow> fork_mem \<Rightarrow> fork_mem option" where
  "drop_loop rnd [] m = Some m"
| "drop_loop rnd (i # js) m =
     (let (r, m) = fork_random rnd m
      in if odd r then
           (case free_slot i m of
              None \<Rightarrow> None
            | Some m \<Rightarrow> drop_loop rnd js (m\<lparr>fm_slots := (fm_slots m)[i := \<lparr>ai_addr = None, ai_size = 0\<rparr>]\<rparr>))
         else drop_loop rnd js m)"

definition do_mallocs :: "(nat \<Rightarrow> bool) \<Rightarrow> (nat \<Rightarrow> nat) \<Rightarrow> fork_mem \<Rightarrow> fork_mem option" where
  "do_mallocs ok rnd m =
     (case fill_loop ok rnd [0..<length (fm_slots m)] m of
        None \<Rightarrow> None
      | Some (complete, m) \<Rightarrow> if complete then drop_loop rnd [0..<length (fm_slots m)] m else Some m)"

text \<open>
  The child: it writes to every page of the table and counts the free slots. The time since its
  parent took the clock, in microseconds, and how long it sleeps are computed in \<^verbatim>\<open>unsigned long\<close>.
\<close>

fun child_loop :: "alloc_info list \<Rightarrow> nat \<Rightarrow> fork_mem \<Rightarrow> nat option" where
  "child_loop [] nr_frees m = Some nr_frees"
| "child_loop (a # as) nr_frees m =
     (case ai_addr a of
        None \<Rightarrow> child_loop as (nr_frees + 1) m
      | Some p \<Rightarrow> if memset_page p (ai_size a) m then child_loop as nr_frees m else None)"

definition clone_delta :: "u64 \<times> u64 \<Rightarrow> u64 \<times> u64 \<Rightarrow> u64" where
  "clone_delta ts1 ts2 =
     (let t2 = fst ts2 * 1000000 + snd ts2 div 1000; t1 = fst ts1 * 1000000 + snd ts1 div 1000 in t2 - t1)"

definition clone_sleep :: "u64 \<Rightarrow> u64" where
  "clone_sleep nsec = drop_bit 2 nsec AND 0xffff"

definition clone_fn :: "fork_mem \<Rightarrow> nat option" where
  "clone_fn m = child_loop (fm_slots m) 0 m"

section \<open>The table stays sound\<close>

text \<open>
  Every page in the table is mapped, no two slots have the same, sizes are at most a page, and the
  next page is new.
\<close>

definition slot_pages :: "alloc_info list \<Rightarrow> nat set" where
  "slot_pages as = {p. \<exists>a\<in>set as. ai_addr a = Some p}"

definition slots_apart :: "alloc_info list \<Rightarrow> bool" where
  "slots_apart as \<longleftrightarrow> (\<forall>i<length as. \<forall>j<length as. \<forall>p. ai_addr (as ! i) = Some p \<longrightarrow> ai_addr (as ! j) = Some p \<longrightarrow> i = j)"

definition fm_ok :: "fork_mem \<Rightarrow> bool" where
  "fm_ok m \<longleftrightarrow> slot_pages (fm_slots m) \<subseteq> set (fm_pages m) \<and> slots_apart (fm_slots m) \<and>
     (\<forall>a\<in>set (fm_slots m). ai_addr a \<noteq> None \<longrightarrow> ai_size a \<le> PAGE_SZ_fork) \<and> (\<forall>p\<in>set (fm_pages m). p < fm_next m)"

lemma slot_pages_nth: "i < length as \<Longrightarrow> ai_addr (as ! i) = Some p \<Longrightarrow> p \<in> slot_pages as"
  by (auto simp: slot_pages_def intro!: bexI [of _ "as ! i"])

lemma slot_pagesE:
  assumes "p \<in> slot_pages as"
  obtains i where "i < length as" "ai_addr (as ! i) = Some p"
  using assms by (auto simp: slot_pages_def in_set_conv_nth)

lemma nth_upd: "j < length as \<Longrightarrow> as[i := a] ! j = (if i = j then a else as ! j)"
  by auto

lemma slots_apart_drop:
  "slots_apart as \<Longrightarrow> ai_addr a = None \<Longrightarrow> slots_apart (as[i := a])"
  by (auto simp: slots_apart_def nth_upd split: if_splits)

lemma slots_apart_new:
  assumes "slots_apart as" "ai_addr a = Some p" "p \<notin> slot_pages as"
  shows "slots_apart (as[i := a])"
proof -
  have "ai_addr (as ! j) \<noteq> Some p" if "j < length as" for j using that assms(3) slot_pages_nth by blast
  then show ?thesis using assms(1,2) by (auto simp: slots_apart_def nth_upd split: if_splits)
qed

lemma slot_pages_update_subset:
  "slot_pages (as[i := a]) \<subseteq> slot_pages as \<union> (case ai_addr a of None \<Rightarrow> {} | Some p \<Rightarrow> {p})"
  by (auto simp: slot_pages_def dest!: set_update_subset_insert [THEN subsetD])

lemma slot_pages_drop:
  assumes "slots_apart as" "i < length as" "ai_addr (as ! i) = Some p" "ai_addr a \<noteq> Some p"
  shows "p \<notin> slot_pages (as[i := a])"
proof
  assume "p \<in> slot_pages (as[i := a])"
  then obtain j where "j < length as" "ai_addr (as[i := a] ! j) = Some p" by (auto elim: slot_pagesE)
  then show False using assms by (auto simp: slots_apart_def nth_upd split: if_splits)
qed

text \<open>Freeing slot \<open>i\<close> and clearing it.\<close>

lemma free_slot_ok:
  assumes "fm_ok m" "i < length (fm_slots m)"
  obtains m' where "free_slot i m = Some m'" "fm_slots m' = fm_slots m" "fm_next m' = fm_next m" "fm_rnd m' = fm_rnd m"
    "set (fm_pages m') \<subseteq> set (fm_pages m)"
    "\<And>a. ai_addr a = None \<Longrightarrow> fm_ok (m'\<lparr>fm_slots := (fm_slots m)[i := a]\<rparr>)"
proof (cases "ai_addr (fm_slots m ! i)")
  case None
  have "fm_ok (m\<lparr>fm_slots := (fm_slots m)[i := a]\<rparr>)" if "ai_addr a = None" for a
    using assms(1) that slot_pages_update_subset [of "fm_slots m" i a]
    by (auto simp: fm_ok_def slots_apart_drop dest!: set_update_subset_insert [THEN subsetD])
  then show thesis using None that [of m] by (simp add: free_slot_def)
next
  case (Some p)
  have p: "p \<in> set (fm_pages m)" using assms slot_pages_nth [OF assms(2) Some] by (auto simp: fm_ok_def)
  let ?m = "if ai_size (fm_slots m ! i) = 0 then m else m\<lparr>fm_pages := removeAll p (fm_pages m)\<rparr>"
  have "fm_ok (?m\<lparr>fm_slots := (fm_slots m)[i := a]\<rparr>)" if "ai_addr a = None" for a
  proof -
    have "p \<notin> slot_pages ((fm_slots m)[i := a])" using assms Some that by (intro slot_pages_drop) (auto simp: fm_ok_def)
    moreover have "slot_pages ((fm_slots m)[i := a]) \<subseteq> slot_pages (fm_slots m)"
      using slot_pages_update_subset [of "fm_slots m" i a] that by simp
    ultimately show ?thesis using assms(1) that
      by (auto simp: fm_ok_def slots_apart_drop dest!: set_update_subset_insert [THEN subsetD])
  qed
  then show thesis using Some p that [of ?m] by (auto simp: free_slot_def xfree_def)
qed

lemma fm_ok_rnd [simp]: "fm_ok (m\<lparr>fm_rnd := r\<rparr>) = fm_ok m"
  by (simp add: fm_ok_def)

lemma free_slot_rnd: "free_slot i (m\<lparr>fm_rnd := r\<rparr>) = map_option (\<lambda>m'. m'\<lparr>fm_rnd := r\<rparr>) (free_slot i m)"
  by (simp add: free_slot_def xfree_def split: option.splits)

text \<open>A new page in slot \<open>i\<close>, whose old page is gone.\<close>

lemma fm_ok_new:
  assumes "fm_ok (m\<lparr>fm_slots := (fm_slots m)[i := a]\<rparr>)" "ai_addr a = None" "fm_next m = p" "sz \<le> PAGE_SZ_fork"
  shows "fm_ok (m\<lparr>fm_next := p + 1, fm_pages := p # fm_pages m, fm_slots := (fm_slots m)[i := \<lparr>ai_addr = Some p, ai_size = sz\<rparr>]\<rparr>)"
proof -
  let ?as = "(fm_slots m)[i := a]" and ?b = "\<lparr>ai_addr = Some p, ai_size = sz\<rparr>"
  have ok: "slot_pages ?as \<subseteq> set (fm_pages m)" "slots_apart ?as" "\<forall>q\<in>set (fm_pages m). q < p"
    "\<forall>b\<in>set ?as. ai_addr b \<noteq> None \<longrightarrow> ai_size b \<le> PAGE_SZ_fork"
    using assms(1,3) by (auto simp: fm_ok_def)
  have "p \<notin> slot_pages ?as" using ok(1,3) by auto
  from slots_apart_new [OF ok(2) _ this, of ?b i] have "slots_apart ((fm_slots m)[i := ?b])" by simp
  moreover have "slot_pages ((fm_slots m)[i := ?b]) \<subseteq> insert p (set (fm_pages m))"
    using slot_pages_update_subset [of ?as i ?b] ok(1) by auto
  moreover have "\<forall>b\<in>set ((fm_slots m)[i := ?b]). ai_addr b \<noteq> None \<longrightarrow> ai_size b \<le> PAGE_SZ_fork"
    using ok(4) assms(4) set_update_subset_insert [of ?as i ?b] by auto
  ultimately show ?thesis using ok(3) by (auto simp: fm_ok_def)
qed

lemma fill_loop_ok:
  assumes "fm_ok m" "\<forall>i\<in>set js. i < length (fm_slots m)"
  shows "\<exists>b m'. fill_loop ok rnd js m = Some (b, m') \<and> fm_ok m' \<and> length (fm_slots m') = length (fm_slots m)"
  using assms
proof (induction js arbitrary: m)
  case (Cons i js)
  obtain m1 where m1: "free_slot i m = Some m1" "fm_slots m1 = fm_slots m" "fm_next m1 = fm_next m" "fm_rnd m1 = fm_rnd m"
    "\<And>a. ai_addr a = None \<Longrightarrow> fm_ok (m1\<lparr>fm_slots := (fm_slots m)[i := a]\<rparr>)"
    using Cons.prems by (auto elim: free_slot_ok [of m i])
  let ?sz = "rnd (fm_rnd m) mod (PAGE_SZ_fork + 1)"
  have sz: "?sz \<le> PAGE_SZ_fork" using mod_less_divisor [of "PAGE_SZ_fork + 1" "rnd (fm_rnd m)"] by simp
  show ?case
  proof (cases "ok (fm_next m)")
    case False
    have "fm_ok (m1\<lparr>fm_slots := (fm_slots m)[i := (fm_slots m ! i)\<lparr>ai_addr := None\<rparr>]\<rparr>)" by (rule m1(5)) simp
    then show ?thesis using False m1 by (auto simp: fork_random_def xalloc_def Let_def fm_ok_def)
  next
    case True
    let ?m = "m1\<lparr>fm_rnd := fm_rnd m + 1, fm_next := fm_next m + 1, fm_pages := fm_next m # fm_pages m1,
      fm_slots := (fm_slots m)[i := \<lparr>ai_addr = Some (fm_next m), ai_size = ?sz\<rparr>]\<rparr>"
    have "fm_ok (m1\<lparr>fm_slots := (fm_slots m1)[i := \<lparr>ai_addr = None, ai_size = 0\<rparr>]\<rparr>)" unfolding m1(2) by (rule m1(5)) simp
    from fm_ok_new [OF this _ m1(3) sz] have ok: "fm_ok ?m" by (simp add: m1(2) fm_ok_def)
    have "memset_page (fm_next m) ?sz ?m" using sz by (simp add: memset_page_def)
    then have "fill_loop ok rnd (i # js) m = fill_loop ok rnd js ?m"
      using True m1 by (simp add: fork_random_def xalloc_def Let_def)
    then show ?thesis using Cons.IH [OF ok] Cons.prems(2) by auto
  qed
qed auto

lemma drop_loop_ok:
  assumes "fm_ok m" "\<forall>i\<in>set js. i < length (fm_slots m)"
  shows "\<exists>m'. drop_loop rnd js m = Some m' \<and> fm_ok m' \<and> length (fm_slots m') = length (fm_slots m)"
  using assms
proof (induction js arbitrary: m)
  case (Cons i js)
  let ?m = "m\<lparr>fm_rnd := fm_rnd m + 1\<rparr>"
  have ok: "fm_ok ?m" "i < length (fm_slots ?m)" using Cons.prems by simp_all
  show ?case
  proof (cases "odd (rnd (fm_rnd m))")
    case True
    obtain m1 where m1: "free_slot i ?m = Some m1" "fm_slots m1 = fm_slots ?m"
      "\<And>a. ai_addr a = None \<Longrightarrow> fm_ok (m1\<lparr>fm_slots := (fm_slots ?m)[i := a]\<rparr>)"
      using ok by (rule free_slot_ok) auto
    have "fm_ok (m1\<lparr>fm_slots := (fm_slots ?m)[i := \<lparr>ai_addr = None, ai_size = 0\<rparr>]\<rparr>)" by (rule m1(3)) simp
    from Cons.IH [OF this] show ?thesis using True m1(1,2) Cons.prems(2) by (simp add: fork_random_def Let_def)
  next
    case False
    then show ?thesis using Cons.IH [OF ok(1)] Cons.prems(2) by (simp add: fork_random_def)
  qed
qed auto

lemma do_mallocs_ok:
  assumes "fm_ok m"
  obtains m' where "do_mallocs ok rnd m = Some m'" "fm_ok m'" "length (fm_slots m') = length (fm_slots m)"
proof -
  obtain b m1 where "fill_loop ok rnd [0..<length (fm_slots m)] m = Some (b, m1)" "fm_ok m1" "length (fm_slots m1) = length (fm_slots m)"
    using fill_loop_ok [OF assms, of "[0..<length (fm_slots m)]" ok rnd] by auto
  moreover obtain m2 where "drop_loop rnd [0..<length (fm_slots m1)] m1 = Some m2" "fm_ok m2" "length (fm_slots m2) = length (fm_slots m1)"
    using drop_loop_ok [OF \<open>fm_ok m1\<close>, of "[0..<length (fm_slots m1)]" rnd] by auto
  ultimately show thesis using that by (cases b) (auto simp: do_mallocs_def)
qed

lemma child_loop_ok:
  assumes "slot_pages as \<subseteq> set (fm_pages m)" "\<forall>a\<in>set as. ai_addr a \<noteq> None \<longrightarrow> ai_size a \<le> PAGE_SZ_fork"
  shows "child_loop as n m = Some (n + length (filter (\<lambda>a. ai_addr a = None) as))"
  using assms
proof (induction as arbitrary: n)
  case (Cons a as)
  have "slot_pages as \<subseteq> set (fm_pages m)" using Cons.prems(1) by (auto simp: slot_pages_def)
  moreover have "memset_page p (ai_size a) m" if "ai_addr a = Some p" for p
    using that Cons.prems by (auto simp: memset_page_def slot_pages_def)
  ultimately show ?case using Cons by (auto split: option.splits)
qed simp

lemma clone_fn_ok: "fm_ok m \<Longrightarrow> clone_fn m = Some (length (filter (\<lambda>a. ai_addr a = None) (fm_slots m)))"
  unfolding clone_fn_def fm_ok_def using child_loop_ok [of "fm_slots m" m 0] by simp

section \<open>The processes\<close>

text \<open>
  A child has its own copy of the memory; when it is done it has printed the number of free slots
  and has exited. The parent is in its loop, or waits for its count, or has returned.
\<close>

record fork_child =
  ck_mem :: fork_mem
  ck_frees :: "nat option"

abbreviation ck_gone :: "fork_child \<Rightarrow> bool" where
  "ck_gone k \<equiv> ck_frees k \<noteq> None"

datatype fork_phase = Forking nat | Counting | ParentEnds int

record fork_sys =
  fs_phase :: fork_phase
  fs_mem :: fork_mem
  fs_kids :: "fork_child list"
  fs_chld :: bool
  fs_exited :: nat
  fs_printed :: "nat list"

text \<open>The table after \<^verbatim>\<open>malloc\<close>, which need not clear it: \<open>junk\<close> is what was there.\<close>

definition fork_start :: "alloc_info list \<Rightarrow> fork_sys" where
  "fork_start junk =
     \<lparr>fs_phase = Forking 0, fs_mem = \<lparr>fm_slots = junk, fm_pages = [], fm_next = 0, fm_rnd = 0\<rparr>,
      fs_kids = [], fs_chld = False, fs_exited = 0, fs_printed = []\<rparr>"

definition sigchld_handler :: "fork_sys \<Rightarrow> fork_sys" where
  "sigchld_handler s =
     (let (reaped, rest) = reap_loop ck_gone (fs_kids s)
      in s\<lparr>fs_chld := False, fs_kids := rest, fs_exited := fs_exited s + length reaped\<rparr>)"

interpretation fk: reaper fs_kids ck_gone fs_chld sigchld_handler
  by unfold_locales (simp_all add: sigchld_handler_def split: prod.splits)

inductive fork_step :: "(nat \<Rightarrow> bool) \<Rightarrow> (nat \<Rightarrow> nat) \<Rightarrow> nat \<Rightarrow> fork_sys \<Rightarrow> fork_sys \<Rightarrow> bool" for ok rnd iters where
  forks: "fs_phase s = Forking i \<Longrightarrow> i < iters \<Longrightarrow> do_mallocs ok rnd (fs_mem s) = Some m \<Longrightarrow>
    fork_step ok rnd iters s (s\<lparr>fs_phase := Forking (i + 1), fs_mem := m,
      fs_kids := fs_kids s @ [\<lparr>ck_mem = m, ck_frees = None\<rparr>]\<rparr>)"
| fork_fails: "fs_phase s = Forking i \<Longrightarrow> i < iters \<Longrightarrow> do_mallocs ok rnd (fs_mem s) = Some m \<Longrightarrow>
    fork_step ok rnd iters s (s\<lparr>fs_phase := ParentEnds (- 1), fs_mem := m\<rparr>)"
| forked_all: "fs_phase s = Forking i \<Longrightarrow> \<not> i < iters \<Longrightarrow> fork_step ok rnd iters s (s\<lparr>fs_phase := Counting\<rparr>)"
| child_runs: "j < length (fs_kids s) \<Longrightarrow> \<not> ck_gone (fs_kids s ! j) \<Longrightarrow> clone_fn (ck_mem (fs_kids s ! j)) = Some n \<Longrightarrow>
    fork_step ok rnd iters s (s\<lparr>fs_chld := True, fs_printed := fs_printed s @ [n],
      fs_kids := (fs_kids s)[j := (fs_kids s ! j)\<lparr>ck_frees := Some n\<rparr>]\<rparr>)"
| handler: "fs_chld s \<Longrightarrow> (\<forall>rc. fs_phase s \<noteq> ParentEnds rc) \<Longrightarrow> fork_step ok rnd iters s (sigchld_handler s)"
| counted: "fs_phase s = Counting \<Longrightarrow> iters \<le> fs_exited s \<Longrightarrow> fork_step ok rnd iters s (s\<lparr>fs_phase := ParentEnds 0\<rparr>)"

section \<open>Every run ends\<close>

definition phase_weight :: "nat \<Rightarrow> fork_phase \<Rightarrow> nat" where
  "phase_weight iters p = (case p of Forking i \<Rightarrow> 4 * (iters - i) + 2 | Counting \<Rightarrow> 1 | ParentEnds _ \<Rightarrow> 0)"

definition kids_weight :: "fork_child list \<Rightarrow> nat" where
  "kids_weight ks = (\<Sum>k\<leftarrow>ks. if ck_gone k then 1 else 3)"

definition fork_weight :: "nat \<Rightarrow> fork_sys \<Rightarrow> nat" where
  "fork_weight iters s = phase_weight iters (fs_phase s) + kids_weight (fs_kids s) + (if fs_chld s then 1 else 0)"

lemma kids_weight_update:
  "j < length ks \<Longrightarrow> ck_frees (ks ! j) = None \<Longrightarrow> kids_weight (ks[j := k\<lparr>ck_frees := Some n\<rparr>]) + 2 = kids_weight ks"
proof (induction ks arbitrary: j)
  case (Cons x ks)
  then show ?case by (cases j) (auto simp: kids_weight_def)
qed simp

lemma kids_weight_filter: "kids_weight (filter P ks) \<le> kids_weight ks"
  by (induction ks) (auto simp: kids_weight_def)

lemma fork_step_weight:
  assumes "fork_step ok rnd iters s s'"
  shows "fork_weight iters s' < fork_weight iters s"
  using assms
proof (induction rule: fork_step.induct)
  case (child_runs j s n)
  then show ?case using kids_weight_update [of j "fs_kids s" n "fs_kids s ! j"] by (auto simp: fork_weight_def)
next
  case (handler s)
  then show ?case using kids_weight_filter [of "\<lambda>k. \<not> ck_gone k" "fs_kids s"] fk.reaps [of s] fk.pending_handler [of s]
    by (simp add: fork_weight_def) (simp add: sigchld_handler_def split: prod.splits)
qed (auto simp: fork_weight_def phase_weight_def kids_weight_def)

lemma fork_steps_weight: "(fork_step ok rnd iters ^^ n) s s' \<Longrightarrow> n + fork_weight iters s' \<le> fork_weight iters s"
proof (induction n arbitrary: s')
  case (Suc n)
  then obtain t where "(fork_step ok rnd iters ^^ n) s t" "fork_step ok rnd iters t s'" by auto
  then show ?case using Suc.IH fork_step_weight by fastforce
qed simp

section \<open>What a run comes to\<close>

definition zeroed :: "nat \<Rightarrow> alloc_info list" where
  "zeroed n = replicate n \<lparr>ai_addr = None, ai_size = 0\<rparr>"

text \<open>
  Every child created is counted or still there, one that has exited is announced by a pending signal,
  and all memories are sound.
\<close>

definition fork_ok :: "nat \<Rightarrow> fork_sys \<Rightarrow> bool" where
  "fork_ok iters s \<longleftrightarrow> fm_ok (fs_mem s) \<and> (\<forall>k\<in>set (fs_kids s). fm_ok (ck_mem k)) \<and>
     (\<forall>k\<in>set (fs_kids s). ck_gone k \<longrightarrow> fs_chld s) \<and>
     length (fs_printed s) = fs_exited s + length (filter ck_gone (fs_kids s)) \<and>
     (case fs_phase s of
        Forking i \<Rightarrow> i \<le> iters \<and> fs_exited s + length (fs_kids s) = i
      | Counting \<Rightarrow> fs_exited s + length (fs_kids s) = iters
      | ParentEnds rc \<Rightarrow> rc = 0 \<longrightarrow> fs_exited s = iters \<and> fs_kids s = [])"

lemma fork_ok_handler:
  assumes "fork_ok iters s" "\<forall>rc. fs_phase s \<noteq> ParentEnds rc"
  shows "fork_ok iters (sigchld_handler s)"
proof -
  have "length (filter ck_gone (fs_kids s)) + length (filter (\<lambda>k. \<not> ck_gone k) (fs_kids s)) = length (fs_kids s)"
    by (rule sum_length_filter_compl)
  then show ?thesis using assms by (auto simp: fork_ok_def sigchld_handler_def reap_loop_all filter_empty_conv split: fork_phase.splits)
qed

lemma filter_gone_update:
  "j < length ks \<Longrightarrow> \<not> ck_gone (ks ! j) \<Longrightarrow>
     length (filter ck_gone (ks[j := k\<lparr>ck_frees := Some n\<rparr>])) = Suc (length (filter ck_gone ks))"
proof (induction ks arbitrary: j)
  case (Cons x ks)
  then show ?case by (cases j) auto
qed simp

lemma fork_ok_child:
  assumes "fork_ok iters s" "j < length (fs_kids s)" "\<not> ck_gone (fs_kids s ! j)"
  shows "fork_ok iters (s\<lparr>fs_chld := True, fs_printed := fs_printed s @ [n],
    fs_kids := (fs_kids s)[j := (fs_kids s ! j)\<lparr>ck_frees := Some n\<rparr>]\<rparr>)"
proof -
  let ?k = "(fs_kids s ! j)\<lparr>ck_frees := Some n\<rparr>"
  have "fm_ok (ck_mem k)" if "k \<in> set ((fs_kids s)[j := ?k])" for k
    using that assms set_update_subset_insert [of "fs_kids s" j ?k] by (auto simp: fork_ok_def)
  then show ?thesis using assms filter_gone_update [OF assms(2,3), of n "fs_kids s ! j"]
    by (auto simp: fork_ok_def split: fork_phase.splits)
qed

lemma fork_ok_step:
  assumes "fork_step ok rnd iters s s'" "fork_ok iters s"
  shows "fork_ok iters s'"
  using assms
proof (induction rule: fork_step.induct)
  case (forks s i m)
  then have "fm_ok m" by (auto simp: fork_ok_def elim!: do_mallocs_ok [of "fs_mem s" ok rnd])
  then show ?case using forks by (auto simp: fork_ok_def)
next
  case (fork_fails s i m)
  then have "fm_ok m" by (auto simp: fork_ok_def elim!: do_mallocs_ok [of "fs_mem s" ok rnd])
  then show ?case using fork_fails by (auto simp: fork_ok_def)
next
  case (forked_all s i)
  then show ?case by (auto simp: fork_ok_def)
next
  case (counted s)
  then show ?case by (auto simp: fork_ok_def)
qed (auto intro: fork_ok_handler fork_ok_child)

lemma fork_ok_start:
  assumes "list_all (\<lambda>a. ai_addr a = None) junk"
  shows "fork_ok iters (fork_start junk)"
proof -
  have n: "ai_addr (junk ! i) = None" if "i < length junk" for i using assms that by (simp add: list_all_length)
  have "\<forall>a\<in>set junk. ai_addr a = None" using assms by (simp add: list_all_iff)
  then show ?thesis using n by (auto simp: fork_ok_def fork_start_def fm_ok_def slot_pages_def slots_apart_def)
qed

lemma fork_ok_run: "(fork_step ok rnd iters)\<^sup>*\<^sup>* s s' \<Longrightarrow> fork_ok iters s \<Longrightarrow> fork_ok iters s'"
  by (induction rule: rtranclp_induct) (auto intro: fork_ok_step)

lemma fork_not_stuck:
  assumes "fork_ok iters s" "\<forall>rc. fs_phase s \<noteq> ParentEnds rc"
  shows "\<exists>s'. fork_step ok rnd iters s s'"
proof (cases "fs_phase s")
  case (Forking i)
  have "fm_ok (fs_mem s)" using assms(1) by (simp add: fork_ok_def)
  then obtain m where "do_mallocs ok rnd (fs_mem s) = Some m" by (rule do_mallocs_ok [of _ ok rnd])
  then show ?thesis using Forking by (cases "i < iters") (blast intro: fork_step.intros)+
next
  case Counting
  show ?thesis
  proof (cases "fs_kids s")
    case Nil
    then show ?thesis using Counting assms(1) fork_step.counted [of s iters] by (auto simp: fork_ok_def)
  next
    case (Cons k ks)
    have k: "k \<in> set (fs_kids s)" using Cons by simp
    show ?thesis
    proof (cases "ck_gone k")
      case True
      then have "fs_chld s" using k assms(1) by (auto simp: fork_ok_def)
      then show ?thesis using assms(2) by (blast intro: fork_step.handler)
    next
      case False
      have "fm_ok (ck_mem k)" using k assms(1) by (auto simp: fork_ok_def)
      then obtain n where "clone_fn (ck_mem k) = Some n" by (simp add: clone_fn_ok)
      then show ?thesis using fork_step.child_runs [of 0 s n] Cons False by auto
    qed
  qed
qed (use assms(2) in auto)

text \<open>
  Property C19: the fork test ends, provided that in the table it gets from \<^verbatim>\<open>malloc\<close> and never clears
  every address happens to be null. Then no run of parent, children and handler has more than
  \<open>4 * iters + 2\<close> steps, in whatever order they run, mappings fail and signals merge; no
  store leaves its page; and a run that cannot go on has returned: with 0 only after it counted all
  its children, each of which has printed its number of free slots, and otherwise because a fork failed.
\<close>

theorem test_fork_ends:
  assumes "list_all (\<lambda>a. ai_addr a = None) junk" "(fork_step ok rnd iters ^^ n) (fork_start junk) s"
  shows "n \<le> 4 * iters + 2 \<and>
    ((\<exists>s'. fork_step ok rnd iters s s') \<or> (\<exists>rc. fs_phase s = ParentEnds rc)) \<and>
    (fs_phase s = ParentEnds 0 \<longrightarrow> fs_exited s = iters \<and> fs_kids s = [] \<and> length (fs_printed s) = iters)"
proof -
  have w: "fork_weight iters (fork_start junk) = 4 * iters + 2"
    by (simp add: fork_weight_def fork_start_def phase_weight_def kids_weight_def)
  have ok: "fork_ok iters s" using fork_ok_run [OF relpowp_imp_rtranclp [OF assms(2)] fork_ok_start [OF assms(1)]] .
  then show ?thesis using fork_steps_weight [OF assms(2)] w fork_not_stuck [OF ok, of ok rnd] by (auto simp: fork_ok_def)
qed

text \<open>One iteration with one slot, which is filled and freed again; the run has five steps.\<close>

definition fork_example :: "fork_phase \<Rightarrow> fork_child list \<Rightarrow> bool \<Rightarrow> nat \<Rightarrow> nat list \<Rightarrow> fork_sys" where
  "fork_example ph ks z x ps =
     \<lparr>fs_phase = ph, fs_mem = \<lparr>fm_slots = zeroed 1, fm_pages = [], fm_next = 1, fm_rnd = 2\<rparr>,
      fs_kids = ks, fs_chld = z, fs_exited = x, fs_printed = ps\<rparr>"

lemma relpowp_5: "S a b \<Longrightarrow> S b c \<Longrightarrow> S c d \<Longrightarrow> S d e \<Longrightarrow> S e f \<Longrightarrow> (S ^^ 5) a f"
  by (simp add: numeral_eq_Suc) blast

lemma fork_example_run:
  "(fork_step (\<lambda>_. True) (\<lambda>_. 1) 1 ^^ 5) (fork_start (zeroed 1)) (fork_example (ParentEnds 0) [] False 1 [1])"
proof -
  let ?S = "fork_step (\<lambda>_. True) (\<lambda>_. 1) 1"
  let ?m = "\<lparr>fm_slots = zeroed 1, fm_pages = [], fm_next = 1, fm_rnd = 2\<rparr>"
  have m: "do_mallocs (\<lambda>_. True) (\<lambda>_. 1) (fs_mem (fork_start (zeroed 1))) = Some ?m"
    by (simp add: do_mallocs_def zeroed_def fork_start_def free_slot_def xfree_def fork_random_def xalloc_def memset_page_def PAGE_SZ_fork_def)
  have "?S (fork_start (zeroed 1)) (fork_example (Forking 1) [\<lparr>ck_mem = ?m, ck_frees = None\<rparr>] False 0 [])"
    using fork_step.forks [OF _ _ m, of 0 1] by (simp add: fork_start_def fork_example_def)
  moreover have "?S (fork_example (Forking 1) [\<lparr>ck_mem = ?m, ck_frees = None\<rparr>] False 0 [])
    (fork_example (Forking 1) [\<lparr>ck_mem = ?m, ck_frees = Some 1\<rparr>] True 0 [1])"
    using fork_step.child_runs [of 0 "fork_example (Forking 1) [\<lparr>ck_mem = ?m, ck_frees = None\<rparr>] False 0 []" 1]
    by (simp add: fork_example_def clone_fn_def zeroed_def)
  moreover have "?S (fork_example (Forking 1) [\<lparr>ck_mem = ?m, ck_frees = Some 1\<rparr>] True 0 [1]) (fork_example (Forking 1) [] False 1 [1])"
    using fork_step.handler [of "fork_example (Forking 1) [\<lparr>ck_mem = ?m, ck_frees = Some 1\<rparr>] True 0 [1]"]
    by (simp add: fork_example_def sigchld_handler_def reap_loop_all)
  moreover have "?S (fork_example (Forking 1) [] False 1 [1]) (fork_example Counting [] False 1 [1])"
    using fork_step.forked_all [of "fork_example (Forking 1) [] False 1 [1]" 1] by (simp add: fork_example_def)
  moreover have "?S (fork_example Counting [] False 1 [1]) (fork_example (ParentEnds 0) [] False 1 [1])"
    using fork_step.counted [of "fork_example Counting [] False 1 [1]"] by (simp add: fork_example_def)
  ultimately show ?thesis by (rule relpowp_5)
qed

theorem test_fork_ends_witness:
  "(5 :: nat) \<le> 4 * 1 + 2 \<and> fs_exited (fork_example (ParentEnds 0) [] False 1 [1]) = 1"
  using test_fork_ends [OF _ fork_example_run] by (simp add: fork_example_def zeroed_def)

section \<open>Leaks\<close>

text \<open>
  A page of size 0 is never unmapped: here the only slot is filled with size 0 twice, and the first
  page stays mapped with no slot that names it.
\<close>

lemma zero_size_leaks:
  "map_option (\<lambda>(_, m). fm_pages m)
     (fill_loop (\<lambda>_. True) (\<lambda>_. 0) [0, 0] \<lparr>fm_slots = zeroed 1, fm_pages = [], fm_next = 0, fm_rnd = 0\<rparr>) = Some [1, 0]"
  by (simp add: zeroed_def free_slot_def xfree_def fork_random_def xalloc_def memset_page_def)

text \<open>The first round frees what it finds in memory that was never written.\<close>

lemma junk_is_freed:
  "do_mallocs ok rnd \<lparr>fm_slots = [\<lparr>ai_addr = Some p, ai_size = sz\<rparr>], fm_pages = [], fm_next = 0, fm_rnd = 0\<rparr> = None"
  by (simp add: do_mallocs_def free_slot_def xfree_def)

text \<open>The sleep of a child is below 65536 microseconds.\<close>

lemma clone_sleep_bound: "clone_sleep nsec < 65536"
proof -
  have "clone_sleep nsec \<le> 0xffff" unfolding clone_sleep_def by (rule word_and_le1)
  then show ?thesis by (rule order.strict_trans1) simp
qed

end
