(* ===== verification/Scandir.thy ===== *)
theory Scandir
  imports Prelude
begin

text \<open>
  The directory listing of \<^verbatim>\<open>src/test_scandir.c\<close>. \<^verbatim>\<open>scandir\<close> of the C library reads the entries, keeps
  those the selector accepts and sorts them with the given comparison; its sorting is a parameter
  with the law of \<^verbatim>\<open>qsort\<close>, and \<^verbatim>\<open>stat\<close> is a function of the name alone, because the code passes the
  bare name.
\<close>

datatype d_type = DT_REG | DT_OTHER

record dirent =
  d_name :: string
  d_kind :: d_type

text \<open>Sorting keeps the entries, and orders them when the comparison is that of some number.\<close>

definition compares_by :: "('a \<Rightarrow> int) \<Rightarrow> ('a \<Rightarrow> 'a \<Rightarrow> int) \<Rightarrow> 'a list \<Rightarrow> bool" where
  "compares_by key cmp xs \<longleftrightarrow> (\<forall>a\<in>set xs. \<forall>b\<in>set xs. cmp a b \<le> 0 \<longleftrightarrow> key a \<le> key b)"

definition qsort_ok :: "(('a \<Rightarrow> 'a \<Rightarrow> int) \<Rightarrow> 'a list \<Rightarrow> 'a list) \<Rightarrow> bool" where
  "qsort_ok qsort \<longleftrightarrow> (\<forall>cmp xs. mset (qsort cmp xs) = mset xs \<and>
     (\<forall>key. compares_by key cmp xs \<longrightarrow> sorted_wrt (\<lambda>a b. key a \<le> key b) (qsort cmp xs)))"

definition datesort :: "(string \<Rightarrow> int option) \<Rightarrow> dirent \<Rightarrow> dirent \<Rightarrow> int" where
  "datesort stat a b =
     (case stat (d_name a) of
        None \<Rightarrow> 0
      | Some st_a \<Rightarrow>
          (case stat (d_name b) of
             None \<Rightarrow> 0
           | Some st_b \<Rightarrow> if st_b < st_a then 1 else if st_a < st_b then - 1 else 0))"

definition selector :: "dirent \<Rightarrow> int" where
  "selector ent = (if d_kind ent = DT_REG then 1 else 0)"

text \<open>The loop of \<^verbatim>\<open>main\<close>, which goes down from the last entry: \<open>n\<close> entries are left to print.\<close>

fun print_loop :: "dirent list \<Rightarrow> nat \<Rightarrow> string list" where
  "print_loop namelist 0 = []"
| "print_loop namelist (Suc n) = d_name (namelist ! n) # print_loop namelist n"

definition scandir ::
  "((dirent \<Rightarrow> dirent \<Rightarrow> int) \<Rightarrow> dirent list \<Rightarrow> dirent list) \<Rightarrow> dirent list option \<Rightarrow>
     (dirent \<Rightarrow> int) \<Rightarrow> (dirent \<Rightarrow> dirent \<Rightarrow> int) \<Rightarrow> dirent list option" where
  "scandir qsort entries sel cmp = map_option (\<lambda>es. qsort cmp (filter (\<lambda>e. sel e \<noteq> 0) es)) entries"

definition scandir_main ::
  "((dirent \<Rightarrow> dirent \<Rightarrow> int) \<Rightarrow> dirent list \<Rightarrow> dirent list) \<Rightarrow> (string \<Rightarrow> int option) \<Rightarrow> dirent list option \<Rightarrow>
     string list option" where
  "scandir_main qsort stat entries =
     map_option (\<lambda>namelist. print_loop namelist (length namelist)) (scandir qsort entries selector (datesort stat))"

section \<open>What is printed\<close>

lemma print_loop_take: "n \<le> length xs \<Longrightarrow> print_loop xs n = rev (map d_name (take n xs))"
  by (induction n) (simp_all add: take_Suc_conv_app_nth)

lemma datesort_compares:
  "\<forall>e\<in>set es. stat (d_name e) = Some (mtime (d_name e)) \<Longrightarrow> compares_by (\<lambda>e. mtime (d_name e)) (datesort stat) es"
  by (auto simp: compares_by_def datesort_def)

text \<open>
  When every name can be looked up the program prints the names of the regular files, each as
  often as it occurs, the latest modification first.
\<close>

theorem scandir_main_newest_first:
  assumes "qsort_ok qsort" "\<forall>e\<in>set es. stat (d_name e) = Some (mtime (d_name e))"
  shows "\<exists>ns. scandir_main qsort stat (Some es) = Some ns \<and>
    mset ns = mset (map d_name (filter (\<lambda>e. d_kind e = DT_REG) es)) \<and>
    sorted_wrt (\<lambda>a b. mtime b \<le> mtime a) ns"
proof -
  let ?fs = "filter (\<lambda>e. d_kind e = DT_REG) es"
  define q where "q = qsort (datesort stat) ?fs"
  have f: "filter (\<lambda>e. selector e \<noteq> 0) es = ?fs" by (rule filter_cong) (auto simp: selector_def)
  have "compares_by (\<lambda>e. mtime (d_name e)) (datesort stat) ?fs" using assms(2) by (intro datesort_compares) auto
  then have q: "mset q = mset ?fs" "sorted_wrt (\<lambda>a b. mtime (d_name a) \<le> mtime (d_name b)) q"
    using assms(1) unfolding qsort_ok_def q_def by blast+
  have "scandir_main qsort stat (Some es) = Some (rev (map d_name q))"
    by (simp add: scandir_main_def scandir_def f print_loop_take flip: q_def)
  moreover have "mset (rev (map d_name q)) = mset (map d_name ?fs)" using q(1) by simp
  moreover have "sorted_wrt (\<lambda>a b. mtime b \<le> mtime a) (rev (map d_name q))"
    using q(2) by (simp add: sorted_wrt_rev sorted_wrt_map)
  ultimately show ?thesis by blast
qed

text \<open>
  Names are looked up in the working directory: for another directory the look-up fails, and a
  comparison that always gives 0 leaves any order as it is.
\<close>

lemma datesort_elsewhere: "stat (d_name a) = None \<or> stat (d_name b) = None \<Longrightarrow> datesort stat a b = 0"
  by (auto simp: datesort_def split: option.splits)

text \<open>A sorting with the law: insertion by the comparison.\<close>

fun cmp_insert :: "('a \<Rightarrow> 'a \<Rightarrow> int) \<Rightarrow> 'a \<Rightarrow> 'a list \<Rightarrow> 'a list" where
  "cmp_insert cmp x [] = [x]"
| "cmp_insert cmp x (y # ys) = (if cmp x y \<le> 0 then x # y # ys else y # cmp_insert cmp x ys)"

definition cmp_sort :: "('a \<Rightarrow> 'a \<Rightarrow> int) \<Rightarrow> 'a list \<Rightarrow> 'a list" where
  "cmp_sort cmp xs = foldr (cmp_insert cmp) xs []"

lemma mset_cmp_insert [simp]: "mset (cmp_insert cmp x ys) = add_mset x (mset ys)"
  by (induction ys) auto

lemma set_cmp_insert [simp]: "set (cmp_insert cmp x ys) = insert x (set ys)"
  by (metis mset_cmp_insert set_mset_add_mset_insert set_mset_mset)

lemma mset_cmp_sort [simp]: "mset (cmp_sort cmp xs) = mset xs"
  by (induction xs) (auto simp: cmp_sort_def)

lemma cmp_insert_sorted:
  assumes "compares_by key cmp (x # ys)" "sorted_wrt (\<lambda>a b. key a \<le> key b) ys"
  shows "sorted_wrt (\<lambda>a b. key a \<le> key b) (cmp_insert cmp x ys)"
  using assms by (induction ys) (fastforce simp: compares_by_def)+

lemma qsort_ok_cmp_sort: "qsort_ok cmp_sort"
  unfolding qsort_ok_def
proof (intro allI conjI impI)
  fix cmp :: "'a \<Rightarrow> 'a \<Rightarrow> int" and xs key
  show "mset (cmp_sort cmp xs) = mset xs" by simp
  assume "compares_by key cmp xs"
  then show "sorted_wrt (\<lambda>a b. key a \<le> key b) (cmp_sort cmp xs)"
  proof (induction xs)
    case (Cons x xs)
    have "set (cmp_sort cmp xs) = set xs" by (metis mset_cmp_sort set_mset_mset)
    then have "compares_by key cmp (x # cmp_sort cmp xs)" using Cons.prems by (simp add: compares_by_def)
    moreover have "compares_by key cmp xs" using Cons.prems by (simp add: compares_by_def)
    ultimately show ?case using Cons.IH cmp_insert_sorted by (simp add: cmp_sort_def)
  qed (simp add: cmp_sort_def)
qed

end
