(* ===== verification/Small_Tests.thy ===== *)
theory Small_Tests
  imports C_Library
begin

unbundle bit_operations_syntax

text \<open>
  Four short test programs: the sleep test \<^verbatim>\<open>src/test_nanosleep.c\<close> with its array of times, the buffer
  check \<^verbatim>\<open>src/test_sigusr1.c\<close>, the string hash \<^verbatim>\<open>src/test_hash.c\<close> and the terminal commands of
  \<^verbatim>\<open>src/test_termios.c\<close>.
\<close>

section \<open>The sleep test\<close>

text \<open>
  One turn of the loop: what the sleep returned (only the build with \<^verbatim>\<open>TEST_NANOSLEEP\<close> looks at it)
  and the clock before and after, as seconds and nanoseconds.
\<close>

record nano_turn =
  nt_fails :: bool
  nt_ts1 :: "u64 \<times> u64"
  nt_ts2 :: "u64 \<times> u64"

definition ts_delta :: "u64 \<times> u64 \<Rightarrow> u64 \<times> u64 \<Rightarrow> u64" where
  "ts_delta ts1 ts2 = fst ts2 * 1000000000 + snd ts2 - fst ts1 * 1000000000 - snd ts1"

datatype nano_line = NanoIter nat u64 | NanoFails

text \<open>
  The loop for the index \<open>i\<close> before its increment: the array and the lines printed, or \<open>None\<close> when
  a store lies outside the array.
\<close>

function nano_loop ::
  "bool \<Rightarrow> (nat \<Rightarrow> nano_turn) \<Rightarrow> nat \<Rightarrow> nat \<Rightarrow> u64 list \<Rightarrow> (u64 list \<times> nano_line list) option" where
  "nano_loop nano turn iters i arr =
     (if \<not> i < iters then Some (arr, [])
      else
        let i = i + 1; t = turn i in
        if nano \<and> nt_fails t then Some (arr, [NanoFails])
        else if length arr \<le> i then None
        else let d = ts_delta (nt_ts1 t) (nt_ts2 t)
             in map_option (\<lambda>(arr, out). (arr, NanoIter i d # out)) (nano_loop nano turn iters i (arr[i := d])))"
  by pat_completeness auto
termination by (relation "measure (\<lambda>(nano, turn, iters, i, arr). iters - i)") auto

declare nano_loop.simps [simp del]

text \<open>\<open>argv\<close> includes the program's name; \<open>fresh\<close> and \<open>junk\<close> are what memory and \<^verbatim>\<open>iters\<close> hold before they are set.\<close>

definition nanosleep_main ::
  "bool \<Rightarrow> (nat \<Rightarrow> nano_turn) \<Rightarrow> (nat \<Rightarrow> u64) \<Rightarrow> int \<Rightarrow> string list \<Rightarrow> (int \<times> nano_line list) option" where
  "nanosleep_main nano turn fresh junk argv =
     (if length argv < 3 then Some (- 2, [])
      else let iters = nat (scan_into (argv ! 2) junk)
           in map_option (\<lambda>(_, out). (0, out)) (nano_loop nano turn iters 0 (map fresh [0..<iters])))"

text \<open>
  The array has as many elements as there are turns and the index is stepped before the store:
  the loop leaves the array in its last turn, unless there are no turns or a sleep is interrupted.
\<close>

lemma nano_loop_overruns:
  assumes "i < iters" "length arr = iters"
  shows "nano_loop nano turn iters i arr = None \<longleftrightarrow> \<not> (nano \<and> (\<exists>j>i. j \<le> iters \<and> nt_fails (turn j)))"
  using assms
proof (induction nano turn iters i arr rule: nano_loop.induct)
  case (1 nano turn iters i arr)
  let ?t = "turn (i + 1)"
  consider (f) "nano \<and> nt_fails ?t" | (l) "\<not> (nano \<and> nt_fails ?t)" "iters = i + 1"
    | (g) "\<not> (nano \<and> nt_fails ?t)" "i + 1 < iters" using "1.prems"(1) by linarith
  then show ?case
  proof cases
    case f
    then show ?thesis using "1.prems" by (subst nano_loop.simps) (auto simp: Let_def intro!: exI [of _ "Suc i"])
  next
    case l
    have "(\<exists>j>i. j \<le> iters \<and> nt_fails (turn j)) \<longleftrightarrow> nt_fails ?t" using l(2) by (auto simp: le_Suc_eq)
    then show ?thesis using l "1.prems" by (subst nano_loop.simps) (auto simp: Let_def)
  next
    case g
    have e: "(\<exists>j>i. j \<le> iters \<and> nt_fails (turn j)) \<longleftrightarrow> nt_fails ?t \<or> (\<exists>j>i + 1. j \<le> iters \<and> nt_fails (turn j))"
      using g(2) by (metis Suc_eq_plus1 Suc_lessI less_imp_le_nat less_Suc_eq_le less_trans lessI)
    have ih: "nano_loop nano turn iters (i + 1) (arr[i + 1 := ts_delta (nt_ts1 ?t) (nt_ts2 ?t)]) = None \<longleftrightarrow>
      \<not> (nano \<and> (\<exists>j>i + 1. j \<le> iters \<and> nt_fails (turn j)))"
      using "1.prems" g by (intro "1.IH") auto
    show ?thesis using g "1.prems" e ih by (subst nano_loop.simps) (auto simp: Let_def)
  qed
qed

lemma usleep_build_overruns:
  assumes "0 < n" "n < 2 ^ 31"
  shows "nanosleep_main False turn fresh junk [prog, ns, int_string (int n)] = None"
  using assms nano_loop_overruns [of 0 n "map fresh [0..<n]" False turn]
  by (simp add: nanosleep_main_def scan_into_int_string)

section \<open>The buffer check\<close>

fun verify_buf :: "u8 list \<Rightarrow> u8 \<Rightarrow> int" where
  "verify_buf [] pat = 0"
| "verify_buf (b # buf) pat = (if b \<noteq> pat then 0 else verify_buf buf pat)"

text \<open>
  The rounds of \<^verbatim>\<open>main\<close> for the buffer as the sleep leaves it (\<open>after k\<close> is what became of the pattern in
  round \<open>k\<close>): the number of the first round after which it says that the check failed.
\<close>

fun sigusr1_rounds :: "(nat \<Rightarrow> u8 \<Rightarrow> u8 list) \<Rightarrow> nat \<Rightarrow> nat \<Rightarrow> u8 \<Rightarrow> nat option" where
  "sigusr1_rounds after k 0 pat = None"
| "sigusr1_rounds after k (Suc n) pat =
     (if verify_buf (after k pat) pat = 0 then Some k else sigusr1_rounds after (k + 1) n (pat + 1))"

text \<open>The check never succeeds, and the program reports a failure in its first round, also for an untouched buffer.\<close>

lemma verify_buf_0: "verify_buf buf pat = 0"
  by (induction buf) auto

lemma sigusr1_reports: "sigusr1_rounds (\<lambda>_ pat. replicate (4096 * 1024) pat) 0 (Suc n) 1 = Some 0"
  by (simp add: verify_buf_0)

section \<open>The string hash\<close>

text \<open>Characters are signed; \<^verbatim>\<open>int\<close> wraps.\<close>

definition hash_char :: "char \<Rightarrow> u32" where
  "hash_char c = (let v = schar (of_char c) in word_of_int (v * 16) + word_of_int (v div 16))"

definition my_hash :: "string \<Rightarrow> u32" where
  "my_hash s = foldl (\<lambda>h c. (h + hash_char c) * 11) 0 s"

definition hash_main :: "string list \<Rightarrow> u32 option" where
  "hash_main argv = (if length argv < 2 then None else Some (my_hash (argv ! 1) AND 63))"

lemma my_hash_append: "my_hash (s @ t) = my_hash s * 11 ^ length t + my_hash t"
proof (induction t rule: rev_induct)
  case (snoc c t)
  have "my_hash (s @ t @ [c]) = (my_hash (s @ t) + hash_char c) * 11" by (simp add: my_hash_def)
  also have "\<dots> = my_hash s * 11 ^ length (t @ [c]) + (my_hash t + hash_char c) * 11" by (simp add: snoc algebra_simps)
  finally show ?case by (simp add: my_hash_def)
qed (simp add: my_hash_def)

text \<open>The number printed selects one of 64 slots.\<close>

lemma hash_main_slot: "hash_main argv = Some h \<Longrightarrow> h < 64"
proof -
  assume "hash_main argv = Some h"
  then have "h \<le> 63" by (auto simp: hash_main_def word_and_le1 split: if_splits)
  then show "h < 64" by (rule order.strict_trans1) simp
qed

section \<open>The terminal commands\<close>

datatype term_call = Tcflush_TCIOFLUSH | Ioctl_TIOCSTI | Tcflush_TCOON | Tcflush_TCOOFF | Tcflow_TCIOFF | Tcflow_TCION

text \<open>The call a command leads to; \<open>None\<close> is the report of an invalid command.\<close>

definition termios_cmd :: "string \<Rightarrow> term_call option" where
  "termios_cmd cmd =
     (if cmd = ''flush'' then Some Tcflush_TCIOFLUSH
      else if cmd = ''insert'' then Some Ioctl_TIOCSTI
      else if cmd = ''restart'' then Some Tcflush_TCOON
      else if cmd = ''suspend'' then Some Tcflush_TCOOFF
      else if cmd = ''stop'' then Some Tcflow_TCIOFF
      else if cmd = ''stop'' then Some Tcflow_TCION
      else None)"

text \<open>\<open>call_ok\<close> says that the call succeeds: the result, the call made, and the error reported.\<close>

definition termios_main :: "bool \<Rightarrow> (term_call \<Rightarrow> bool) \<Rightarrow> string list \<Rightarrow> int \<times> term_call option \<times> bool" where
  "termios_main open_ok call_ok argv =
     (if length argv < 3 then (- 1, None, False)
      else if \<not> open_ok then (- 1, None, True)
      else case termios_cmd (argv ! 2) of
             None \<Rightarrow> (0, None, False)
           | Some c \<Rightarrow> (0, Some c, \<not> call_ok c))"

text \<open>The input of the terminal can be stopped, and no command starts it again.\<close>

lemma termios_never_restarts:
  "fst (snd (termios_main o_ok call_ok argv)) \<noteq> Some Tcflow_TCION"
  "termios_cmd ''stop'' = Some Tcflow_TCIOFF"
  by (auto simp: termios_main_def termios_cmd_def split: option.splits if_splits)

end
