(* ===== verification/Spec2Isabelle.thy ===== *)
theory Spec2Isabelle
  imports Prelude Sparse_Array Cpio_Command Test_Xlock Test_Sem Bignum Strstr Malloc_Stats Malloc_Hsearch
    Uevent Cpu_Hogd Frw Slam_Threads Producer Hist Pci_Config Cpu_Tasks Wakeup Timers Gnu_Tsearch Pipes Malloc_Test Brackets Bitarray
    Myhash Bsearch Int_Update Cpu_Khz Arp_Add Sched_Test Xlock_Debug Mask Wakeup_Fork Mysqrt
    Udp_Echo Hog_Processes Test_Fork Scandir Small_Tests
begin

text \<open>
  A verification library for the C programs of this repository: a threaded archive generator, locks
  and semaphores on futexes and on pthreads, containers, allocation trackers and small system
  programs, each a few hundred lines of C under \<^verbatim>\<open>src/\<close> with a \<^verbatim>\<open>main\<close> of its own. Programs share code
  only through \<^verbatim>\<open>xlock.c\<close>, \<^verbatim>\<open>xsem.c\<close>, \<^verbatim>\<open>psem.c\<close> and \<^verbatim>\<open>utils.c\<close>; everything else they share is the C library.

  \<^bold>\<open>Conventions.\<close> A C struct is a record, an enum a datatype, a w-bit integer a word where it can wrap
  around and an \<open>int\<close> or \<open>nat\<close> where the theorems show or assume that it does not. An array is a list,
  and every access that the code does not check is checked in the model: the value \<open>None\<close> (in the
  archive generator the outcome of a crash) is an access outside an array, the use of a null or freed
  pointer, an overflow of a signed integer, or, for the \<open>partial_function\<close> definitions, a loop that does not end. A theorem that a
  program returns is stated as such, with \<open>Some\<close>. Threads and processes are step relations that interleave
  freely. What the kernel and the allocator decide (results of system calls, random numbers, clocks,
  pointers) is a parameter; laws that the code relies on are named predicates (\<open>os_ok\<close>, \<open>ghash_ok\<close>,
  \<open>tsearch_ok\<close>, \<open>allocator_ok\<close>, \<open>grows\<close>, \<open>qsort_ok\<close>), each with a concrete instance in a witness. Printing is the list of
  what is printed, where it matters, and is left out otherwise.

  \<^bold>\<open>Shared theories.\<close> \<open>Prelude\<close>: arrays and block moves, padding, the \<open>store\<close> locale of a keyed container,
  lemma collections. \<open>C_Library\<close>: conversions of \<^verbatim>\<open>sscanf\<close> and \<^verbatim>\<open>printf\<close> with their round trip, C division,
  the searches of \<^verbatim>\<open>string.h\<close>, lines of a file. \<open>Float32\<close>: single precision. \<open>Lock_Spec\<close>: the locale \<open>lock_sys\<close> of mutual exclusion. \<open>Reaping\<close>: waiting
  for children in a handler of \<^verbatim>\<open>SIGCHLD\<close>, and the locale \<open>reaper\<close> of such handlers. \<open>Alloc_Spec\<close>: the abstract
  allocation tracker, the locale \<open>alloc_tracker\<close>, and the calls of the common \<^verbatim>\<open>main\<close>.

  \<^bold>\<open>Sparse array\<close> (\<open>Sparse_Array\<close>, \<^verbatim>\<open>test_sparse_array.c\<close>). \<open>sparse_array\<close> is \<^verbatim>\<open>sparse_array_t\<close>, one definition per function.
  Shown: the bisection finds a key or its insertion point; \<open>sparse_array_set\<close> refines the update of a map,
  keeps the invariant and reports failed allocations, and it overflows exactly when a full array of
  two to the 30 cells or more has to be doubled; the random driver never fails. The operations
  interpret the locale \<open>store\<close>.

  \<^bold>\<open>Archive generator\<close> (\<^verbatim>\<open>gen_init_cpio.c\<close>). \<open>Cpio_Format\<close> has the temporary files, the \<^verbatim>\<open>push_*\<close> routines
  and \<^verbatim>\<open>cpio_trailer\<close>, with an encoder and a decoder of the archive format as the specification; \<open>Cpio_Line\<close> the
  makers and the line handlers; \<open>Cpio_Handlers\<close> and \<open>Cpio_File\<close> the contract of a line handler as the
  locale \<open>line_handler\<close>, interpreted on all handlers; \<open>Cpio_Main\<close> the workers, the tried lock around the
  standard output and \<^verbatim>\<open>main\<close>; \<open>Cpio_Threads\<close> the invariant; \<open>Cpio_Archive\<close> the end of a run; \<open>Cpio_Program\<close> the
  run as a whole; \<open>Cpio_Command\<close> \<^verbatim>\<open>main\<close> from its command line and the text of the list on. Shown: for
  every command line with a list, and every interleaving, the output of a run that finishes is an
  archive that decodes to the entries of every line, once and in order per thread; no run goes on for
  ever, and a run stops early only by the \<^verbatim>\<open>strlen\<close> of a line that another worker has freed, which one
  worker alone never meets and two can; the handlers append what their lines ask for; names fit their
  unchecked buffer; and what else goes wrong (crash on a missing argument, lost error codes). The decoder's fuel bounds the number of entries; the
  theorems hold for any fuel above that number. \<open>cpio_replace_env\<close> can fail to end; the theorem on it
  shows when it does end.

  \<^bold>\<open>Locks and semaphores.\<close> \<open>Xlock\<close> (\<^verbatim>\<open>xlock.c\<close>, \<^verbatim>\<open>xlock.h\<close>) is the futex lock, \<open>Xlock_Debug\<close> its build
  with \<^verbatim>\<open>LOCK_DEBUG\<close>; \<open>Semaphore\<close> (\<^verbatim>\<open>xsem.c\<close>, \<^verbatim>\<open>psem.c\<close> and their
  headers) both semaphores over any lock; \<open>Test_Xlock\<close>, \<open>Test_Sem\<close> and \<open>Int_Update\<close>
  (\<^verbatim>\<open>test_int_update.c\<close>) their clients. The lock, both
  semaphores with count one and the pthread mutex interpret \<open>lock_sys\<close>; the clients are proved from its
  laws. Shown: mutual exclusion, no lost wake-up, silent debug checks, at most count holders, no increment lost by the clients but those whose file could not be opened,
  that the shared counter program ends, and that it loses increments when built without its mutex.

  \<^bold>\<open>Large numbers\<close> (\<open>Bignum\<close>, \<^verbatim>\<open>test_large_mult.c\<close>): multiplication of digit arrays is multiplication, digits stay
  decimal, \<^verbatim>\<open>main\<close> computes 100!. \<^bold>\<open>Substring search\<close> (\<open>Strstr\<close>, \<^verbatim>\<open>my_strstr.c\<close>): the rolling-hash search agrees with
  \<^verbatim>\<open>strstr\<close> except at the end of the string; the overlap search ends, stays inside its arrays and is sound
  but incomplete. \<^bold>\<open>Bit array\<close> (\<open>Bitarray\<close>, \<^verbatim>\<open>test_bitarray.c\<close>): bits set are read back, the test passes, every
  proper shift leaves the array. \<^bold>\<open>Brackets\<close> (\<open>Brackets\<close>, \<^verbatim>\<open>test_brackets.c\<close>): all nested strings, each once.
  \<^bold>\<open>Hash table\<close> (\<open>Myhash\<close>, \<^verbatim>\<open>test_myhash.c\<close>): an insertion adds its pair while its slot has room or can be
  doubled; on a crowded table it reads memory nobody wrote, and without memory it never returns. \<^bold>\<open>Bisection\<close> (\<open>Bsearch\<close>, \<^verbatim>\<open>test_bsearch.c\<close>): what is found is there, but keys are missed.
  \<^bold>\<open>Square root\<close> (\<open>Mysqrt\<close>, \<^verbatim>\<open>test_mysqrt.c\<close>): near enough when it ends, and it does not end for 18.
  \<^bold>\<open>Masks\<close> (\<open>Mask\<close>, \<^verbatim>\<open>test_mask.c\<close>): right up to bit 30, empty for bit 31.
  \<^bold>\<open>Histogram\<close> (\<open>Hist\<close>, \<^verbatim>\<open>hist.c\<close>): a complete grid without a store outside it. \<^bold>\<open>Search tree\<close> (\<open>Gnu_Tsearch\<close>,
  \<^verbatim>\<open>gnu_tsearch.c\<close>): every value printed once, every pointer freed once, for any tree the library builds.

  \<^bold>\<open>Allocation trackers.\<close> \<open>Malloc_Stats\<close> (\<^verbatim>\<open>malloc_stats.c\<close>, over GLib tables as a parameter) and
  \<open>Malloc_Hsearch\<close> (\<^verbatim>\<open>malloc_stats_hcreate.c\<close>, over \<^verbatim>\<open>hsearch_r\<close>, and over \<^verbatim>\<open>tsearch\<close> as a
  search tree in the order of \<^verbatim>\<open>ad_compare\<close> that the library may reshape at will) refine \<open>Alloc_Spec\<close>; below, both programs
  print the same report. \<open>Malloc_Test\<close> (\<^verbatim>\<open>malloc_test.c\<close>) fills the memory: it ends on any allocator with a limit.

  \<^bold>\<open>System programs.\<close> \<open>Uevent\<close> (\<^verbatim>\<open>recv_nl_uevent.c\<close>): the values printed are those of the kernel's message.
  \<open>Cpu_Hogd\<close> (\<^verbatim>\<open>cpu_hogd.c\<close>, \<^verbatim>\<open>cpu_hogd_v0.c\<close>): the commands of the daemon, with the
  processors it could bind to and the children it could fork; \<open>Hog_Processes\<close>: the daemon with its
  children, alarms and handlers, seconds passing one by one: children end in time, exited ones are
  all waited for, the daemon comes back from its busy wait. \<open>Cpu_Tasks\<close> (\<^verbatim>\<open>rt_task.c\<close>, \<^verbatim>\<open>rt_hydra.c\<close>,
  \<^verbatim>\<open>run_cpu_affine.c\<close>, \<^verbatim>\<open>x86tscread.c\<close>, \<^verbatim>\<open>ts_task.c\<close>): processors, children, and the sleeps of the real-time task, whose
  two time objects can become one. \<open>Sched_Test\<close> (\<^verbatim>\<open>sched_test.c\<close>): a parent, its children and the alarm that
  ends them. \<open>Frw\<close> (\<^verbatim>\<open>frw.c\<close>) and \<open>Fs_Slammer\<close> (\<^verbatim>\<open>fs_slammer.c\<close>): what a round or a pass writes, counts
  and times; \<open>Slam_Threads\<close>: all threads of the latter with their cancellation, which is
  undefined for a detached thread that has ended. \<open>Cpu_Khz\<close> (\<^verbatim>\<open>cpukhz.c\<close>): a clock
  rate through two roundings to single precision. \<open>Arp_Add\<close> (\<^verbatim>\<open>arp_add.c\<close>): the request it sends. \<open>Producer\<close> (\<^verbatim>\<open>producer_test.c\<close>): a ring that is right while the producer stays ahead by less than a
  round and its \<^verbatim>\<open>int\<close> has not overflowed. \<open>Wakeup\<close> (\<^verbatim>\<open>wakeup_test.c\<close>): with all threads waiting in time and an alarm after the flag is
  set every fair run ends; it prints for ever when the alarm is lost, and can hang when threads come late;
  \<open>Wakeup_Fork\<close> (\<^verbatim>\<open>wakeup_test_fork.c\<close>): nobody is ever woken. \<open>Timers\<close> (\<^verbatim>\<open>timerfd_test.c\<close>,
  \<^verbatim>\<open>utils.c\<close>): the times printed. \<open>Pipes\<close> (\<^verbatim>\<open>pipe_writer.c\<close>, \<^verbatim>\<open>pipe_reader.c\<close>): whole pages, in order.
  \<open>Pci_Config\<close> (\<^verbatim>\<open>pci_config_rw.c\<close>): a register written is read back.

  \<^bold>\<open>Test programs.\<close> \<open>Udp_Echo\<close> (\<^verbatim>\<open>test_udp.c\<close>): client and echo server with the datagrams between them. A
  number is received only after it was sent, under any faults of the network, though the threads may
  print it before; without faults the
  two are an abstract client that counts; one loss stops it, and a copy goes unnoticed. \<open>Test_Fork\<close>
  (\<^verbatim>\<open>test_fork.c\<close>): the table of pages, the children with their copies and the counting handler; every run ends,
  within a bound on its steps, after all children were counted. \<open>Scandir\<close> (\<^verbatim>\<open>test_scandir.c\<close>): the newest regular
  file first, over any sorting with the law of \<^verbatim>\<open>qsort\<close>. \<open>Small_Tests\<close> (\<^verbatim>\<open>test_nanosleep.c\<close>, \<^verbatim>\<open>test_sigusr1.c\<close>,
  \<^verbatim>\<open>test_hash.c\<close>, \<^verbatim>\<open>test_termios.c\<close>): a store behind an array, a check that cannot succeed, a string hash, and a
  command that cannot be reached.

  \<^bold>\<open>Not modelled.\<close> \<^verbatim>\<open>xbarrier.c\<close> breaks off in the middle of its functions and does not compile; \<^verbatim>\<open>mycommon.h\<close>
  has two macros. In \<^verbatim>\<open>recv_nl_uevent.c\<close> the rest of \<^verbatim>\<open>process_uevent_buf\<close> is commented out. The other \<^verbatim>\<open>test_*.c\<close>
  files are sequences of kernel calls whose effect is in the kernel (mappings and limits, clones,
  capabilities, dumps) or print facts about the compiler and the library: there is no state of their
  own to model. Elsewhere signal handlers that only exit, usage messages, delays and closing of
  descriptors are left out of the models.
\<close>

section \<open>The two allocation trackers\<close>

text \<open>
  Property C9: the two allocation trackers are interchangeable: started with a number of iterations,
  for any random numbers and any pointers \<^verbatim>\<open>malloc\<close> may return, both programs run to their end and
  print the same rows in the same order. There is one row per string used, and it has the numbers of
  allocations, of frees and of pointers not freed under that string.
\<close>

theorem malloc_mains_agree:
  assumes "ghash_ok S" "ghash_ok T" "inj_on mem {..<n}" "n < 2 ^ 31"
  shows "\<exists>order. alloc_program (malloc_stats_main S T rnd mem) [prog, int_string (int n)] = Some (Inr (map (main_row rnd n) order)) \<and>
    alloc_program (malloc_hcreate_main (HTABLE_SZ + extra) shape rnd mem) [prog, int_string (int n)] =
      alloc_program (malloc_stats_main S T rnd mem) [prog, int_string (int n)] \<and>
    distinct order \<and> set order = main_string rnd ` {..<n}"
proof -
  let ?ops = "main_ops rnd mem n"
  let ?a = "a_run ?ops a_init"
  have few: "card (op_strings ?ops) \<le> HTABLE_SZ"
    using card_main_strings [of rnd n] by (simp add: op_strings_main HTABLE_SZ_def)
  note client = main_ops_client(1) [OF assms(3), of rnd]
  have "malloc_hcreate_main (HTABLE_SZ + extra) shape rnd mem n = Some (map (row_of ?a) (a_order ?a))"
    using hs.run_report [OF client few finite_op_strings, where extra = extra and shape = shape] by (auto simp: malloc_hcreate_main_def)
  moreover have "malloc_stats_main S T rnd mem n = Some (map (row_of ?a) (a_order ?a))"
    using alloc_tracker.run_report [OF malloc_stats_tracker [OF assms(1,2)] client order_refl finite_op_strings]
    by (auto simp: malloc_stats_main_def)
  ultimately show ?thesis using malloc_stats_main_rows [OF assms(1-3), of rnd] by (auto simp: alloc_program_int_string [OF assms(4)])
qed

theorem malloc_mains_agree_witness:
  "\<exists>order. alloc_program (malloc_stats_main map_table map_table (\<lambda>k. k) word_of_nat) [''a'', int_string (int 30)] =
      Some (Inr (map (main_row (\<lambda>k. k) 30) order)) \<and>
    alloc_program (malloc_hcreate_main (HTABLE_SZ + 7) (\<lambda>t xs. length xs div 2) (\<lambda>k. k) word_of_nat) [''a'', int_string (int 30)] =
      alloc_program (malloc_stats_main map_table map_table (\<lambda>k. k) word_of_nat) [''a'', int_string (int 30)] \<and>
    distinct order \<and> set order = main_string (\<lambda>k. k) ` {..<30}"
proof (rule malloc_mains_agree [OF ghash_ok_map_table ghash_ok_map_table])
  show "inj_on (word_of_nat :: nat \<Rightarrow> u64) {..<30}"
    by (auto simp: inj_on_def word_of_nat_eq_iff take_bit_nat_eq_self)
qed simp

end
